(* ===== verification/Prelude.thy ===== *)
theory Prelude
  imports Main "HOL-Library.Word" "HOL-Library.Monad_Syntax"
begin

unbundle bit_operations_syntax

text \<open>
  The generic part of the library: C's integer types and the conversions the code
  performs, faults as \<open>None\<close>, the collections the component theories add their facts to,
  and a few facts on lists, maps and words that several components share.

  A computation that may hit undefined behaviour (a read through a dangling or null
  pointer, a double free, a buffer overflow) or a failed \<open>assert\<close> returns \<open>None\<close>;
  every other outcome, the errors that the code reports included, is a value under
  \<open>Some\<close>.
\<close>

section \<open>Collections\<close>

named_theorems accessor_simps \<open>reading a component after an update of another one\<close>
named_theorems op_defs \<open>the definitions of the operations of a component\<close>
named_theorems inv_intros \<open>an operation keeps the invariant of its component\<close>

section \<open>C integers\<close>

type_synonym byte = "8 word"
type_synonym int32 = "32 word"
type_synonym ptr = nat

text \<open>\<open>limits.h\<close>, as a \<open>size_t\<close>.\<close>

definition INT_MAX :: nat where
  "INT_MAX = 2147483647"

definition NULL :: ptr where
  "NULL = 0"

text \<open>
  The conversion \<open>(int) len\<close> of a \<open>size_t\<close>: the low 32 bits, read as a two's complement
  number. A \<open>size_t\<close> itself is a \<open>nat\<close>: the code only takes minima of sizes and
  subtracts a smaller from a larger one.
\<close>

definition c_int :: "nat \<Rightarrow> int" where
  "c_int n = sint (word_of_nat n :: int32)"

lemma c_int_small: "n \<le> INT_MAX \<Longrightarrow> c_int n = int n"
  unfolding c_int_def INT_MAX_def
  by (simp add: signed_of_nat signed_take_bit_int_eq_self)

text \<open>Without a bound the conversion is not the identity: a size may even look negative.\<close>

lemma c_int_aliases: "c_int (2 ^ 32 - 1) = -1"
  by (simp add: c_int_def)

lemma INT_MAX_pos [simp]: "0 < INT_MAX"
  by (simp add: INT_MAX_def)

section \<open>Faults\<close>

text \<open>C's \<open>assert\<close>: the program goes on only if the condition holds.\<close>

definition c_assert :: "bool \<Rightarrow> unit option" where
  "c_assert b = (if b then Some () else None)"

lemma c_assert_Some [simp]: "c_assert b = Some u \<longleftrightarrow> b"
  by (simp add: c_assert_def)

lemma c_assert_True [simp]: "c_assert True = Some ()"
  by (simp add: c_assert_def)

section \<open>Lists, maps and words\<close>

lemma dom_restrict_minus [simp]: "dom (m |` (- A)) = dom m - A"
  by auto

lemma map_cong_on:
  "(\<And>x. x \<in> set xs \<Longrightarrow> f x = g x) \<Longrightarrow> map f xs = map g xs"
  by simp

end
