(* ===== verification/Machine.thy ===== *)
theory Machine
  imports Prelude
begin

text \<open>
  What the C code uses of its surroundings.

  The C library: \<open>malloc\<close>, \<open>memcpy\<close> and \<open>free\<close> over blocks of bytes. An address is
  never handed out twice, so that a use after free or a double free can only be a
  fault; whether an allocation fails is the choice of the environment (\<open>oom\<close>), as are the
  bytes of a fresh block (\<open>junk\<close>).

  libuv, Bare, the JavaScript engine and the host's callbacks are not part of the
  program. The model records which of their functions the code calls, in order, in
  \<open>calls\<close>, and takes their return codes from the environment (\<open>ret\<close>).
  What the code achieves by a call (a wakeup, mutual exclusion) is stated over this
  record.
\<close>

section \<open>Calls to code outside the program\<close>

datatype lock_id =
    Queue_lock \<comment> \<open>\<open>queue->lock\<close>\<close>
  | Ipc_lock \<comment> \<open>\<open>ipc->lock\<close>\<close>
  | Running_mutex \<comment> \<open>\<open>signal->running\<close>\<close>
  | State_lock \<comment> \<open>\<open>state->lock\<close> of a worklet\<close>
  | Process_lock \<comment> \<open>\<open>bare_worklet__running_lock\<close>\<close>

datatype async_id =
    Queue_async \<comment> \<open>\<open>queue->async\<close>\<close>
  | Wake_async \<comment> \<open>\<open>signal->wake\<close>\<close>
  | Close_async \<comment> \<open>\<open>signal->close\<close>\<close>
  | Shutdown_async \<comment> \<open>\<open>bare_worklet__platform_shutdown\<close>\<close>

datatype barrier_id =
    Ready_barrier \<comment> \<open>\<open>worklet->ready\<close>\<close>
  | Platform_barrier \<comment> \<open>\<open>bare_worklet__platform_ready\<close>\<close>

text \<open>
  The values that the code hands to JavaScript or takes from it. An external array buffer
  is a block of the C heap.
\<close>

datatype js_value_t =
    Js_undefined
  | Js_null
  | Js_int32 int
  | Js_string string
  | Js_arraybuffer "byte list"
  | Js_external_arraybuffer ptr nat
  | Js_typedarray "byte list"
  | Js_object
  | Js_function string

datatype js_call =
    Js_create_platform bool \<comment> \<open>with \<open>optimize_for_memory\<close>\<close>
  | Js_destroy_platform
  | Js_open_handle_scope
  | Js_close_handle_scope
  | Js_get_named_property string
  | Js_set_named_property string
  | Js_create_object
  | Js_create_function string
  | Js_call_function string "js_value_t list"
  | Js_create_reference
  | Js_delete_reference
  | Js_get_reference_value
  | Js_get_global
  | Js_get_callback_info
  | Js_get_typedarray_info
  | Js_get_value_string
  | Js_add_finalizer
  | Js_create_value js_value_t

datatype bare_event = Suspend_event | Wakeup_event | Idle_event | Resume_event

datatype bare_call =
    Bare_setup nat \<comment> \<open>with \<open>memory_limit\<close>\<close>
  | Bare_on bare_event
  | Bare_load
  | Bare_run
  | Bare_teardown
  | Bare_suspend int
  | Bare_resume
  | Bare_wakeup int
  | Bare_terminate
  | Bare_context_set string

datatype process_call =
    Ignore_sigpipe
  | Set_rlimit
  | Setenv_threadpool string
  | Setup_args
  | Dladdr
  | Dlopen string
  | Dlclose

datatype call =
    Mutex_init lock_id
  | Mutex_lock lock_id
  | Mutex_unlock lock_id
  | Mutex_destroy lock_id
  | Async_init async_id
  | Async_send async_id
  | Async_close async_id
  | Async_ref async_id
  | Async_unref async_id
  | Callback ptr ptr \<comment> \<open>a host or worklet callback and the data it is given\<close>
  | Callback_with ptr int ptr \<comment> \<open>a lifecycle callback, its argument and its data\<close>
  | Loop_init
  | Loop_run
  | Loop_close
  | Thread_create
  | Thread_detach
  | Thread_join
  | Thread_enter \<comment> \<open>\<open>bare_kit__on_thread_enter\<close>\<close>
  | Thread_exit \<comment> \<open>\<open>bare_kit__on_thread_exit\<close>\<close>
  | Sem_init
  | Sem_post
  | Sem_wait
  | Sem_destroy
  | Barrier_init barrier_id
  | Barrier_wait barrier_id
  | Barrier_destroy barrier_id
  | Cond_init
  | Cond_signal
  | Cond_wait
  | Process process_call
  | Bare bare_call
  | Js js_call
  | Begin_task nat \<comment> \<open>iOS: \<open>beginBackgroundTaskWithName\<close>\<close>
  | End_task nat \<comment> \<open>iOS: \<open>endBackgroundTask\<close>\<close>

section \<open>The state\<close>

record machine =
  blocks :: "ptr \<rightharpoonup> byte list"
  brk :: ptr
  oom :: "ptr \<Rightarrow> bool"
  junk :: "ptr \<Rightarrow> nat \<Rightarrow> byte"
  calls :: "call list"
  ret :: "call \<Rightarrow> int"

text \<open>The live blocks lie below \<open>brk\<close>, and \<open>NULL\<close> is no block.\<close>

definition heap_ok :: "'z machine_scheme \<Rightarrow> bool" where
  "heap_ok w \<longleftrightarrow> 0 < brk w \<and> (\<forall>p \<in> dom (blocks w). 0 < p \<and> p < brk w)"

section \<open>The C library\<close>

definition malloc :: "nat \<Rightarrow> 'z machine_scheme \<Rightarrow> ptr \<times> 'z machine_scheme" where
  "malloc n w =
     (let p = brk w; w' = w\<lparr>brk := Suc p\<rparr>
      in if oom w p then (NULL, w')
         else (p, w'\<lparr>blocks := (blocks w)(p \<mapsto> map (junk w p) [0..<n])\<rparr>))"

text \<open>The address of a fresh struct, or \<open>NULL\<close>. The struct itself is a field of the state.\<close>

definition malloc_struct :: "'z machine_scheme \<Rightarrow> ptr \<times> 'z machine_scheme" where
  "malloc_struct w = (if oom w (brk w) then NULL else brk w, w\<lparr>brk := Suc (brk w)\<rparr>)"

text \<open>Copying to a pointer that is no block, or past the end of one, is a fault.\<close>

definition memcpy :: "ptr \<Rightarrow> byte list \<Rightarrow> 'z machine_scheme \<Rightarrow> 'z machine_scheme option" where
  "memcpy p src w =
     (case blocks w p of
        None \<Rightarrow> None
      | Some b \<Rightarrow>
          if length src \<le> length b
          then Some (w\<lparr>blocks := (blocks w)(p \<mapsto> src @ drop (length src) b)\<rparr>)
          else None)"

text \<open>\<open>free(NULL)\<close> does nothing; freeing what is not a block is a fault.\<close>

definition free_block :: "ptr \<Rightarrow> 'z machine_scheme \<Rightarrow> 'z machine_scheme option" where
  "free_block p w =
     (if p = NULL then Some w
      else if blocks w p = None then None
      else Some (w\<lparr>blocks := (blocks w)(p := None)\<rparr>))"

text \<open>Reading \<open>n\<close> bytes from an offset of a block.\<close>

definition read_block :: "ptr \<Rightarrow> nat \<Rightarrow> nat \<Rightarrow> 'z machine_scheme \<Rightarrow> byte list option" where
  "read_block p offset n w =
     (case blocks w p of
        None \<Rightarrow> None
      | Some b \<Rightarrow> if offset + n \<le> length b then Some (take n (drop offset b)) else None)"

section \<open>Calling out\<close>

definition emit :: "call \<Rightarrow> 'z machine_scheme \<Rightarrow> 'z machine_scheme" where
  "emit c w = w\<lparr>calls := calls w @ [c]\<rparr>"

text \<open>A call whose return code is asserted to be 0.\<close>

definition emit_ok :: "call \<Rightarrow> 'z machine_scheme \<Rightarrow> 'z machine_scheme option" where
  "emit_ok c w = (if ret w c = 0 then Some (emit c w) else None)"

section \<open>Facts\<close>

lemma emit_simps [simp]:
  "blocks (emit c w) = blocks w" "brk (emit c w) = brk w" "oom (emit c w) = oom w"
  "junk (emit c w) = junk w" "ret (emit c w) = ret w" "calls (emit c w) = calls w @ [c]"
  by (simp_all add: emit_def)

lemma emit_more [simp]: "machine.more (emit c w) = machine.more w"
  by (simp add: emit_def)

lemma heap_ok_emit [simp]: "heap_ok (emit c w) = heap_ok w"
  by (simp add: heap_ok_def)

lemma heap_ok_fresh: "heap_ok w \<Longrightarrow> blocks w (brk w) = None"
  by (auto simp: heap_ok_def)

text \<open>A failed allocation, and what copying through a null pointer comes to.\<close>

lemma malloc_oom: "oom w (brk w) \<Longrightarrow> malloc n w = (NULL, w\<lparr>brk := Suc (brk w)\<rparr>)"
  by (simp add: malloc_def Let_def)

lemma memcpy_NULL: "heap_ok w \<Longrightarrow> memcpy NULL src w = None"
  by (auto simp: memcpy_def heap_ok_def NULL_def split: option.splits)

lemma free_block_live:
  "blocks w p = Some b \<Longrightarrow> heap_ok w \<Longrightarrow>
     free_block p w = Some (w\<lparr>blocks := (blocks w)(p := None)\<rparr>)"
  by (auto simp: free_block_def NULL_def heap_ok_def)

lemma heap_ok_alloc:
  "heap_ok w \<Longrightarrow> heap_ok (w\<lparr>brk := Suc (brk w), blocks := (blocks w)(brk w \<mapsto> b)\<rparr>)"
  by (auto simp: heap_ok_def less_Suc_eq)

lemma heap_ok_free: "heap_ok w \<Longrightarrow> heap_ok (w\<lparr>blocks := (blocks w)(p := None)\<rparr>)"
  by (auto simp: heap_ok_def)

end
