(* ===== verification/Ring.thy ===== *)
theory Ring
  imports Machine
begin

text \<open>
  The bounded ring of one direction (\<open>src/queue.h\<close>, \<open>src/queue.c\<close>): 1024 slots, an index
  where the producer pushes and one where the consumer shifts, both 32-bit integers that
  wrap by masking with the capacity minus one. One slot always stays free, so the ring
  holds at most 1023 messages.

  \<open>bounded_fifo\<close> is the contract that the queue relies on: the ring is a bounded list
  that is appended to at one end and taken from at the other.
\<close>

section \<open>The interface\<close>

locale bounded_fifo =
  fixes invar :: "'r \<Rightarrow> bool"
    and contents :: "'r \<Rightarrow> 'm list"
    and empty :: "'r \<Rightarrow> bool"
    and full :: "'r \<Rightarrow> bool"
    and push :: "'r \<Rightarrow> 'm \<Rightarrow> bool \<times> 'r"
    and shift :: "'r \<Rightarrow> 'm option \<times> 'r"
    and cap :: nat
  assumes cap_pos: "0 < cap"
    and contents_le: "invar r \<Longrightarrow> length (contents r) \<le> cap"
    and empty_iff: "invar r \<Longrightarrow> empty r \<longleftrightarrow> contents r = []"
    and full_iff: "invar r \<Longrightarrow> full r \<longleftrightarrow> length (contents r) = cap"
    and push_full: "full r \<Longrightarrow> push r m = (False, r)"
    and push_ok: "invar r \<Longrightarrow> \<not> full r \<Longrightarrow>
      \<exists>r'. push r m = (True, r') \<and> invar r' \<and> contents r' = contents r @ [m]"
    and shift_empty: "empty r \<Longrightarrow> shift r = (None, r)"
    and shift_ok: "invar r \<Longrightarrow> \<not> empty r \<Longrightarrow>
      \<exists>r'. shift r = (Some (hd (contents r)), r') \<and> invar r' \<and> contents r' = tl (contents r)"
begin

lemma push_True:
  assumes "invar r" and "push r m = (True, r')"
  shows "\<not> full r \<and> invar r' \<and> contents r' = contents r @ [m]"
  using assms push_full [of r m] push_ok [of r m] by (cases "full r") auto

lemma push_False:
  assumes "invar r" and "push r m = (False, r')"
  shows "full r \<and> r' = r"
  using assms push_full [of r m] push_ok [of r m] by (cases "full r") auto

lemma push_iff: "invar r \<Longrightarrow> fst (push r m) \<longleftrightarrow> length (contents r) < cap"
  using push_full [of r m] push_ok [of r m] full_iff [of r] contents_le [of r]
  by (cases "full r") auto

lemma shift_Some:
  assumes "invar r" and "shift r = (Some m, r')"
  shows "\<not> empty r \<and> invar r' \<and> contents r = m # contents r'"
  using assms shift_empty [of r] shift_ok [of r] empty_iff [of r] by (cases "empty r") auto

lemma shift_None:
  assumes "invar r" and "shift r = (None, r')"
  shows "contents r = [] \<and> r' = r"
  using assms shift_empty [of r] shift_ok [of r] empty_iff [of r] by (cases "empty r") auto

lemma shift_Nil: "invar r \<Longrightarrow> contents r = [] \<Longrightarrow> shift r = (None, r)"
  using shift_empty [of r] empty_iff [of r] by auto

lemma shift_Cons:
  assumes "invar r" and "contents r = m # ms"
  shows "\<exists>r'. shift r = (Some m, r') \<and> invar r' \<and> contents r' = ms"
  using assms shift_ok [of r] empty_iff [of r] by auto

end

text \<open>
  A history of pushes and shifts, with the messages that were accepted and those that
  were taken out, in order.
\<close>

datatype 'm fifo_op = Push 'm | Shift

fun fifo_run :: "('r \<Rightarrow> 'm \<Rightarrow> bool \<times> 'r) \<Rightarrow> ('r \<Rightarrow> 'm option \<times> 'r) \<Rightarrow> 'm fifo_op list \<Rightarrow> 'r
    \<Rightarrow> 'm list \<times> 'm list \<times> 'r" where
  "fifo_run push shift [] r = ([], [], r)"
| "fifo_run push shift (Push m # ops) r =
     (let (ok, r1) = push r m; (acc, out, r2) = fifo_run push shift ops r1
      in (if ok then m # acc else acc, out, r2))"
| "fifo_run push shift (Shift # ops) r =
     (let (got, r1) = shift r; (acc, out, r2) = fifo_run push shift ops r1
      in (acc, (case got of None \<Rightarrow> out | Some m \<Rightarrow> m # out), r2))"

context bounded_fifo
begin

lemma run_conserves:
  assumes "invar r" and "fifo_run push shift ops r = (acc, out, r')"
  shows "invar r' \<and> contents r @ acc = out @ contents r'"
  using assms
proof (induction ops arbitrary: r acc out)
  case Nil
  then show ?case by simp
next
  case (Cons op ops)
  show ?case
  proof (cases op)
    case (Push m)
    obtain ok r1 where p: "push r m = (ok, r1)" by (cases "push r m")
    then show ?thesis
      using Cons.prems Cons.IH [of r1] push_True [of r m r1] push_False [of r m r1]
      by (cases ok) (auto simp: Push split: prod.splits)
  next
    case Shift
    obtain got r1 where p: "shift r = (got, r1)" by (cases "shift r")
    then show ?thesis
      using Cons.prems Cons.IH [of r1] shift_None [of r r1] shift_Some [of r _ r1]
      by (cases got) (auto simp: Shift split: prod.splits)
  qed
qed

end

section \<open>The ring of queue.c\<close>

definition BARE_QUEUE_CAPACITY :: nat where
  "BARE_QUEUE_CAPACITY = 1024"

definition BARE_QUEUE_MASK :: int32 where
  "BARE_QUEUE_MASK = word_of_nat BARE_QUEUE_CAPACITY - 1"

record bare_queue_message_t =
  base :: ptr
  len :: nat

record bare_queue_ring_t =
  slots :: "bare_queue_message_t list"
  head :: int32 \<comment> \<open>producer pushes here\<close>
  tail :: int32 \<comment> \<open>consumer shifts from here\<close>

definition bare_queue__ring_empty :: "bare_queue_ring_t \<Rightarrow> bool" where
  "bare_queue__ring_empty ring \<longleftrightarrow> head ring = tail ring"

definition bare_queue__ring_full :: "bare_queue_ring_t \<Rightarrow> bool" where
  "bare_queue__ring_full ring \<longleftrightarrow> (head ring + 1) AND BARE_QUEUE_MASK = tail ring"

definition bare_queue__ring_push ::
  "bare_queue_ring_t \<Rightarrow> bare_queue_message_t \<Rightarrow> bool \<times> bare_queue_ring_t" where
  "bare_queue__ring_push ring message =
     (if bare_queue__ring_full ring then (False, ring)
      else (True, ring\<lparr>slots := (slots ring)[unat (head ring) := message],
                       head := (head ring + 1) AND BARE_QUEUE_MASK\<rparr>))"

text \<open>\<open>None\<close> is the result \<open>false\<close>, which leaves \<open>*message\<close> unwritten.\<close>

definition bare_queue__ring_shift ::
  "bare_queue_ring_t \<Rightarrow> bare_queue_message_t option \<times> bare_queue_ring_t" where
  "bare_queue__ring_shift ring =
     (if bare_queue__ring_empty ring then (None, ring)
      else (Some (slots ring ! unat (tail ring)),
            ring\<lparr>tail := (tail ring + 1) AND BARE_QUEUE_MASK\<rparr>))"

section \<open>The abstraction\<close>

text \<open>Both indices stay inside the array, whatever is done to the ring.\<close>

definition ring_ok :: "bare_queue_ring_t \<Rightarrow> bool" where
  "ring_ok ring \<longleftrightarrow> length (slots ring) = BARE_QUEUE_CAPACITY
     \<and> unat (head ring) < BARE_QUEUE_CAPACITY \<and> unat (tail ring) < BARE_QUEUE_CAPACITY"

definition ring_count :: "bare_queue_ring_t \<Rightarrow> nat" where
  "ring_count ring =
     (unat (head ring) + BARE_QUEUE_CAPACITY - unat (tail ring)) mod BARE_QUEUE_CAPACITY"

definition ring_messages :: "bare_queue_ring_t \<Rightarrow> bare_queue_message_t list" where
  "ring_messages ring =
     map (\<lambda>i. slots ring ! ((unat (tail ring) + i) mod BARE_QUEUE_CAPACITY)) [0..<ring_count ring]"

lemma length_ring_messages [simp]: "length (ring_messages ring) = ring_count ring"
  by (simp add: ring_messages_def)

text \<open>Masking with the capacity minus one is reduction modulo the capacity.\<close>

lemma mask_eq: "BARE_QUEUE_MASK = mask 10"
  by (simp add: BARE_QUEUE_MASK_def BARE_QUEUE_CAPACITY_def mask_eq_exp_minus_1)

lemma unat_and_mask: "unat (w AND BARE_QUEUE_MASK) = unat w mod BARE_QUEUE_CAPACITY"
proof -
  have "unat (w AND BARE_QUEUE_MASK) = take_bit 10 (unat w)"
    by (simp only: mask_eq take_bit_eq_mask [symmetric] unsigned_take_bit_eq)
  then show ?thesis by (simp add: take_bit_eq_mod BARE_QUEUE_CAPACITY_def)
qed

lemma unat_next:
  assumes "unat w < BARE_QUEUE_CAPACITY"
  shows "unat ((w + 1) AND BARE_QUEUE_MASK) = (unat w + 1) mod BARE_QUEUE_CAPACITY"
proof -
  have "unat (w + 1) = unat w + 1"
    using assms by (simp add: BARE_QUEUE_CAPACITY_def unat_word_ariths)
  then show ?thesis by (simp add: unat_and_mask)
qed

text \<open>Arithmetic on two positions of a circular array.\<close>

lemma circular_next:
  fixes h t n :: nat
  assumes "h < n" and "t < n"
  shows "((h + 1) mod n + n - t) mod n = ((h + n - t) mod n + 1) mod n"
proof -
  have "((h + 1) mod n + n - t) mod n = ((h + 1) mod n + (n - t)) mod n"
    using assms by simp
  also have "\<dots> = (h + 1 + (n - t)) mod n"
    by (simp add: mod_add_left_eq)
  also have "\<dots> = ((h + n - t) + 1) mod n"
    using assms by (simp add: algebra_simps)
  finally show ?thesis by (simp add: mod_Suc_eq)
qed

lemma circular_count_zero:
  fixes h t n :: nat
  assumes "h < n" and "t < n"
  shows "(h + n - t) mod n = 0 \<longleftrightarrow> h = t"
proof (cases "t \<le> h")
  case True
  then have "(h + n - t) mod n = (n + (h - t)) mod n" by (simp add: add.commute)
  also have "\<dots> = h - t"
    using assms(1) by (simp only: mod_add_self1) simp
  finally show ?thesis using True by simp
next
  case False
  then show ?thesis using assms by simp
qed

lemma circular_head:
  fixes h t n :: nat
  assumes "h < n" and "t < n"
  shows "(t + (h + n - t) mod n) mod n = h"
  using assms by (simp add: mod_add_right_eq)

lemma circular_inj:
  fixes i k t n :: nat
  assumes "i < k" and "k < n"
  shows "(t + i) mod n \<noteq> (t + k) mod n"
proof
  assume "(t + i) mod n = (t + k) mod n"
  then have "n dvd (t + k) - (t + i)"
    using assms mod_eq_dvd_iff_nat [of "t + i" "t + k" n] by simp
  then have "n dvd k - i" by simp
  then show False using assms by (auto dest: dvd_imp_le)
qed

lemma circular_prev:
  fixes h t n :: nat
  assumes "h < n" and "t < n" and "0 < (h + n - t) mod n"
  shows "(h + n - (t + 1) mod n) mod n = (h + n - t) mod n - 1"
proof -
  let ?c = "(h + n - t) mod n" and ?c' = "(h + n - (t + 1) mod n) mod n"
  have t': "(t + 1) mod n < n" using assms(1) by (cases n) auto
  have "(t + 1 + (?c - 1)) mod n = h"
    using assms(3) circular_head [OF assms(1,2)] by simp
  then have "((t + 1) mod n + (?c - 1)) mod n = ((t + 1) mod n + ?c') mod n"
    using circular_head [OF assms(1) t'] by (simp add: mod_add_left_eq)
  moreover have "?c - 1 < n" "?c' < n"
    using assms(1) by (auto intro: less_imp_diff_less mod_less_divisor)
  ultimately show ?thesis
    using circular_inj [of "?c - 1" ?c' n "(t + 1) mod n"]
      circular_inj [of ?c' "?c - 1" n "(t + 1) mod n"]
    by (metis linorder_neqE_nat)
qed

section \<open>The ring implements the interface\<close>

lemmas capacity = BARE_QUEUE_CAPACITY_def

lemma ring_count_less: "ring_count r < BARE_QUEUE_CAPACITY"
  by (simp add: ring_count_def capacity)

lemma ring_empty_iff: "ring_ok r \<Longrightarrow> bare_queue__ring_empty r \<longleftrightarrow> ring_count r = 0"
  unfolding ring_ok_def ring_count_def bare_queue__ring_empty_def
  by (subst circular_count_zero) (auto simp: word_unat_eq_iff)

lemma ring_full_iff: "ring_ok r \<Longrightarrow> bare_queue__ring_full r \<longleftrightarrow> Suc (ring_count r) = BARE_QUEUE_CAPACITY"
proof -
  assume ok: "ring_ok r"
  let ?n = BARE_QUEUE_CAPACITY and ?h = "unat (head r)" and ?t = "unat (tail r)"
  from ok have b: "?h < ?n" "?t < ?n" by (auto simp: ring_ok_def)
  have "bare_queue__ring_full r \<longleftrightarrow> (?h + 1) mod ?n = ?t"
    using b by (simp only: bare_queue__ring_full_def word_unat_eq_iff unat_next)
  also have "\<dots> \<longleftrightarrow> ((?h + 1) mod ?n + ?n - ?t) mod ?n = 0"
    using b by (subst circular_count_zero) (auto simp: capacity)
  also have "\<dots> \<longleftrightarrow> Suc (ring_count r) mod ?n = 0"
    using b by (subst circular_next) (auto simp: ring_count_def)
  also have "\<dots> \<longleftrightarrow> Suc (ring_count r) = ?n"
    using ring_count_less [of r] by (auto simp: mod_Suc)
  finally show ?thesis .
qed

lemma ring_push_messages:
  assumes ok: "ring_ok r" and nf: "\<not> bare_queue__ring_full r"
  shows "ring_ok (snd (bare_queue__ring_push r m))"
    and "ring_messages (snd (bare_queue__ring_push r m)) = ring_messages r @ [m]"
proof -
  let ?n = BARE_QUEUE_CAPACITY and ?h = "unat (head r)" and ?t = "unat (tail r)"
  let ?r = "snd (bare_queue__ring_push r m)"
  from ok have b: "?h < ?n" "?t < ?n" and l: "length (slots r) = ?n"
    by (auto simp: ring_ok_def)
  have r: "?r = r\<lparr>slots := (slots r)[?h := m], head := (head r + 1) AND BARE_QUEUE_MASK\<rparr>"
    using nf by (simp add: bare_queue__ring_push_def)
  show "ring_ok ?r"
    using b l by (simp add: ring_ok_def r unat_next capacity)
  have "ring_count ?r = Suc (ring_count r) mod ?n"
    using b by (simp add: ring_count_def r unat_next circular_next [simplified])
  moreover have "Suc (ring_count r) < ?n"
    using nf ring_full_iff [OF ok] ring_count_less [of r] by linarith
  ultimately have cnt: "ring_count ?r = Suc (ring_count r)" by simp
  have hd: "(?t + ring_count r) mod ?n = ?h"
    using b by (simp add: ring_count_def circular_head)
  have "slots ?r ! ((?t + i) mod ?n) = slots r ! ((?t + i) mod ?n)" if "i < ring_count r" for i
    using circular_inj [OF that ring_count_less, of ?t] hd by (simp add: r)
  moreover have "slots ?r ! ?h = m" using b l by (simp add: r)
  ultimately show "ring_messages ?r = ring_messages r @ [m]"
    using hd by (simp add: ring_messages_def cnt) (simp add: r)
qed

lemma ring_shift_messages:
  assumes ok: "ring_ok r" and ne: "\<not> bare_queue__ring_empty r"
  shows "ring_ok (snd (bare_queue__ring_shift r))"
    and "fst (bare_queue__ring_shift r) = Some (hd (ring_messages r))"
    and "ring_messages (snd (bare_queue__ring_shift r)) = tl (ring_messages r)"
proof -
  let ?n = BARE_QUEUE_CAPACITY and ?h = "unat (head r)" and ?t = "unat (tail r)"
  let ?r = "snd (bare_queue__ring_shift r)"
  from ok have b: "?h < ?n" "?t < ?n" and l: "length (slots r) = ?n"
    by (auto simp: ring_ok_def)
  have r: "?r = r\<lparr>tail := (tail r + 1) AND BARE_QUEUE_MASK\<rparr>"
    using ne by (simp add: bare_queue__ring_shift_def)
  show "ring_ok ?r"
    using b l by (simp add: ring_ok_def r unat_next capacity)
  have pos: "0 < ring_count r" using ne ring_empty_iff [OF ok] by simp
  then have up: "[0..<ring_count r] = 0 # map Suc [0..<ring_count r - 1]"
    by (simp add: map_Suc_upt upt_conv_Cons)
  show "fst (bare_queue__ring_shift r) = Some (hd (ring_messages r))"
    using ne b by (simp add: bare_queue__ring_shift_def ring_messages_def up)
  have cnt: "ring_count ?r = ring_count r - 1"
    using b pos by (simp add: ring_count_def r unat_next circular_prev [simplified])
  show "ring_messages ?r = tl (ring_messages r)"
    using b by (simp add: ring_messages_def cnt up) (simp add: r unat_next mod_add_left_eq)
qed

interpretation ring: bounded_fifo ring_ok ring_messages bare_queue__ring_empty
    bare_queue__ring_full bare_queue__ring_push bare_queue__ring_shift
    "BARE_QUEUE_CAPACITY - 1"
proof unfold_locales
  show "0 < BARE_QUEUE_CAPACITY - 1" by (simp add: capacity)
next
  fix r :: bare_queue_ring_t
  show "length (ring_messages r) \<le> BARE_QUEUE_CAPACITY - 1"
    using ring_count_less [of r] by simp
next
  fix r :: bare_queue_ring_t
  assume "ring_ok r"
  then show "bare_queue__ring_empty r \<longleftrightarrow> ring_messages r = []"
    and "bare_queue__ring_full r \<longleftrightarrow> length (ring_messages r) = BARE_QUEUE_CAPACITY - 1"
    using ring_empty_iff ring_full_iff by (auto simp: ring_messages_def capacity)
next
  fix r :: bare_queue_ring_t and m
  assume "bare_queue__ring_full r"
  then show "bare_queue__ring_push r m = (False, r)"
    by (simp add: bare_queue__ring_push_def)
next
  fix r :: bare_queue_ring_t and m
  assume "ring_ok r" "\<not> bare_queue__ring_full r"
  moreover have "fst (bare_queue__ring_push r m)"
    using calculation by (simp add: bare_queue__ring_push_def)
  ultimately show "\<exists>r'. bare_queue__ring_push r m = (True, r') \<and> ring_ok r'
      \<and> ring_messages r' = ring_messages r @ [m]"
    using ring_push_messages [of r m] by (cases "bare_queue__ring_push r m") auto
next
  fix r :: bare_queue_ring_t
  assume "bare_queue__ring_empty r"
  then show "bare_queue__ring_shift r = (None, r)"
    by (simp add: bare_queue__ring_shift_def)
next
  fix r :: bare_queue_ring_t
  assume "ring_ok r" "\<not> bare_queue__ring_empty r"
  then show "\<exists>r'. bare_queue__ring_shift r = (Some (hd (ring_messages r)), r') \<and> ring_ok r'
      \<and> ring_messages r' = tl (ring_messages r)"
    using ring_shift_messages [of r] by (cases "bare_queue__ring_shift r") auto
qed

end
