(* ===== verification/Queue.thy ===== *)
theory Queue
  imports Ring
begin

text \<open>
  The message queue between the worklet and the host (\<open>src/queue.h\<close>, \<open>src/queue.c\<close>): two
  rings of owned messages, one state per end and a flag for the worklet's share.

  A world holds the one queue of a worklet: \<open>None\<close> is a queue that was not created or has
  been freed, so every operation on it is a fault. Both ports live inside the queue, and
  a port pointer says which one it points to. Each operation takes the lock once; the
  calls it makes are recorded in \<open>calls\<close>.
\<close>

section \<open>Data\<close>

datatype bare_queue_state_t =
    bare_queue_state_idle
  | bare_queue_state_open
  | bare_queue_state_ended
  | bare_queue_state_closed

text \<open>The values that C gives the enumeration, and the order they put on it.\<close>

primrec enum_value :: "bare_queue_state_t \<Rightarrow> nat" where
  "enum_value bare_queue_state_idle = 0"
| "enum_value bare_queue_state_open = 1"
| "enum_value bare_queue_state_ended = 2"
| "enum_value bare_queue_state_closed = 3"

lemma enum_value_inject [simp]: "enum_value s = enum_value t \<longleftrightarrow> s = t"
  by (cases s; cases t) simp_all

instantiation bare_queue_state_t :: linorder
begin

definition less_eq_bare_queue_state_t :: "bare_queue_state_t \<Rightarrow> bare_queue_state_t \<Rightarrow> bool" where
  "less_eq_bare_queue_state_t s t \<longleftrightarrow> enum_value s \<le> enum_value t"

definition less_bare_queue_state_t :: "bare_queue_state_t \<Rightarrow> bare_queue_state_t \<Rightarrow> bool" where
  "less_bare_queue_state_t s t \<longleftrightarrow> enum_value s < enum_value t"

instance
  by standard (auto simp: less_eq_bare_queue_state_t_def less_bare_queue_state_t_def)

end

lemmas state_order = less_eq_bare_queue_state_t_def less_bare_queue_state_t_def

definition bare_queue_ok :: int where
  "bare_queue_ok = 0"

definition bare_queue_would_block :: int where
  "bare_queue_would_block = -1"

definition bare_queue_closed :: int where
  "bare_queue_closed = -2"

lemmas queue_codes = bare_queue_ok_def bare_queue_would_block_def bare_queue_closed_def

record bare_queue_port_t =
  is_uv :: bool
  port_data :: ptr

record bare_queue_t =
  to_uv :: bare_queue_ring_t \<comment> \<open>host to worklet\<close>
  to_thread :: bare_queue_ring_t \<comment> \<open>worklet to host\<close>
  uv_state :: bare_queue_state_t
  thread_state :: bare_queue_state_t
  destroyed :: bool
  on_signal_thread :: ptr
  on_recv_uv :: ptr
  uv_port :: bare_queue_port_t
  thread_port :: bare_queue_port_t

datatype port_ptr = Uv_port | Thread_port

definition port_at :: "bare_queue_t \<Rightarrow> port_ptr \<Rightarrow> bare_queue_port_t" where
  "port_at q port = (case port of Uv_port \<Rightarrow> uv_port q | Thread_port \<Rightarrow> thread_port q)"

record qworld = machine +
  queue :: "bare_queue_t option"

section \<open>Accessors\<close>

definition bare_queue__inbox :: "bare_queue_t \<Rightarrow> port_ptr \<Rightarrow> bare_queue_ring_t" where
  "bare_queue__inbox q port = (if is_uv (port_at q port) then to_uv q else to_thread q)"

definition bare_queue__outbox :: "bare_queue_t \<Rightarrow> port_ptr \<Rightarrow> bare_queue_ring_t" where
  "bare_queue__outbox q port = (if is_uv (port_at q port) then to_thread q else to_uv q)"

definition bare_queue__state :: "bare_queue_t \<Rightarrow> port_ptr \<Rightarrow> bare_queue_state_t" where
  "bare_queue__state q port = (if is_uv (port_at q port) then uv_state q else thread_state q)"

definition bare_queue__peer_state :: "bare_queue_t \<Rightarrow> port_ptr \<Rightarrow> bare_queue_state_t" where
  "bare_queue__peer_state q port = (if is_uv (port_at q port) then thread_state q else uv_state q)"

text \<open>The stores through the pointers that \<open>inbox\<close>, \<open>outbox\<close> and \<open>state\<close> return.\<close>

definition store_inbox :: "bare_queue_t \<Rightarrow> port_ptr \<Rightarrow> bare_queue_ring_t \<Rightarrow> bare_queue_t" where
  "store_inbox q port r =
     (if is_uv (port_at q port) then q\<lparr>to_uv := r\<rparr> else q\<lparr>to_thread := r\<rparr>)"

definition store_outbox :: "bare_queue_t \<Rightarrow> port_ptr \<Rightarrow> bare_queue_ring_t \<Rightarrow> bare_queue_t" where
  "store_outbox q port r =
     (if is_uv (port_at q port) then q\<lparr>to_thread := r\<rparr> else q\<lparr>to_uv := r\<rparr>)"

definition store_state :: "bare_queue_t \<Rightarrow> port_ptr \<Rightarrow> bare_queue_state_t \<Rightarrow> bare_queue_t" where
  "store_state q port s =
     (if is_uv (port_at q port) then q\<lparr>uv_state := s\<rparr> else q\<lparr>thread_state := s\<rparr>)"

definition bare_queue__listening :: "bare_queue_state_t \<Rightarrow> bool" where
  "bare_queue__listening s \<longleftrightarrow> s = bare_queue_state_open \<or> s = bare_queue_state_ended"

section \<open>Signals\<close>

definition bare_queue__signal_uv :: "bare_queue_t \<Rightarrow> 'z machine_scheme \<Rightarrow> 'z machine_scheme" where
  "bare_queue__signal_uv q w =
     (if bare_queue__listening (uv_state q) then emit (Async_send Queue_async) w else w)"

definition bare_queue__signal_thread ::
  "bare_queue_t \<Rightarrow> 'z machine_scheme \<Rightarrow> 'z machine_scheme" where
  "bare_queue__signal_thread q w =
     (if bare_queue__listening (thread_state q) \<and> on_signal_thread q \<noteq> NULL
      then emit (Callback (on_signal_thread q) (port_data (thread_port q))) w else w)"

definition bare_queue__signal_peer ::
  "bare_queue_t \<Rightarrow> port_ptr \<Rightarrow> 'z machine_scheme \<Rightarrow> 'z machine_scheme" where
  "bare_queue__signal_peer q port w =
     (if is_uv (port_at q port) then bare_queue__signal_thread q w
      else bare_queue__signal_uv q w)"

text \<open>What libuv runs on the worklet's loop after an \<open>Async_send\<close>.\<close>

definition bare_queue__on_wakeup_uv :: "'z qworld_scheme \<Rightarrow> 'z qworld_scheme option" where
  "bare_queue__on_wakeup_uv w = do {
     q \<leftarrow> queue w;
     Some (if on_recv_uv q \<noteq> NULL then emit (Callback (on_recv_uv q) (port_data (uv_port q))) w
           else w)
   }"

section \<open>Creation and opening\<close>

text \<open>
  The slots of a fresh queue are uninitialised memory: they hold whatever \<open>g_uv\<close> and
  \<open>g_thread\<close> say. The result is the address of the queue, or \<open>NULL\<close>.
\<close>

definition bare_queue_create ::
  "(nat \<Rightarrow> bare_queue_message_t) \<Rightarrow> (nat \<Rightarrow> bare_queue_message_t) \<Rightarrow> 'z qworld_scheme
     \<Rightarrow> (ptr \<times> 'z qworld_scheme) option" where
  "bare_queue_create g_uv g_thread w =
     (let (p, w) = malloc_struct w
      in if p = NULL then Some (NULL, w)
         else do {
           w \<leftarrow> emit_ok (Mutex_init Queue_lock) w;
           Some (p, w\<lparr>queue := Some
             \<lparr>to_uv = \<lparr>slots = map g_uv [0..<BARE_QUEUE_CAPACITY], head = 0, tail = 0\<rparr>,
              to_thread = \<lparr>slots = map g_thread [0..<BARE_QUEUE_CAPACITY], head = 0, tail = 0\<rparr>,
              uv_state = bare_queue_state_idle, thread_state = bare_queue_state_idle,
              destroyed = False, on_signal_thread = NULL, on_recv_uv = NULL,
              uv_port = \<lparr>is_uv = True, port_data = NULL\<rparr>,
              thread_port = \<lparr>is_uv = False, port_data = NULL\<rparr>\<rparr>\<rparr>)
         })"

definition bare_queue_open_uv ::
  "ptr \<Rightarrow> ptr \<Rightarrow> 'z qworld_scheme \<Rightarrow> (port_ptr \<times> 'z qworld_scheme) option" where
  "bare_queue_open_uv on_recv data w = do {
     q \<leftarrow> queue w;
     w \<leftarrow> emit_ok (Async_init Queue_async) w;
     let w = emit (Mutex_lock Queue_lock) w;
     let q = q\<lparr>uv_port := (uv_port q)\<lparr>port_data := data\<rparr>, on_recv_uv := on_recv,
               uv_state := bare_queue_state_open\<rparr>;
     let pending = \<not> bare_queue__ring_empty (to_uv q);
     let w = emit (Mutex_unlock Queue_lock) (w\<lparr>queue := Some q\<rparr>);
     Some (Uv_port, if pending then emit (Async_send Queue_async) w else w)
   }"

definition bare_queue_open_thread ::
  "ptr \<Rightarrow> ptr \<Rightarrow> 'z qworld_scheme \<Rightarrow> (port_ptr option \<times> 'z qworld_scheme) option" where
  "bare_queue_open_thread on_signal data w = do {
     q \<leftarrow> queue w;
     let w = emit (Mutex_lock Queue_lock) w;
     if thread_state q \<noteq> bare_queue_state_idle
     then Some (None, emit (Mutex_unlock Queue_lock) w)
     else do {
       let q = q\<lparr>thread_port := (thread_port q)\<lparr>port_data := data\<rparr>,
                 on_signal_thread := on_signal, thread_state := bare_queue_state_open\<rparr>;
       let w = w\<lparr>queue := Some q\<rparr>;
       let w = (if \<not> bare_queue__ring_empty (to_thread q)
                then bare_queue__signal_thread q w else w);
       Some (Some Thread_port, emit (Mutex_unlock Queue_lock) w)
     }
   }"

section \<open>Writing and reading\<close>

text \<open>
  \<open>data\<close> are the bytes of the caller, its length is \<open>len\<close>. The result of \<open>malloc\<close> is not
  checked by the code: without memory, the copy is a fault.
\<close>

definition bare_queue_write ::
  "port_ptr \<Rightarrow> byte list \<Rightarrow> 'z qworld_scheme \<Rightarrow> (int \<times> 'z qworld_scheme) option" where
  "bare_queue_write port data w = do {
     _ \<leftarrow> queue w;
     if length data = 0 then Some (0, w)
     else do {
       let len = min (length data) INT_MAX;
       let (base, w) = malloc len w;
       w \<leftarrow> memcpy base (take len data) w;
       let w = emit (Mutex_lock Queue_lock) w;
       q \<leftarrow> queue w;
       let ring = bare_queue__outbox q port;
       let was_empty = bare_queue__ring_empty ring;
       let (result, w) =
         (if bare_queue__state q port \<ge> bare_queue_state_ended
             \<or> bare_queue__peer_state q port = bare_queue_state_closed
          then (bare_queue_closed, w)
          else (case bare_queue__ring_push ring \<lparr>base = base, len = len\<rparr> of
                  (False, _) \<Rightarrow> (bare_queue_would_block, w)
                | (True, ring) \<Rightarrow>
                    let q = store_outbox q port ring; w = w\<lparr>queue := Some q\<rparr>
                    in (c_int len, if was_empty then bare_queue__signal_peer q port w else w)));
       let w = emit (Mutex_unlock Queue_lock) w;
       w \<leftarrow> (if result < 0 then free_block base w else Some w);
       Some (result, w)
     }
   }"

text \<open>
  The message is \<open>None\<close> when \<open>*data\<close> and \<open>*len\<close> are not written; the end of the stream is a
  message with no bytes.
\<close>

definition bare_queue_read ::
  "port_ptr \<Rightarrow> 'z qworld_scheme
     \<Rightarrow> ((int \<times> bare_queue_message_t option) \<times> 'z qworld_scheme) option" where
  "bare_queue_read port w = do {
     q \<leftarrow> queue w;
     let w = emit (Mutex_lock Queue_lock) w;
     let ring = bare_queue__inbox q port;
     let was_full = bare_queue__ring_full ring;
     let (message, ring) = bare_queue__ring_shift ring;
     let q = store_inbox q port ring;
     let w = w\<lparr>queue := Some q\<rparr>;
     let shifted = (message \<noteq> None);
     let peer_ended = (bare_queue__peer_state q port \<ge> bare_queue_state_ended);
     let w = (if shifted \<and> was_full then bare_queue__signal_peer q port w else w);
     let w = emit (Mutex_unlock Queue_lock) w;
     Some (if shifted then (bare_queue_ok, message)
           else if peer_ended then (bare_queue_ok, Some \<lparr>base = NULL, len = 0\<rparr>)
           else (bare_queue_would_block, None), w)
   }"

definition bare_queue_readable ::
  "port_ptr \<Rightarrow> 'z qworld_scheme \<Rightarrow> (bool \<times> 'z qworld_scheme) option" where
  "bare_queue_readable port w = do {
     q \<leftarrow> queue w;
     let w = emit (Mutex_lock Queue_lock) w;
     let readable = (\<not> bare_queue__ring_empty (bare_queue__inbox q port)
                     \<or> bare_queue__peer_state q port \<ge> bare_queue_state_ended);
     Some (readable, emit (Mutex_unlock Queue_lock) w)
   }"

definition bare_queue_writable ::
  "port_ptr \<Rightarrow> 'z qworld_scheme \<Rightarrow> (bool \<times> 'z qworld_scheme) option" where
  "bare_queue_writable port w = do {
     q \<leftarrow> queue w;
     let w = emit (Mutex_lock Queue_lock) w;
     let writable = (\<not> bare_queue__ring_full (bare_queue__outbox q port)
                     \<or> bare_queue__state q port \<ge> bare_queue_state_ended
                     \<or> bare_queue__peer_state q port = bare_queue_state_closed);
     Some (writable, emit (Mutex_unlock Queue_lock) w)
   }"

section \<open>Ending, closing and freeing\<close>

text \<open>
  One of the two loops of \<open>bare_queue__free\<close>: \<open>None\<close> is a fault or a loop that never ends;
  \<open>drain_total\<close> shows that it is neither on a ring whose messages are live.
\<close>

partial_function (option) drain ::
  "bare_queue_ring_t \<Rightarrow> 'z qworld_scheme \<Rightarrow> 'z qworld_scheme option" where
  "drain ring w =
     (case bare_queue__ring_shift ring of
        (None, _) \<Rightarrow> Some w
      | (Some message, ring) \<Rightarrow> Option.bind (free_block (base message) w) (drain ring))"

definition bare_queue__free :: "'z qworld_scheme \<Rightarrow> 'z qworld_scheme option" where
  "bare_queue__free w = do {
     q \<leftarrow> queue w;
     w \<leftarrow> drain (to_uv q) w;
     w \<leftarrow> drain (to_thread q) w;
     let w = emit (Mutex_destroy Queue_lock) w;
     Some (w\<lparr>queue := None\<rparr>)
   }"

definition bare_queue__unowned :: "bare_queue_t \<Rightarrow> bool" where
  "bare_queue__unowned q \<longleftrightarrow> destroyed q
     \<and> (thread_state q = bare_queue_state_idle \<or> thread_state q = bare_queue_state_closed)"

text \<open>The critical section of \<open>bare_queue__advance\<close>, and what follows it outside the lock.\<close>

definition advance_locked ::
  "port_ptr \<Rightarrow> bare_queue_state_t \<Rightarrow> 'z qworld_scheme \<Rightarrow> (bool \<times> 'z qworld_scheme) option" where
  "advance_locked port state w = do {
     q \<leftarrow> queue w;
     let w = emit (Mutex_lock Queue_lock) w;
     let q = (if bare_queue__state q port < state then store_state q port state else q);
     let w = bare_queue__signal_peer q port (w\<lparr>queue := Some q\<rparr>);
     let unowned = bare_queue__unowned q;
     Some (unowned, emit (Mutex_unlock Queue_lock) w)
   }"

definition free_if :: "bool \<Rightarrow> 'z qworld_scheme \<Rightarrow> 'z qworld_scheme option" where
  "free_if unowned w = (if unowned then bare_queue__free w else Some w)"

definition bare_queue__advance ::
  "port_ptr \<Rightarrow> bare_queue_state_t \<Rightarrow> 'z qworld_scheme \<Rightarrow> 'z qworld_scheme option" where
  "bare_queue__advance port state w = do {
     (unowned, w) \<leftarrow> advance_locked port state w;
     free_if unowned w
   }"

definition bare_queue_end :: "port_ptr \<Rightarrow> 'z qworld_scheme \<Rightarrow> 'z qworld_scheme option" where
  "bare_queue_end port = bare_queue__advance port bare_queue_state_ended"

definition bare_queue_close :: "port_ptr \<Rightarrow> 'z qworld_scheme \<Rightarrow> 'z qworld_scheme option" where
  "bare_queue_close port = bare_queue__advance port bare_queue_state_closed"

definition destroy_locked :: "'z qworld_scheme \<Rightarrow> (bool \<times> 'z qworld_scheme) option" where
  "destroy_locked w = do {
     q \<leftarrow> queue w;
     let w = emit (Mutex_lock Queue_lock) w;
     let q = q\<lparr>destroyed := True\<rparr>;
     let unowned = bare_queue__unowned q;
     Some (unowned, emit (Mutex_unlock Queue_lock) (w\<lparr>queue := Some q\<rparr>))
   }"

definition bare_queue_destroy :: "'z qworld_scheme \<Rightarrow> 'z qworld_scheme option" where
  "bare_queue_destroy w = do {
     (unowned, w) \<leftarrow> destroy_locked w;
     free_if unowned w
   }"

definition bare_queue_shutdown_uv :: "'z qworld_scheme \<Rightarrow> 'z qworld_scheme option" where
  "bare_queue_shutdown_uv w = do {
     _ \<leftarrow> queue w;
     Some (emit (Async_close Queue_async) w)
   }"

end
