(* ===== verification/Queue_Inv.thy ===== *)
theory Queue_Inv
  imports Queue
begin

text \<open>
  The invariant of the queue and the result of each of its operations. Every message
  that waits in a ring is a live block of its own, of between 1 and \<open>INT_MAX\<close> bytes, so
  that an empty message can only mean the end of the stream. The lemmas \<open>write_eq\<close>,
  \<open>read_eq\<close> and \<open>advance_eq\<close> give the whole result of an operation on every branch; the
  later theories work from them and never unfold an operation again.
\<close>

section \<open>The invariant\<close>

definition live_message :: "'z machine_scheme \<Rightarrow> bare_queue_message_t \<Rightarrow> bool" where
  "live_message w m \<longleftrightarrow> 0 < len m \<and> len m \<le> INT_MAX
     \<and> (\<exists>b. blocks w (base m) = Some b \<and> length b = len m)"

definition messages_of :: "bare_queue_t \<Rightarrow> bare_queue_message_t list" where
  "messages_of q = ring_messages (to_uv q) @ ring_messages (to_thread q)"

definition queue_ok :: "'z machine_scheme \<Rightarrow> bare_queue_t \<Rightarrow> bool" where
  "queue_ok w q \<longleftrightarrow> ring_ok (to_uv q) \<and> ring_ok (to_thread q)
     \<and> is_uv (uv_port q) \<and> \<not> is_uv (thread_port q)
     \<and> (\<forall>m \<in> set (messages_of q). live_message w m)
     \<and> distinct (map base (messages_of q))"

definition world_ok :: "'z qworld_scheme \<Rightarrow> bool" where
  "world_ok w \<longleftrightarrow> heap_ok w \<and> (\<forall>q. queue w = Some q \<longrightarrow> queue_ok w q)"

text \<open>The bytes of a message.\<close>

definition payload :: "'z machine_scheme \<Rightarrow> bare_queue_message_t \<Rightarrow> byte list" where
  "payload w m = (case blocks w (base m) of None \<Rightarrow> [] | Some b \<Rightarrow> b)"

primrec peer :: "port_ptr \<Rightarrow> port_ptr" where
  "peer Uv_port = Thread_port"
| "peer Thread_port = Uv_port"

lemma peer_peer [simp]: "peer (peer p) = p"
  by (cases p) simp_all

lemma peer_neq [simp]: "peer p \<noteq> p" "p \<noteq> peer p"
  by (cases p; simp)+

section \<open>Ports\<close>

definition ports_ok :: "bare_queue_t \<Rightarrow> bool" where
  "ports_ok q \<longleftrightarrow> is_uv (uv_port q) \<and> \<not> is_uv (thread_port q)"

lemma queue_ok_ports: "queue_ok w q \<Longrightarrow> ports_ok q"
  by (simp add: queue_ok_def ports_ok_def)

lemma is_uv_port_at: "ports_ok q \<Longrightarrow> is_uv (port_at q p) \<longleftrightarrow> p = Uv_port"
  by (cases p) (auto simp: port_at_def ports_ok_def)

lemmas port_defs = bare_queue__inbox_def bare_queue__outbox_def bare_queue__state_def
  bare_queue__peer_state_def store_inbox_def store_outbox_def store_state_def

lemma ports_ok_store [simp]:
  "ports_ok (store_inbox q p r) = ports_ok q"
  "ports_ok (store_outbox q p r) = ports_ok q"
  "ports_ok (store_state q p s) = ports_ok q"
  by (auto simp: port_defs ports_ok_def)

lemma port_at_store [simp]:
  "port_at (store_inbox q p r) p' = port_at q p'"
  "port_at (store_outbox q p r) p' = port_at q p'"
  "port_at (store_state q p s) p' = port_at q p'"
  by (auto simp: port_defs port_at_def split: port_ptr.splits)

text \<open>The outbox of an end is the inbox of its peer, and so are the states.\<close>

lemma outbox_inbox: "ports_ok q \<Longrightarrow> bare_queue__outbox q p = bare_queue__inbox q (peer p)"
  by (cases p) (simp_all add: port_defs is_uv_port_at)

lemma peer_state_state: "ports_ok q \<Longrightarrow> bare_queue__peer_state q p = bare_queue__state q (peer p)"
  by (cases p) (simp_all add: port_defs is_uv_port_at)

lemma store_outbox_inbox: "ports_ok q \<Longrightarrow> store_outbox q p r = store_inbox q (peer p) r"
  by (cases p) (simp_all add: port_defs is_uv_port_at)

lemma inbox_store_inbox: "ports_ok q \<Longrightarrow>
    bare_queue__inbox (store_inbox q p r) p' = (if p' = p then r else bare_queue__inbox q p')"
  by (cases p; cases p') (simp_all add: port_defs is_uv_port_at ports_ok_def port_at_def)

lemma state_store_inbox [simp]:
  "bare_queue__state (store_inbox q p r) p' = bare_queue__state q p'"
  by (auto simp: bare_queue__state_def) (auto simp: store_inbox_def)

lemma state_store_state: "ports_ok q \<Longrightarrow>
    bare_queue__state (store_state q p s) p' = (if p' = p then s else bare_queue__state q p')"
  by (cases p; cases p') (simp_all add: port_defs is_uv_port_at ports_ok_def port_at_def)

lemma inbox_store_state [simp]:
  "bare_queue__inbox (store_state q p s) p' = bare_queue__inbox q p'"
  by (auto simp: bare_queue__inbox_def) (auto simp: store_state_def)

lemma store_inbox_same: "ports_ok q \<Longrightarrow> store_inbox q p (bare_queue__inbox q p) = q"
  by (cases p) (simp_all add: port_defs is_uv_port_at)

lemma store_frame [simp]:
  "destroyed (store_inbox q p r) = destroyed q" "destroyed (store_state q p s) = destroyed q"
  "on_signal_thread (store_inbox q p r) = on_signal_thread q"
  "on_signal_thread (store_state q p s) = on_signal_thread q"
  "thread_state (store_inbox q p r) = thread_state q" "uv_state (store_inbox q p r) = uv_state q"
  "thread_port (store_inbox q p r) = thread_port q" "uv_port (store_inbox q p r) = uv_port q"
  "thread_port (store_state q p s) = thread_port q" "uv_port (store_state q p s) = uv_port q"
  "on_recv_uv (store_inbox q p r) = on_recv_uv q" "on_recv_uv (store_state q p s) = on_recv_uv q"
  "to_uv (store_state q p s) = to_uv q" "to_thread (store_state q p s) = to_thread q"
  by (auto simp: store_inbox_def store_state_def)

lemmas port_simps = outbox_inbox peer_state_state store_outbox_inbox inbox_store_inbox
  state_store_state store_inbox_same

lemma ring_ok_inbox: "queue_ok w q \<Longrightarrow> ring_ok (bare_queue__inbox q p)"
  by (auto simp: queue_ok_def bare_queue__inbox_def)

lemma messages_inbox: "ports_ok q \<Longrightarrow> messages_of q =
    ring_messages (bare_queue__inbox q Uv_port) @ ring_messages (bare_queue__inbox q Thread_port)"
  by (simp add: messages_of_def bare_queue__inbox_def is_uv_port_at)

lemma queue_ok_alt: "queue_ok w q \<longleftrightarrow> ports_ok q \<and> (\<forall>p. ring_ok (bare_queue__inbox q p))
    \<and> (\<forall>p. \<forall>m \<in> set (ring_messages (bare_queue__inbox q p)). live_message w m)
    \<and> distinct (map base (messages_of q))"
proof -
  have all: "(\<forall>p. P p) \<longleftrightarrow> P Uv_port \<and> P Thread_port" for P
    by (metis port_ptr.exhaust)
  show ?thesis
    unfolding queue_ok_def ports_ok_def all
    by (auto simp: messages_of_def bare_queue__inbox_def port_at_def)
qed

section \<open>Signals\<close>

text \<open>The call that wakes the peer of an end, if there is one.\<close>

definition peer_signal :: "bare_queue_t \<Rightarrow> port_ptr \<Rightarrow> call list" where
  "peer_signal q p =
     (if \<not> bare_queue__listening (bare_queue__peer_state q p) then []
      else if \<not> is_uv (port_at q p) then [Async_send Queue_async]
      else if on_signal_thread q \<noteq> NULL
           then [Callback (on_signal_thread q) (port_data (thread_port q))] else [])"

lemma signal_peer_eq:
  "bare_queue__signal_peer q p w = w\<lparr>calls := calls w @ peer_signal q p\<rparr>"
  by (simp add: bare_queue__signal_peer_def bare_queue__signal_thread_def
      bare_queue__signal_uv_def peer_signal_def bare_queue__peer_state_def emit_def)

lemma peer_signal_store_inbox [simp]: "peer_signal (store_inbox q p r) p' = peer_signal q p'"
  by (simp add: peer_signal_def bare_queue__peer_state_def)

lemma peer_signal_store_state: "ports_ok q \<Longrightarrow>
    peer_signal (store_state q p s) p = peer_signal q p"
  by (simp add: peer_signal_def peer_state_state state_store_state)

section \<open>Opening\<close>

lemma heap_ok_ext [simp]:
  "heap_ok (w\<lparr>queue := x\<rparr>) = heap_ok w" "heap_ok (w\<lparr>calls := cs\<rparr>) = heap_ok w"
  by (simp_all add: heap_ok_def)

lemma live_message_ext [simp]:
  "live_message (w\<lparr>queue := x\<rparr>) = live_message w"
  "live_message (w\<lparr>calls := cs\<rparr>) = live_message w"
  "live_message (w\<lparr>brk := b\<rparr>) = live_message w"
  by (simp_all add: live_message_def fun_eq_iff)

lemma queue_ok_ext [simp]:
  "queue_ok (w\<lparr>queue := x\<rparr>) = queue_ok w" "queue_ok (w\<lparr>calls := cs\<rparr>) = queue_ok w"
  "queue_ok (w\<lparr>brk := b\<rparr>) = queue_ok w"
  by (simp_all add: queue_ok_def fun_eq_iff)

lemma world_ok_calls [simp]: "world_ok (w\<lparr>calls := cs\<rparr>) = world_ok w"
  by (simp add: world_ok_def)

lemma queue_emit [simp]: "queue (emit c w) = queue w"
  by (simp add: emit_def)

lemma world_ok_emit [simp]: "world_ok (emit c w) = world_ok w"
  by (simp add: emit_def)

text \<open>The fields outside the rings do not matter to the invariant.\<close>

lemma queue_ok_fields [simp]:
  "queue_ok w (q\<lparr>destroyed := b\<rparr>) = queue_ok w q"
  "queue_ok w (q\<lparr>uv_state := s\<rparr>) = queue_ok w q"
  "queue_ok w (q\<lparr>thread_state := s\<rparr>) = queue_ok w q"
  "queue_ok w (q\<lparr>on_recv_uv := cb\<rparr>) = queue_ok w q"
  "queue_ok w (q\<lparr>on_signal_thread := cb\<rparr>) = queue_ok w q"
  "queue_ok w (q\<lparr>uv_port := (uv_port q)\<lparr>port_data := d\<rparr>\<rparr>) = queue_ok w q"
  "queue_ok w (q\<lparr>thread_port := (thread_port q)\<lparr>port_data := d\<rparr>\<rparr>) = queue_ok w q"
  by (simp_all add: queue_ok_def messages_of_def)

lemma queue_ok_store_state [simp]: "queue_ok w (store_state q p s) = queue_ok w q"
  by (simp add: store_state_def)

definition initial_queue ::
  "(nat \<Rightarrow> bare_queue_message_t) \<Rightarrow> (nat \<Rightarrow> bare_queue_message_t) \<Rightarrow> bare_queue_t" where
  "initial_queue g_uv g_thread =
     \<lparr>to_uv = \<lparr>slots = map g_uv [0..<BARE_QUEUE_CAPACITY], head = 0, tail = 0\<rparr>,
      to_thread = \<lparr>slots = map g_thread [0..<BARE_QUEUE_CAPACITY], head = 0, tail = 0\<rparr>,
      uv_state = bare_queue_state_idle, thread_state = bare_queue_state_idle,
      destroyed = False, on_signal_thread = NULL, on_recv_uv = NULL,
      uv_port = \<lparr>is_uv = True, port_data = NULL\<rparr>,
      thread_port = \<lparr>is_uv = False, port_data = NULL\<rparr>\<rparr>"

lemma initial_ring: "ring_ok \<lparr>slots = map g [0..<BARE_QUEUE_CAPACITY], head = 0, tail = 0\<rparr>"
    "ring_messages \<lparr>slots = map g [0..<BARE_QUEUE_CAPACITY], head = 0, tail = 0\<rparr> = []"
  by (simp_all add: ring_ok_def ring_messages_def ring_count_def capacity)

lemma initial_queue_ok: "queue_ok w (initial_queue g_uv g_thread)"
  by (simp add: initial_queue_def queue_ok_def messages_of_def initial_ring)

lemma create_eq:
  assumes "ret w (Mutex_init Queue_lock) = 0"
  shows "bare_queue_create g_uv g_thread w = Some
    (if oom w (brk w) \<or> brk w = NULL then (NULL, w\<lparr>brk := Suc (brk w)\<rparr>)
     else (brk w, w\<lparr>brk := Suc (brk w), calls := calls w @ [Mutex_init Queue_lock],
             queue := Some (initial_queue g_uv g_thread)\<rparr>))"
  using assms by (auto simp: bare_queue_create_def malloc_struct_def emit_ok_def emit_def
      initial_queue_def NULL_def)

lemma open_uv_eq:
  assumes "queue w = Some q" and "ret w (Async_init Queue_async) = 0"
  shows "bare_queue_open_uv on_recv data w = Some (Uv_port,
    w\<lparr>queue := Some (q\<lparr>uv_port := (uv_port q)\<lparr>port_data := data\<rparr>, on_recv_uv := on_recv,
        uv_state := bare_queue_state_open\<rparr>),
      calls := calls w @ [Async_init Queue_async, Mutex_lock Queue_lock, Mutex_unlock Queue_lock]
        @ (if bare_queue__ring_empty (to_uv q) then [] else [Async_send Queue_async])\<rparr>)"
  using assms by (simp add: bare_queue_open_uv_def emit_ok_def emit_def)

lemma open_thread_eq:
  assumes "queue w = Some q"
  shows "bare_queue_open_thread on_signal data w =
    (if thread_state q \<noteq> bare_queue_state_idle
     then Some (None, w\<lparr>calls := calls w @ [Mutex_lock Queue_lock, Mutex_unlock Queue_lock]\<rparr>)
     else Some (Some Thread_port,
       w\<lparr>queue := Some (q\<lparr>thread_port := (thread_port q)\<lparr>port_data := data\<rparr>,
           on_signal_thread := on_signal, thread_state := bare_queue_state_open\<rparr>),
         calls := calls w @ [Mutex_lock Queue_lock]
           @ (if bare_queue__ring_empty (to_thread q) \<or> on_signal = NULL then []
              else [Callback on_signal data]) @ [Mutex_unlock Queue_lock]\<rparr>))"
  using assms by (simp add: bare_queue_open_thread_def emit_def bare_queue__signal_thread_def
      bare_queue__listening_def Let_def)

section \<open>Writing\<close>

text \<open>
  The four outcomes of a write. \<open>written\<close> is what a write that is accepted does to the
  world: a fresh block with the bytes, the message at the end of the peer's inbox, and a
  signal if the inbox was empty.
\<close>

definition written :: "port_ptr \<Rightarrow> byte list \<Rightarrow> bare_queue_t \<Rightarrow> 'z qworld_scheme \<Rightarrow> 'z qworld_scheme" where
  "written p data q w =
     (let n = min (length data) INT_MAX;
          box = bare_queue__inbox q (peer p);
          box' = snd (bare_queue__ring_push box \<lparr>base = brk w, len = n\<rparr>)
      in w\<lparr>brk := Suc (brk w), blocks := (blocks w)(brk w \<mapsto> take n data),
           queue := Some (store_inbox q (peer p) box'),
           calls := calls w @ [Mutex_lock Queue_lock]
             @ (if bare_queue__ring_empty box then peer_signal q p else [])
             @ [Mutex_unlock Queue_lock]\<rparr>)"

definition refused :: "'z qworld_scheme \<Rightarrow> 'z qworld_scheme" where
  "refused w = w\<lparr>brk := Suc (brk w),
     calls := calls w @ [Mutex_lock Queue_lock, Mutex_unlock Queue_lock]\<rparr>"

definition write_closed :: "bare_queue_t \<Rightarrow> port_ptr \<Rightarrow> bool" where
  "write_closed q p \<longleftrightarrow> bare_queue__state q p \<ge> bare_queue_state_ended
     \<or> bare_queue__state q (peer p) = bare_queue_state_closed"

lemma write_empty: "queue w = Some q \<Longrightarrow> bare_queue_write p [] w = Some (0, w)"
  by (simp add: bare_queue_write_def)

lemma write_eq:
  assumes ok: "world_ok w" and q: "queue w = Some q" and ne: "data \<noteq> []"
    and mem: "\<not> oom w (brk w)"
  shows "bare_queue_write p data w = Some
    (if write_closed q p then (bare_queue_closed, refused w)
     else if bare_queue__ring_full (bare_queue__inbox q (peer p))
          then (bare_queue_would_block, refused w)
          else (int (min (length data) INT_MAX), written p data q w))"
proof -
  let ?n = "min (length data) INT_MAX"
  let ?w = "w\<lparr>brk := Suc (brk w), blocks := (blocks w)(brk w \<mapsto> take ?n data)\<rparr>"
  let ?u = "w\<lparr>brk := Suc (brk w), blocks := (blocks w)(brk w \<mapsto> map (junk w (brk w)) [0..<?n])\<rparr>"
  from ok q have h: "heap_ok w" and po: "ports_ok q"
    by (auto simp: world_ok_def intro: queue_ok_ports)
  have b: "brk w \<noteq> NULL" "0 < brk w" "blocks w (brk w) = None"
    using h heap_ok_fresh [OF h] by (auto simp: heap_ok_def NULL_def)
  have m: "malloc ?n w = (brk w, ?u)"
    using mem by (simp add: malloc_def Let_def)
  have c: "memcpy (brk w) (take ?n data) ?u = Some ?w"
    by (simp add: memcpy_def)
  have restore: "(blocks w)(brk w := None) = blocks w"
    using b(3) by (simp add: fun_upd_idem)
  show ?thesis
    using q ne b po
    by (cases "bare_queue__ring_full (bare_queue__inbox q (peer p))")
      (simp_all add: bare_queue_write_def m c write_closed_def port_simps emit_def
        bare_queue__ring_push_def free_block_def refused_def written_def Let_def restore
        c_int_small queue_codes signal_peer_eq bare_queue__ring_empty_def)
qed

text \<open>Without memory the write faults: the null pointer that \<open>malloc\<close> returns is written to.\<close>

lemma write_oom:
  assumes "world_ok w" and "queue w = Some q" and "data \<noteq> []" and "oom w (brk w)"
  shows "bare_queue_write p data w = None"
proof -
  have "heap_ok (w\<lparr>brk := Suc (brk w)\<rparr>)"
    using assms(1) by (auto simp: world_ok_def heap_ok_def less_Suc_eq)
  then show ?thesis
    using assms by (simp add: bare_queue_write_def malloc_oom memcpy_NULL Let_def)
qed

text \<open>The addresses of the messages that wait for an end.\<close>

definition bases :: "bare_queue_t \<Rightarrow> port_ptr \<Rightarrow> ptr list" where
  "bases q p = map base (ring_messages (bare_queue__inbox q p))"

lemma distinct_messages: "ports_ok q \<Longrightarrow> distinct (map base (messages_of q)) \<longleftrightarrow>
    distinct (bases q p) \<and> distinct (bases q (peer p)) \<and> set (bases q p) \<inter> set (bases q (peer p)) = {}"
  unfolding bases_def messages_inbox map_append distinct_append by (cases p) auto

lemma set_messages: "ports_ok q \<Longrightarrow>
    base ` set (messages_of q) = set (bases q p) \<union> set (bases q (peer p))"
  unfolding bases_def messages_inbox by (cases p) auto

lemma bases_store_inbox: "ports_ok q \<Longrightarrow>
    bases (store_inbox q p r) p' = (if p' = p then map base (ring_messages r) else bases q p')"
  by (simp add: bases_def inbox_store_inbox)

text \<open>The live messages lie below \<open>brk\<close>, so a fresh block is none of theirs.\<close>

lemma queue_ok_fresh:
  assumes "heap_ok w" and "queue_ok w q"
  shows "brk w \<notin> base ` set (messages_of q)"
  using assms heap_ok_fresh [OF assms(1)] by (auto simp: queue_ok_def live_message_def)

lemma live_message_alloc:
  assumes "live_message w m" and "heap_ok w"
  shows "live_message (w\<lparr>brk := b, blocks := (blocks w)(brk w \<mapsto> d)\<rparr>) m"
  using assms heap_ok_fresh [OF assms(2)] by (auto simp: live_message_def)

lemma written_ok:
  assumes ok: "world_ok w" and q: "queue w = Some q" and ne: "data \<noteq> []"
    and nf: "\<not> bare_queue__ring_full (bare_queue__inbox q (peer p))"
  shows "world_ok (written p data q w)"
proof -
  let ?n = "min (length data) INT_MAX"
  let ?box = "bare_queue__inbox q (peer p)"
  let ?m = "\<lparr>base = brk w, len = ?n\<rparr>"
  let ?box' = "snd (bare_queue__ring_push ?box ?m)"
  let ?w = "w\<lparr>brk := Suc (brk w), blocks := (blocks w)(brk w \<mapsto> take ?n data)\<rparr>"
  from ok q have h: "heap_ok w" and qok: "queue_ok w q" by (auto simp: world_ok_def)
  have po: "ports_ok q" using qok by (rule queue_ok_ports)
  have box: "ring_ok ?box" using qok by (rule ring_ok_inbox)
  have box': "ring_ok ?box'" "ring_messages ?box' = ring_messages ?box @ [?m]"
    using ring_push_messages [OF box nf] by auto
  have new: "live_message ?w ?m"
    using ne by (simp add: live_message_def)
  have old: "live_message ?w m" if "m \<in> set (ring_messages (bare_queue__inbox q p'))" for m p'
    using live_message_alloc [OF _ h] qok that by (auto simp: queue_ok_alt)
  have fresh: "brk w \<notin> base ` set (messages_of q)"
    using h qok by (rule queue_ok_fresh)
  have "distinct (map base (messages_of q))" using qok by (simp add: queue_ok_def)
  then have "distinct (map base (messages_of (store_inbox q (peer p) ?box')))"
    using fresh po box'(2)
    by (simp add: distinct_messages [of _ p] set_messages [of _ p] bases_store_inbox)
      (simp add: bases_def)
  then have "queue_ok ?w (store_inbox q (peer p) ?box')"
    using qok po box' new old by (auto simp: queue_ok_alt inbox_store_inbox)
  moreover have "heap_ok ?w" using h by (rule heap_ok_alloc)
  ultimately show ?thesis
    by (simp add: written_def Let_def world_ok_def)
qed

lemma refused_ok: "world_ok w \<Longrightarrow> world_ok (refused w)"
  by (auto simp: world_ok_def refused_def heap_ok_def less_Suc_eq)

section \<open>Reading\<close>

definition taken :: "port_ptr \<Rightarrow> bare_queue_t \<Rightarrow> 'z qworld_scheme \<Rightarrow> 'z qworld_scheme" where
  "taken p q w =
     (let box = bare_queue__inbox q p
      in w\<lparr>queue := Some (store_inbox q p (snd (bare_queue__ring_shift box))),
           calls := calls w @ [Mutex_lock Queue_lock]
             @ (if bare_queue__ring_full box then peer_signal q p else [])
             @ [Mutex_unlock Queue_lock]\<rparr>)"

definition locked_only :: "'z machine_scheme \<Rightarrow> 'z machine_scheme" where
  "locked_only w = w\<lparr>calls := calls w @ [Mutex_lock Queue_lock, Mutex_unlock Queue_lock]\<rparr>"

definition eof_message :: bare_queue_message_t where
  "eof_message = \<lparr>base = NULL, len = 0\<rparr>"

definition peer_ended :: "bare_queue_t \<Rightarrow> port_ptr \<Rightarrow> bool" where
  "peer_ended q p \<longleftrightarrow> bare_queue__state q (peer p) \<ge> bare_queue_state_ended"

lemma read_eq:
  assumes ok: "world_ok w" and q: "queue w = Some q"
  shows "bare_queue_read p w = Some
    (case ring_messages (bare_queue__inbox q p) of
       m # _ \<Rightarrow> ((bare_queue_ok, Some m), taken p q w)
     | [] \<Rightarrow> (if peer_ended q p then (bare_queue_ok, Some eof_message)
             else (bare_queue_would_block, None), locked_only w))"
proof -
  let ?box = "bare_queue__inbox q p"
  from ok q have qok: "queue_ok w q" by (auto simp: world_ok_def)
  then have po: "ports_ok q" and box: "ring_ok ?box"
    by (auto intro: queue_ok_ports ring_ok_inbox)
  have nf: "\<not> bare_queue__ring_full ?box" if "ring_messages ?box = []"
    using ring.full_iff [OF box] that by (simp add: capacity)
  show ?thesis
  proof (cases "ring_messages ?box")
    case Nil
    then show ?thesis
      using q po ring.shift_Nil [OF box Nil] store_inbox_same [OF po, of p]
      by (simp add: bare_queue_read_def Let_def port_simps peer_ended_def eof_message_def
          locked_only_def emit_def queue_codes)
  next
    case (Cons m ms)
    then show ?thesis
      using q po ring.shift_Cons [OF box Cons]
      by (auto simp: bare_queue_read_def Let_def port_simps taken_def emit_def signal_peer_eq)
  qed
qed

lemma taken_ok:
  assumes ok: "world_ok w" and q: "queue w = Some q"
    and m: "ring_messages (bare_queue__inbox q p) = m # ms"
  shows "world_ok (taken p q w)"
proof -
  let ?box = "bare_queue__inbox q p"
  from ok q have qok: "queue_ok w q" by (auto simp: world_ok_def)
  then have po: "ports_ok q" and box: "ring_ok ?box"
    by (auto intro: queue_ok_ports ring_ok_inbox)
  obtain box' where s: "bare_queue__ring_shift ?box = (Some m, box')" "ring_ok box'"
      "ring_messages box' = ms"
    using ring.shift_Cons [OF box m] by auto
  have "distinct (map base (messages_of q))" using qok by (simp add: queue_ok_def)
  then have "distinct (map base (messages_of (store_inbox q p box')))"
    using po m s(3)
    by (simp add: distinct_messages [of _ p] bases_store_inbox) (simp add: bases_def)
  moreover have live: "\<forall>x \<in> set (ring_messages (bare_queue__inbox q p')). live_message w x" for p'
    using qok unfolding queue_ok_alt by blast
  moreover have "\<forall>x \<in> set ms. live_message w x"
    using live [of p] by (simp add: m)
  moreover have "ring_ok (bare_queue__inbox q p')" for p'
    using qok by (rule ring_ok_inbox)
  ultimately have "queue_ok w (store_inbox q p box')"
    using po s m by (simp add: queue_ok_alt inbox_store_inbox)
  then show ?thesis
    using ok s(1) by (simp add: taken_def Let_def world_ok_def)
qed

lemma locked_only_ok [simp]: "world_ok (locked_only w) = world_ok w"
  by (simp add: locked_only_def)

lemma read_message_live:
  assumes "world_ok w" and "queue w = Some q"
    and "ring_messages (bare_queue__inbox q p) = m # ms"
  shows "live_message w m"
proof -
  have "queue_ok w q" using assms by (simp add: world_ok_def)
  then have "\<forall>m \<in> set (ring_messages (bare_queue__inbox q p)). live_message w m"
    unfolding queue_ok_alt by blast
  then show ?thesis by (simp add: assms(3))
qed

section \<open>Freeing\<close>

text \<open>
  The loops of \<open>bare_queue__free\<close> end, without a fault, when the messages of the ring are
  live blocks of their own; they free exactly these.
\<close>

lemma drain_total:
  assumes "ring_ok r" and "heap_ok w"
    and "\<forall>m \<in> set (ring_messages r). blocks w (base m) \<noteq> None"
    and "distinct (map base (ring_messages r))"
  shows "drain r w = Some (w\<lparr>blocks := blocks w |` (- base ` set (ring_messages r))\<rparr>)"
  using assms
proof (induction "ring_messages r" arbitrary: r w)
  case Nil
  then have "bare_queue__ring_shift r = (None, r)"
    by (simp add: ring.shift_Nil)
  then show ?case by (subst drain.simps) (simp add: Nil.hyps [symmetric] restrict_map_def)
next
  case (Cons m ms)
  obtain r' where s: "bare_queue__ring_shift r = (Some m, r')" "ring_ok r'" "ring_messages r' = ms"
    using ring.shift_Cons [OF Cons.prems(1) Cons.hyps(2) [symmetric]] by auto
  let ?w = "w\<lparr>blocks := (blocks w)(base m := None)\<rparr>"
  obtain b where b: "blocks w (base m) = Some b"
    using Cons.prems(3) Cons.hyps(2) [symmetric] by auto
  have ms: "base m \<notin> base ` set ms" "distinct (map base ms)"
    using Cons.prems(4) Cons.hyps(2) [symmetric] by auto
  have "\<forall>m' \<in> set ms. blocks w (base m') \<noteq> None"
    using Cons.prems(3) by (simp add: Cons.hyps(2) [symmetric])
  then have "\<forall>m' \<in> set (ring_messages r'). blocks ?w (base m') \<noteq> None"
    using ms(1) s(3) by (fastforce simp: image_iff)
  then have "drain r' ?w = Some (?w\<lparr>blocks := blocks ?w |` (- base ` set (ring_messages r'))\<rparr>)"
    using s ms(2) heap_ok_free [OF Cons.prems(2)] by (intro Cons.hyps(1)) simp_all
  then have "drain r' ?w = Some (?w\<lparr>blocks := blocks ?w |` (- base ` set ms)\<rparr>)"
    by (simp only: s(3))
  moreover have "blocks ?w |` (- base ` set ms) = blocks w |` (- base ` set (m # ms))"
    by (auto simp: restrict_map_def fun_eq_iff)
  ultimately show ?case
    using s free_block_live [OF b Cons.prems(2)] Cons.hyps(2)
    by (subst drain.simps) simp
qed

definition owned :: "'z qworld_scheme \<Rightarrow> ptr set" where
  "owned w = (case queue w of None \<Rightarrow> {} | Some q \<Rightarrow> base ` set (messages_of q))"

definition freed :: "'z qworld_scheme \<Rightarrow> 'z qworld_scheme" where
  "freed w = w\<lparr>blocks := blocks w |` (- owned w), queue := None,
     calls := calls w @ [Mutex_destroy Queue_lock]\<rparr>"

lemma free_eq:
  assumes ok: "world_ok w" and q: "queue w = Some q"
  shows "bare_queue__free w = Some (freed w)"
proof -
  from ok q have qok: "queue_ok w q" and h: "heap_ok w" by (auto simp: world_ok_def)
  have r: "ring_ok (to_uv q)" "ring_ok (to_thread q)" using qok by (auto simp: queue_ok_def)
  have live: "\<forall>m \<in> set (messages_of q). blocks w (base m) \<noteq> None"
    using qok by (auto simp: queue_ok_def live_message_def)
  have d: "distinct (map base (messages_of q))" using qok by (simp add: queue_ok_def)
  let ?w = "w\<lparr>blocks := blocks w |` (- base ` set (ring_messages (to_uv q)))\<rparr>"
  have 1: "drain (to_uv q) w = Some ?w"
    using r h live d by (intro drain_total) (auto simp: messages_of_def)
  have "heap_ok ?w" using h by (auto simp: heap_ok_def)
  then have 2: "drain (to_thread q) ?w =
      Some (?w\<lparr>blocks := blocks ?w |` (- base ` set (ring_messages (to_thread q)))\<rparr>)"
    using r live d
    by (intro drain_total) (auto simp: messages_of_def restrict_map_def)
  have "blocks ?w |` (- base ` set (ring_messages (to_thread q))) = blocks w |` (- owned w)"
    using q by (auto simp: owned_def messages_of_def restrict_map_def fun_eq_iff)
  then show ?thesis
    using q 1 2 by (simp add: bare_queue__free_def freed_def emit_def)
qed

lemma freed_ok: "world_ok w \<Longrightarrow> world_ok (freed w)"
  by (auto simp: world_ok_def freed_def heap_ok_def)

section \<open>Ending, closing and destroying\<close>

definition advanced :: "port_ptr \<Rightarrow> bare_queue_state_t \<Rightarrow> bare_queue_t \<Rightarrow> bare_queue_t" where
  "advanced p s q = (if bare_queue__state q p < s then store_state q p s else q)"

definition advanced_world ::
  "port_ptr \<Rightarrow> bare_queue_state_t \<Rightarrow> bare_queue_t \<Rightarrow> 'z qworld_scheme \<Rightarrow> 'z qworld_scheme" where
  "advanced_world p s q w = w\<lparr>queue := Some (advanced p s q),
     calls := calls w @ [Mutex_lock Queue_lock] @ peer_signal q p @ [Mutex_unlock Queue_lock]\<rparr>"

lemma advanced_queue_ok: "queue_ok w (advanced p s q) = queue_ok w q"
  by (simp add: advanced_def)

lemma advanced_world_ok:
  "world_ok w \<Longrightarrow> queue w = Some q \<Longrightarrow> world_ok (advanced_world p s q w)"
  by (simp add: world_ok_def advanced_world_def advanced_queue_ok)

lemma advance_locked_eq:
  assumes "world_ok w" and "queue w = Some q"
  shows "advance_locked p s w = Some (bare_queue__unowned (advanced p s q), advanced_world p s q w)"
proof -
  have "ports_ok q" using assms by (auto simp: world_ok_def intro: queue_ok_ports)
  then show ?thesis
    using assms(2)
    by (simp add: advance_locked_def advanced_def advanced_world_def emit_def Let_def
        signal_peer_eq peer_signal_store_state)
qed

lemma advance_eq:
  assumes "world_ok w" and "queue w = Some q"
  shows "bare_queue__advance p s w = Some
    (if bare_queue__unowned (advanced p s q) then freed (advanced_world p s q w)
     else advanced_world p s q w)"
  using assms free_eq [OF advanced_world_ok, OF assms(1) assms(2)]
  by (simp add: bare_queue__advance_def advance_locked_eq free_if_def)
    (simp add: advanced_world_def)

definition destroying :: "bare_queue_t \<Rightarrow> 'z qworld_scheme \<Rightarrow> 'z qworld_scheme" where
  "destroying q w = w\<lparr>queue := Some (q\<lparr>destroyed := True\<rparr>),
     calls := calls w @ [Mutex_lock Queue_lock, Mutex_unlock Queue_lock]\<rparr>"

lemma destroying_ok: "world_ok w \<Longrightarrow> queue w = Some q \<Longrightarrow> world_ok (destroying q w)"
  by (simp add: world_ok_def destroying_def)

lemma destroy_locked_eq:
  "queue w = Some q \<Longrightarrow> destroy_locked w =
     Some (bare_queue__unowned (q\<lparr>destroyed := True\<rparr>), destroying q w)"
  by (simp add: destroy_locked_def destroying_def emit_def Let_def)

lemma destroy_eq:
  assumes "world_ok w" and "queue w = Some q"
  shows "bare_queue_destroy w = Some
    (if bare_queue__unowned (q\<lparr>destroyed := True\<rparr>) then freed (destroying q w)
     else destroying q w)"
  using assms free_eq [OF destroying_ok, OF assms(1) assms(2)]
  by (simp add: bare_queue_destroy_def destroy_locked_eq free_if_def) (simp add: destroying_def)

end
