(* ===== verification/Queue_Spec.thy ===== *)
theory Queue_Spec
  imports Queue_Inv
begin

text \<open>
  What the queue promises, without rings, blocks or pointers: two lists of byte strings,
  a phase per end and the worklet's share. \<open>spec_step\<close> says what each operation returns and
  does; \<open>queue_step_refines\<close> shows that the code does the same.
\<close>

section \<open>The operations and what a caller observes\<close>

datatype queue_op =
    Open_uv ptr ptr
  | Open_thread ptr ptr
  | Write port_ptr "byte list"
  | Read port_ptr
  | Readable port_ptr
  | Writable port_ptr
  | End port_ptr
  | Close port_ptr
  | Destroy
  | Shutdown_uv
  | Wakeup
  | Release ptr \<comment> \<open>a reader frees a message that it was handed\<close>

datatype obs =
    Sent int
  | Got "byte list"
  | Eof
  | Blocked
  | Flag bool
  | Done

definition observe_read ::
  "((int \<times> bare_queue_message_t option) \<times> 'z qworld_scheme) \<Rightarrow> obs \<times> 'z qworld_scheme" where
  "observe_read r = (case r of ((status, message), w) \<Rightarrow>
     (case message of
        None \<Rightarrow> Blocked
      | Some m \<Rightarrow> if len m = 0 then Eof else Got (payload w m), w))"

definition observe :: "('a \<Rightarrow> obs) \<Rightarrow> 'a \<times> 'w \<Rightarrow> obs \<times> 'w" where
  "observe f = map_prod f id"

lemma observe_pair [simp]: "observe f (a, w) = (f a, w)"
  by (simp add: observe_def)

text \<open>
  A reader that frees a block the queue still owns is at fault, and so the step is one.
\<close>

fun queue_step :: "queue_op \<Rightarrow> 'z qworld_scheme \<Rightarrow> (obs \<times> 'z qworld_scheme) option" where
  "queue_step (Open_uv cb d) w = map_option (observe (\<lambda>_. Flag True)) (bare_queue_open_uv cb d w)"
| "queue_step (Open_thread cb d) w =
     map_option (observe (\<lambda>p. Flag (p \<noteq> None))) (bare_queue_open_thread cb d w)"
| "queue_step (Write p data) w = map_option (observe Sent) (bare_queue_write p data w)"
| "queue_step (Read p) w = map_option observe_read (bare_queue_read p w)"
| "queue_step (Readable p) w = map_option (observe Flag) (bare_queue_readable p w)"
| "queue_step (Writable p) w = map_option (observe Flag) (bare_queue_writable p w)"
| "queue_step (End p) w = map_option (Pair Done) (bare_queue_end p w)"
| "queue_step (Close p) w = map_option (Pair Done) (bare_queue_close p w)"
| "queue_step Destroy w = map_option (Pair Done) (bare_queue_destroy w)"
| "queue_step Shutdown_uv w = map_option (Pair Done) (bare_queue_shutdown_uv w)"
| "queue_step Wakeup w = map_option (Pair Done) (bare_queue__on_wakeup_uv w)"
| "queue_step (Release p) w =
     (if p \<in> owned w then None else map_option (Pair Done) (free_block p w))"

fun queue_run :: "queue_op list \<Rightarrow> 'z qworld_scheme \<Rightarrow> (obs list \<times> 'z qworld_scheme) option" where
  "queue_run [] w = Some ([], w)"
| "queue_run (op # ops) w = do {
     (ob, w) \<leftarrow> queue_step op w;
     (obs, w) \<leftarrow> queue_run ops w;
     Some (ob # obs, w)
   }"

section \<open>The abstract channel\<close>

record channel =
  waiting :: "port_ptr \<Rightarrow> byte list list" \<comment> \<open>what an end has yet to read\<close>
  phase :: "port_ptr \<Rightarrow> bare_queue_state_t"
  released :: bool \<comment> \<open>the worklet gave up its share\<close>

definition depth :: nat where
  "depth = BARE_QUEUE_CAPACITY - 1"

definition reclaim :: "channel \<Rightarrow> channel option" where
  "reclaim c = (if released c \<and> phase c Thread_port \<in> {bare_queue_state_idle, bare_queue_state_closed}
                then None else Some c)"

definition raise_phase :: "port_ptr \<Rightarrow> bare_queue_state_t \<Rightarrow> channel \<Rightarrow> channel" where
  "raise_phase p s c = c\<lparr>phase := (phase c)(p := max (phase c p) s)\<rparr>"

definition shut :: "channel \<Rightarrow> port_ptr \<Rightarrow> bool" where
  "shut c p \<longleftrightarrow> bare_queue_state_ended \<le> phase c p \<or> phase c (peer p) = bare_queue_state_closed"

fun spec_step :: "queue_op \<Rightarrow> channel \<Rightarrow> obs \<times> channel option" where
  "spec_step (Open_uv cb d) c =
     (Flag True, Some (c\<lparr>phase := (phase c)(Uv_port := bare_queue_state_open)\<rparr>))"
| "spec_step (Open_thread cb d) c =
     (if phase c Thread_port \<noteq> bare_queue_state_idle then (Flag False, Some c)
      else (Flag True, Some (c\<lparr>phase := (phase c)(Thread_port := bare_queue_state_open)\<rparr>)))"
| "spec_step (Write p data) c =
     (if data = [] then (Sent 0, Some c)
      else if shut c p then (Sent bare_queue_closed, Some c)
      else if length (waiting c (peer p)) = depth then (Sent bare_queue_would_block, Some c)
      else (Sent (int (min (length data) INT_MAX)),
            Some (c\<lparr>waiting := (waiting c)(peer p := waiting c (peer p) @ [take INT_MAX data])\<rparr>)))"
| "spec_step (Read p) c =
     (case waiting c p of
        d # ds \<Rightarrow> (Got d, Some (c\<lparr>waiting := (waiting c)(p := ds)\<rparr>))
      | [] \<Rightarrow> (if bare_queue_state_ended \<le> phase c (peer p) then Eof else Blocked, Some c))"
| "spec_step (Readable p) c =
     (Flag (waiting c p \<noteq> [] \<or> bare_queue_state_ended \<le> phase c (peer p)), Some c)"
| "spec_step (Writable p) c = (Flag (length (waiting c (peer p)) \<noteq> depth \<or> shut c p), Some c)"
| "spec_step (End p) c = (Done, reclaim (raise_phase p bare_queue_state_ended c))"
| "spec_step (Close p) c = (Done, reclaim (raise_phase p bare_queue_state_closed c))"
| "spec_step Destroy c = (Done, reclaim (c\<lparr>released := True\<rparr>))"
| "spec_step Shutdown_uv c = (Done, Some c)"
| "spec_step Wakeup c = (Done, Some c)"
| "spec_step (Release p) c = (Done, Some c)"

definition abs_queue :: "'z machine_scheme \<Rightarrow> bare_queue_t \<Rightarrow> channel" where
  "abs_queue w q =
     \<lparr>waiting = (\<lambda>p. map (payload w) (ring_messages (bare_queue__inbox q p))),
      phase = bare_queue__state q, released = destroyed q\<rparr>"

definition abs_world :: "'z qworld_scheme \<Rightarrow> channel option" where
  "abs_world w = map_option (abs_queue w) (queue w)"

section \<open>Refinement, operation by operation\<close>

lemma abs_queue_calls [simp]: "abs_queue (w\<lparr>calls := cs\<rparr>) = abs_queue w"
  "abs_queue (w\<lparr>queue := x\<rparr>) = abs_queue w"
  by (simp_all add: abs_queue_def payload_def fun_eq_iff)

lemma abs_waiting [simp]: "waiting (abs_queue w q) p = map (payload w) (ring_messages (bare_queue__inbox q p))"
  and abs_phase [simp]: "phase (abs_queue w q) = bare_queue__state q"
  and abs_released [simp]: "released (abs_queue w q) = destroyed q"
  by (simp_all add: abs_queue_def)

text \<open>A channel is determined by what waits, the phases and the share.\<close>

lemma channel_eqI:
  assumes "\<And>p. waiting c p = waiting c' p" "\<And>p. phase c p = phase c' p" "released c = released c'"
  shows "(c :: channel) = c'"
  using assms by (cases c; cases c') (auto simp: fun_eq_iff)

lemma write_closed_shut: "write_closed q p = shut (abs_queue w q) p"
  by (simp add: write_closed_def shut_def)

lemma abs_written:
  assumes ok: "world_ok w" and q: "queue w = Some q"
    and nf: "\<not> bare_queue__ring_full (bare_queue__inbox q (peer p))"
  shows "abs_world (written p data q w) = Some ((abs_queue w q)\<lparr>waiting :=
    (waiting (abs_queue w q))(peer p := waiting (abs_queue w q) (peer p) @ [take INT_MAX data])\<rparr>)"
proof -
  let ?n = "min (length data) INT_MAX"
  let ?m = "\<lparr>base = brk w, len = ?n\<rparr>"
  let ?box' = "snd (bare_queue__ring_push (bare_queue__inbox q (peer p)) ?m)"
  from ok q have h: "heap_ok w" and qok: "queue_ok w q" by (auto simp: world_ok_def)
  have po: "ports_ok q" using qok by (rule queue_ok_ports)
  have box': "ring_messages ?box' = ring_messages (bare_queue__inbox q (peer p)) @ [?m]"
    using ring_push_messages(2) [OF ring_ok_inbox [OF qok] nf] .
  have same: "payload (w\<lparr>brk := Suc (brk w), blocks := (blocks w)(brk w \<mapsto> d)\<rparr>) m = payload w m"
    if "m \<in> set (ring_messages (bare_queue__inbox q p'))" for m p' d
  proof -
    have "live_message w m" using qok that unfolding queue_ok_alt by blast
    then show ?thesis using heap_ok_fresh [OF h] by (auto simp: live_message_def payload_def)
  qed
  have new: "payload (w\<lparr>brk := Suc (brk w), blocks := (blocks w)(brk w \<mapsto> take ?n data)\<rparr>) ?m
      = take INT_MAX data"
    by (simp add: payload_def take_all_iff min_def)
  show ?thesis
    unfolding abs_world_def written_def Let_def
    by (simp, rule channel_eqI) (auto simp: inbox_store_inbox [OF po] box' same new)
qed

lemma abs_refused:
  "world_ok w \<Longrightarrow> queue w = Some q \<Longrightarrow> abs_world (refused w) = Some (abs_queue w q)"
  by (simp add: abs_world_def refused_def abs_queue_def payload_def fun_eq_iff)

lemma abs_locked_only: "queue w = Some q \<Longrightarrow> abs_world (locked_only w) = Some (abs_queue w q)"
  by (simp add: abs_world_def locked_only_def)

lemma full_iff_depth: "queue_ok w q \<Longrightarrow>
    bare_queue__ring_full (bare_queue__inbox q p) \<longleftrightarrow> length (waiting (abs_queue w q) p) = depth"
  using ring.full_iff [OF ring_ok_inbox, of w q p] by (simp add: depth_def)

lemma write_refines:
  assumes ok: "world_ok w" and q: "queue w = Some q"
    and st: "bare_queue_write p data w = Some (r, w')"
  shows "(Sent r, abs_world w') = spec_step (Write p data) (abs_queue w q)"
proof (cases "data = []")
  case True
  then show ?thesis using write_empty [OF q] st q by (simp add: abs_world_def)
next
  case False
  have mem: "\<not> oom w (brk w)" using write_oom [OF ok q False] st by auto
  have qok: "queue_ok w q" using ok q by (simp add: world_ok_def)
  show ?thesis
    using st False
    by (auto simp: write_eq [OF ok q False mem] write_closed_shut [of q p w] full_iff_depth [OF qok]
        abs_written [OF ok q] abs_refused [OF ok q] split: if_splits)
qed

lemma abs_taken:
  assumes ok: "world_ok w" and q: "queue w = Some q"
    and m: "ring_messages (bare_queue__inbox q p) = m # ms"
  shows "abs_world (taken p q w) = Some ((abs_queue w q)\<lparr>waiting :=
    (waiting (abs_queue w q))(p := map (payload w) ms)\<rparr>)"
proof -
  from ok q have qok: "queue_ok w q" by (simp add: world_ok_def)
  obtain box' where s: "bare_queue__ring_shift (bare_queue__inbox q p) = (Some m, box')"
      "ring_messages box' = ms"
    using ring.shift_Cons [OF ring_ok_inbox [OF qok] m] by auto
  show ?thesis
    unfolding abs_world_def taken_def Let_def
    by (simp, rule channel_eqI)
      (auto simp: inbox_store_inbox [OF queue_ok_ports [OF qok]] s)
qed

lemma read_refines:
  assumes ok: "world_ok w" and q: "queue w = Some q"
    and st: "bare_queue_read p w = Some r"
  shows "(case observe_read r of (ob, w') \<Rightarrow> (ob, abs_world w')) = spec_step (Read p) (abs_queue w q)"
proof (cases "ring_messages (bare_queue__inbox q p)")
  case Nil
  then show ?thesis
    using st q by (auto simp: read_eq [OF ok q] observe_read_def eof_message_def peer_ended_def
        abs_locked_only split: if_splits)
next
  case (Cons m ms)
  have "0 < len m" using read_message_live [OF ok q Cons] by (simp add: live_message_def)
  moreover have "payload (taken p q w) m = payload w m"
    by (simp add: payload_def taken_def Let_def)
  ultimately show ?thesis
    using st Cons by (auto simp: read_eq [OF ok q] observe_read_def abs_taken [OF ok q Cons])
qed

lemma abs_advanced:
  assumes "ports_ok q"
  shows "abs_queue w (advanced p s q) = raise_phase p s (abs_queue w q)"
  using assms
  by (intro channel_eqI)
    (auto simp: advanced_def raise_phase_def state_store_state max_def state_order)

lemma unowned_reclaim:
  assumes "ports_ok q"
  shows "reclaim (abs_queue w q) = (if bare_queue__unowned q then None else Some (abs_queue w q))"
  using assms
  by (simp add: reclaim_def bare_queue__unowned_def bare_queue__state_def is_uv_port_at)

lemma advanced_ports: "ports_ok q \<Longrightarrow> ports_ok (advanced p s q)"
  by (simp add: advanced_def)

lemma abs_freed [simp]: "abs_world (freed w) = None"
  by (simp add: abs_world_def freed_def)

lemma abs_advanced_world:
  "abs_world (advanced_world p s q w) = Some (abs_queue w (advanced p s q))"
  by (simp add: abs_world_def advanced_world_def)

lemma advance_refines:
  assumes ok: "world_ok w" and q: "queue w = Some q"
    and st: "bare_queue__advance p s w = Some w'"
  shows "abs_world w' = reclaim (raise_phase p s (abs_queue w q))"
proof -
  have po: "ports_ok q" using ok q by (auto simp: world_ok_def intro: queue_ok_ports)
  show ?thesis
    using st unowned_reclaim [OF advanced_ports [OF po], of w p s]
    by (auto simp: advance_eq [OF ok q] abs_advanced [OF po] abs_advanced_world split: if_splits)
qed

lemma destroy_refines:
  assumes ok: "world_ok w" and q: "queue w = Some q"
    and st: "bare_queue_destroy w = Some w'"
  shows "abs_world w' = reclaim ((abs_queue w q)\<lparr>released := True\<rparr>)"
proof -
  let ?q = "q\<lparr>destroyed := True\<rparr>"
  have po: "ports_ok ?q" using ok q by (auto simp: world_ok_def ports_ok_def queue_ok_def)
  have a: "abs_queue w ?q = (abs_queue w q)\<lparr>released := True\<rparr>"
    by (simp add: abs_queue_def bare_queue__inbox_def bare_queue__state_def port_at_def fun_eq_iff
        split: port_ptr.splits)
  have "abs_world (destroying q w) = Some (abs_queue w ?q)"
    by (simp add: abs_world_def destroying_def)
  then show ?thesis
    using st unowned_reclaim [OF po, of w] by (auto simp: destroy_eq [OF ok q] a split: if_splits)
qed

lemma open_uv_refines:
  assumes ok: "world_ok w" and q: "queue w = Some q"
    and st: "bare_queue_open_uv cb d w = Some (p, w')"
  shows "(Flag True, abs_world w') = spec_step (Open_uv cb d) (abs_queue w q)"
proof -
  have r: "ret w (Async_init Queue_async) = 0"
    using st q by (auto simp: bare_queue_open_uv_def emit_ok_def split: if_splits)
  have po: "is_uv (uv_port q)" "\<not> is_uv (thread_port q)"
    using ok q by (auto simp: world_ok_def queue_ok_def)
  show ?thesis
    using st po unfolding open_uv_eq [OF q r] abs_world_def
    by (auto intro!: channel_eqI simp: bare_queue__inbox_def bare_queue__state_def port_at_def
        split: port_ptr.splits)
qed

lemma open_thread_refines:
  assumes ok: "world_ok w" and q: "queue w = Some q"
    and st: "bare_queue_open_thread cb d w = Some (p, w')"
  shows "(Flag (p \<noteq> None), abs_world w') = spec_step (Open_thread cb d) (abs_queue w q)"
proof -
  have po: "is_uv (uv_port q)" "\<not> is_uv (thread_port q)"
    using ok q by (auto simp: world_ok_def queue_ok_def)
  then have th: "bare_queue__state q Thread_port = thread_state q"
    by (simp add: bare_queue__state_def port_at_def)
  show ?thesis
    using st po th unfolding open_thread_eq [OF q] abs_world_def
    by (auto intro!: channel_eqI simp: bare_queue__inbox_def bare_queue__state_def port_at_def q
        split: port_ptr.splits if_splits)
qed

lemma readable_eq:
  assumes "world_ok w" and "queue w = Some q"
  shows "bare_queue_readable p w =
    Some (waiting (abs_queue w q) p \<noteq> [] \<or> peer_ended q p, locked_only w)"
proof -
  have qok: "queue_ok w q" using assms by (simp add: world_ok_def)
  show ?thesis
    using assms(2) ring.empty_iff [OF ring_ok_inbox [OF qok], of p] queue_ok_ports [OF qok]
    by (simp add: bare_queue_readable_def locked_only_def emit_def peer_ended_def port_simps)
qed

lemma writable_eq:
  assumes "world_ok w" and "queue w = Some q"
  shows "bare_queue_writable p w =
    Some (length (waiting (abs_queue w q) (peer p)) \<noteq> depth \<or> write_closed q p, locked_only w)"
proof -
  have qok: "queue_ok w q" using assms by (simp add: world_ok_def)
  show ?thesis
    using assms(2) full_iff_depth [OF qok, of "peer p"] queue_ok_ports [OF qok]
    by (simp add: bare_queue_writable_def locked_only_def emit_def write_closed_def port_simps)
qed

end
