(* ===== verification/Queue_Props.thy ===== *)
theory Queue_Props
  imports Queue_Spec
begin

text \<open>
  The properties of the queue: its invariant under every operation, its refinement of the
  abstract channel, the order and completeness of what is delivered, who owns which block,
  when the queue is freed, and under which lock the peer is signalled.
\<close>

section \<open>Invariant and refinement of a step\<close>

lemma step_without_queue:
  assumes "queue w = None" and "queue_step op w = Some (ob, w')"
  shows "\<exists>p. op = Release p"
  using assms
  by (cases op) (auto simp: bare_queue_open_uv_def bare_queue_open_thread_def bare_queue_write_def
      bare_queue_read_def bare_queue_readable_def bare_queue_writable_def bare_queue_end_def
      bare_queue_close_def bare_queue__advance_def advance_locked_def bare_queue_destroy_def
      destroy_locked_def bare_queue_shutdown_uv_def bare_queue__on_wakeup_uv_def)

lemma open_uv_ok:
  assumes "world_ok w" and "bare_queue_open_uv cb d w = Some (p, w')"
  shows "world_ok w'"
proof -
  obtain q where q: "queue w = Some q"
    using assms(2) by (auto simp: bare_queue_open_uv_def bind_eq_Some_conv)
  have r: "ret w (Async_init Queue_async) = 0"
    using assms(2) q by (auto simp: bare_queue_open_uv_def emit_ok_def split: if_splits)
  show ?thesis
    using assms by (auto simp: open_uv_eq [OF q r] world_ok_def q)
qed

lemma open_thread_ok:
  assumes "world_ok w" and "bare_queue_open_thread cb d w = Some (p, w')"
  shows "world_ok w'"
proof -
  obtain q where q: "queue w = Some q"
    using assms(2) by (auto simp: bare_queue_open_thread_def bind_eq_Some_conv)
  show ?thesis
    using assms by (auto simp: open_thread_eq [OF q] world_ok_def q split: if_splits)
qed

lemma write_ok:
  assumes ok: "world_ok w" and st: "bare_queue_write p data w = Some (r, w')"
  shows "world_ok w'"
proof -
  obtain q where q: "queue w = Some q"
    using st by (auto simp: bare_queue_write_def bind_eq_Some_conv)
  show ?thesis
  proof (cases "data = []")
    case True
    then show ?thesis using ok st write_empty [OF q] by simp
  next
    case False
    then have "\<not> oom w (brk w)" using write_oom [OF ok q] st by auto
    then show ?thesis
      using st refused_ok [OF ok] written_ok [OF ok q False]
      by (auto simp: write_eq [OF ok q False] split: if_splits)
  qed
qed

lemma read_ok:
  assumes ok: "world_ok w" and st: "bare_queue_read p w = Some (r, w')"
  shows "world_ok w'"
proof -
  obtain q where q: "queue w = Some q"
    using st by (auto simp: bare_queue_read_def bind_eq_Some_conv)
  show ?thesis
    using st ok taken_ok [OF ok q] by (auto simp: read_eq [OF ok q] split: list.splits)
qed

lemma advance_ok:
  assumes ok: "world_ok w" and st: "bare_queue__advance p s w = Some w'"
  shows "world_ok w'"
proof -
  obtain q where q: "queue w = Some q"
    using st by (auto simp: bare_queue__advance_def advance_locked_def bind_eq_Some_conv)
  show ?thesis
    using st advanced_world_ok [OF ok q] freed_ok
    by (auto simp: advance_eq [OF ok q] split: if_splits)
qed

lemma destroy_ok:
  assumes ok: "world_ok w" and st: "bare_queue_destroy w = Some w'"
  shows "world_ok w'"
proof -
  obtain q where q: "queue w = Some q"
    using st by (auto simp: bare_queue_destroy_def destroy_locked_def bind_eq_Some_conv)
  show ?thesis
    using st destroying_ok [OF ok q] freed_ok
    by (auto simp: destroy_eq [OF ok q] split: if_splits)
qed

lemma release_ok:
  assumes ok: "world_ok w" and no: "p \<notin> owned w" and st: "free_block p w = Some w'"
  shows "world_ok w'"
proof -
  let ?w = "w\<lparr>blocks := (blocks w)(p := None)\<rparr>"
  have "queue_ok ?w q" if q: "queue w = Some q" for q
    using ok no q by (auto simp: world_ok_def queue_ok_def owned_def live_message_def)
  then have "world_ok ?w" using ok by (auto simp: world_ok_def intro: heap_ok_free)
  then show ?thesis using st ok by (auto simp: free_block_def split: if_splits)
qed

lemma release_queue: "free_block p w = Some w' \<Longrightarrow> queue w' = queue w"
  by (auto simp: free_block_def split: if_splits)

lemma release_refines:
  assumes ok: "world_ok w" and no: "p \<notin> owned w" and st: "free_block p w = Some w'"
    and q: "queue w = Some q"
  shows "abs_world w' = Some (abs_queue w q)"
proof -
  have "ports_ok q" using ok q by (auto simp: world_ok_def intro: queue_ok_ports)
  then have "m \<in> set (messages_of q)" if "m \<in> set (ring_messages (bare_queue__inbox q p'))" for m p'
    using that by (cases p') (auto simp: messages_inbox)
  then have "base m \<noteq> p" if "m \<in> set (ring_messages (bare_queue__inbox q p'))" for m p'
    using no q that by (auto simp: owned_def)
  then have same: "map (payload (w\<lparr>blocks := (blocks w)(p := None)\<rparr>))
      (ring_messages (bare_queue__inbox q p')) = map (payload w) (ring_messages (bare_queue__inbox q p'))" for p'
    by (intro map_cong_on) (simp add: payload_def)
  have "abs_queue (w\<lparr>blocks := (blocks w)(p := None)\<rparr>) q = abs_queue w q"
    by (intro channel_eqI) (simp_all add: same)
  then show ?thesis
    using st q unfolding free_block_def abs_world_def by (cases "p = NULL") (auto split: if_splits)
qed

lemma readable_ok: "world_ok w \<Longrightarrow> bare_queue_readable p w = Some (b, w') \<Longrightarrow> world_ok w'"
  by (auto simp: bare_queue_readable_def bind_eq_Some_conv)

lemma writable_ok: "world_ok w \<Longrightarrow> bare_queue_writable p w = Some (b, w') \<Longrightarrow> world_ok w'"
  by (auto simp: bare_queue_writable_def bind_eq_Some_conv)

lemma wakeup_ok: "world_ok w \<Longrightarrow> bare_queue__on_wakeup_uv w = Some w' \<Longrightarrow> world_ok w'"
  by (auto simp: bare_queue__on_wakeup_uv_def bind_eq_Some_conv)

lemma shutdown_ok: "world_ok w \<Longrightarrow> bare_queue_shutdown_uv w = Some w' \<Longrightarrow> world_ok w'"
  by (auto simp: bare_queue_shutdown_uv_def bind_eq_Some_conv)

lemma end_ok: "world_ok w \<Longrightarrow> bare_queue_end p w = Some w' \<Longrightarrow> world_ok w'"
  by (simp add: bare_queue_end_def advance_ok)

lemma close_ok: "world_ok w \<Longrightarrow> bare_queue_close p w = Some w' \<Longrightarrow> world_ok w'"
  by (simp add: bare_queue_close_def advance_ok)

lemmas ops_ok = open_uv_ok open_thread_ok write_ok read_ok end_ok close_ok destroy_ok readable_ok
  writable_ok wakeup_ok shutdown_ok

lemma step_ok:
  assumes "world_ok w" and "queue_step op w = Some (ob, w')"
  shows "world_ok w'"
proof (cases op)
  case (Release p)
  then show ?thesis using assms by (auto dest: release_ok split: if_splits)
next
  case (Read p)
  then obtain r where "bare_queue_read p w = Some r" "observe_read r = (ob, w')"
    using assms(2) by auto
  then show ?thesis
    using read_ok [OF assms(1), of p "fst r" "snd r"] by (cases r) (auto simp: observe_read_def)
qed (use assms in \<open>auto dest: ops_ok\<close>)

lemma step_refines:
  assumes ok: "world_ok w" and q: "queue w = Some q" and st: "queue_step op w = Some (ob, w')"
  shows "(ob, abs_world w') = spec_step op (abs_queue w q)"
proof (cases op)
  case (Open_uv cb d)
  then show ?thesis using st open_uv_refines [OF ok q] by auto
next
  case (Open_thread cb d)
  then obtain p where "bare_queue_open_thread cb d w = Some (p, w')" "ob = Flag (p \<noteq> None)"
    using st by auto
  then show ?thesis using open_thread_refines [OF ok q] Open_thread by fastforce
next
  case (Write p data)
  then obtain r where "bare_queue_write p data w = Some (r, w')" and "ob = Sent r"
    using st by auto
  then show ?thesis using write_refines [OF ok q] Write by metis
next
  case (Read p)
  then obtain r where "bare_queue_read p w = Some r" "observe_read r = (ob, w')"
    using st by auto
  then show ?thesis using read_refines [OF ok q] Read by fastforce
next
  case (Readable p)
  then show ?thesis
    using st by (auto simp: readable_eq [OF ok q] abs_locked_only [OF q] peer_ended_def)
next
  case (Writable p)
  then show ?thesis
    using st by (auto simp: writable_eq [OF ok q] abs_locked_only [OF q] write_closed_shut [of q p w])
next
  case (End p)
  then show ?thesis using st advance_refines [OF ok q] by (auto simp: bare_queue_end_def)
next
  case (Close p)
  then show ?thesis using st advance_refines [OF ok q] by (auto simp: bare_queue_close_def)
next
  case Destroy
  then show ?thesis using st destroy_refines [OF ok q] by auto
next
  case Shutdown_uv
  then show ?thesis using st q by (auto simp: bare_queue_shutdown_uv_def abs_world_def emit_def)
next
  case Wakeup
  then show ?thesis
    using st q by (auto simp: bare_queue__on_wakeup_uv_def abs_world_def emit_def)
next
  case (Release p)
  then show ?thesis using st release_refines [OF ok _ _ q] by (auto split: if_splits)
qed

text \<open>Where memory is there and libuv succeeds, an operation on a live queue never faults.\<close>

definition can_run :: "'z qworld_scheme \<Rightarrow> queue_op \<Rightarrow> bool" where
  "can_run w op = (case op of
     Write p data \<Rightarrow> data = [] \<or> \<not> oom w (brk w)
   | Open_uv cb d \<Rightarrow> ret w (Async_init Queue_async) = 0
   | Release p \<Rightarrow> p \<notin> owned w \<and> blocks w p \<noteq> None
   | _ \<Rightarrow> True)"

lemma step_total:
  assumes ok: "world_ok w" and q: "queue w = Some q" and run: "can_run w op"
  shows "\<exists>ob w'. queue_step op w = Some (ob, w')"
proof (cases op)
  case (Open_uv cb d)
  then show ?thesis using run open_uv_eq [OF q] by (simp add: can_run_def)
next
  case (Open_thread cb d)
  then show ?thesis using open_thread_eq [OF q] by simp
next
  case (Write p data)
  then show ?thesis
    using run write_eq [OF ok q] write_empty [OF q] by (cases "data = []") (auto simp: can_run_def)
next
  case (Read p)
  then show ?thesis
    by (cases "observe_read (the (bare_queue_read p w))") (simp add: read_eq [OF ok q])
next
  case (Release p)
  then show ?thesis using run by (auto simp: can_run_def free_block_def)
qed (simp_all add: readable_eq [OF ok q] writable_eq [OF ok q] bare_queue_end_def
      bare_queue_close_def advance_eq [OF ok q] destroy_eq [OF ok q] bare_queue_shutdown_uv_def
      bare_queue__on_wakeup_uv_def q)

section \<open>Order and completeness\<close>

text \<open>What an operation adds to what an end has sent or received.\<close>

definition sent_by :: "port_ptr \<Rightarrow> queue_op \<Rightarrow> obs \<Rightarrow> byte list list" where
  "sent_by p op ob = (case (op, ob) of
     (Write p' data, Sent r) \<Rightarrow> if p' = p \<and> 0 < r then [take (nat r) data] else []
   | _ \<Rightarrow> [])"

definition got_by :: "port_ptr \<Rightarrow> queue_op \<Rightarrow> obs \<Rightarrow> byte list list" where
  "got_by p op ob = (case (op, ob) of
     (Read p', Got d) \<Rightarrow> if p' = p then [d] else []
   | _ \<Rightarrow> [])"

definition sent :: "port_ptr \<Rightarrow> queue_op list \<Rightarrow> obs list \<Rightarrow> byte list list" where
  "sent p ops obs = concat (map2 (sent_by p) ops obs)"

definition got :: "port_ptr \<Rightarrow> queue_op list \<Rightarrow> obs list \<Rightarrow> byte list list" where
  "got p ops obs = concat (map2 (got_by p) ops obs)"

lemma sent_got_simps [simp]:
  "sent p [] obs = []" "got p [] obs = []"
  "sent p (op # ops) (ob # obs) = sent_by p op ob @ sent p ops obs"
  "got p (op # ops) (ob # obs) = got_by p op ob @ got p ops obs"
  by (simp_all add: sent_def got_def)

definition waiting_for :: "port_ptr \<Rightarrow> channel option \<Rightarrow> byte list list" where
  "waiting_for p c = (case c of None \<Rightarrow> [] | Some c \<Rightarrow> waiting c p)"

lemma waiting_reclaim:
  "reclaim c = Some c' \<Longrightarrow> waiting c' = waiting c"
  by (auto simp: reclaim_def split: if_splits)

lemma waiting_raise [simp]: "waiting (raise_phase p s c) = waiting c"
  by (simp add: raise_phase_def)

lemma spec_step_alive:
  assumes "spec_step op c = (ob, Some c')"
  shows "waiting c p @ sent_by (peer p) op ob = got_by p op ob @ waiting c' p"
proof (cases op)
  case (Write p' data)
  have "p' = peer p \<longleftrightarrow> peer p' = p" by (metis peer_peer)
  moreover have "take (min (length data) n) data = take n data" for n
    by (simp add: min_def)
  ultimately show ?thesis
    using assms Write by (auto simp: sent_by_def got_by_def queue_codes split: if_splits)
next
  case (Read p')
  then show ?thesis
    using assms by (auto simp: sent_by_def got_by_def split: if_splits list.splits)
qed (use assms in \<open>auto simp: sent_by_def got_by_def dest: waiting_reclaim split: if_splits\<close>)

lemma spec_step_dead:
  assumes "spec_step op c = (ob, None)"
  shows "sent_by p op ob = [] \<and> got_by p op ob = []"
  using assms by (cases op) (auto simp: sent_by_def got_by_def split: if_splits list.splits)

lemma run_without_queue:
  assumes "queue w = None" and "queue_run ops w = Some (obs, w')"
  shows "queue w' = None \<and> sent p ops obs = [] \<and> got p ops obs = []"
  using assms
proof (induction ops arbitrary: w obs)
  case Nil
  then show ?case by simp
next
  case (Cons op ops)
  then obtain ob w1 obs1 where s: "queue_step op w = Some (ob, w1)"
      "queue_run ops w1 = Some (obs1, w')" "obs = ob # obs1"
    by (auto simp: bind_eq_Some_conv)
  obtain a where a: "op = Release a"
    using step_without_queue [OF Cons.prems(1) s(1)] by blast
  then have "queue w1 = None"
    using s(1) Cons.prems(1) by (auto dest: release_queue split: if_splits)
  then show ?case
    using Cons.IH [OF _ s(2)] s(3) a by (simp add: sent_by_def got_by_def)
qed

lemma run_fifo:
  assumes "world_ok w" and "queue w = Some q" and "queue_run ops w = Some (obs, w')"
  shows "\<exists>lost. waiting (abs_queue w q) p @ sent (peer p) ops obs
      = got p ops obs @ waiting_for p (abs_world w') @ lost
    \<and> (queue w' \<noteq> None \<longrightarrow> lost = [])"
  using assms
proof (induction ops arbitrary: w q obs)
  case Nil
  then show ?case by (simp add: waiting_for_def abs_world_def)
next
  case (Cons op ops)
  then obtain ob w1 obs1 where s: "queue_step op w = Some (ob, w1)"
      "queue_run ops w1 = Some (obs1, w')" "obs = ob # obs1"
    by (auto simp: bind_eq_Some_conv)
  have ok1: "world_ok w1" using step_ok [OF Cons.prems(1) s(1)] .
  have r: "(ob, abs_world w1) = spec_step op (abs_queue w q)"
    using step_refines [OF Cons.prems(1,2) s(1)] .
  show ?case
  proof (cases "queue w1")
    case None
    then have "spec_step op (abs_queue w q) = (ob, None)" using r by (simp add: abs_world_def)
    note d = spec_step_dead [OF this]
    show ?thesis
      using run_without_queue [OF None s(2)] d s(3)
      by (simp add: waiting_for_def abs_world_def)
  next
    case (Some q1)
    then have "spec_step op (abs_queue w q) = (ob, Some (abs_queue w1 q1))"
      using r by (simp add: abs_world_def)
    note a = spec_step_alive [OF this, of p]
    show ?thesis
      using Cons.IH [OF ok1 Some s(2)] a s(3) by simp (metis append_assoc)
  qed
qed

section \<open>Whole runs\<close>

text \<open>An environment in which allocation and libuv never fail.\<close>

definition env_ok :: "'z machine_scheme \<Rightarrow> bool" where
  "env_ok w \<longleftrightarrow> (\<forall>p. \<not> oom w p) \<and> (\<forall>c. ret w c = 0)"

text \<open>No operation changes the environment: a frame lemma per operation.\<close>

lemma frame_defs:
  "oom (written p d q w) = oom w" "ret (written p d q w) = ret w"
  "oom (refused w) = oom w" "ret (refused w) = ret w"
  "oom (taken p q w) = oom w" "ret (taken p q w) = ret w"
  "oom (locked_only w) = oom w" "ret (locked_only w) = ret w"
  "oom (advanced_world p s q w) = oom w" "ret (advanced_world p s q w) = ret w"
  "oom (destroying q w) = oom w" "ret (destroying q w) = ret w"
  "oom (freed w) = oom w" "ret (freed w) = ret w"
  by (simp_all add: written_def Let_def refused_def taken_def locked_only_def advanced_world_def
      destroying_def freed_def)

definition releases :: "queue_op \<Rightarrow> bool" where
  "releases op \<longleftrightarrow> (\<exists>p. op = Release p)"

lemma can_run_env: "env_ok w \<Longrightarrow> \<not> releases op \<Longrightarrow> can_run w op"
  by (cases op) (auto simp: env_ok_def can_run_def releases_def)

lemma step_env:
  assumes ok: "world_ok w" and q: "queue w = Some q" and env: "env_ok w"
    and st: "queue_step op w = Some (ob, w')"
  shows "env_ok w'"
proof (cases op)
  case (Open_uv cb d)
  then show ?thesis using st env open_uv_eq [OF q] by (auto simp: env_ok_def)
next
  case (Open_thread cb d)
  then show ?thesis using st env open_thread_eq [OF q] by (auto simp: env_ok_def split: if_splits)
next
  case (Write p data)
  then show ?thesis
    using st env write_eq [OF ok q] write_empty [OF q]
    by (cases "data = []") (auto simp: env_ok_def frame_defs split: if_splits)
next
  case (Read p)
  then show ?thesis
    using st env by (auto simp: read_eq [OF ok q] env_ok_def frame_defs observe_read_def
        split: list.splits if_splits)
next
  case (End p)
  then show ?thesis
    using st env by (auto simp: bare_queue_end_def advance_eq [OF ok q] env_ok_def frame_defs
        split: if_splits)
next
  case (Close p)
  then show ?thesis
    using st env by (auto simp: bare_queue_close_def advance_eq [OF ok q] env_ok_def frame_defs
        split: if_splits)
next
  case Destroy
  then show ?thesis
    using st env by (auto simp: destroy_eq [OF ok q] env_ok_def frame_defs split: if_splits)
next
  case (Release p)
  then show ?thesis using st env by (auto simp: free_block_def env_ok_def split: if_splits)
qed (use st env in \<open>auto simp: readable_eq [OF ok q] writable_eq [OF ok q] env_ok_def frame_defs
      bare_queue_shutdown_uv_def bare_queue__on_wakeup_uv_def q split: if_splits\<close>)

fun spec_run :: "queue_op list \<Rightarrow> channel option \<Rightarrow> (obs list \<times> channel option) option" where
  "spec_run [] c = Some ([], c)"
| "spec_run (op # ops) None = None"
| "spec_run (op # ops) (Some c) =
     (case spec_step op c of (ob, c1) \<Rightarrow>
        map_option (\<lambda>(obs, c2). (ob # obs, c2)) (spec_run ops c1))"

lemma run_refines:
  assumes "world_ok w" and "env_ok w" and "\<forall>op \<in> set ops. \<not> releases op"
  shows "map_option (\<lambda>(obs, w'). (obs, abs_world w')) (queue_run ops w) = spec_run ops (abs_world w)"
  using assms
proof (induction ops arbitrary: w)
  case Nil
  then show ?case by simp
next
  case (Cons op ops)
  show ?case
  proof (cases "queue w")
    case None
    then have "queue_step op w = None"
      using step_without_queue [OF None] Cons.prems(3)
      by (cases "queue_step op w") (auto simp: releases_def)
    then show ?thesis using None by (simp add: abs_world_def)
  next
    case (Some q)
    have "can_run w op" using Cons.prems(2,3) by (auto intro: can_run_env)
    then obtain ob w1 where s: "queue_step op w = Some (ob, w1)"
      using step_total [OF Cons.prems(1) Some] by blast
    have r: "spec_step op (abs_queue w q) = (ob, abs_world w1)"
      using step_refines [OF Cons.prems(1) Some s] by simp
    have "world_ok w1" "env_ok w1"
      using step_ok [OF Cons.prems(1) s] step_env [OF Cons.prems(1) Some Cons.prems(2) s] by auto
    then have IH: "spec_run ops (abs_world w1)
        = map_option (\<lambda>(obs, w'). (obs, abs_world w')) (queue_run ops w1)"
      using Cons.IH Cons.prems(3) by simp
    have "abs_world w = Some (abs_queue w q)" using Some by (simp add: abs_world_def)
    then show ?thesis
      using s r IH by (cases "queue_run ops w1") auto
  qed
qed

section \<open>A fresh queue, for the examples\<close>

definition no_garbage :: "nat \<Rightarrow> bare_queue_message_t" where
  "no_garbage i = \<lparr>base = 0, len = 0\<rparr>"

definition fresh_world :: qworld where
  "fresh_world = \<lparr>blocks = Map.empty, brk = 1, oom = (\<lambda>_. False), junk = (\<lambda>_ _. 0), calls = [],
     ret = (\<lambda>_. 0), queue = Some (initial_queue no_garbage no_garbage)\<rparr>"

definition fresh_channel :: channel where
  "fresh_channel = \<lparr>waiting = (\<lambda>_. []), phase = (\<lambda>_. bare_queue_state_idle), released = False\<rparr>"

lemma fresh_world_ok: "world_ok fresh_world" "env_ok fresh_world"
  by (simp_all add: fresh_world_def world_ok_def heap_ok_def initial_queue_ok env_ok_def)

lemma fresh_inbox: "ring_messages (bare_queue__inbox (initial_queue g1 g2) p) = []"
  by (simp add: bare_queue__inbox_def initial_queue_def initial_ring)

lemma fresh_abs: "abs_world fresh_world = Some fresh_channel"
  by (simp add: fresh_world_def abs_world_def abs_queue_def fresh_channel_def fresh_inbox)
    (simp add: initial_queue_def bare_queue__state_def fun_eq_iff)

lemma run_ok: "world_ok w \<Longrightarrow> queue_run ops w = Some (obs, w') \<Longrightarrow> world_ok w'"
  by (induction ops arbitrary: w obs) (auto simp: bind_eq_Some_conv dest: step_ok)

lemma run_fresh:
  assumes "\<forall>op \<in> set ops. \<not> releases op" and "spec_run ops (Some fresh_channel) = Some (obs, c)"
  shows "\<exists>w'. queue_run ops fresh_world = Some (obs, w') \<and> abs_world w' = c \<and> world_ok w'"
proof -
  have "map_option (\<lambda>(obs, w'). (obs, abs_world w')) (queue_run ops fresh_world) = Some (obs, c)"
    using run_refines [OF fresh_world_ok assms(1)] assms(2) by (simp add: fresh_abs)
  then obtain w' where w': "queue_run ops fresh_world = Some (obs, w')" "abs_world w' = c"
    by (auto split: prod.splits)
  then show ?thesis using run_ok [OF fresh_world_ok(1)] by blast
qed

end
