(* ===== verification/Queue_Ownership.thy ===== *)
theory Queue_Ownership
  imports Queue_Props
begin

text \<open>
  Who owns which block, who frees the queue and when, and what is done under the lock.
\<close>

section \<open>Blocks\<close>

text \<open>The blocks that are not the queue's: the caller's, with their bytes.\<close>

definition caller_heap :: "'z qworld_scheme \<Rightarrow> ptr \<rightharpoonup> byte list" where
  "caller_heap w = blocks w |` (- owned w)"

text \<open>The message that the next read of an end hands over.\<close>

definition next_message :: "'z qworld_scheme \<Rightarrow> port_ptr \<Rightarrow> bare_queue_message_t option" where
  "next_message w p = (case queue w of
     None \<Rightarrow> None
   | Some q \<Rightarrow> (case ring_messages (bare_queue__inbox q p) of [] \<Rightarrow> None | m # _ \<Rightarrow> Some m))"

lemma owned_bases: "queue w = Some q \<Longrightarrow> ports_ok q \<Longrightarrow>
    owned w = set (bases q p) \<union> set (bases q (peer p))"
  using set_messages [of q p] by (simp add: owned_def)

lemma owned_frame [simp]:
  "owned (w\<lparr>calls := cs\<rparr>) = owned w" "owned (w\<lparr>brk := b\<rparr>) = owned w"
  "owned (w\<lparr>blocks := bs\<rparr>) = owned w"
  by (simp_all add: owned_def)

lemma caller_heap_calls [simp]: "caller_heap (w\<lparr>calls := cs\<rparr>) = caller_heap w"
  by (simp add: caller_heap_def)

lemma caller_written:
  assumes ok: "world_ok w" and q: "queue w = Some q"
    and nf: "\<not> bare_queue__ring_full (bare_queue__inbox q (peer p))"
  shows "caller_heap (written p data q w) = caller_heap w"
proof -
  from ok q have h: "heap_ok w" and qok: "queue_ok w q" by (auto simp: world_ok_def)
  have po: "ports_ok q" using qok by (rule queue_ok_ports)
  let ?box' = "snd (bare_queue__ring_push (bare_queue__inbox q (peer p))
    \<lparr>base = brk w, len = min (length data) INT_MAX\<rparr>)"
  have "ring_messages ?box' = ring_messages (bare_queue__inbox q (peer p))
      @ [\<lparr>base = brk w, len = min (length data) INT_MAX\<rparr>]"
    using ring_push_messages(2) [OF ring_ok_inbox [OF qok] nf] .
  then have "owned (written p data q w) = insert (brk w) (owned w)"
    using po q owned_bases [of w q "peer p"]
      owned_bases [of "written p data q w" "store_inbox q (peer p) ?box'" "peer p"]
    by (simp add: written_def Let_def bases_store_inbox) (auto simp: bases_def)
  moreover have "blocks (written p data q w)
      = (blocks w)(brk w \<mapsto> take (min (length data) INT_MAX) data)"
    by (simp add: written_def Let_def)
  ultimately show ?thesis
    using heap_ok_fresh [OF h] by (auto simp: caller_heap_def restrict_map_def fun_eq_iff)
qed

lemma owned_taken:
  assumes ok: "world_ok w" and q: "queue w = Some q"
    and m: "ring_messages (bare_queue__inbox q p) = m # ms"
  shows "owned (taken p q w) = owned w - {base m} \<and> base m \<in> owned w"
proof -
  from ok q have qok: "queue_ok w q" by (simp add: world_ok_def)
  have po: "ports_ok q" using qok by (rule queue_ok_ports)
  obtain box' where s: "bare_queue__ring_shift (bare_queue__inbox q p) = (Some m, box')"
      "ring_messages box' = ms"
    using ring.shift_Cons [OF ring_ok_inbox [OF qok] m] by auto
  have "distinct (bases q p)" "set (bases q p) \<inter> set (bases q (peer p)) = {}"
    using qok po by (auto simp: queue_ok_def distinct_messages [of q p])
  then show ?thesis
    using po q m s owned_bases [of w q p] owned_bases [of "taken p q w" "store_inbox q p box'" p]
    by (simp add: taken_def Let_def bases_store_inbox) (auto simp: bases_def)
qed

lemma caller_taken:
  assumes "world_ok w" and "queue w = Some q"
    and "ring_messages (bare_queue__inbox q p) = m # ms"
  shows "caller_heap (taken p q w) = (caller_heap w)(base m := blocks w (base m))"
proof -
  have "blocks (taken p q w) = blocks w" by (simp add: taken_def Let_def)
  then show ?thesis
    using owned_taken [OF assms] by (auto simp: caller_heap_def restrict_map_def fun_eq_iff)
qed

lemma caller_freed [simp]: "caller_heap (freed w) = caller_heap w"
  by (auto simp: caller_heap_def freed_def owned_def)

lemma caller_advanced [simp]:
  "queue w = Some q \<Longrightarrow> caller_heap (advanced_world p s q w) = caller_heap w"
  by (auto simp: caller_heap_def advanced_world_def owned_def advanced_def messages_of_def)

lemma caller_destroying [simp]:
  "queue w = Some q \<Longrightarrow> caller_heap (destroying q w) = caller_heap w"
  by (simp add: caller_heap_def destroying_def owned_def messages_of_def)

lemma caller_locked [simp]: "caller_heap (locked_only w) = caller_heap w"
  by (simp add: locked_only_def)

lemma caller_refused [simp]: "caller_heap (refused w) = caller_heap w"
  by (simp add: caller_heap_def refused_def owned_def)

lemma caller_open:
  assumes "queue w = Some q"
  shows "bare_queue_open_uv cb d w = Some r \<Longrightarrow> caller_heap (snd r) = caller_heap w"
    and "bare_queue_open_thread cb d w = Some r' \<Longrightarrow> caller_heap (snd r') = caller_heap w"
proof -
  assume a: "bare_queue_open_uv cb d w = Some r"
  then have "ret w (Async_init Queue_async) = 0"
    using assms by (auto simp: bare_queue_open_uv_def emit_ok_def split: if_splits)
  then show "caller_heap (snd r) = caller_heap w"
    using a assms by (auto simp: open_uv_eq caller_heap_def owned_def messages_of_def)
next
  assume "bare_queue_open_thread cb d w = Some r'"
  then show "caller_heap (snd r') = caller_heap w"
    using assms by (auto simp: open_thread_eq caller_heap_def owned_def messages_of_def
        split: if_splits)
qed

lemma step_caller_heap:
  assumes ok: "world_ok w" and q: "queue w = Some q" and st: "queue_step op w = Some (ob, w')"
  shows "caller_heap w' = (case op of
      Read p \<Rightarrow> (case next_message w p of
          None \<Rightarrow> caller_heap w
        | Some m \<Rightarrow> (caller_heap w)(base m := blocks w (base m)))
    | Release p \<Rightarrow> if p = NULL then caller_heap w else (caller_heap w)(p := None)
    | _ \<Rightarrow> caller_heap w)"
proof (cases op)
  case (Open_uv cb d)
  then show ?thesis using st caller_open(1) [OF q] by fastforce
next
  case (Open_thread cb d)
  then show ?thesis using st caller_open(2) [OF q] by fastforce
next
  case (Write p data)
  then show ?thesis
    using st write_oom [OF ok q] write_eq [OF ok q, of data p] write_empty [OF q]
      caller_written [OF ok q]
    by (cases "data = []"; cases "oom w (brk w)") (auto split: if_splits)
next
  case (Read p)
  then show ?thesis
    using st caller_taken [OF ok q]
    by (auto simp: read_eq [OF ok q] next_message_def q observe_read_def
        split: list.splits if_splits)
next
  case (End p)
  then show ?thesis
    using st q by (auto simp: bare_queue_end_def advance_eq [OF ok q] split: if_splits)
next
  case (Close p)
  then show ?thesis
    using st q by (auto simp: bare_queue_close_def advance_eq [OF ok q] split: if_splits)
next
  case Destroy
  then show ?thesis using st q by (auto simp: destroy_eq [OF ok q] split: if_splits)
next
  case (Release p)
  then show ?thesis
    using st by (auto simp: free_block_def caller_heap_def restrict_map_def fun_eq_iff
        split: if_splits)
qed (use st in \<open>auto simp: readable_eq [OF ok q] writable_eq [OF ok q] bare_queue_shutdown_uv_def
      bare_queue__on_wakeup_uv_def q emit_def split: if_splits\<close>)

end
