(* ===== verification/Queue_Life.thy ===== *)
theory Queue_Life
  imports Queue_Ownership
begin

text \<open>
  The life of a queue: when its last share is given up and it is freed, which way its ends
  move, and the discipline of its lock.
\<close>

section \<open>The shares\<close>

text \<open>
  The operations after which the host end is no longer idle, so that it holds a share until
  it is closed.
\<close>

definition takes_host :: "queue_op \<Rightarrow> bool" where
  "takes_host op = (case op of
     Open_thread cb d \<Rightarrow> True
   | End p \<Rightarrow> p = Thread_port
   | _ \<Rightarrow> False)"

text \<open>Both shares are gone: nothing holds the channel any more.\<close>

definition unheld :: "channel \<Rightarrow> bool" where
  "unheld c \<longleftrightarrow> released c \<and> phase c Thread_port \<in> {bare_queue_state_idle, bare_queue_state_closed}"

definition given_up :: "channel \<Rightarrow> queue_op list \<Rightarrow> bool" where
  "given_up c ops \<longleftrightarrow> (released c \<or> Destroy \<in> set ops)
     \<and> (phase c Thread_port = bare_queue_state_closed \<or> Close Thread_port \<in> set ops
        \<or> phase c Thread_port = bare_queue_state_idle \<and> (\<forall>op \<in> set ops. \<not> takes_host op))"

lemma reclaim_unheld: "reclaim c = (if unheld c then None else Some c)"
  by (simp add: reclaim_def unheld_def)

lemma max_state [simp]:
  "max s bare_queue_state_closed = bare_queue_state_closed"
  "max bare_queue_state_idle s = s"
  "max bare_queue_state_ended bare_queue_state_ended = bare_queue_state_ended"
  by (cases s; simp add: max_def state_order)+

lemma max_ended: "max s bare_queue_state_ended =
    (if s = bare_queue_state_closed then bare_queue_state_closed else bare_queue_state_ended)"
  by (cases s) (simp_all add: max_def state_order)

text \<open>A step ends the channel exactly when it gives up the last share.\<close>

lemma spec_step_freed:
  assumes "\<not> unheld c" and "spec_step op c = (ob, c')"
  shows "c' = None \<longleftrightarrow> given_up c [op]"
  using assms
  by (cases op) (auto simp: reclaim_unheld unheld_def given_up_def takes_host_def raise_phase_def
      max_ended split: if_splits list.splits)

lemma spec_step_held:
  assumes "\<not> unheld c" and "spec_step op c = (ob, Some c')"
  shows "\<not> unheld c' \<and> given_up c (op # ops) = given_up c' ops"
proof -
  have "\<not> given_up c [op]" using spec_step_freed [OF assms] by simp
  then show ?thesis
    using assms
    by (cases op) (auto simp: reclaim_unheld unheld_def given_up_def takes_host_def raise_phase_def
        max_ended split: if_splits list.splits)
qed

lemma given_up_mono: "given_up c [op] \<Longrightarrow> (\<forall>op \<in> set ops. \<exists>p. op = Release p) \<Longrightarrow> given_up c (op # ops)"
  by (auto simp: given_up_def takes_host_def)

lemma run_only_releases:
  assumes "queue w = None" and "queue_run ops w = Some (obs, w')"
  shows "\<forall>op \<in> set ops. \<exists>p. op = Release p"
  using assms
proof (induction ops arbitrary: w obs)
  case Nil
  then show ?case by simp
next
  case (Cons op ops)
  then obtain ob w1 obs1 where s: "queue_step op w = Some (ob, w1)"
      "queue_run ops w1 = Some (obs1, w')"
    by (auto simp: bind_eq_Some_conv)
  obtain a where a: "op = Release a"
    using step_without_queue [OF Cons.prems(1) s(1)] by blast
  then have "queue w1 = None" using s(1) Cons.prems(1) by (auto dest: release_queue split: if_splits)
  then show ?case using Cons.IH [OF _ s(2)] a by simp
qed

lemma run_freed:
  assumes "world_ok w" and "queue w = Some q" and "\<not> unheld (abs_queue w q)"
    and "queue_run ops w = Some (obs, w')"
  shows "queue w' = None \<longleftrightarrow> given_up (abs_queue w q) ops"
  using assms
proof (induction ops arbitrary: w q obs)
  case Nil
  then show ?case by (auto simp: given_up_def unheld_def)
next
  case (Cons op ops)
  then obtain ob w1 obs1 where s: "queue_step op w = Some (ob, w1)"
      "queue_run ops w1 = Some (obs1, w')"
    by (auto simp: bind_eq_Some_conv)
  have r: "spec_step op (abs_queue w q) = (ob, abs_world w1)"
    using step_refines [OF Cons.prems(1,2) s(1)] by simp
  show ?case
  proof (cases "queue w1")
    case None
    then have "given_up (abs_queue w q) [op]"
      using spec_step_freed [OF Cons.prems(3) r] by (simp add: abs_world_def)
    moreover have "queue w' = None" using run_without_queue [OF None s(2)] by simp
    ultimately show ?thesis using given_up_mono run_only_releases [OF None s(2)] by blast
  next
    case (Some q1)
    then have "spec_step op (abs_queue w q) = (ob, Some (abs_queue w1 q1))"
      using r by (simp add: abs_world_def)
    note h = spec_step_held [OF Cons.prems(3) this]
    show ?thesis
      using Cons.IH [OF step_ok [OF Cons.prems(1) s(1)] Some _ s(2)] h by blast
  qed
qed

section \<open>The direction of the ends\<close>

lemma spec_step_forward:
  assumes "spec_step op c = (ob, Some c')"
    and "\<And>cb d. op = Open_uv cb d \<Longrightarrow> phase c Uv_port = bare_queue_state_idle"
  shows "phase c p \<le> phase c' p \<and> (released c \<longrightarrow> released c')"
  using assms
  by (cases op) (auto simp: reclaim_def raise_phase_def state_order max_def split: if_splits list.splits)

section \<open>The lock\<close>

datatype lock_state = Lock_none | Lock_free | Lock_held

text \<open>
  What a sequence of calls does to the lock: \<open>None\<close> where it is taken twice, released or
  destroyed without being held or free, used before its initialisation or after its
  destruction, or where the host's signal is called without it.
\<close>

fun lock_after :: "lock_state \<Rightarrow> call list \<Rightarrow> lock_state option" where
  "lock_after s [] = Some s"
| "lock_after s (c # cs) =
     (case c of
        Mutex_init Queue_lock \<Rightarrow> if s = Lock_none then lock_after Lock_free cs else None
      | Mutex_lock Queue_lock \<Rightarrow> if s = Lock_free then lock_after Lock_held cs else None
      | Mutex_unlock Queue_lock \<Rightarrow> if s = Lock_held then lock_after Lock_free cs else None
      | Mutex_destroy Queue_lock \<Rightarrow> if s = Lock_free then lock_after Lock_none cs else None
      | Callback _ _ \<Rightarrow> if s = Lock_held then lock_after s cs else None
      | _ \<Rightarrow> lock_after s cs)"

definition lock_of :: "'z qworld_scheme \<Rightarrow> lock_state" where
  "lock_of w = (if queue w = None then Lock_none else Lock_free)"

lemma lock_after_append: "lock_after s (cs @ ds) = Option.bind (lock_after s cs) (\<lambda>t. lock_after t ds)"
  by (induction cs arbitrary: s) (auto split: call.splits lock_id.splits)

text \<open>The calls of a critical section, with or without a signal in it.\<close>

lemma lock_after_signal [simp]:
  "lock_after Lock_held (peer_signal q p @ [Mutex_unlock Queue_lock]) = Some Lock_free"
  "lock_after Lock_held (peer_signal q p @ Mutex_unlock Queue_lock # cs) = lock_after Lock_free cs"
  by (simp_all add: peer_signal_def)

lemma release_calls: "free_block p w = Some w' \<Longrightarrow> calls w' = calls w"
  by (auto simp: free_block_def split: if_splits)

lemma step_lock:
  assumes ok: "world_ok w" and q: "queue w = Some q" and st: "queue_step op w = Some (ob, w')"
    and nw: "op \<noteq> Wakeup"
  shows "\<exists>cs. calls w' = calls w @ cs \<and> lock_after Lock_free cs = Some (lock_of w')"
proof (cases op)
  case (Open_uv cb d)
  then have "ret w (Async_init Queue_async) = 0"
    using st q by (auto simp: bare_queue_open_uv_def emit_ok_def split: if_splits)
  then show ?thesis using st Open_uv q by (auto simp: open_uv_eq lock_of_def)
next
  case (Open_thread cb d)
  then show ?thesis using st q by (auto simp: open_thread_eq lock_of_def split: if_splits)
next
  case (Write p data)
  then show ?thesis
    using st q write_oom [OF ok q] write_eq [OF ok q, of data p] write_empty [OF q]
    by (cases "data = []"; cases "oom w (brk w)")
      (auto simp: refused_def written_def Let_def lock_of_def split: if_splits)
next
  case (Read p)
  then show ?thesis
    using st q by (auto simp: read_eq [OF ok q] observe_read_def taken_def locked_only_def Let_def
        lock_of_def split: list.splits if_splits)
next
  case (End p)
  then show ?thesis
    using st by (auto simp: bare_queue_end_def advance_eq [OF ok q] advanced_world_def freed_def
        lock_of_def split: if_splits)
next
  case (Close p)
  then show ?thesis
    using st by (auto simp: bare_queue_close_def advance_eq [OF ok q] advanced_world_def freed_def
        lock_of_def split: if_splits)
next
  case Destroy
  then show ?thesis
    using st by (auto simp: destroy_eq [OF ok q] destroying_def freed_def lock_of_def
        split: if_splits)
next
  case (Release p)
  then have f: "free_block p w = Some w'" using st by (auto split: if_splits)
  then have "queue w' = queue w" by (rule release_queue)
  then show ?thesis using release_calls [OF f] q by (auto simp: lock_of_def intro!: exI [of _ "[]"])
qed (use st q nw in \<open>auto simp: readable_eq [OF ok q] writable_eq [OF ok q] bare_queue_shutdown_uv_def
      locked_only_def lock_of_def\<close>)

lemma run_lock:
  assumes "world_ok w" and "queue_run ops w = Some (obs, w')" and "Wakeup \<notin> set ops"
  shows "\<exists>cs. calls w' = calls w @ cs \<and> lock_after (lock_of w) cs = Some (lock_of w')"
  using assms
proof (induction ops arbitrary: w obs)
  case Nil
  then show ?case by simp
next
  case (Cons op ops)
  then obtain ob w1 obs1 where s: "queue_step op w = Some (ob, w1)"
      "queue_run ops w1 = Some (obs1, w')"
    by (auto simp: bind_eq_Some_conv)
  have one: "\<exists>cs. calls w1 = calls w @ cs \<and> lock_after (lock_of w) cs = Some (lock_of w1)"
  proof (cases "queue w")
    case None
    then obtain a where "op = Release a" using step_without_queue s(1) by blast
    then have f: "free_block a w = Some w1" using s(1) by (auto split: if_splits)
    then have "queue w1 = queue w" by (rule release_queue)
    then show ?thesis using release_calls [OF f] by (auto simp: lock_of_def intro!: exI [of _ "[]"])
  next
    case (Some q)
    moreover from this have "lock_of w = Lock_free" by (simp add: lock_of_def)
    ultimately show ?thesis using step_lock [OF Cons.prems(1) Some s(1)] Cons.prems(3) by auto
  qed
  obtain ds where "calls w' = calls w1 @ ds" "lock_after (lock_of w1) ds = Some (lock_of w')"
    using Cons.IH [OF step_ok [OF Cons.prems(1) s(1)] s(2)] Cons.prems(3) by auto
  then show ?case using one by (auto simp: lock_after_append)
qed

end
