(* ===== verification/Queue_Theorems.thy ===== *)
theory Queue_Theorems
  imports Queue_Life
begin

text \<open>
  The properties of the queue, each with an example where its hypotheses hold. The examples
  run on \<open>fresh_world\<close>, a queue just created; \<open>run_fresh\<close> evaluates such a run.
\<close>

section \<open>The ring\<close>

text \<open>
  A ring started empty is a first-in first-out list of at most 1023 messages. Whatever
  the history of pushes and shifts, the messages that \<open>bare_queue__ring_push\<close> accepted are
  those that \<open>bare_queue__ring_shift\<close> handed out followed by those still in the ring, in the
  same order; both indices stay inside the array however often they wrap around; and the next
  push is accepted exactly when fewer than 1023 messages are in the ring.
\<close>

theorem ring_history:
  "case fifo_run bare_queue__ring_push bare_queue__ring_shift ops
      \<lparr>slots = map g [0..<BARE_QUEUE_CAPACITY], head = 0, tail = 0\<rparr> of
    (accepted, out, r) \<Rightarrow>
      accepted = out @ ring_messages r
      \<and> unat (head r) < 1024 \<and> unat (tail r) < 1024 \<and> length (slots r) = 1024
      \<and> (fst (bare_queue__ring_push r m) \<longleftrightarrow> length (ring_messages r) < 1023)"
proof -
  let ?r0 = "\<lparr>slots = map g [0..<BARE_QUEUE_CAPACITY], head = 0, tail = 0\<rparr>"
  obtain acc out r where run: "fifo_run bare_queue__ring_push bare_queue__ring_shift ops ?r0
      = (acc, out, r)"
    by (metis prod_cases3)
  have ok: "ring_ok r" and c: "acc = out @ ring_messages r"
    using ring.run_conserves [OF initial_ring(1) run] by (simp_all add: initial_ring)
  have "fst (bare_queue__ring_push r m) \<longleftrightarrow> length (ring_messages r) < BARE_QUEUE_CAPACITY - 1"
    by (rule ring.push_iff [OF ok])
  then show ?thesis using run ok c by (simp add: ring_ok_def capacity)
qed

section \<open>Refinement\<close>

lemma initial_not_full: "\<not> bare_queue__ring_full (bare_queue__inbox (initial_queue g1 g2) p)"
proof -
  have "ring_ok (bare_queue__inbox (initial_queue g1 g2) p)"
    using initial_queue_ok by (rule ring_ok_inbox)
  then show ?thesis using ring.full_iff fresh_inbox [of g1 g2 p] by (simp add: capacity del: length_ring_messages)
qed

text \<open>
  C23: The queue is the channel it promises. Any sequence of operations of the two ends, run
  from a well-formed world where memory and libuv do not fail, returns to its callers
  what the abstract channel of \<open>spec_step\<close> returns, and ends in a queue that stands for the
  channel's final state; and the run is a fault exactly when the specification uses a
  channel that has been freed, so that on a live queue the code itself is never at fault.
\<close>

theorem queue_refines_channel:
  assumes "world_ok w" and "env_ok w" and "\<forall>op \<in> set ops. \<not> releases op"
  shows "map_option (\<lambda>(obs, w'). (obs, abs_world w')) (queue_run ops w) = spec_run ops (abs_world w)"
  using assms by (rule run_refines)

lemma fresh_no_fault:
  "spec_run [Open_uv 1 0, Write Uv_port [1, 2], End Uv_port, Open_thread 2 0, Read Thread_port,
     Read Thread_port, Close Thread_port, Destroy] (Some fresh_channel)
   = Some ([Flag True, Sent 2, Done, Flag True, Got [1, 2], Eof, Done, Done], None)"
  by (simp add: fresh_channel_def shut_def raise_phase_def reclaim_def depth_def capacity
      INT_MAX_def max_def state_order)

theorem queue_refines_channel_witness:
  "\<exists>w'. queue_run [Open_uv 1 0, Write Uv_port [1, 2], End Uv_port, Open_thread 2 0, Read Thread_port,
     Read Thread_port, Close Thread_port, Destroy] fresh_world
   = Some ([Flag True, Sent 2, Done, Flag True, Got [1, 2], Eof, Done, Done], w') \<and> queue w' = None"
proof -
  let ?ops = "[Open_uv 1 0, Write Uv_port [1, 2], End Uv_port, Open_thread 2 0, Read Thread_port,
     Read Thread_port, Close Thread_port, Destroy]"
  have "map_option (\<lambda>(obs, w'). (obs, abs_world w')) (queue_run ?ops fresh_world)
      = spec_run ?ops (abs_world fresh_world)"
    by (rule queue_refines_channel [OF fresh_world_ok]) (simp add: releases_def)
  then show ?thesis
    unfolding fresh_abs fresh_no_fault by (auto simp: abs_world_def simp del: queue_run.simps)
qed

text \<open>
  C24: Nothing is lost, duplicated, reordered or altered. In any run on a live queue, what an
  end had yet to read, followed by what the other end's writes reported as sent, is what it
  then read followed by what it has yet to read, byte for byte. What was never read is lost
  only when the queue is freed.
\<close>

theorem queue_delivers_in_order:
  assumes "world_ok w" and "queue w = Some q" and "queue_run ops w = Some (obs, w')"
  shows "\<exists>lost. waiting (abs_queue w q) p @ sent (peer p) ops obs
      = got p ops obs @ waiting_for p (abs_world w') @ lost
    \<and> (queue w' \<noteq> None \<longrightarrow> lost = [])"
  using assms by (rule run_fifo)

theorem queue_delivers_in_order_witness:
  "\<exists>w' :: qworld. waiting_for Uv_port (abs_world w') = [[8, 9]]
     \<and> sent Thread_port [Write Thread_port [7], Write Thread_port [8, 9], Read Uv_port]
         [Sent 1, Sent 2, Got [7]]
       = got Uv_port [Write Thread_port [7], Write Thread_port [8, 9], Read Uv_port]
           [Sent 1, Sent 2, Got [7]] @ waiting_for Uv_port (abs_world w')"
proof -
  let ?ops = "[Write Thread_port [7], Write Thread_port [8, 9], Read Uv_port]"
    and ?obs = "[Sent 1, Sent 2, Got [7]]" and ?q = "initial_queue no_garbage no_garbage"
  let ?c = "fresh_channel\<lparr>waiting := (\<lambda>_. [])(Uv_port := [[8, 9]])\<rparr>"
  have "spec_run ?ops (Some fresh_channel) = Some (?obs, Some ?c)"
    by (simp add: fresh_channel_def shut_def depth_def capacity INT_MAX_def state_order)
  then obtain w' where r: "queue_run ?ops fresh_world = Some (?obs, w')" "abs_world w' = Some ?c"
    using run_fresh [of ?ops ?obs "Some ?c"] by (auto simp: releases_def simp del: queue_run.simps)
  have q: "queue fresh_world = Some ?q"
    by (simp add: fresh_world_def)
  have w: "waiting_for Uv_port (abs_world w') = [[8, 9]]" "queue w' \<noteq> None"
    using r(2) by (auto simp: waiting_for_def abs_world_def)
  have e: "waiting (abs_queue fresh_world ?q) Uv_port = []"
    by (simp add: fresh_inbox)
  obtain lost where "waiting (abs_queue fresh_world ?q) Uv_port @ sent (peer Uv_port) ?ops ?obs
      = got Uv_port ?ops ?obs @ waiting_for Uv_port (abs_world w') @ lost" "lost = []"
    using queue_delivers_in_order [OF fresh_world_ok(1) q r(1), of Uv_port] w(2) by blast
  then show ?thesis using w(1) 
    unfolding e peer.simps by (intro exI [of _ w']) (simp only: append_Nil append_Nil2 simp_thms)
qed

section \<open>Memory and shares\<close>

text \<open>
  C25: Every block has one owner. No operation of the queue changes, frees or leaks a block
  of a caller, or reads one; the only block that ever changes hands is that of the message
  which a read returns, and it goes to the reader with its bytes. The blocks of messages that
  were not accepted are freed, and so is every message of a queue that is freed.
\<close>

theorem queue_block_ownership:
  assumes "world_ok w" and "queue w = Some q" and "queue_step op w = Some (ob, w')"
  shows "caller_heap w' = (case op of
      Read p \<Rightarrow> (case next_message w p of
          None \<Rightarrow> caller_heap w
        | Some m \<Rightarrow> (caller_heap w)(base m := blocks w (base m)))
    | Release p \<Rightarrow> if p = NULL then caller_heap w else (caller_heap w)(p := None)
    | _ \<Rightarrow> caller_heap w)"
  using assms by (rule step_caller_heap)

theorem queue_block_ownership_witness:
  "\<exists>w'. queue_step (Write Uv_port [5]) fresh_world = Some (Sent 1, w')
     \<and> caller_heap w' = Map.empty \<and> blocks w' = [1 \<mapsto> [5]]"
proof -
  have q: "queue fresh_world = Some (initial_queue no_garbage no_garbage)"
    by (simp add: fresh_world_def)
  have "\<not> write_closed (initial_queue no_garbage no_garbage) Uv_port"
    by (simp add: write_closed_def initial_queue_def port_defs port_at_def state_order)
  moreover have "\<not> bare_queue__ring_full (bare_queue__inbox (initial_queue no_garbage no_garbage) Thread_port)"
    by (rule initial_not_full)
  ultimately have w: "bare_queue_write Uv_port [5] fresh_world =
      Some (1, written Uv_port [5] (initial_queue no_garbage no_garbage) fresh_world)"
    using write_eq [OF fresh_world_ok(1) q, of "[5]" Uv_port]
    by (simp add: fresh_world_def INT_MAX_def)
  then have "caller_heap (written Uv_port [5] (initial_queue no_garbage no_garbage) fresh_world)
      = caller_heap fresh_world"
    using queue_block_ownership [OF fresh_world_ok(1) q, of "Write Uv_port [5]"] by simp
  then show ?thesis
    using w by (simp add: written_def Let_def INT_MAX_def) (simp add: fresh_world_def caller_heap_def)
qed

text \<open>
  C35: The queue is freed exactly when its last share goes. A run on a live queue that was
  just created frees it if and only if the worklet gave up its share with
  \<open>bare_queue_destroy\<close> and the host end was closed or never opened, in whichever order;
  neither ending an end nor closing the worklet's end frees it.
\<close>

theorem queue_freed_with_last_share:
  assumes "world_ok w" and "abs_world w = Some fresh_channel" and "queue_run ops w = Some (obs, w')"
  shows "queue w' = None \<longleftrightarrow> Destroy \<in> set ops
    \<and> (Close Thread_port \<in> set ops \<or> (\<forall>op \<in> set ops. \<not> takes_host op))"
proof -
  obtain q where q: "queue w = Some q" "abs_queue w q = fresh_channel"
    using assms(2) by (auto simp: abs_world_def)
  show ?thesis
    using run_freed [OF assms(1) q(1) _ assms(3)]
    by (simp add: q(2) fresh_channel_def unheld_def given_up_def)
qed

theorem queue_freed_with_last_share_witness:
  "\<exists>w'. queue_run [Open_thread 1 0, Destroy, Close Uv_port, Read Thread_port, Close Thread_port]
       fresh_world = Some ([Flag True, Done, Done, Eof, Done], w') \<and> queue w' = None"
proof -
  let ?ops = "[Open_thread 1 0, Destroy, Close Uv_port, Read Thread_port, Close Thread_port]"
  have "spec_run ?ops (Some fresh_channel) = Some ([Flag True, Done, Done, Eof, Done], None)"
    by (simp add: fresh_channel_def raise_phase_def reclaim_def max_def state_order)
  then obtain w' where r: "queue_run ?ops fresh_world = Some ([Flag True, Done, Done, Eof, Done], w')"
    using run_fresh [of ?ops] by (auto simp: releases_def simp del: queue_run.simps)
  have "queue w' = None"
    unfolding queue_freed_with_last_share [OF fresh_world_ok(1) fresh_abs r] by simp
  then show ?thesis using r by blast
qed

section \<open>States and lock\<close>

text \<open>
  Each end only moves forward through idle, open, ended and closed, as long as the
  worklet's end is opened once: no operation that leaves the queue alive lowers the state of
  either end or takes back the worklet's release.
\<close>

theorem queue_states_move_forward:
  assumes "world_ok w" and "queue w = Some q" and "queue_step op w = Some (ob, w')"
    and "queue w' = Some q'"
    and "\<And>cb d. op = Open_uv cb d \<Longrightarrow> bare_queue__state q Uv_port = bare_queue_state_idle"
  shows "bare_queue__state q p \<le> bare_queue__state q' p \<and> (destroyed q \<longrightarrow> destroyed q')"
proof -
  have "spec_step op (abs_queue w q) = (ob, Some (abs_queue w' q'))"
    using step_refines [OF assms(1-3)] assms(4) by (simp add: abs_world_def)
  then show ?thesis using spec_step_forward [of op "abs_queue w q" ob "abs_queue w' q'" p] assms(5) by simp
qed

theorem queue_states_move_forward_witness:
  "\<exists>w' q'. queue_step (Close Uv_port) fresh_world = Some (Done, w') \<and> queue w' = Some q'
     \<and> bare_queue_state_idle \<le> bare_queue__state q' Uv_port
     \<and> bare_queue__state q' Uv_port = bare_queue_state_closed"
proof -
  let ?q = "initial_queue no_garbage no_garbage"
  have q: "queue fresh_world = Some ?q" by (simp add: fresh_world_def)
  let ?w' = "advanced_world Uv_port bare_queue_state_closed ?q fresh_world"
    and ?q' = "advanced Uv_port bare_queue_state_closed ?q"
  have a: "?q' = ?q\<lparr>uv_state := bare_queue_state_closed\<rparr>"
    by (simp add: advanced_def initial_queue_def port_defs port_at_def state_order)
  have "\<not> bare_queue__unowned ?q'"
    by (simp add: a bare_queue__unowned_def) (simp add: initial_queue_def)
  then have st: "queue_step (Close Uv_port) fresh_world = Some (Done, ?w')"
    using advance_eq [OF fresh_world_ok(1) q] by (simp add: bare_queue_close_def)
  have q': "queue ?w' = Some ?q'" by (simp add: advanced_world_def)
  have "bare_queue__state ?q Uv_port \<le> bare_queue__state ?q' Uv_port"
    using queue_states_move_forward [OF fresh_world_ok(1) q st q', of Uv_port] by simp
  moreover have "bare_queue__state ?q Uv_port = bare_queue_state_idle"
    "bare_queue__state ?q' Uv_port = bare_queue_state_closed"
    by (simp_all add: a) (simp_all add: initial_queue_def port_defs port_at_def)
  ultimately show ?thesis using st q' by (intro exI [of _ ?w'] exI [of _ ?q']) simp
qed

text \<open>
  The lock is used as a mutex must be, and the host is signalled under it. Over any run
  of the operations, the lock is taken only when free, released and destroyed only when held
  and free, never used after the queue that holds it is freed; every host callback is
  called while it is held; and it is free again after each run. (The worklet's own
  \<open>on_recv\<close> runs from libuv, which \<open>Wakeup\<close> stands for.)
\<close>

theorem queue_lock_discipline:
  assumes "world_ok w" and "queue_run ops w = Some (obs, w')" and "Wakeup \<notin> set ops"
  shows "\<exists>cs. calls w' = calls w @ cs \<and> lock_after (lock_of w) cs = Some (lock_of w')"
  using assms by (rule run_lock)

theorem queue_lock_discipline_witness:
  "\<exists>w'. queue_run [Open_thread 1 0, Write Uv_port [5], Close Thread_port, Destroy] fresh_world
       = Some ([Flag True, Sent 1, Done, Done], w')
     \<and> lock_after Lock_free (calls w') = Some Lock_none"
proof -
  let ?ops = "[Open_thread 1 0, Write Uv_port [5], Close Thread_port, Destroy]"
  have "spec_run ?ops (Some fresh_channel) = Some ([Flag True, Sent 1, Done, Done], None)"
    by (simp add: fresh_channel_def raise_phase_def reclaim_def max_def state_order shut_def
        depth_def capacity INT_MAX_def)
  then obtain w' where r: "queue_run ?ops fresh_world = Some ([Flag True, Sent 1, Done, Done], w')"
      "abs_world w' = None"
    using run_fresh [of ?ops] by (auto simp: releases_def simp del: queue_run.simps)
  have "calls fresh_world = []" "lock_of fresh_world = Lock_free" "lock_of w' = Lock_none"
    using r(2) by (simp_all add: fresh_world_def lock_of_def abs_world_def)
  then show ?thesis
    using queue_lock_discipline [OF fresh_world_ok(1) r(1)] r(1)
    by (auto simp del: queue_run.simps lock_after.simps)
qed

end
