(* ===== verification/Queue_Results.thy ===== *)
theory Queue_Results
  imports Queue_Theorems
begin

text \<open>
  What the operations of the queue return: the status codes of reads and writes against the
  two questions a poller asks, the number of bytes written, and the end of the stream.
\<close>

section \<open>Reading a queue to its end\<close>

lemma read_step:
  assumes ok: "world_ok w" and q: "queue w = Some q"
  shows "\<exists>w' q'. queue w' = Some q' \<and> world_ok w' \<and>
    (case waiting (abs_queue w q) p of
       [] \<Rightarrow> queue_step (Read p) w
           = Some (if bare_queue_state_ended \<le> bare_queue__state q (peer p) then Eof else Blocked, w')
         \<and> abs_queue w' q' = abs_queue w q
     | d # ds \<Rightarrow> queue_step (Read p) w = Some (Got d, w')
         \<and> abs_queue w' q' = (abs_queue w q)\<lparr>waiting := (waiting (abs_queue w q))(p := ds)\<rparr>)"
proof -
  obtain ob w' where s: "queue_step (Read p) w = Some (ob, w')"
    using step_total [OF ok q, of "Read p"] by (auto simp: can_run_def simp del: queue_step.simps)
  have r: "(ob, abs_world w') = spec_step (Read p) (abs_queue w q)"
    by (rule step_refines [OF ok q s])
  show ?thesis
    using r s step_ok [OF ok s]
    by (cases "waiting (abs_queue w q) p"; cases "queue w'")
      (auto simp: abs_world_def simp del: abs_waiting queue_step.simps)
qed

lemma reads_to_end:
  assumes "world_ok w" and "queue w = Some q"
    and "bare_queue_state_ended \<le> bare_queue__state q (peer p)"
  shows "\<exists>w'. queue_run (replicate (length (waiting (abs_queue w q) p) + k) (Read p)) w
    = Some (map Got (waiting (abs_queue w q) p) @ replicate k Eof, w')"
  using assms
proof (induction "waiting (abs_queue w q) p" arbitrary: w q k)
  case Nil
  then show ?case
  proof (induction k arbitrary: w q)
    case 0
    then show ?case by simp
  next
    case (Suc k)
    obtain w' q' where s: "queue_step (Read p) w = Some (Eof, w')" "queue w' = Some q'" "world_ok w'"
        "abs_queue w' q' = abs_queue w q"
      using read_step [OF Suc.prems(2,3), of p] Suc.prems(4)
      by (auto simp: Suc.prems(1) [symmetric] simp del: abs_waiting queue_step.simps)
    have "[] = waiting (abs_queue w' q') p" "bare_queue_state_ended \<le> bare_queue__state q' (peer p)"
      using Suc.prems(1,4) s(4) by (metis, metis abs_phase)
    then obtain w2 where "queue_run (replicate k (Read p)) w' = Some (replicate k Eof, w2)"
      using Suc.IH [of w' q'] s(2,3) by (metis add.left_neutral append_Nil list.map(1) list.size(3))
    then show ?case
      using s(1) by (simp add: Suc.prems(1) [symmetric] del: queue_step.simps abs_waiting)
  qed
next
  case (Cons d ds)
  obtain w' q' where s: "queue_step (Read p) w = Some (Got d, w')" "queue w' = Some q'" "world_ok w'"
      "abs_queue w' q' = (abs_queue w q)\<lparr>waiting := (waiting (abs_queue w q))(p := ds)\<rparr>"
    using read_step [OF Cons.prems(1,2), of p]
    by (auto simp: Cons.hyps(2) [symmetric] simp del: abs_waiting queue_step.simps)
  have d: "ds = waiting (abs_queue w' q') p" using s(4) by (simp del: abs_waiting)
  moreover have "phase (abs_queue w' q') = phase (abs_queue w q)" using s(4) by simp
  then have "bare_queue_state_ended \<le> bare_queue__state q' (peer p)"
    using Cons.prems(3) by simp
  ultimately obtain w2 where "queue_run (replicate (length ds + k) (Read p)) w'
      = Some (map Got ds @ replicate k Eof, w2)"
    using Cons.hyps(1) [OF d s(3,2), of k] unfolding d [symmetric] by blast
  then show ?case
    using s(1) by (simp add: Cons.hyps(2) [symmetric] del: queue_step.simps abs_waiting)
qed

section \<open>The results\<close>

text \<open>
  \<open>bare_queue_readable\<close> answers true exactly when a \<open>bare_queue_read\<close> at that moment
  would not return \<open>bare_queue_would_block\<close>, and asking changes nothing but the use of the
  lock.
\<close>

theorem readable_iff_read_returns:
  assumes "world_ok w" and "queue w = Some q"
    and "bare_queue_readable p w = Some (b, w1)" and "bare_queue_read p w = Some ((r, m), w2)"
  shows "(b \<longleftrightarrow> r \<noteq> bare_queue_would_block) \<and> w1 = locked_only w"
  using assms(3,4)
  by (auto simp: readable_eq [OF assms(1,2)] read_eq [OF assms(1,2)] queue_codes
      split: list.splits if_splits)

theorem readable_iff_read_returns_witness:
  "\<exists>w2. bare_queue_read Uv_port fresh_world = Some ((bare_queue_would_block, None), w2)
     \<and> bare_queue_readable Uv_port fresh_world = Some (False, locked_only fresh_world)"
proof -
  let ?q = "initial_queue no_garbage no_garbage"
  have q: "queue fresh_world = Some ?q" by (simp add: fresh_world_def)
  have pe: "\<not> peer_ended ?q Uv_port"
    by (simp add: peer_ended_def initial_queue_def port_defs port_at_def state_order)
  have r: "bare_queue_read Uv_port fresh_world
      = Some ((bare_queue_would_block, None), locked_only fresh_world)"
    using read_eq [OF fresh_world_ok(1) q] pe by (simp add: fresh_inbox)
  obtain b w1 where b: "bare_queue_readable Uv_port fresh_world = Some (b, w1)"
    using readable_eq [OF fresh_world_ok(1) q] by simp
  show ?thesis
    using readable_iff_read_returns [OF fresh_world_ok(1) q b r] b r by simp
qed

text \<open>
  \<open>bare_queue_writable\<close> answers true exactly when a \<open>bare_queue_write\<close> of some bytes
  at that moment would not return \<open>bare_queue_would_block\<close>.
\<close>

theorem writable_iff_write_returns:
  assumes "world_ok w" and "queue w = Some q" and "data \<noteq> []"
    and "bare_queue_writable p w = Some (b, w1)" and "bare_queue_write p data w = Some (r, w2)"
  shows "b \<longleftrightarrow> r \<noteq> bare_queue_would_block"
proof -
  have mem: "\<not> oom w (brk w)" using write_oom [OF assms(1-3)] assms(5) by auto
  have qok: "queue_ok w q" using assms(1,2) by (simp add: world_ok_def)
  have "int (min (length data) INT_MAX) \<noteq> bare_queue_would_block" by (simp add: queue_codes)
  moreover have "bare_queue_closed \<noteq> bare_queue_would_block" by (simp add: queue_codes)
  ultimately show ?thesis
    using assms(4,5) full_iff_depth [OF qok, of "peer p"]
    by (auto simp: writable_eq [OF assms(1,2)] write_eq [OF assms(1-3) mem] split: if_splits)
qed

theorem writable_iff_write_returns_witness:
  "\<exists>w1 w2. bare_queue_writable Uv_port fresh_world = Some (True, w1)
     \<and> bare_queue_write Uv_port [5] fresh_world = Some (1, w2)"
proof -
  let ?q = "initial_queue no_garbage no_garbage"
  have q: "queue fresh_world = Some ?q" by (simp add: fresh_world_def)
  have c: "\<not> write_closed ?q Uv_port"
    by (simp add: write_closed_def initial_queue_def port_defs port_at_def state_order)
  have r: "bare_queue_write Uv_port [5] fresh_world = Some (1, written Uv_port [5] ?q fresh_world)"
    using write_eq [OF fresh_world_ok(1) q, of "[5]" Uv_port] c initial_not_full
    by (simp add: fresh_world_def INT_MAX_def)
  obtain b w1 where b: "bare_queue_writable Uv_port fresh_world = Some (b, w1)"
    using writable_eq [OF fresh_world_ok(1) q] by simp
  have "b" using writable_iff_write_returns [OF fresh_world_ok(1) q _ b r] by (simp add: queue_codes)
  then show ?thesis using b r by auto
qed

text \<open>
  The result of \<open>bare_queue_write\<close> is unambiguous for every length: it is 0 only for
  no bytes, a negative status only when nothing was queued, and otherwise the number of
  bytes queued, between 1 and \<open>INT_MAX\<close>, which for a longer buffer is \<open>INT_MAX\<close> so that
  the caller writes the rest.
\<close>

theorem write_result_unambiguous:
  assumes "world_ok w" and "queue w = Some q" and "bare_queue_write p data w = Some (r, w')"
  shows "(r = 0 \<longleftrightarrow> data = []) \<and> (r < 0 \<longrightarrow> r = bare_queue_would_block \<or> r = bare_queue_closed)
    \<and> (0 < r \<longrightarrow> r = int (min (length data) INT_MAX) \<and> r \<le> int INT_MAX)
    \<and> waiting_for (peer p) (abs_world w')
        = waiting (abs_queue w q) (peer p) @ (if 0 < r then [take (nat r) data] else [])"
proof (cases "data = []")
  case True
  then show ?thesis
    using assms write_empty [OF assms(2)] by (simp add: waiting_for_def abs_world_def)
next
  case False
  have mem: "\<not> oom w (brk w)" using write_oom [OF assms(1,2) False] assms(3) by auto
  have "take (min (length data) INT_MAX) data = take INT_MAX data" by (simp add: min_def)
  moreover have "0 < min (length data) INT_MAX" using False by simp
  ultimately show ?thesis
    using assms(3) False
    by (auto simp: write_eq [OF assms(1,2) False mem] waiting_for_def abs_written [OF assms(1,2)]
        abs_refused [OF assms(1,2)] queue_codes split: if_splits)
qed

theorem write_result_unambiguous_witness:
  "\<exists>w'. bare_queue_write Uv_port [5, 6] fresh_world = Some (2, w')
     \<and> waiting_for Thread_port (abs_world w') = [[5, 6]]"
proof -
  let ?q = "initial_queue no_garbage no_garbage"
  have q: "queue fresh_world = Some ?q" by (simp add: fresh_world_def)
  have c: "\<not> write_closed ?q Uv_port"
    by (simp add: write_closed_def initial_queue_def port_defs port_at_def state_order)
  have r: "bare_queue_write Uv_port [5, 6] fresh_world
      = Some (2, written Uv_port [5, 6] ?q fresh_world)"
    using write_eq [OF fresh_world_ok(1) q, of "[5, 6]" Uv_port] c initial_not_full
    by (simp add: fresh_world_def INT_MAX_def)
  show ?thesis
    using write_result_unambiguous [OF fresh_world_ok(1) q r] r by (simp add: fresh_inbox)
qed

text \<open>
  \<open>bare_queue_write\<close> does not survive a failed allocation: when \<open>malloc\<close> returns \<open>NULL\<close>
  for a non-empty message, the copy that follows writes through the null pointer, whatever
  the state of the queue. (The result of \<open>malloc\<close> is not checked, and no error code stands
  for it.)
\<close>

theorem write_without_memory_faults:
  assumes "world_ok w" and "queue w = Some q" and "data \<noteq> []" and "oom w (brk w)"
  shows "bare_queue_write p data w = None"
  using assms by (rule write_oom)

theorem write_without_memory_faults_witness:
  "bare_queue_write Uv_port [5] (fresh_world\<lparr>oom := \<lambda>p. p = 1\<rparr>) = None"
proof -
  let ?w = "fresh_world\<lparr>oom := \<lambda>p. p = 1\<rparr>"
  have "world_ok ?w" by (simp add: fresh_world_def world_ok_def heap_ok_def initial_queue_ok)
  moreover have "queue ?w = Some (initial_queue no_garbage no_garbage)" "oom ?w (brk ?w)"
    by (simp_all add: fresh_world_def)
  ultimately show ?thesis by (intro write_without_memory_faults) auto
qed

text \<open>
  Ending is a half-close. After \<open>bare_queue_end\<close> of one end, the other end reads
  every message that was waiting for it, in order, and then the end of the stream, as often
  as it asks and never \<open>bare_queue_would_block\<close>; further writes of the ended end return
  \<open>bare_queue_closed\<close>; and what the other end may write, and the ended end read, is as before.
\<close>

theorem end_is_half_close:
  assumes "world_ok w" and "queue w = Some q" and "bare_queue_end p w = Some w1"
    and "queue w1 = Some q1"
  shows "(\<exists>w2. queue_run (replicate (length (waiting (abs_queue w q) (peer p)) + k) (Read (peer p))) w1
      = Some (map Got (waiting (abs_queue w q) (peer p)) @ replicate k Eof, w2))
    \<and> write_closed q1 p
    \<and> (bare_queue__state q p \<noteq> bare_queue_state_closed \<longrightarrow> write_closed q1 (peer p) = write_closed q (peer p))
    \<and> waiting (abs_queue w1 q1) p = waiting (abs_queue w q) p
    \<and> bare_queue__state q1 (peer p) = bare_queue__state q (peer p)"
proof -
  have st: "bare_queue__advance p bare_queue_state_ended w = Some w1"
    using assms(3) by (simp add: bare_queue_end_def)
  have "abs_world w1 = reclaim (raise_phase p bare_queue_state_ended (abs_queue w q))"
    by (rule advance_refines [OF assms(1,2) st])
  then have a: "abs_queue w1 q1 = raise_phase p bare_queue_state_ended (abs_queue w q)"
    using assms(4) by (simp add: abs_world_def reclaim_unheld split: if_splits)
  then have ph: "bare_queue__state q1 = (bare_queue__state q)
      (p := max (bare_queue__state q p) bare_queue_state_ended)"
    by (metis abs_phase raise_phase_def channel.select_convs(2) channel.surjective channel.update_convs(2))
  have wt: "waiting (abs_queue w1 q1) = waiting (abs_queue w q)"
    by (simp only: a waiting_raise)
  have ok1: "world_ok w1" by (rule advance_ok [OF assms(1) st])
  have e: "bare_queue_state_ended \<le> bare_queue__state q1 p" by (simp add: ph)
  then have "\<exists>w2. queue_run (replicate (length (waiting (abs_queue w1 q1) (peer p)) + k) (Read (peer p))) w1
      = Some (map Got (waiting (abs_queue w1 q1) (peer p)) @ replicate k Eof, w2)"
    using reads_to_end [OF ok1 assms(4), of "peer p" k] by simp
  then show ?thesis
    using e by (simp only: wt) (auto simp: write_closed_def ph max_ended)
qed

theorem end_is_half_close_witness:
  "\<exists>w w1 w2. bare_queue_end Uv_port w = Some w1
     \<and> queue_run [Read Thread_port, Read Thread_port, Read Thread_port] w1
       = Some ([Got [5], Eof, Eof], w2 :: qworld)"
proof -
  let ?c = "fresh_channel\<lparr>waiting := (\<lambda>_. [])(Thread_port := [[5]])\<rparr>"
  have "spec_run [Write Uv_port [5]] (Some fresh_channel) = Some ([Sent 1], Some ?c)"
    by (simp add: fresh_channel_def shut_def depth_def capacity INT_MAX_def state_order)
  then obtain w :: qworld where w: "abs_world w = Some ?c" "world_ok w"
    using run_fresh [of "[Write Uv_port [5]]" "[Sent 1]" "Some ?c"] by (auto simp: releases_def simp del: queue_run.simps spec_run.simps)
  then obtain q where q: "queue w = Some q" "abs_queue w q = ?c" by (auto simp: abs_world_def)
  obtain w1 where e: "bare_queue_end Uv_port w = Some w1"
    using advance_eq [OF w(2) q(1)] by (auto simp: bare_queue_end_def)
  have "abs_world w1 = reclaim (raise_phase Uv_port bare_queue_state_ended ?c)"
    using advance_refines [OF w(2) q(1)] e q(2) by (simp add: bare_queue_end_def)
  then obtain q1 where q1: "queue w1 = Some q1"
    by (auto simp: abs_world_def reclaim_def fresh_channel_def raise_phase_def split: if_splits)
  have wt: "waiting (abs_queue w q) Thread_port = [[5]]" using q(2) by simp
  obtain w2 where "queue_run (replicate (length (waiting (abs_queue w q) (peer Uv_port)) + 2) (Read (peer Uv_port))) w1
      = Some (map Got (waiting (abs_queue w q) (peer Uv_port)) @ replicate 2 Eof, w2)"
    using end_is_half_close [OF w(2) q(1) e q1, of 2] by blast
  then have "queue_run [Read Thread_port, Read Thread_port, Read Thread_port] w1
       = Some ([Got [5], Eof, Eof], w2)"
    unfolding peer.simps wt by (simp add: numeral_2_eq_2 del: queue_run.simps)
  then show ?thesis using e by blast
qed

text \<open>
  Opening an end after its peer has ended, with nothing queued, gives no wake-up: the
  opening catches up on messages only, so an end that waits for its first signal before it
  reads is not told of the end of the stream, although \<open>bare_queue_readable\<close> is true.
\<close>

theorem open_misses_earlier_end:
  assumes "world_ok w" and "queue w = Some q"
    and "ring_messages (bare_queue__inbox q Uv_port) = []"
    and "bare_queue_state_ended \<le> bare_queue__state q Thread_port"
    and "bare_queue_open_uv cb d w = Some (port, w1)"
  shows "Async_send Queue_async \<notin> set (drop (length (calls w)) (calls w1))
    \<and> bare_queue_readable Uv_port w1 = Some (True, locked_only w1)"
proof -
  have r: "ret w (Async_init Queue_async) = 0"
    using assms(2,5) by (auto simp: bare_queue_open_uv_def emit_ok_def split: if_splits)
  have po: "ports_ok q" and iu: "is_uv (uv_port q)"
    using assms(1,2) by (auto simp: world_ok_def ports_ok_def queue_ok_def)
  have e: "bare_queue__ring_empty (to_uv q)"
    using assms(1-3) iu ring.empty_iff [of "to_uv q"]
    by (auto simp: world_ok_def queue_ok_def bare_queue__inbox_def port_at_def)
  have ok1: "world_ok w1" by (rule open_uv_ok [OF assms(1,5)])
  obtain q1 where q1: "queue w1 = Some q1" "bare_queue__state q1 Thread_port = bare_queue__state q Thread_port"
    using assms(5) po
    by (auto simp: open_uv_eq [OF assms(2) r] bare_queue__state_def port_at_def ports_ok_def)
  then have "peer_ended q1 Uv_port" using assms(4) by (simp add: peer_ended_def)
  then show ?thesis
    using assms(5) e readable_eq [OF ok1 q1(1), of Uv_port]
    by (auto simp: open_uv_eq [OF assms(2) r])
qed

theorem open_misses_earlier_end_witness:
  "\<exists>w w1 :: qworld. bare_queue_open_uv 7 0 w = Some (Uv_port, w1)
     \<and> Async_send Queue_async \<notin> set (drop (length (calls w)) (calls w1))
     \<and> bare_queue_readable Uv_port w1 = Some (True, locked_only w1)"
proof -
  let ?q = "(initial_queue no_garbage no_garbage)\<lparr>thread_state := bare_queue_state_ended\<rparr>"
  let ?w = "fresh_world\<lparr>queue := Some ?q\<rparr>"
  have ok: "world_ok ?w" using fresh_world_ok(1) by (simp add: world_ok_def initial_queue_ok)
  have q: "queue ?w = Some ?q" by simp
  have i: "ring_messages (bare_queue__inbox ?q Uv_port) = []"
  proof -
    have "bare_queue__inbox ?q Uv_port = bare_queue__inbox (initial_queue no_garbage no_garbage) Uv_port"
      by (simp add: bare_queue__inbox_def port_at_def)
    then show ?thesis by (simp only: fresh_inbox)
  qed
  have s: "bare_queue_state_ended \<le> bare_queue__state ?q Thread_port"
    by (simp add: bare_queue__state_def port_at_def initial_queue_def)
  obtain w1 where o: "bare_queue_open_uv 7 0 ?w = Some (Uv_port, w1)"
    using open_uv_eq [OF q, of 7 0] by (simp add: fresh_world_def)
  show ?thesis using open_misses_earlier_end [OF ok q i s o] o by blast
qed

end
