(* ===== verification/Queue_Wakeup.thy ===== *)
theory Queue_Wakeup
  imports Queue_Results
begin

text \<open>
  No wake-up is lost. An end that found nothing to read, or no space to write, is signalled
  before that changes, whatever both ends do in between: so an end that reads until
  \<open>bare_queue_would_block\<close> on each signal never waits for ever.
\<close>

section \<open>The signal of an end\<close>

definition wake_call :: "bare_queue_t \<Rightarrow> port_ptr \<Rightarrow> call" where
  "wake_call q p = (case p of
     Uv_port \<Rightarrow> Async_send Queue_async
   | Thread_port \<Rightarrow> Callback (on_signal_thread q) (port_data (thread_port q)))"

text \<open>The end is listening, and the host has given a callback.\<close>

definition attended :: "bare_queue_t \<Rightarrow> port_ptr \<Rightarrow> bool" where
  "attended q p \<longleftrightarrow> bare_queue__listening (bare_queue__state q p)
     \<and> (p = Thread_port \<longrightarrow> on_signal_thread q \<noteq> NULL)"

text \<open>The operations with which an end itself changes what it is told of.\<close>

definition own_change :: "port_ptr \<Rightarrow> queue_op \<Rightarrow> bool" where
  "own_change p op = (case op of
     End p' \<Rightarrow> p' = p
   | Close p' \<Rightarrow> p' = p
   | Open_uv cb d \<Rightarrow> p = Uv_port
   | _ \<Rightarrow> False)"

definition can_read :: "channel \<Rightarrow> port_ptr \<Rightarrow> bool" where
  "can_read c p \<longleftrightarrow> waiting c p \<noteq> [] \<or> bare_queue_state_ended \<le> phase c (peer p)"

definition can_write :: "channel \<Rightarrow> port_ptr \<Rightarrow> bool" where
  "can_write c p \<longleftrightarrow> length (waiting c (peer p)) \<noteq> depth \<or> shut c p"

text \<open>A step that turns either answer to true.\<close>

definition turns :: "channel \<Rightarrow> channel \<Rightarrow> port_ptr \<Rightarrow> bool" where
  "turns c c' p \<longleftrightarrow> \<not> can_read c p \<and> can_read c' p \<or> \<not> can_write c p \<and> can_write c' p"

lemma attended_signal:
  assumes "ports_ok q" and "attended q p"
  shows "peer_signal q (peer p) = [wake_call q p]"
  using assms
  by (cases p) (auto simp: peer_signal_def attended_def wake_call_def peer_state_state is_uv_port_at)

text \<open>Which operations of the abstract channel turn an answer: those of the peer that the code signals at.\<close>

definition turning :: "port_ptr \<Rightarrow> queue_op \<Rightarrow> channel \<Rightarrow> bool" where
  "turning p op c = (case op of
     Write p' data \<Rightarrow> p' = peer p \<and> waiting c p = [] \<and> data \<noteq> [] \<and> \<not> shut c p'
   | Read p' \<Rightarrow> p' = peer p \<and> length (waiting c p') = depth
   | End p' \<Rightarrow> p' = peer p
   | Close p' \<Rightarrow> p' = peer p
   | _ \<Rightarrow> False)"

lemma port_cases: "p' = p \<or> p' = peer p" for p p' :: port_ptr
  by (cases p; cases p') simp_all

lemma depth_pos: "0 < depth"
  by (simp add: depth_def capacity)

lemma turns_turning:
  assumes st: "spec_step op c = (ob, Some c')" and t: "turns c c' p"
    and own: "\<not> own_change p op" and listening: "bare_queue__listening (phase c p)"
  shows "turning p op c"
proof -
  have ne: "phase c p \<noteq> bare_queue_state_closed" "phase c p \<noteq> bare_queue_state_idle"
    using listening by (auto simp: bare_queue__listening_def)
  show ?thesis
  proof (cases op)
    case (Open_uv cb d)
    then show ?thesis
      using st t own ne by (cases p) (auto simp: own_change_def turns_def can_read_def can_write_def
          shut_def state_order split: if_splits)
  next
    case (Open_thread cb d)
    then show ?thesis
      using st t ne by (cases p) (auto simp: turns_def can_read_def can_write_def
          shut_def state_order split: if_splits)
  next
    case (Write p' data)
    then show ?thesis
      using st t depth_pos port_cases [of p' p] by (auto simp: turns_def can_read_def can_write_def
          shut_def turning_def split: if_splits)
  next
    case (Read p')
    then show ?thesis
      using st t depth_pos port_cases [of p' p] by (auto simp: turns_def can_read_def can_write_def
          shut_def turning_def split: if_splits list.splits)
  next
    case (End p')
    then show ?thesis
      using own port_cases [of p' p] by (auto simp: own_change_def turning_def)
  next
    case (Close p')
    then show ?thesis
      using own port_cases [of p' p] by (auto simp: own_change_def turning_def)
  next
    case Destroy
    then show ?thesis
      using st t by (auto simp: turns_def can_read_def can_write_def shut_def reclaim_def
          split: if_splits)
  qed (use st t in \<open>auto simp: turns_def\<close>)
qed

lemma empty_waiting: "queue_ok w q \<Longrightarrow>
    bare_queue__ring_empty (bare_queue__inbox q p) \<longleftrightarrow> waiting (abs_queue w q) p = []"
  using ring.empty_iff [OF ring_ok_inbox] by simp

text \<open>The code signals at each of them that leaves the queue alive.\<close>

lemma turning_signals:
  assumes ok: "world_ok w" and q: "queue w = Some q" and st: "queue_step op w = Some (ob, w')"
    and alive: "queue w' \<noteq> None" and at: "attended q p" and t: "turning p op (abs_queue w q)"
    and room: "ob \<noteq> Sent bare_queue_would_block"
  shows "\<exists>cs. calls w' = calls w @ cs \<and> wake_call q p \<in> set cs"
proof -
  have qok: "queue_ok w q" and po: "ports_ok q"
    using ok q by (auto simp: world_ok_def intro: queue_ok_ports)
  note sig = attended_signal [OF po at]
  show ?thesis
  proof (cases op)
    case (Write p' data)
    then have a: "p' = peer p" "data \<noteq> []" "\<not> write_closed q p'"
        "bare_queue__ring_empty (bare_queue__inbox q p)"
      using t empty_waiting [OF qok, of p]
      by (auto simp: turning_def write_closed_shut [of q _ w] simp del: abs_waiting)
    have mem: "\<not> oom w (brk w)" using write_oom [OF ok q a(2)] st Write by auto
    show ?thesis
      using st Write a room sig by (auto simp: write_eq [OF ok q a(2) mem] written_def Let_def
          split: if_splits)
  next
    case (Read p')
    then have a: "p' = peer p" "length (waiting (abs_queue w q) p') = depth"
      using t by (auto simp: turning_def)
    then have "bare_queue__ring_full (bare_queue__inbox q p')" using full_iff_depth [OF qok] by simp
    moreover have "ring_messages (bare_queue__inbox q p') \<noteq> []"
      using a(2) depth_pos by (metis abs_waiting length_map less_numeral_extra(3) list.size(3))
    ultimately show ?thesis
      using st Read a(1) sig by (auto simp: read_eq [OF ok q] observe_read_def taken_def Let_def
          split: list.splits if_splits)
  next
    case (End p')
    then have "p' = peer p" using t by (simp add: turning_def)
    then show ?thesis
      using st End alive sig by (auto simp: bare_queue_end_def advance_eq [OF ok q]
          advanced_world_def freed_def split: if_splits)
  next
    case (Close p')
    then have "p' = peer p" using t by (simp add: turning_def)
    then show ?thesis
      using st Close alive sig by (auto simp: bare_queue_close_def advance_eq [OF ok q]
          advanced_world_def freed_def split: if_splits)
  qed (use t in \<open>simp_all add: turning_def\<close>)
qed

section \<open>Attendance is kept\<close>

lemma step_calls_grow:
  assumes "world_ok w" and "queue w = Some q" and "queue_step op w = Some (ob, w')"
  shows "\<exists>cs. calls w' = calls w @ cs"
proof (cases "op = Wakeup")
  case True
  then show ?thesis
    using assms(2,3) by (auto simp: bare_queue__on_wakeup_uv_def)
next
  case False
  then show ?thesis using step_lock [OF assms] by blast
qed

definition host_end :: "bare_queue_t \<Rightarrow> ptr \<times> ptr" where
  "host_end q = (on_signal_thread q, port_data (thread_port q))"

lemma host_end_store [simp]:
  "host_end (store_inbox q p r) = host_end q" "host_end (store_state q p s) = host_end q"
  "host_end (advanced p s q) = host_end q"
  by (simp_all add: host_end_def store_inbox_def store_state_def advanced_def)

lemma step_host_end:
  assumes ok: "world_ok w" and q: "queue w = Some q" and st: "queue_step op w = Some (ob, w')"
    and q': "queue w' = Some q'" and open_already: "thread_state q \<noteq> bare_queue_state_idle"
  shows "host_end q' = host_end q"
proof (cases op)
  case (Open_uv cb d)
  then have "ret w (Async_init Queue_async) = 0"
    using st q by (auto simp: bare_queue_open_uv_def emit_ok_def split: if_splits)
  then show ?thesis using st Open_uv q q' by (auto simp: open_uv_eq host_end_def)
next
  case (Open_thread cb d)
  then show ?thesis using st q q' open_already by (auto simp: open_thread_eq)
next
  case (Write p data)
  then show ?thesis
    using st q q' write_oom [OF ok q] write_eq [OF ok q, of data p] write_empty [OF q]
    by (cases "data = []"; cases "oom w (brk w)")
      (auto simp: refused_def written_def Let_def split: if_splits)
next
  case (Read p)
  then show ?thesis
    using st q q' by (auto simp: read_eq [OF ok q] observe_read_def taken_def locked_only_def Let_def
        split: list.splits if_splits)
next
  case (End p)
  then show ?thesis
    using st q' by (auto simp: bare_queue_end_def advance_eq [OF ok q] advanced_world_def freed_def
        split: if_splits)
next
  case (Close p)
  then show ?thesis
    using st q' by (auto simp: bare_queue_close_def advance_eq [OF ok q] advanced_world_def freed_def
        split: if_splits)
next
  case Destroy
  then show ?thesis
    using st q' by (auto simp: destroy_eq [OF ok q] destroying_def freed_def host_end_def
        split: if_splits)
next
  case (Release p)
  then have "free_block p w = Some w'" using st by (auto split: if_splits)
  then have "queue w' = queue w" by (rule release_queue)
  then show ?thesis using q q' by simp
qed (use st q q' in \<open>auto simp: readable_eq [OF ok q] writable_eq [OF ok q] locked_only_def
      bare_queue_shutdown_uv_def bare_queue__on_wakeup_uv_def split: if_splits\<close>)

lemma spec_step_listening:
  assumes "spec_step op c = (ob, Some c')" and "\<not> own_change p op"
    and "bare_queue__listening (phase c p)"
  shows "bare_queue__listening (phase c' p)"
  using assms
  by (cases op; cases p)
    (auto simp: own_change_def reclaim_def raise_phase_def bare_queue__listening_def
      split: if_splits list.splits)

lemma step_attended:
  assumes ok: "world_ok w" and q: "queue w = Some q" and st: "queue_step op w = Some (ob, w')"
    and q': "queue w' = Some q'" and own: "\<not> own_change p op" and at: "attended q p"
  shows "attended q' p \<and> wake_call q' p = wake_call q p"
proof -
  have po: "ports_ok q" using ok q by (auto simp: world_ok_def intro: queue_ok_ports)
  have "spec_step op (abs_queue w q) = (ob, Some (abs_queue w' q'))"
    using step_refines [OF ok q st] q' by (simp add: abs_world_def)
  then have l: "bare_queue__listening (bare_queue__state q' p)"
    using spec_step_listening [of op "abs_queue w q" ob "abs_queue w' q'" p] own at
    by (simp add: attended_def)
  show ?thesis
  proof (cases p)
    case Uv_port
    then show ?thesis using l by (simp add: attended_def wake_call_def)
  next
    case Thread_port
    then have "thread_state q \<noteq> bare_queue_state_idle"
      using at po by (auto simp: attended_def bare_queue__listening_def bare_queue__state_def
          is_uv_port_at)
    then have "host_end q' = host_end q" by (rule step_host_end [OF ok q st q'])
    then show ?thesis using l at Thread_port by (simp add: attended_def wake_call_def host_end_def)
  qed
qed

section \<open>Runs\<close>

lemma step_turns:
  assumes ok: "world_ok w" and q: "queue w = Some q" and st: "queue_step op w = Some (ob, w')"
    and q': "queue w' = Some q'" and own: "\<not> own_change p op" and at: "attended q p"
  shows "\<exists>cs. calls w' = calls w @ cs
    \<and> (turns (abs_queue w q) (abs_queue w' q') p \<longrightarrow> wake_call q p \<in> set cs)"
proof -
  obtain cs where c: "calls w' = calls w @ cs" using step_calls_grow [OF ok q st] by blast
  have r: "spec_step op (abs_queue w q) = (ob, Some (abs_queue w' q'))"
    using step_refines [OF ok q st] q' by (simp add: abs_world_def)
  have "wake_call q p \<in> set cs" if t: "turns (abs_queue w q) (abs_queue w' q') p"
  proof -
    have tg: "turning p op (abs_queue w q)"
      using turns_turning [OF r t own] at by (simp add: attended_def)
    have "ob \<noteq> Sent bare_queue_would_block"
    proof
      assume "ob = Sent bare_queue_would_block"
      then have "abs_queue w' q' = abs_queue w q"
        using r by (cases op) (auto simp: queue_codes split: if_splits list.splits)
      then show False using t by (simp add: turns_def)
    qed
    then show ?thesis using turning_signals [OF ok q st _ at tg] q' c by auto
  qed
  then show ?thesis using c by blast
qed

lemma run_turns:
  assumes "world_ok w" and "queue w = Some q" and "attended q p"
    and "queue_run ops w = Some (obs, w')" and "queue w' = Some q'"
    and "\<forall>op \<in> set ops. \<not> own_change p op"
  shows "\<exists>cs. calls w' = calls w @ cs
    \<and> (turns (abs_queue w q) (abs_queue w' q') p \<longrightarrow> wake_call q p \<in> set cs)"
  using assms
proof (induction ops arbitrary: w q obs)
  case Nil
  then show ?case by (auto simp: turns_def)
next
  case (Cons op ops)
  then obtain ob w1 obs1 where s: "queue_step op w = Some (ob, w1)"
      "queue_run ops w1 = Some (obs1, w')"
    by (auto simp: bind_eq_Some_conv)
  obtain q1 where q1: "queue w1 = Some q1"
    using run_without_queue [OF _ s(2)] Cons.prems(5) by fastforce
  have own: "\<not> own_change p op" using Cons.prems(6) by simp
  note att = step_attended [OF Cons.prems(1,2) s(1) q1 own Cons.prems(3)]
  obtain ds where d: "calls w' = calls w1 @ ds"
      "turns (abs_queue w1 q1) (abs_queue w' q') p \<longrightarrow> wake_call q p \<in> set ds"
    using Cons.IH [OF step_ok [OF Cons.prems(1) s(1)] q1 _ s(2) Cons.prems(5)] att Cons.prems(6)
    by auto
  obtain cs where c: "calls w1 = calls w @ cs"
      "turns (abs_queue w q) (abs_queue w1 q1) p \<longrightarrow> wake_call q p \<in> set cs"
    using step_turns [OF Cons.prems(1,2) s(1) q1 own Cons.prems(3)] by blast
  moreover have "turns (abs_queue w q) (abs_queue w1 q1) p \<or> turns (abs_queue w1 q1) (abs_queue w' q') p"
    if "turns (abs_queue w q) (abs_queue w' q') p"
    using that by (auto simp: turns_def)
  ultimately show ?case using d by auto
qed

text \<open>
  C22: No wake-up is lost. Take any moment at which an open end, whose host has given a
  callback, would find nothing to read, or no room to write. After any sequence of
  operations of both ends, other than that end closing or ending itself, if it could now
  read, or write, then it has been signalled in between. So an end that
  on each signal reads until \<open>bare_queue_would_block\<close> and retries its blocked write never
  sleeps on work: data, the end of the stream and freed space are all announced.
\<close>

theorem queue_no_lost_wakeup:
  assumes "world_ok w" and "queue w = Some q" and "attended q p"
    and "queue_run ops w = Some (obs, w')" and "queue w' = Some q'"
    and "\<forall>op \<in> set ops. \<not> own_change p op"
    and "bare_queue_readable p w = Some (False, w1) \<and> bare_queue_readable p w' = Some (True, w2)
      \<or> bare_queue_writable p w = Some (False, w1) \<and> bare_queue_writable p w' = Some (True, w2)"
  shows "wake_call q p \<in> set (drop (length (calls w)) (calls w'))"
proof -
  have ok': "world_ok w'" by (rule run_ok [OF assms(1,4)])
  have "turns (abs_queue w q) (abs_queue w' q') p"
    using assms(7)
    by (auto simp: readable_eq [OF assms(1,2)] readable_eq [OF ok' assms(5)] writable_eq [OF assms(1,2)]
        writable_eq [OF ok' assms(5)] turns_def can_read_def can_write_def peer_ended_def
        write_closed_shut [of q p w] write_closed_shut [of q' p w'])
  then show ?thesis using run_turns [OF assms(1-6)] by auto
qed

theorem queue_no_lost_wakeup_witness:
  "\<exists>w w' :: qworld. queue_run [Readable Thread_port, Write Uv_port [5]] w
       = Some ([Flag False, Sent 1], w')
     \<and> Callback 9 4 \<in> set (drop (length (calls w)) (calls w'))"
proof -
  let ?q = "(initial_queue no_garbage no_garbage)\<lparr>thread_port := \<lparr>is_uv = False, port_data = 4\<rparr>,
    on_signal_thread := 9, thread_state := bare_queue_state_open\<rparr>"
  let ?w = "fresh_world\<lparr>queue := Some ?q\<rparr>"
  let ?c = "fresh_channel\<lparr>phase := (\<lambda>_. bare_queue_state_idle)(Thread_port := bare_queue_state_open)\<rparr>"
  let ?ops = "[Readable Thread_port, Write Uv_port [5]]"
  have "queue_ok ?w ?q"
    using initial_queue_ok [of fresh_world no_garbage no_garbage] by (simp add: queue_ok_def messages_of_def)
  then have ok: "world_ok ?w" using fresh_world_ok(1) by (simp add: world_ok_def)
  have q: "queue ?w = Some ?q" by simp
  have a: "abs_queue ?w ?q = ?c"
    by (intro channel_eqI) (auto simp: initial_queue_def bare_queue__inbox_def bare_queue__state_def
        port_at_def initial_ring fresh_channel_def split: port_ptr.splits)
  have at: "attended ?q Thread_port"
    by (simp add: attended_def bare_queue__listening_def bare_queue__state_def port_at_def NULL_def)
  have env: "env_ok ?w" using fresh_world_ok(2) by (simp add: env_ok_def)
  have sp: "spec_run ?ops (Some ?c)
      = Some ([Flag False, Sent 1], Some (?c\<lparr>waiting := (\<lambda>_. [])(Thread_port := [[5]])\<rparr>))"
    by (simp add: fresh_channel_def shut_def depth_def capacity INT_MAX_def state_order)
  have "map_option (\<lambda>(obs, w'). (obs, abs_world w')) (queue_run ?ops ?w) = spec_run ?ops (abs_world ?w)"
    by (rule run_refines [OF ok env]) (simp add: releases_def)
  moreover have "abs_world ?w = Some ?c" unfolding abs_world_def q by (simp only: option.map a)
  ultimately obtain w' where r: "queue_run ?ops ?w = Some ([Flag False, Sent 1], w')"
      "abs_world w' = Some (?c\<lparr>waiting := (\<lambda>_. [])(Thread_port := [[5]])\<rparr>)"
    using sp by (auto simp del: queue_run.simps spec_run.simps)
  obtain q' where q': "queue w' = Some q'" "waiting (abs_queue w' q') Thread_port = [[5]]"
    using r(2) by (auto simp: abs_world_def simp del: abs_waiting)
  have ok': "world_ok w'" by (rule run_ok [OF ok r(1)])
  have rd: "bare_queue_readable Thread_port ?w = Some (False, locked_only ?w)"
      "bare_queue_readable Thread_port w' = Some (True, locked_only w')"
    using readable_eq [OF ok q, of Thread_port] readable_eq [OF ok' q'(1), of Thread_port] q'(2)
    unfolding a by (auto simp: fresh_channel_def peer_ended_def bare_queue__state_def port_at_def
        initial_queue_def state_order)
  have "wake_call ?q Thread_port \<in> set (drop (length (calls ?w)) (calls w'))"
    by (rule queue_no_lost_wakeup [OF ok q at r(1) q'(1) _ disjI1 [OF conjI [OF rd]]])
      (simp add: own_change_def)
  moreover have "wake_call ?q Thread_port = Callback 9 4" by (simp add: wake_call_def)
  ultimately have "Callback 9 4 \<in> set (drop (length (calls ?w)) (calls w'))" by (simp only:)
  then show ?thesis using r(1) by blast
qed

end
