(* ===== verification/Queue_Threads.thy ===== *)
theory Queue_Threads
  imports Queue_Wakeup
begin

text \<open>
  The two threads of a queue. Each operation is one critical section, and the steps of the
  two threads interleave between them; but \<open>bare_queue__advance\<close> and \<open>bare_queue_destroy\<close>
  decide under the lock and free the queue only after they have released it, so the freeing
  is a step of its own, with any step of the other thread in between.

  The worklet's thread is named by its port \<open>Uv_port\<close>, the host's by \<open>Thread_port\<close>. The
  worklet's thread destroys its share last, and only once the host has destroyed the worklet
  (\<open>given\<close>, the semaphore of \<open>bare_worklet_destroy\<close>), after which the host opens no ipc. A
  write allocates before and frees after its critical section; those blocks are its own, so
  that is no step of its own here.
\<close>

section \<open>The threads\<close>

datatype progress =
    Outside \<comment> \<open>the host has not opened its end\<close>
  | Using
  | Freeing \<comment> \<open>found the queue unowned, has released the lock, has not freed it yet\<close>
  | Gone \<comment> \<open>uses its end no more\<close>

record two_threads =
  shared :: qworld
  progress_of :: "port_ptr \<Rightarrow> progress"
  given :: bool

datatype thread_act =
    Act queue_op
  | Finish port_ptr \<comment> \<open>the freeing that follows the critical section\<close>
  | Give \<comment> \<open>the host destroys the worklet\<close>

datatype 's outcome = Disabled | Fault | Next 's

text \<open>Whose operation it is, and whether that thread may still make it.\<close>

primrec actor :: "queue_op \<Rightarrow> port_ptr" where
  "actor (Open_uv cb d) = Uv_port"
| "actor (Open_thread cb d) = Thread_port"
| "actor (Write p data) = p"
| "actor (Read p) = p"
| "actor (Readable p) = p"
| "actor (Writable p) = p"
| "actor (End p) = p"
| "actor (Close p) = p"
| "actor Destroy = Uv_port"
| "actor Shutdown_uv = Uv_port"
| "actor Wakeup = Uv_port"
| "actor (Release p) = Uv_port"

definition enabled :: "queue_op \<Rightarrow> two_threads \<Rightarrow> bool" where
  "enabled op s = (case op of
     Open_thread cb d \<Rightarrow> progress_of s Thread_port = Outside \<and> \<not> given s
   | Destroy \<Rightarrow> progress_of s Uv_port = Using \<and> given s
   | Release p \<Rightarrow> False
   | _ \<Rightarrow> progress_of s (actor op) = Using)"

definition moved :: "port_ptr \<Rightarrow> progress \<Rightarrow> qworld \<Rightarrow> two_threads \<Rightarrow> two_threads outcome" where
  "moved p pc w s = Next (s\<lparr>shared := w, progress_of := (progress_of s)(p := pc)\<rparr>)"

text \<open>After a critical section that says whether the queue is unowned.\<close>

definition decided :: "port_ptr \<Rightarrow> progress \<Rightarrow> (bool \<times> qworld) option \<Rightarrow> two_threads
    \<Rightarrow> two_threads outcome" where
  "decided p pc r s = (case r of
     None \<Rightarrow> Fault
   | Some (unowned, w) \<Rightarrow> moved p (if unowned then Freeing else pc) w s)"

definition stepped :: "port_ptr \<Rightarrow> ('a \<times> qworld) option \<Rightarrow> two_threads \<Rightarrow> two_threads outcome" where
  "stepped p r s = (case r of None \<Rightarrow> Fault | Some (_, w) \<Rightarrow> moved p Using w s)"

fun thread_step :: "thread_act \<Rightarrow> two_threads \<Rightarrow> two_threads outcome" where
  "thread_step (Act op) s =
     (if \<not> enabled op s then Disabled
      else (case op of
        End p \<Rightarrow> decided p Using (advance_locked p bare_queue_state_ended (shared s)) s
      | Close p \<Rightarrow> decided p (if p = Thread_port then Gone else Using)
                    (advance_locked p bare_queue_state_closed (shared s)) s
      | Destroy \<Rightarrow> decided Uv_port Gone (destroy_locked (shared s)) s
      | _ \<Rightarrow> stepped (actor op) (queue_step op (shared s)) s))"
| "thread_step (Finish p) s =
     (if progress_of s p \<noteq> Freeing then Disabled
      else (case bare_queue__free (shared s) of None \<Rightarrow> Fault | Some w \<Rightarrow> moved p Gone w s))"
| "thread_step Give s = Next (s\<lparr>given := True\<rparr>)"

text \<open>A worklet that has just started: its thread owns its share, the host's end is not open.\<close>

definition started :: two_threads where
  "started = \<lparr>shared = fresh_world,
     progress_of = (\<lambda>_. Outside)(Uv_port := Using), given = False\<rparr>"

inductive threads_reach :: "two_threads \<Rightarrow> bool" where
  start: "threads_reach started"
| step: "threads_reach s \<Longrightarrow> thread_step a s = Next s' \<Longrightarrow> threads_reach s'"

section \<open>The invariant\<close>

text \<open>
  What the progress of the threads says of the queue: it is there as long as either is not
  through with it, and never are both about to free it.
\<close>

definition in_step :: "(port_ptr \<Rightarrow> progress) \<Rightarrow> channel option \<Rightarrow> bool" where
  "in_step pc c = (case c of
     None \<Rightarrow> pc Uv_port = Gone \<and> pc Thread_port \<in> {Outside, Gone}
   | Some c \<Rightarrow> \<not> (pc Uv_port = Gone \<and> pc Thread_port \<in> {Outside, Gone})
       \<and> pc Uv_port \<noteq> Outside \<and> (released c \<longleftrightarrow> pc Uv_port \<noteq> Using)
       \<and> (phase c Thread_port = bare_queue_state_idle \<longleftrightarrow> pc Thread_port = Outside)
       \<and> (phase c Thread_port = bare_queue_state_closed \<longleftrightarrow> pc Thread_port \<in> {Freeing, Gone})
       \<and> (pc Uv_port = Freeing \<longrightarrow> pc Thread_port \<in> {Outside, Gone})
       \<and> (pc Thread_port = Freeing \<longrightarrow> pc Uv_port = Gone))"

definition threads_ok :: "two_threads \<Rightarrow> bool" where
  "threads_ok s \<longleftrightarrow> world_ok (shared s) \<and> env_ok (shared s)
     \<and> (progress_of s Uv_port \<noteq> Using \<longrightarrow> given s)
     \<and> in_step (progress_of s) (abs_world (shared s))"

lemma started_ok: "threads_ok started"
  using fresh_world_ok
  by (simp add: threads_ok_def started_def in_step_def fresh_abs) (simp add: fresh_channel_def)

lemma enabled_alive:
  assumes "threads_ok s" and "enabled op s"
  shows "\<exists>q. queue (shared s) = Some q"
proof -
  have "progress_of s Uv_port = Using \<or> progress_of s Thread_port = Using"
    using assms by (cases op; cases "actor op") (auto simp: enabled_def threads_ok_def)
  then show ?thesis
    using assms(1) by (cases "queue (shared s)") (auto simp: threads_ok_def in_step_def abs_world_def)
qed

text \<open>The abstract effect of the two kinds of critical section.\<close>

lemma advance_locked_abs:
  assumes "world_ok w" and "queue w = Some q" and "env_ok w"
  shows "\<exists>w'. advance_locked p s w = Some (unheld (raise_phase p s (abs_queue w q)), w')
    \<and> world_ok w' \<and> env_ok w' \<and> abs_world w' = Some (raise_phase p s (abs_queue w q))"
proof -
  have po: "ports_ok q" using assms by (auto simp: world_ok_def intro: queue_ok_ports)
  have "unheld (abs_queue w (advanced p s q)) = bare_queue__unowned (advanced p s q)"
    using unowned_reclaim [OF advanced_ports [OF po], of w p s]
    by (simp add: reclaim_unheld split: if_splits)
  then show ?thesis
    using advance_locked_eq [OF assms(1,2)] advanced_world_ok [OF assms(1,2)] assms(3)
    by (simp add: abs_advanced_world abs_advanced [OF po] env_ok_def frame_defs)
qed

lemma destroy_locked_abs:
  assumes "world_ok w" and "queue w = Some q" and "env_ok w"
  shows "\<exists>w'. destroy_locked w = Some (unheld ((abs_queue w q)\<lparr>released := True\<rparr>), w')
    \<and> world_ok w' \<and> env_ok w' \<and> abs_world w' = Some ((abs_queue w q)\<lparr>released := True\<rparr>)"
proof -
  let ?q = "q\<lparr>destroyed := True\<rparr>"
  have po: "ports_ok ?q" using assms(1,2) by (auto simp: world_ok_def ports_ok_def queue_ok_def)
  have a: "abs_queue w ?q = (abs_queue w q)\<lparr>released := True\<rparr>"
    by (simp add: abs_queue_def bare_queue__inbox_def bare_queue__state_def port_at_def fun_eq_iff
        split: port_ptr.splits)
  have "unheld (abs_queue w ?q) = bare_queue__unowned ?q"
    using unowned_reclaim [OF po, of w] by (simp add: reclaim_unheld split: if_splits)
  moreover have "abs_world (destroying q w) = Some (abs_queue w ?q)"
    by (simp add: abs_world_def destroying_def)
  ultimately show ?thesis
    using destroy_locked_eq [OF assms(2)] destroying_ok [OF assms(1,2)] assms(3)
    by (simp add: a env_ok_def frame_defs)
qed

text \<open>The other operations leave the shares alone; opening takes one.\<close>

lemma in_step_cong:
  assumes "in_step pc (Some c)" and "released c' = released c"
    and "phase c' Thread_port = phase c Thread_port"
  shows "in_step pc (Some c')"
  using assms by (simp add: in_step_def)

lemma plain_shares:
  assumes "spec_step op c = (ob, x)" and "\<And>p. op \<noteq> End p" "\<And>p. op \<noteq> Close p" "op \<noteq> Destroy"
    and "\<And>cb d. op \<noteq> Open_thread cb d"
  shows "\<exists>c'. x = Some c' \<and> released c' = released c \<and> phase c' Thread_port = phase c Thread_port"
  using assms by (cases op) (auto split: if_splits list.splits)

lemma in_step_open:
  assumes "in_step pc (Some c)" and "pc Thread_port = Outside" and "pc Uv_port = Using"
    and "spec_step (Open_thread cb d) c = (ob, x)"
  shows "in_step (pc(Thread_port := Using)) x"
  using assms by (auto simp: in_step_def)

lemma in_step_plain:
  assumes i: "in_step (progress_of s) (Some c)" and en: "enabled op s"
    and kind: "\<And>p. op \<noteq> End p" "\<And>p. op \<noteq> Close p" "op \<noteq> Destroy"
    and r: "spec_step op c = (ob, x)" and g: "progress_of s Uv_port \<noteq> Using \<longrightarrow> given s"
  shows "in_step ((progress_of s)(actor op := Using)) x"
proof (cases "\<exists>cb d. op = Open_thread cb d")
  case True
  then obtain cb d where op: "op = Open_thread cb d" by blast
  have "progress_of s Thread_port = Outside" "progress_of s Uv_port = Using"
    using en g by (auto simp: op enabled_def)
  then show ?thesis using in_step_open [OF i] r by (simp add: op del: spec_step.simps)
next
  case False
  then have "progress_of s (actor op) = Using"
    using en kind by (cases op) (auto simp: enabled_def)
  then have same: "(progress_of s)(actor op := Using) = progress_of s" by auto
  obtain c' where "x = Some c'" "released c' = released c" "phase c' Thread_port = phase c Thread_port"
    using plain_shares [OF r kind] False by blast
  then show ?thesis unfolding same using in_step_cong [OF i] by simp
qed

lemma plain_step:
  assumes ok: "threads_ok s" and en: "enabled op s"
    and kind: "\<And>p. op \<noteq> End p" "\<And>p. op \<noteq> Close p" "op \<noteq> Destroy"
  shows "\<exists>s'. thread_step (Act op) s = Next s' \<and> threads_ok s'"
proof -
  obtain q where q: "queue (shared s) = Some q" using enabled_alive [OF ok en] by blast
  have w: "world_ok (shared s)" "env_ok (shared s)" using ok by (auto simp: threads_ok_def)
  have nr: "\<not> releases op" using en by (auto simp: enabled_def releases_def)
  obtain ob w' where st: "queue_step op (shared s) = Some (ob, w')"
    using step_total [OF w(1) q can_run_env [OF w(2) nr]] by blast
  have r: "(ob, abs_world w') = spec_step op (abs_queue (shared s) q)"
    by (rule step_refines [OF w(1) q st])
  have w': "world_ok w'" "env_ok w'" using step_ok [OF w(1) st] step_env [OF w(1) q w(2) st] by auto
  have a: "abs_world (shared s) = Some (abs_queue (shared s) q)" using q by (simp add: abs_world_def)
  have i: "in_step (progress_of s) (Some (abs_queue (shared s) q))"
      "progress_of s Uv_port \<noteq> Using \<longrightarrow> given s"
    using ok a by (auto simp: threads_ok_def)
  let ?s' = "s\<lparr>shared := w', progress_of := (progress_of s)(actor op := Using)\<rparr>"
  have "thread_step (Act op) s = Next ?s'"
    using en st kind by (cases op) (auto simp: stepped_def moved_def)
  moreover have "in_step ((progress_of s)(actor op := Using)) (abs_world w')"
    by (rule in_step_plain [OF i(1) en kind r [symmetric] i(2)])
  ultimately show ?thesis using w' i by (auto simp: threads_ok_def)
qed

lemma max_state_eqs [simp]:
  "max s bare_queue_state_ended \<noteq> bare_queue_state_idle"
  "max s bare_queue_state_ended = bare_queue_state_closed \<longleftrightarrow> s = bare_queue_state_closed"
  by (simp_all add: max_ended)

lemma in_step_destroy:
  assumes "in_step pc (Some c)" and "pc Uv_port = Using"
  shows "in_step (pc(Uv_port := if unheld (c\<lparr>released := True\<rparr>) then Freeing else Gone))
    (Some (c\<lparr>released := True\<rparr>))"
  using assms by (cases "pc Thread_port") (auto simp: in_step_def unheld_def)

lemma in_step_advance:
  assumes i: "in_step pc (Some c)" and u: "pc p = Using"
  shows "in_step (pc(p := if unheld (raise_phase p bare_queue_state_ended c) then Freeing else Using))
      (Some (raise_phase p bare_queue_state_ended c))"
    and "p = Uv_port \<Longrightarrow> \<not> unheld (raise_phase p s c) \<and> in_step pc (Some (raise_phase p s c))"
    and "p = Thread_port \<Longrightarrow>
      in_step (pc(p := if unheld (raise_phase p bare_queue_state_closed c) then Freeing else Gone))
        (Some (raise_phase p bare_queue_state_closed c))"
proof -
  have c1: "p = Uv_port \<Longrightarrow> \<not> unheld (raise_phase p s c) \<and> in_step pc (Some (raise_phase p s c))" for s
    using i u in_step_cong [OF i, of "raise_phase p s c"]
    by (simp add: raise_phase_def) (auto simp: unheld_def in_step_def)
  then show "p = Uv_port \<Longrightarrow> \<not> unheld (raise_phase p s c) \<and> in_step pc (Some (raise_phase p s c))" .
  show "p = Thread_port \<Longrightarrow>
      in_step (pc(p := if unheld (raise_phase p bare_queue_state_closed c) then Freeing else Gone))
        (Some (raise_phase p bare_queue_state_closed c))"
    using i u by (cases "pc Uv_port") (auto simp: in_step_def unheld_def raise_phase_def)
  have same: "pc(p := Using) = pc" using u by auto
  show "in_step (pc(p := if unheld (raise_phase p bare_queue_state_ended c) then Freeing else Using))
      (Some (raise_phase p bare_queue_state_ended c))"
  proof (cases p)
    case Uv_port
    then show ?thesis using c1 [of bare_queue_state_ended] same by simp
  next
    case Thread_port
    then show ?thesis
      using i u by (cases "pc Uv_port") (auto simp: in_step_def unheld_def raise_phase_def)
  qed
qed

lemma decided_step:
  assumes ok: "threads_ok s" and en: "enabled op s"
    and kind: "op = End p \<or> op = Close p \<or> op = Destroy"
  shows "\<exists>s'. thread_step (Act op) s = Next s' \<and> threads_ok s'"
proof -
  obtain q where q: "queue (shared s) = Some q" using enabled_alive [OF ok en] by blast
  have w: "world_ok (shared s)" "env_ok (shared s)" using ok by (auto simp: threads_ok_def)
  let ?c = "abs_queue (shared s) q"
  have a: "abs_world (shared s) = Some ?c" using q by (simp add: abs_world_def)
  have i: "in_step (progress_of s) (Some ?c)"
      "progress_of s Uv_port \<noteq> Using \<longrightarrow> given s"
    using ok a by (auto simp: threads_ok_def)
  show ?thesis
  proof (cases "op = Destroy")
    case True
    then have g: "progress_of s Uv_port = Using" "given s" using en by (auto simp: enabled_def)
    obtain w' where w': "destroy_locked (shared s) = Some (unheld (?c\<lparr>released := True\<rparr>), w')"
        "world_ok w'" "env_ok w'" "abs_world w' = Some (?c\<lparr>released := True\<rparr>)"
      using destroy_locked_abs [OF w(1) q w(2)] by blast
    have "in_step ((progress_of s)(Uv_port := if unheld (?c\<lparr>released := True\<rparr>) then Freeing else Gone))
        (abs_world w')"
      unfolding w'(4) by (rule in_step_destroy [OF i(1) g(1)])
    then show ?thesis using True en w' g by (simp add: decided_def moved_def threads_ok_def)
  next
    case False
    let ?st = "if op = End p then bare_queue_state_ended else bare_queue_state_closed"
      and ?pc = "if op = Close Thread_port then Gone else Using"
    have u: "progress_of s p = Using" using en kind False by (auto simp: enabled_def)
    then have same: "(progress_of s)(p := Using) = progress_of s" by auto
    obtain w' where w': "advance_locked p ?st (shared s) = Some (unheld (raise_phase p ?st ?c), w')"
        "world_ok w'" "env_ok w'" "abs_world w' = Some (raise_phase p ?st ?c)"
      using advance_locked_abs [OF w(1) q w(2)] by blast
    let ?pc' = "(progress_of s)(p := if unheld (raise_phase p ?st ?c) then Freeing else ?pc)"
    have inv: "in_step ?pc' (abs_world w')" "p = Uv_port \<longrightarrow> \<not> unheld (raise_phase p ?st ?c)"
      unfolding w'(4) using in_step_advance [OF i(1) u] same kind False by (cases p; auto)+
    have "thread_step (Act op) s = Next (s\<lparr>shared := w', progress_of := ?pc'\<rparr>)"
      using False kind en w'(1) by (auto simp: decided_def moved_def)
    moreover have "?pc' Uv_port \<noteq> Using \<longrightarrow> given s"
      using i(2) inv(2) kind False by (cases p) auto
    ultimately show ?thesis using inv(1) w'(2,3) by (simp add: threads_ok_def)
  qed
qed

lemma freed_env: "env_ok w \<Longrightarrow> env_ok (freed w)"
  by (simp add: env_ok_def frame_defs)

lemma finish_step:
  assumes ok: "threads_ok s" and en: "progress_of s p = Freeing"
  shows "\<exists>s'. thread_step (Finish p) s = Next s' \<and> threads_ok s'"
proof -
  obtain q where q: "queue (shared s) = Some q"
    using ok en by (cases "queue (shared s)"; cases p) (auto simp: threads_ok_def in_step_def abs_world_def)
  have w: "world_ok (shared s)" "env_ok (shared s)" using ok by (auto simp: threads_ok_def)
  have "thread_step (Finish p) s
      = Next (s\<lparr>shared := freed (shared s), progress_of := (progress_of s)(p := Gone)\<rparr>)"
    using en free_eq [OF w(1) q] by (simp add: moved_def)
  moreover have "progress_of s (peer p) = Gone \<or> p = Uv_port \<and> progress_of s Thread_port = Outside"
    using ok en q by (cases p) (auto simp: threads_ok_def in_step_def abs_world_def)
  ultimately show ?thesis
    using ok en w freed_ok [OF w(1)] freed_env [OF w(2)]
    by (cases p) (auto simp: threads_ok_def in_step_def)
qed

lemma thread_step_ok:
  assumes "threads_ok s"
  shows "thread_step a s \<noteq> Fault \<and> (\<forall>s'. thread_step a s = Next s' \<longrightarrow> threads_ok s')"
proof (cases a)
  case (Act op)
  then show ?thesis
  proof (cases "enabled op s")
    case True
    consider p where "op = End p \<or> op = Close p \<or> op = Destroy"
      | "\<And>p. op \<noteq> End p" "\<And>p. op \<noteq> Close p" "op \<noteq> Destroy"
      by blast
    then show ?thesis
    proof cases
      case 1
      then show ?thesis using decided_step [OF assms True] Act by fastforce
    next
      case 2
      then show ?thesis using plain_step [OF assms True] Act by fastforce
    qed
  qed (simp add: Act)
next
  case (Finish p)
  then show ?thesis using finish_step [OF assms, of p] by (cases "progress_of s p = Freeing") auto
next
  case Give
  then show ?thesis using assms by (auto simp: threads_ok_def)
qed

lemma threads_reach_ok: "threads_reach s \<Longrightarrow> threads_ok s"
  by (induction rule: threads_reach.induct) (auto simp: started_ok dest: thread_step_ok)

inductive_cases threads_reachE: "threads_reach s"

text \<open>
  C5: The two threads never step on a freed queue. However the critical sections of the
  worklet's thread and the host's interleave, with each other and with the freeing that
  follows outside the lock, no operation that a thread may still make is at fault: the
  queue is not used after it is freed, not freed twice, and no block of it is freed twice.
\<close>

theorem threads_never_fault:
  assumes "threads_reach s"
  shows "thread_step a s \<noteq> Fault"
  using thread_step_ok [OF threads_reach_ok [OF assms]] by blast

theorem threads_never_fault_witness: "thread_step (Act (Open_thread 1 0)) started \<noteq> Fault"
  by (rule threads_never_fault [OF threads_reach.start])

text \<open>
  The queue is freed by exactly the thread that comes last. In every reachable state it
  is freed if and only if the worklet's thread is through with it and the host's end is
  closed or was never opened; and at most one thread has decided to free it, while the
  other one is through.
\<close>

theorem threads_free_once:
  assumes "threads_reach s"
  shows "(queue (shared s) = None \<longleftrightarrow>
      progress_of s Uv_port = Gone \<and> progress_of s Thread_port \<in> {Outside, Gone})
    \<and> \<not> (progress_of s Uv_port = Freeing \<and> progress_of s Thread_port \<in> {Using, Freeing})
    \<and> \<not> (progress_of s Thread_port = Freeing \<and> progress_of s Uv_port \<noteq> Gone)"
  using threads_reach_ok [OF assms]
  by (cases "queue (shared s)") (auto simp: threads_ok_def in_step_def abs_world_def)

theorem threads_free_once_witness:
  "progress_of started Uv_port = Using \<and> queue (shared started) \<noteq> None"
  using threads_free_once [OF threads_reach.start] by (simp add: started_def)

end
