(* ===== verification/Ipc_Signal.thy ===== *)
theory Ipc_Signal
  imports Queue_Threads
begin

text \<open>
  The host end of the ipc as data (\<open>src/ipc.h\<close>) and the part of it that each platform
  implements, here the one that runs polls on a thread of their own
  (\<open>src/standalone/ipc.c\<close>): the signal, which the worklet's thread sends to for as long as the
  port is open, and the attachment of a poll.

  The structs live in maps from addresses: using one that was freed is a fault.
\<close>

section \<open>Data\<close>

record bare_ipc_t =
  ipc_port :: "port_ptr option" \<comment> \<open>\<open>NULL\<close> once closed\<close>
  pending :: bare_queue_message_t
  offset :: nat
  ipc_poll :: ptr
  ipc_signal :: ptr

record bare_ipc_poll_t =
  poll_ipc :: ptr
  events :: int32
  poll_cb :: ptr
  poll_data :: ptr

record bare_ipc_signal_t =
  signal_ipc :: ptr \<comment> \<open>\<open>NULL\<close> once the ipc is destroyed\<close>
  detached :: bool

text \<open>
  \<open>self\<close> is the signal whose thread runs the code, \<open>NULL\<close> on any other thread: what
  \<open>uv_thread_self\<close> is compared with.
\<close>

record ipc_world = qworld +
  ipcs :: "ptr \<rightharpoonup> bare_ipc_t"
  polls :: "ptr \<rightharpoonup> bare_ipc_poll_t"
  signals :: "ptr \<rightharpoonup> bare_ipc_signal_t"
  self :: ptr

section \<open>The signal\<close>

text \<open>
  The handles and the thread live in the signal: a signal that is there has a loop with
  two handles and a thread that runs it. The ipc is local to its creator until the signal
  is attached, so it is passed and returned as a value.
\<close>

definition bare_ipc__signal_init ::
  "ptr \<Rightarrow> bare_ipc_t \<Rightarrow> 'z ipc_world_scheme \<Rightarrow> (int \<times> bare_ipc_t \<times> 'z ipc_world_scheme) option" where
  "bare_ipc__signal_init ipc i w =
     (let (signal, w) = malloc_struct w
      in if signal = NULL then Some (-1, i, w)
         else do {
           w \<leftarrow> emit_ok Loop_init w;
           w \<leftarrow> emit_ok (Async_init Wake_async) w;
           w \<leftarrow> emit_ok (Async_init Close_async) w;
           w \<leftarrow> emit_ok (Mutex_init Running_mutex) w;
           let w = w\<lparr>signals := (signals w)(signal \<mapsto> \<lparr>signal_ipc = ipc, detached = False\<rparr>)\<rparr>;
           let i = i\<lparr>ipc_signal := signal\<rparr>;
           w \<leftarrow> emit_ok Thread_create w;
           Some (0, i, w)
         })"

definition bare_ipc__signal :: "bare_ipc_t \<Rightarrow> 'z ipc_world_scheme \<Rightarrow> 'z ipc_world_scheme option" where
  "bare_ipc__signal i w = do {
     _ \<leftarrow> signals w (ipc_signal i);
     emit_ok (Async_send Wake_async) w
   }"

text \<open>Returns the ipc with no signal.\<close>

definition bare_ipc__signal_destroy ::
  "bare_ipc_t \<Rightarrow> 'z ipc_world_scheme \<Rightarrow> (bare_ipc_t \<times> 'z ipc_world_scheme) option" where
  "bare_ipc__signal_destroy i w = do {
     let signal = ipc_signal i;
     s \<leftarrow> signals w signal;
     let w = emit (Mutex_lock Running_mutex) w;
     let s = s\<lparr>signal_ipc := NULL\<rparr>;
     let w = emit (Mutex_unlock Running_mutex) (w\<lparr>signals := (signals w)(signal \<mapsto> s)\<rparr>);
     w \<leftarrow> emit_ok (Async_send Close_async) w;
     w \<leftarrow> (if self w = signal
           then emit_ok Thread_detach (w\<lparr>signals := (signals w)(signal \<mapsto> s\<lparr>detached := True\<rparr>)\<rparr>)
           else do {
             w \<leftarrow> emit_ok Thread_join w;
             let w = emit (Mutex_destroy Running_mutex) w;
             Some (w\<lparr>signals := (signals w)(signal := None)\<rparr>)
           });
     Some (i\<lparr>ipc_signal := NULL\<rparr>, w)
   }"

definition bare_ipc__set_poll :: "ptr \<Rightarrow> ptr \<Rightarrow> 'z ipc_world_scheme \<Rightarrow> 'z ipc_world_scheme option" where
  "bare_ipc__set_poll ipc poll w = do {
     i \<leftarrow> ipcs w ipc;
     _ \<leftarrow> signals w (ipc_signal i);
     let w = emit (Mutex_lock Running_mutex) w;
     let w = w\<lparr>ipcs := (ipcs w)(ipc \<mapsto> i\<lparr>ipc_poll := poll\<rparr>)\<rparr>;
     Some (emit (Mutex_unlock Running_mutex) w)
   }"

end
