(* ===== verification/Ipc.thy ===== *)
theory Ipc
  imports Ipc_Signal
begin

text \<open>
  The host end of the ipc (\<open>src/ipc.c\<close>): a stream of bytes over the messages of the queue's
  host port, and the polls that tell the host when to read or write.

  A poll's callback is the host's. It is the parameter \<open>host\<close>: given the callback, the poll
  and the events, what the host does to the world. A buffer that is read into is the list
  of the bytes that were copied.
\<close>

section \<open>Codes\<close>

definition bare_ipc_readable :: int32 where
  "bare_ipc_readable = 1"

definition bare_ipc_writable :: int32 where
  "bare_ipc_writable = 2"

definition bare_ipc_would_block :: int where
  "bare_ipc_would_block = -1"

definition bare_ipc_error :: int where
  "bare_ipc_error = -2"

lemmas ipc_codes = bare_ipc_would_block_def bare_ipc_error_def

text \<open>The address of the function \<open>bare_ipc__on_signal\<close>.\<close>

definition on_signal_ptr :: ptr where
  "on_signal_ptr = 1"

definition bare_ipc__on_signal :: "port_ptr \<Rightarrow> 'z ipc_world_scheme \<Rightarrow> 'z ipc_world_scheme option" where
  "bare_ipc__on_signal port w = do {
     q \<leftarrow> queue w;
     i \<leftarrow> ipcs w (port_data (port_at q port));
     bare_ipc__signal i w
   }"

section \<open>Life\<close>

text \<open>
  The signal can wake the poll's thread before \<open>bare_ipc_create\<close> returns; as the ipc has no
  poll yet, that wake does nothing. The ipc is in the map from the moment its address is
  given to the queue. The result is a status and the address written to \<open>*result\<close>.
\<close>

definition bare_ipc_create :: "'z ipc_world_scheme \<Rightarrow> ((int \<times> ptr) \<times> 'z ipc_world_scheme) option" where
  "bare_ipc_create w =
     (let (ipc, w) = malloc_struct w
      in if ipc = NULL then Some ((-1, NULL), w)
         else do {
           let i = \<lparr>ipc_port = None, pending = \<lparr>base = NULL, len = 0\<rparr>, offset = 0,
                    ipc_poll = NULL, ipc_signal = NULL\<rparr>;
           (err, i, w) \<leftarrow> bare_ipc__signal_init ipc i w;
           if err < 0 then Some ((err, NULL), w)
           else do {
             (port, w) \<leftarrow> bare_queue_open_thread on_signal_ptr ipc (w\<lparr>ipcs := (ipcs w)(ipc \<mapsto> i)\<rparr>);
             if port = None then do {
               (i, w) \<leftarrow> bare_ipc__signal_destroy i w;
               Some ((-1, NULL), w\<lparr>ipcs := (ipcs w)(ipc := None)\<rparr>)
             } else do {
               let w = w\<lparr>ipcs := (ipcs w)(ipc \<mapsto> i\<lparr>ipc_port := port\<rparr>)\<rparr>;
               w \<leftarrow> emit_ok (Mutex_init Ipc_lock) w;
               Some ((0, ipc), w)
             }
           }
         })"

definition bare_ipc_close :: "ptr \<Rightarrow> 'z ipc_world_scheme \<Rightarrow> 'z ipc_world_scheme option" where
  "bare_ipc_close ipc w = do {
     i \<leftarrow> ipcs w ipc;
     let w = emit (Mutex_lock Ipc_lock) w;
     w \<leftarrow> (case ipc_port i of
             None \<Rightarrow> Some w
           | Some port \<Rightarrow> do {
               w \<leftarrow> bare_queue_close port w;
               let i = i\<lparr>ipc_port := None\<rparr>;
               w \<leftarrow> free_block (base (pending i)) w;
               let i = i\<lparr>pending := (pending i)\<lparr>base := NULL\<rparr>\<rparr>;
               bare_ipc__signal i (w\<lparr>ipcs := (ipcs w)(ipc \<mapsto> i)\<rparr>)
             });
     Some (emit (Mutex_unlock Ipc_lock) w)
   }"

definition bare_ipc_end :: "ptr \<Rightarrow> 'z ipc_world_scheme \<Rightarrow> 'z ipc_world_scheme option" where
  "bare_ipc_end ipc w = do {
     i \<leftarrow> ipcs w ipc;
     let w = emit (Mutex_lock Ipc_lock) w;
     w \<leftarrow> (case ipc_port i of
             None \<Rightarrow> Some w
           | Some port \<Rightarrow> do {
               w \<leftarrow> bare_queue_end port w;
               bare_ipc__signal i w
             });
     Some (emit (Mutex_unlock Ipc_lock) w)
   }"

definition bare_ipc_destroy :: "ptr \<Rightarrow> 'z ipc_world_scheme \<Rightarrow> 'z ipc_world_scheme option" where
  "bare_ipc_destroy ipc w = do {
     w \<leftarrow> bare_ipc_close ipc w;
     i \<leftarrow> ipcs w ipc;
     (i, w) \<leftarrow> bare_ipc__signal_destroy i w;
     let w = emit (Mutex_destroy Ipc_lock) w;
     Some (w\<lparr>ipcs := (ipcs w)(ipc := None)\<rparr>)
   }"

section \<open>Dispatch\<close>

text \<open>The two conditions under which an open ipc is not ready for an event.\<close>

definition mask_ready :: "bare_ipc_t \<Rightarrow> int32 \<Rightarrow> 'z ipc_world_scheme
    \<Rightarrow> (int32 \<times> 'z ipc_world_scheme) option" where
  "mask_ready i ready w = (case ipc_port i of
     None \<Rightarrow> Some (ready, w)
   | Some port \<Rightarrow> do {
       (readable, w) \<leftarrow> (if base (pending i) = NULL then bare_queue_readable port w else Some (True, w));
       let ready = (if base (pending i) = NULL \<and> \<not> readable then ready AND NOT bare_ipc_readable
                    else ready);
       (writable, w) \<leftarrow> bare_queue_writable port w;
       Some (if \<not> writable then ready AND NOT bare_ipc_writable else ready, w)
     })"

text \<open>\<open>host\<close> is given the callback, the poll and the events that are ready.\<close>

definition bare_ipc__dispatch ::
  "(ptr \<Rightarrow> ptr \<Rightarrow> int32 \<Rightarrow> 'z ipc_world_scheme \<Rightarrow> 'z ipc_world_scheme option)
     \<Rightarrow> ptr \<Rightarrow> 'z ipc_world_scheme \<Rightarrow> 'z ipc_world_scheme option" where
  "bare_ipc__dispatch host ipc w = do {
     i \<leftarrow> ipcs w ipc;
     if ipc_poll i = NULL then Some w
     else do {
       poll \<leftarrow> polls w (ipc_poll i);
       if poll_cb poll = NULL then Some w
       else do {
         let w = emit (Mutex_lock Ipc_lock) w;
         (ready, w) \<leftarrow> mask_ready i (events poll) w;
         let w = emit (Mutex_unlock Ipc_lock) w;
         if ready \<noteq> 0 then host (poll_cb poll) (ipc_poll i) ready w else Some w
       }
     }
   }"

section \<open>Reading and writing\<close>

text \<open>
  The first half of \<open>bare_ipc_read\<close>: with nothing pending, the next message is taken. The
  result so far, the ipc and the world.
\<close>

definition next_pending ::
  "bare_ipc_t \<Rightarrow> 'z ipc_world_scheme \<Rightarrow> (int \<times> bare_ipc_t \<times> 'z ipc_world_scheme) option" where
  "next_pending i w = (case ipc_port i of
     None \<Rightarrow> Some (0, i, w)
   | Some port \<Rightarrow>
       if base (pending i) \<noteq> NULL then Some (0, i, w)
       else do {
         let i = i\<lparr>offset := 0\<rparr>;
         ((status, message), w) \<leftarrow> bare_queue_read port w;
         let i = (case message of None \<Rightarrow> i | Some m \<Rightarrow> i\<lparr>pending := m\<rparr>);
         Some (if status = bare_queue_would_block then bare_ipc_would_block else 0, i, w)
       })"

text \<open>The second half, which copies from the pending message: the result and the bytes.\<close>

definition copy_pending ::
  "ptr \<Rightarrow> nat \<Rightarrow> bare_ipc_t \<Rightarrow> 'z ipc_world_scheme
     \<Rightarrow> ((int \<times> byte list) \<times> 'z ipc_world_scheme) option" where
  "copy_pending ipc n i w = do {
     let remaining = len (pending i) - offset i;
     let n = (if n > remaining then remaining else n);
     bytes \<leftarrow> read_block (base (pending i)) (offset i) n w;
     let i = i\<lparr>offset := offset i + n\<rparr>;
     (i, w) \<leftarrow> (if offset i = len (pending i) then do {
                  w \<leftarrow> free_block (base (pending i)) w;
                  Some (i\<lparr>pending := (pending i)\<lparr>base := NULL\<rparr>\<rparr>, w)
                } else Some (i, w));
     let w = w\<lparr>ipcs := (ipcs w)(ipc \<mapsto> i)\<rparr>;
     (more, w) \<leftarrow> (if base (pending i) \<noteq> NULL then Some (True, w)
                 else do { port \<leftarrow> ipc_port i; bare_queue_readable port w });
     w \<leftarrow> (if more then bare_ipc__signal i w else Some w);
     Some ((c_int n, bytes), w)
   }"

definition bare_ipc_read ::
  "ptr \<Rightarrow> nat \<Rightarrow> 'z ipc_world_scheme \<Rightarrow> ((int \<times> byte list) \<times> 'z ipc_world_scheme) option" where
  "bare_ipc_read ipc n w = do {
     _ \<leftarrow> c_assert (n > 0);
     let n = min n INT_MAX;
     i \<leftarrow> ipcs w ipc;
     let w = emit (Mutex_lock Ipc_lock) w;
     (result, i, w) \<leftarrow> next_pending i w;
     (r, w) \<leftarrow> (if base (pending i) \<noteq> NULL then copy_pending ipc n i w
              else Some ((result, []), w\<lparr>ipcs := (ipcs w)(ipc \<mapsto> i)\<rparr>));
     Some (r, emit (Mutex_unlock Ipc_lock) w)
   }"

definition bare_ipc_write ::
  "ptr \<Rightarrow> byte list \<Rightarrow> 'z ipc_world_scheme \<Rightarrow> (int \<times> 'z ipc_world_scheme) option" where
  "bare_ipc_write ipc data w = do {
     i \<leftarrow> ipcs w ipc;
     let w = emit (Mutex_lock Ipc_lock) w;
     (n, w) \<leftarrow> (case ipc_port i of
                 None \<Rightarrow> Some (bare_queue_closed, w)
               | Some port \<Rightarrow> bare_queue_write port data w);
     let w = emit (Mutex_unlock Ipc_lock) w;
     Some (if n = bare_queue_would_block then bare_ipc_would_block
           else if n = bare_queue_closed then bare_ipc_error
           else n, w)
   }"

section \<open>Polls\<close>

definition bare_ipc_poll_create ::
  "ptr \<Rightarrow> 'z ipc_world_scheme \<Rightarrow> ((int \<times> ptr) \<times> 'z ipc_world_scheme) option" where
  "bare_ipc_poll_create ipc w =
     (let (poll, w) = malloc_struct w
      in if poll = NULL then Some ((-1, NULL), w)
         else do {
           let w = w\<lparr>polls := (polls w)(poll \<mapsto>
             \<lparr>poll_ipc = ipc, events = 0, poll_cb = NULL, poll_data = NULL\<rparr>)\<rparr>;
           w \<leftarrow> bare_ipc__set_poll ipc poll w;
           Some ((0, poll), w)
         })"

definition bare_ipc_poll_stop :: "ptr \<Rightarrow> 'z ipc_world_scheme \<Rightarrow> (int \<times> 'z ipc_world_scheme) option" where
  "bare_ipc_poll_stop poll w = do {
     p \<leftarrow> polls w poll;
     Some (0, w\<lparr>polls := (polls w)(poll \<mapsto> p\<lparr>events := 0, poll_cb := NULL\<rparr>)\<rparr>)
   }"

definition bare_ipc_poll_destroy :: "ptr \<Rightarrow> 'z ipc_world_scheme \<Rightarrow> 'z ipc_world_scheme option" where
  "bare_ipc_poll_destroy poll w = do {
     (_, w) \<leftarrow> bare_ipc_poll_stop poll w;
     p \<leftarrow> polls w poll;
     w \<leftarrow> bare_ipc__set_poll (poll_ipc p) NULL w;
     Some (w\<lparr>polls := (polls w)(poll := None)\<rparr>)
   }"

definition bare_ipc_poll_get_data :: "ptr \<Rightarrow> 'z ipc_world_scheme \<Rightarrow> ptr option" where
  "bare_ipc_poll_get_data poll w = map_option poll_data (polls w poll)"

definition bare_ipc_poll_set_data ::
  "ptr \<Rightarrow> ptr \<Rightarrow> 'z ipc_world_scheme \<Rightarrow> 'z ipc_world_scheme option" where
  "bare_ipc_poll_set_data poll data w = do {
     p \<leftarrow> polls w poll;
     Some (w\<lparr>polls := (polls w)(poll \<mapsto> p\<lparr>poll_data := data\<rparr>)\<rparr>)
   }"

definition bare_ipc_poll_get_ipc :: "ptr \<Rightarrow> 'z ipc_world_scheme \<Rightarrow> ptr option" where
  "bare_ipc_poll_get_ipc poll w = map_option poll_ipc (polls w poll)"

definition bare_ipc_poll_start ::
  "ptr \<Rightarrow> int32 \<Rightarrow> ptr \<Rightarrow> 'z ipc_world_scheme \<Rightarrow> (int \<times> 'z ipc_world_scheme) option" where
  "bare_ipc_poll_start poll evs cb w =
     (if evs = 0 then bare_ipc_poll_stop poll w
      else do {
        p \<leftarrow> polls w poll;
        let w = w\<lparr>polls := (polls w)(poll \<mapsto> p\<lparr>events := evs, poll_cb := cb\<rparr>)\<rparr>;
        i \<leftarrow> ipcs w (poll_ipc p);
        w \<leftarrow> bare_ipc__signal i w;
        Some (0, w)
      })"

end
