(* ===== verification/Ipc_Inv.thy ===== *)
theory Ipc_Inv
  imports Ipc
begin

text \<open>
  The invariant of the host end of the ipc: what it holds of the queue, whose the pending
  message is, and that everything the worklet's thread may still signal is there.
\<close>

section \<open>The invariant\<close>

text \<open>The rest of a message belongs to the ipc, not to the queue, and is not empty.\<close>

definition pending_ok :: "'z qworld_scheme \<Rightarrow> bare_ipc_t \<Rightarrow> bool" where
  "pending_ok w i \<longleftrightarrow> base (pending i) = NULL
     \<or> live_message w (pending i) \<and> offset i < len (pending i) \<and> base (pending i) \<notin> owned w"

definition port_ok :: "'z qworld_scheme \<Rightarrow> ptr \<Rightarrow> bare_ipc_t \<Rightarrow> bool" where
  "port_ok w ipc i \<longleftrightarrow> (case ipc_port i of
     None \<Rightarrow> base (pending i) = NULL
   | Some port \<Rightarrow> port = Thread_port \<and> (\<exists>q. queue w = Some q
       \<and> bare_queue__listening (thread_state q) \<and> host_end q = (on_signal_ptr, ipc)))"

definition signal_ok :: "'z ipc_world_scheme \<Rightarrow> ptr \<Rightarrow> bare_ipc_t \<Rightarrow> bool" where
  "signal_ok w ipc i \<longleftrightarrow> signals w (ipc_signal i) = Some \<lparr>signal_ipc = ipc, detached = False\<rparr>"

definition poll_ok :: "'z ipc_world_scheme \<Rightarrow> ptr \<Rightarrow> bare_ipc_t \<Rightarrow> bool" where
  "poll_ok w ipc i \<longleftrightarrow> ipc_poll i = NULL \<or> (\<exists>p. polls w (ipc_poll i) = Some p \<and> poll_ipc p = ipc)"

text \<open>While the host's end of the queue listens, the ipc that the signal is for is there.\<close>

definition served :: "'z ipc_world_scheme \<Rightarrow> bool" where
  "served w \<longleftrightarrow> (\<forall>q. queue w = Some q \<longrightarrow> bare_queue__listening (thread_state q) \<longrightarrow>
     (\<exists>i. ipcs w (port_data (thread_port q)) = Some i \<and> ipc_port i = Some Thread_port))"

definition addresses_ok :: "'z ipc_world_scheme \<Rightarrow> bool" where
  "addresses_ok w \<longleftrightarrow> self w < brk w \<and> (\<forall>p \<in> dom (ipcs w) \<union> dom (polls w) \<union> dom (signals w). 0 < p \<and> p < brk w)"

definition ipc_good :: "'z ipc_world_scheme \<Rightarrow> ptr \<Rightarrow> bare_ipc_t \<Rightarrow> bool" where
  "ipc_good w ipc i \<longleftrightarrow> pending_ok w i \<and> port_ok w ipc i \<and> signal_ok w ipc i \<and> poll_ok w ipc i"

definition ipc_ok :: "'z ipc_world_scheme \<Rightarrow> bool" where
  "ipc_ok w \<longleftrightarrow> world_ok w \<and> addresses_ok w \<and> served w
     \<and> (\<forall>ipc i. ipcs w ipc = Some i \<longrightarrow> ipc_good w ipc i)"

lemmas ipc_parts = pending_ok_def port_ok_def signal_ok_def poll_ok_def

lemma ipc_okD:
  assumes "ipc_ok w"
  shows "world_ok w" "addresses_ok w" "served w" "ipcs w ipc = Some i \<Longrightarrow> ipc_good w ipc i"
  using assms by (auto simp: ipc_ok_def)

lemma world_ok_ipcs [simp]:
  "world_ok (w\<lparr>ipcs := x\<rparr>) = world_ok w" "world_ok (w\<lparr>polls := y\<rparr>) = world_ok w"
  "world_ok (w\<lparr>signals := z\<rparr>) = world_ok w" "world_ok (w\<lparr>self := s\<rparr>) = world_ok w"
  by (simp_all add: world_ok_def heap_ok_def queue_ok_def live_message_def)

lemma env_ok_ipcs [simp]:
  "env_ok (w\<lparr>ipcs := x\<rparr>) = env_ok w" "env_ok (w\<lparr>polls := y\<rparr>) = env_ok w"
  "env_ok (w\<lparr>signals := z\<rparr>) = env_ok w" "env_ok (w\<lparr>self := s\<rparr>) = env_ok w"
  "env_ok (w\<lparr>calls := cs\<rparr>) = env_ok w" "env_ok (w\<lparr>brk := b\<rparr>) = env_ok w"
  "env_ok (w\<lparr>blocks := bs\<rparr>) = env_ok w" "env_ok (w\<lparr>queue := q\<rparr>) = env_ok w"
  by (simp_all add: env_ok_def)

lemma env_ok_emit [simp]: "env_ok (emit c w) = env_ok w"
  by (simp add: env_ok_def)

lemma emit_ok_env: "env_ok w \<Longrightarrow> emit_ok c w = Some (emit c w)"
  by (simp add: emit_ok_def env_ok_def)

lemma malloc_struct_env: "env_ok w \<Longrightarrow> malloc_struct w = (brk w, w\<lparr>brk := Suc (brk w)\<rparr>)"
  by (simp add: malloc_struct_def env_ok_def)

text \<open>Two ipcs never hold the port: the queue has one host end.\<close>

lemma one_port:
  assumes "port_ok w p i" and "port_ok w p' i'" and "p \<noteq> p'" and "ipc_port i \<noteq> None"
  shows "ipc_port i' = None \<and> base (pending i') = NULL"
  using assms by (auto simp: port_ok_def split: option.splits)

text \<open>An ipc without the port does not depend on the queue or on the blocks.\<close>

lemma ipc_good_closed:
  assumes "ipc_good w p i" and "ipc_port i = None" and "signals w' = signals w" and "polls w' = polls w"
  shows "ipc_good w' p i"
  using assms by (simp add: ipc_good_def ipc_parts)

lemma ipc_good_calls [simp]: "ipc_good (w\<lparr>calls := cs\<rparr>) p i = ipc_good w p i"
  by (simp add: ipc_good_def ipc_parts split: option.split)

lemma ipc_ok_calls [simp]: "ipc_ok (w\<lparr>calls := cs\<rparr>) = ipc_ok w"
  by (simp add: ipc_ok_def addresses_ok_def served_def)

lemma ipc_ok_emit [simp]: "ipc_ok (emit c w) = ipc_ok w"
  by (simp add: emit_def)

lemma ipc_emit [simp]:
  "ipcs (emit c w) = ipcs w" "polls (emit c w) = polls w" "signals (emit c w) = signals w"
  "self (emit c w) = self w"
  by (simp_all add: emit_def)

section \<open>Changing the ipc that holds the port\<close>

text \<open>
  How an operation on an open ipc keeps the invariant: the ipc it stores is good, the others
  have no port, and the queue's host end is still served by it.
\<close>

lemma ipc_ok_store:
  assumes ok: "ipc_ok w" and i: "ipcs w ipc = Some i" "ipc_port i \<noteq> None"
    and w': "world_ok w'" "brk w \<le> brk w' \<and> self w' = self w" "ipcs w' = (ipcs w)(ipc \<mapsto> i')"
      "signals w' = signals w" "polls w' = polls w"
    and good: "ipc_good w' ipc i'"
    and serve: "\<And>q'. queue w' = Some q' \<Longrightarrow> bare_queue__listening (thread_state q') \<Longrightarrow>
      port_data (thread_port q') = ipc \<and> ipc_port i' = Some Thread_port"
  shows "ipc_ok w'"
proof -
  have "ipc_good w' p j" if "ipcs w p = Some j" "p \<noteq> ipc" for p j
  proof -
    have "ipc_good w p j" "ipc_good w ipc i" using ok that i by (auto simp: ipc_ok_def)
    moreover from this have "ipc_port j = None"
      using one_port [of w ipc i p j] that i by (auto simp: ipc_good_def)
    ultimately show ?thesis using ipc_good_closed w'(4,5) by blast
  qed
  moreover have "addresses_ok w'"
  proof -
    have d: "dom (ipcs w') = dom (ipcs w)" using i(1) w'(3) by auto
    show ?thesis
      unfolding addresses_ok_def d w'(4,5)
      using ipc_okD(2) [OF ok] w'(2) by (auto simp: addresses_ok_def intro: order_less_le_trans)
  qed
  moreover have "served w'" using serve w'(3) by (auto simp: served_def)
  ultimately show ?thesis using w'(1,3) good by (auto simp: ipc_ok_def)
qed

text \<open>An open ipc: its queue and what it knows of it.\<close>

lemma open_ipc:
  assumes ok: "ipc_ok w" and i: "ipcs w ipc = Some i" and p: "ipc_port i = Some port"
  obtains q where "port = Thread_port" "queue w = Some q" "queue_ok w q" "ports_ok q"
    "bare_queue__listening (thread_state q)" "host_end q = (on_signal_ptr, ipc)"
    "port_data (thread_port q) = ipc" "bare_queue__state q Thread_port = thread_state q"
proof -
  have "port_ok w ipc i" using ok i by (simp add: ipc_ok_def ipc_good_def)
  then obtain q where q: "port = Thread_port" "queue w = Some q"
      "bare_queue__listening (thread_state q)" "host_end q = (on_signal_ptr, ipc)"
    using p by (auto simp: port_ok_def)
  have qok: "queue_ok w q" using ok q(2) by (simp add: ipc_ok_def world_ok_def)
  then have po: "ports_ok q" by (rule queue_ok_ports)
  have "bare_queue__state q Thread_port = thread_state q"
    using po by (simp add: bare_queue__state_def is_uv_port_at)
  moreover have "port_data (thread_port q) = ipc" using q(4) by (simp add: host_end_def)
  ultimately show ?thesis using that q qok po by blast
qed

text \<open>The signal of an ipc that is there can be sent.\<close>

lemma signal_eq:
  assumes "signal_ok w ipc i" and "env_ok w"
  shows "bare_ipc__signal i w = Some (emit (Async_send Wake_async) w)"
  using assms by (simp add: bare_ipc__signal_def signal_ok_def emit_ok_env)

lemma thread_state_store [simp]:
  "thread_state (store_inbox q p r) = thread_state q"
  "uv_state (store_inbox q p r) = uv_state q"
  by (simp_all add: store_inbox_def)

lemma port_data_store [simp]: "port_data (thread_port (store_inbox q p r)) = port_data (thread_port q)"
  by (simp add: store_inbox_def)

section \<open>Fresh addresses\<close>

lemma addresses_fresh:
  assumes "addresses_ok w" and "brk w \<le> p"
  shows "ipcs w p = None" "polls w p = None" "signals w p = None" "self w \<noteq> p"
proof -
  have "p \<notin> dom (ipcs w) \<union> dom (polls w) \<union> dom (signals w)"
  proof
    assume "p \<in> dom (ipcs w) \<union> dom (polls w) \<union> dom (signals w)"
    then have "p < brk w" using assms(1) unfolding addresses_ok_def by blast
    then show False using assms(2) by simp
  qed
  then show "ipcs w p = None" "polls w p = None" "signals w p = None" by (auto simp: domIff)
  show "self w \<noteq> p" using assms by (auto simp: addresses_ok_def)
qed

lemma ipc_ok_brk:
  assumes ok: "ipc_ok w" and k: "brk w \<le> k"
  shows "ipc_ok (w\<lparr>brk := k\<rparr>)"
proof -
  have "ipc_good (w\<lparr>brk := k\<rparr>) p i = ipc_good w p i" for p i
    by (simp add: ipc_good_def ipc_parts split: option.split)
  moreover have "world_ok (w\<lparr>brk := k\<rparr>)"
    using ipc_okD(1) [OF ok] k by (auto simp: world_ok_def heap_ok_def intro: order_less_le_trans)
  moreover have "addresses_ok (w\<lparr>brk := k\<rparr>)" "served (w\<lparr>brk := k\<rparr>)"
    using ipc_okD(2,3) [OF ok] k
    by (auto simp: addresses_ok_def served_def intro: order_less_le_trans)
  ultimately show ?thesis using ipc_okD(4) [OF ok] by (simp add: ipc_ok_def)
qed

lemma ipc_ok_self:
  assumes ok: "ipc_ok w" and k: "k < brk w"
  shows "ipc_ok (w\<lparr>self := k\<rparr>)"
proof -
  have "ipc_good (w\<lparr>self := k\<rparr>) p i = ipc_good w p i" for p i
    by (simp add: ipc_good_def ipc_parts live_message_def owned_def split: option.split)
  then show ?thesis
    using ipc_okD [OF ok] k by (simp add: ipc_ok_def addresses_ok_def served_def)
qed

lemma brk_pos: "ipc_ok w \<Longrightarrow> 0 < brk w"
  by (simp add: ipc_ok_def world_ok_def heap_ok_def)

end
