(* ===== verification/Ipc_Stream.thy ===== *)
theory Ipc_Stream
  imports Ipc_Inv
begin

text \<open>
  The ipc as a stream of bytes: what the host has yet to read, as one list of bytes
  whatever the messages it came in, and how \<open>bare_ipc_read\<close> takes from its front.

  \<open>byte_stream\<close> is what a reader of such a stream relies on.
\<close>

section \<open>The stream\<close>

definition pending_bytes :: "'z machine_scheme \<Rightarrow> bare_ipc_t \<Rightarrow> byte list" where
  "pending_bytes w i =
     (if base (pending i) = NULL then [] else drop (offset i) (payload w (pending i)))"

text \<open>What the host has yet to read, and whether nothing follows it.\<close>

definition inbound :: "'z ipc_world_scheme \<Rightarrow> ptr \<Rightarrow> byte list" where
  "inbound w ipc = (case ipcs w ipc of
     None \<Rightarrow> []
   | Some i \<Rightarrow> (case (ipc_port i, queue w) of
       (Some port, Some q) \<Rightarrow> pending_bytes w i @ concat (waiting (abs_queue w q) port)
     | _ \<Rightarrow> []))"

definition inbound_over :: "'z ipc_world_scheme \<Rightarrow> ptr \<Rightarrow> bool" where
  "inbound_over w ipc = (case ipcs w ipc of
     None \<Rightarrow> True
   | Some i \<Rightarrow> (case (ipc_port i, queue w) of
       (Some port, Some q) \<Rightarrow> peer_ended q port
     | _ \<Rightarrow> True))"

text \<open>Storing the value that is there, and the parts of the state the two do not look at.\<close>

abbreviation (input) store_ipc :: "ptr \<Rightarrow> bare_ipc_t \<Rightarrow> 'z ipc_world_scheme \<Rightarrow> 'z ipc_world_scheme" where
  "store_ipc ipc i w \<equiv> w\<lparr>ipcs := (ipcs w)(ipc \<mapsto> i)\<rparr>"

lemma abs_queue_ipcs [simp]:
  "abs_queue (w\<lparr>ipcs := x\<rparr>) = abs_queue w" "abs_queue (w\<lparr>polls := y\<rparr>) = abs_queue w"
  "abs_queue (w\<lparr>signals := z\<rparr>) = abs_queue w"
  by (simp_all add: abs_queue_def payload_def fun_eq_iff)

lemma payload_frame [simp]:
  "payload (w\<lparr>ipcs := x\<rparr>) = payload w" "payload (w\<lparr>calls := cs\<rparr>) = payload w"
  "payload (w\<lparr>queue := q\<rparr>) = payload w"
  by (simp_all add: payload_def fun_eq_iff)

lemma payload_emit [simp]: "payload (emit c w) = payload w"
  by (simp add: payload_def fun_eq_iff)

lemma pending_bytes_frame [simp]:
  "pending_bytes (w\<lparr>ipcs := x\<rparr>) i = pending_bytes w i"
  "pending_bytes (w\<lparr>calls := cs\<rparr>) i = pending_bytes w i"
  "pending_bytes (w\<lparr>queue := q\<rparr>) i = pending_bytes w i"
  by (simp_all add: pending_bytes_def)

lemma abs_queue_emit [simp]: "abs_queue (emit c w) = abs_queue w"
  by (simp add: abs_queue_def fun_eq_iff)

lemma pending_bytes_emit [simp]: "pending_bytes (emit c w) i = pending_bytes w i"
  by (simp add: pending_bytes_def)

lemma inbound_emit [simp]:
  "inbound (emit c w) ipc = inbound w ipc" "inbound_over (emit c w) ipc = inbound_over w ipc"
  by (simp_all add: inbound_def inbound_over_def split: option.split)

lemma inbound_open:
  assumes "ipcs w ipc = Some i" and "ipc_port i = Some port" and "queue w = Some q"
  shows "inbound w ipc = pending_bytes w i @ concat (waiting (abs_queue w q) port)"
    and "inbound_over w ipc = peer_ended q port"
  using assms by (simp_all add: inbound_def inbound_over_def)

lemma inbound_closed:
  assumes "ipcs w ipc = Some i" and "ipc_port i = None"
  shows "inbound w ipc = [] \<and> inbound_over w ipc"
  using assms by (simp add: inbound_def inbound_over_def)

section \<open>Taking the next message\<close>

lemma live_payload: "live_message w m \<Longrightarrow> payload w m \<noteq> [] \<and> length (payload w m) = len m"
  by (auto simp: live_message_def payload_def)

lemma taken_frame [simp]:
  "ipcs (taken p q w) = ipcs w" "polls (taken p q w) = polls w" "signals (taken p q w) = signals w"
  "brk (taken p q w) = brk w" "blocks (taken p q w) = blocks w" "self (taken p q w) = self w"
  "queue (taken p q w) = Some (store_inbox q p (snd (bare_queue__ring_shift (bare_queue__inbox q p))))"
  by (simp_all add: taken_def Let_def)

lemma locked_frame [simp]:
  "ipcs (locked_only w) = ipcs w" "polls (locked_only w) = polls w" "signals (locked_only w) = signals w"
  "self (locked_only w) = self w" "brk (locked_only w) = brk w" "blocks (locked_only w) = blocks w" "queue (locked_only w) = queue w"
  by (simp_all add: locked_only_def)

lemma ipc_ok_locked [simp]: "ipc_ok (locked_only w) = ipc_ok w" "env_ok (locked_only w) = env_ok w"
  by (simp_all add: locked_only_def)

lemma calls_grow_taken: "\<exists>cs. calls (taken p q w) = calls w @ cs"
  by (simp add: taken_def Let_def)

lemma calls_grow_locked: "\<exists>cs. calls (locked_only w) = calls w @ cs"
  by (simp add: locked_only_def)

text \<open>Reading a message of an open ipc with nothing pending.\<close>

lemma take_message:
  assumes ok: "ipc_ok w" and env: "env_ok w" and i: "ipcs w ipc = Some i" "ipc_port i = Some port"
    and e: "base (pending i) = NULL" and q: "queue w = Some q"
    and m: "ring_messages (bare_queue__inbox q Thread_port) = m # ms"
  shows "ipc_ok (store_ipc ipc (i\<lparr>offset := 0, pending := m\<rparr>) (taken Thread_port q w))"
    and "inbound (store_ipc ipc (i\<lparr>offset := 0, pending := m\<rparr>) (taken Thread_port q w)) ipc
      = inbound w ipc"
    and "inbound_over (store_ipc ipc (i\<lparr>offset := 0, pending := m\<rparr>) (taken Thread_port q w)) ipc
      = inbound_over w ipc"
    and "base m \<noteq> NULL"
proof -
  let ?i = "i\<lparr>offset := 0, pending := m\<rparr>" and ?q = "store_inbox q Thread_port
    (snd (bare_queue__ring_shift (bare_queue__inbox q Thread_port)))"
  let ?w = "store_ipc ipc ?i (taken Thread_port q w)"
  note w = ipc_okD [OF ok]
  obtain q0 where q0: "port = Thread_port" "queue w = Some q0" "ports_ok q0"
      "bare_queue__listening (thread_state q0)" "host_end q0 = (on_signal_ptr, ipc)"
      "port_data (thread_port q0) = ipc" "queue_ok w q0"
    using open_ipc [OF ok i] by metis
  have p: "port = Thread_port" "ports_ok q" "bare_queue__listening (thread_state q)"
      "host_end q = (on_signal_ptr, ipc)" "port_data (thread_port q) = ipc" "queue_ok w q"
    using q0 q by auto
  have live: "live_message w m" by (rule read_message_live [OF w(1) q m])
  then have nn: "base m \<noteq> NULL"
    using w(1) by (auto simp: live_message_def world_ok_def heap_ok_def NULL_def)
  have own: "owned (taken Thread_port q w) = owned w - {base m}"
    using owned_taken [OF w(1) q m] by simp
  have good: "ipc_good w ipc i" using w(4) i by blast
  have "ipc_good ?w ipc ?i"
  proof -
    have "live_message ?w m" using live by (simp add: live_message_def)
    moreover have "base m \<notin> owned ?w" using own by (simp add: owned_def)
    ultimately have "pending_ok ?w ?i"
      using live by (simp add: pending_ok_def live_message_def)
    moreover have "port_ok ?w ipc ?i" using i(2) p by (simp add: port_ok_def)
    ultimately show ?thesis using good by (simp add: ipc_good_def signal_ok_def poll_ok_def)
  qed
  then show "ipc_ok ?w"
    using ipc_ok_store [OF ok i(1), of ?w ?i] taken_ok [OF w(1) q m] i(2) p by simp
  obtain box where s: "bare_queue__ring_shift (bare_queue__inbox q Thread_port) = (Some m, box)"
      "ring_messages box = ms"
    using ring.shift_Cons [OF ring_ok_inbox [OF p(6)] m] by auto
  have "waiting (abs_queue ?w ?q) Thread_port = map (payload w) ms"
    using s p(2) by (simp add: inbox_store_inbox) (simp add: payload_def)
  moreover have "pending_bytes ?w ?i = payload w m"
    using nn by (simp add: pending_bytes_def) (simp add: payload_def)
  ultimately show "inbound ?w ipc = inbound w ipc"
    using i q p m e by (simp add: inbound_def pending_bytes_def)
  show "inbound_over ?w ipc = inbound_over w ipc"
    using i q p by (simp add: inbound_over_def peer_ended_def)
  show "base m \<noteq> NULL" by (rule nn)
qed

text \<open>Changing what is behind a null pending message changes nothing.\<close>

lemma ipc_ok_null:
  assumes ok: "ipc_ok w" and i: "ipcs w ipc = Some i" "ipc_port i \<noteq> None"
    and i': "i' = i\<lparr>offset := k, pending := m\<rparr>" "base m = NULL"
  shows "ipc_ok (store_ipc ipc i' w)"
proof -
  have g: "ipc_good w ipc i" using ok i by (simp add: ipc_ok_def)
  obtain port where port: "ipc_port i = Some port" using i(2) by auto
  obtain q where q: "port = Thread_port" "queue w = Some q" "port_data (thread_port q) = ipc"
    using open_ipc [OF ok i(1) port] by metis
  have "ipc_good (store_ipc ipc i' w) ipc i'"
    using g i' i(2) by (auto simp: ipc_good_def ipc_parts split: option.splits)
  then show ?thesis
    using ipc_ok_store [OF ok i, of "store_ipc ipc i' w" i'] ok i' port q
    by (simp add: ipc_ok_def)
qed

text \<open>What an operation on a stream leaves alone.\<close>

definition polls_kept :: "'z ipc_world_scheme \<Rightarrow> 'z ipc_world_scheme \<Rightarrow> bool" where
  "polls_kept w w' \<longleftrightarrow> polls w' = polls w \<and> signals w' = signals w \<and> self w' = self w"

lemma next_pending_spec:
  assumes ok: "ipc_ok w" and env: "env_ok w" and i: "ipcs w ipc = Some i"
  shows "\<exists>r i' w' cs. next_pending i w = Some (r, i', w') \<and> ipc_ok (store_ipc ipc i' w') \<and> env_ok w'
    \<and> polls_kept w w' \<and> ipc_port i' = ipc_port i \<and> calls w' = calls w @ cs
    \<and> inbound (store_ipc ipc i' w') ipc = inbound w ipc
    \<and> inbound_over (store_ipc ipc i' w') ipc = inbound_over w ipc
    \<and> (base (pending i') = NULL \<longrightarrow>
        inbound w ipc = [] \<and> r = (if inbound_over w ipc then 0 else bare_ipc_would_block))"
proof (cases "ipc_port i")
  case None
  then have "base (pending i) = NULL"
    using ipc_okD(4) [OF ok i] by (simp add: ipc_good_def port_ok_def)
  then show ?thesis
    using None ok env i inbound_closed [OF i None] by (simp add: next_pending_def map_upd_triv polls_kept_def)
next
  case (Some port)
  show ?thesis
  proof (cases "base (pending i) = NULL")
    case False
    then show ?thesis
      using Some ok env i by (simp add: next_pending_def map_upd_triv polls_kept_def)
  next
    case True
    obtain q where q: "port = Thread_port" "queue w = Some q" "queue_ok w q"
      using open_ipc [OF ok i Some] by metis
    note rd = read_eq [OF ipc_okD(1) [OF ok] q(2), of Thread_port]
    show ?thesis
    proof (cases "ring_messages (bare_queue__inbox q Thread_port)")
      case Nil
      have inb: "inbound w ipc = []" "inbound_over w ipc = peer_ended q Thread_port"
        using inbound_open [OF i Some q(2)] Nil True q(1) by (simp_all add: pending_bytes_def)
      let ?m = "if peer_ended q Thread_port then eof_message else pending i"
      let ?i = "i\<lparr>offset := 0, pending := ?m\<rparr>"
      have null: "base ?m = NULL" using True by (simp add: eof_message_def)
      have np: "next_pending i w = Some (if peer_ended q Thread_port then 0 else bare_ipc_would_block,
          ?i, locked_only w)"
        using Some True q(1) rd Nil by (simp add: next_pending_def queue_codes)
      have "ipc_ok (store_ipc ipc ?i (locked_only w))"
        using ipc_ok_null [where w = "locked_only w" and k = 0 and m = ?m and i' = ?i] ok i Some null by simp
      moreover have "inbound (store_ipc ipc ?i (locked_only w)) ipc = []"
          "inbound_over (store_ipc ipc ?i (locked_only w)) ipc = peer_ended q Thread_port"
        using Some q(1,2) null Nil
        by (simp_all add: inbound_def inbound_over_def pending_bytes_def)
      ultimately show ?thesis
        using np inb null env calls_grow_locked [of w] Some by (auto simp: polls_kept_def)
    next
      case (Cons m ms)
      let ?i = "i\<lparr>offset := 0, pending := m\<rparr>"
      have np: "next_pending i w = Some (0, ?i, taken Thread_port q w)"
        using Some True q(1) rd Cons by (simp add: next_pending_def queue_codes)
      show ?thesis
        using np take_message [OF ok env i Some True q(2) Cons] env
          calls_grow_taken [of Thread_port q w] Some
        by (auto simp: env_ok_def frame_defs polls_kept_def)
    qed
  qed
qed

section \<open>Copying from the pending message\<close>

lemma waiting_nonempty:
  assumes "queue_ok w q"
  shows "concat (waiting (abs_queue w q) p) = [] \<longleftrightarrow> waiting (abs_queue w q) p = []"
proof -
  have "payload w m \<noteq> []" if "m \<in> set (ring_messages (bare_queue__inbox q p))" for m
    using assms that live_payload [of w m] unfolding queue_ok_alt by blast
  then show ?thesis by (cases "ring_messages (bare_queue__inbox q p)") auto
qed

lemma read_block_payload:
  assumes "live_message w m" and "k + n \<le> len m"
  shows "read_block (base m) k n w = Some (take n (drop k (payload w m)))"
  using assms by (auto simp: live_message_def payload_def read_block_def)

text \<open>With bytes left in the message: only the offset moves, and the host is woken again.\<close>

lemma copy_some:
  assumes ok: "ipc_ok (store_ipc ipc i w)" and env: "env_ok w" and n: "0 < n" "n \<le> INT_MAX"
    and b: "base (pending i) \<noteq> NULL" and less: "n < len (pending i) - offset i"
  shows "\<exists>w'. copy_pending ipc n i w = Some ((int n, take n (pending_bytes w i)), w') \<and> ipc_ok w'
    \<and> env_ok w' \<and> (\<exists>j. ipcs w' ipc = Some j \<and> ipc_port j = ipc_port i)
    \<and> inbound (store_ipc ipc i w) ipc = take n (pending_bytes w i) @ inbound w' ipc
    \<and> inbound_over w' ipc = inbound_over (store_ipc ipc i w) ipc
    \<and> calls w' = calls w @ [Async_send Wake_async] \<and> n \<le> length (pending_bytes w i)
    \<and> polls_kept w w'"
proof -
  let ?v = "store_ipc ipc i w" and ?i = "i\<lparr>offset := offset i + n\<rparr>"
  have iv: "ipcs ?v ipc = Some i" by simp
  have good: "ipc_good ?v ipc i" using ipc_okD(4) [OF ok iv] .
  then have live: "live_message w (pending i)" and no: "base (pending i) \<notin> owned w"
    using b by (auto simp: ipc_good_def pending_ok_def live_message_def owned_def)
  obtain port where port: "ipc_port i = Some port"
    using good b by (auto simp: ipc_good_def port_ok_def split: option.splits)
  obtain q where q: "port = Thread_port" "queue ?v = Some q" "port_data (thread_port q) = ipc"
    using open_ipc [OF ok iv port] by metis
  have len: "length (payload w (pending i)) = len (pending i)" using live_payload [OF live] by simp
  have rb: "read_block (base (pending i)) (offset i) n w = Some (take n (pending_bytes w i))"
    using read_block_payload [OF live] less b by (simp add: pending_bytes_def)
  have ne: "offset i + n \<noteq> len (pending i)" using less by simp
  have gi: "ipc_good (store_ipc ipc ?i w) ipc ?i"
    using good b less live no port q
    by (auto simp: ipc_good_def ipc_parts owned_def live_message_def split: option.splits)
  have "ipc_ok (store_ipc ipc ?i w)"
    using ipc_ok_store [OF ok iv, of "store_ipc ipc ?i w" ?i] ok gi port q by (simp add: ipc_ok_def)
  moreover have "signal_ok w ipc ?i" using good by (simp add: ipc_good_def signal_ok_def)
  then have "copy_pending ipc n i w = Some ((int n, take n (pending_bytes w i)),
      emit (Async_send Wake_async) (store_ipc ipc ?i w))"
    using ne rb less b n env signal_eq [of "store_ipc ipc ?i w" ipc ?i]
    by (simp add: copy_pending_def Let_def signal_ok_def c_int_small)
  moreover have "inbound ?v ipc = take n (pending_bytes w i) @ inbound (store_ipc ipc ?i w) ipc"
  proof -
    have "pending_bytes w i = take n (pending_bytes w i) @ pending_bytes w ?i"
      using b by (simp add: pending_bytes_def) (metis append_take_drop_id drop_drop add.commute)
    then show ?thesis using port q by (simp add: inbound_def)
  qed
  moreover have "inbound_over (store_ipc ipc ?i w) ipc = inbound_over ?v ipc"
    using port by (simp add: inbound_over_def)
  ultimately show ?thesis
    using env less len b by (auto simp: pending_bytes_def polls_kept_def)
qed

text \<open>Copying the rest of the message: its block is freed, and the next one may follow.\<close>

text \<open>The pending message is freed once it is read.\<close>

lemma release_pending:
  fixes w :: "'z ipc_world_scheme"
  assumes ok: "ipc_ok (store_ipc ipc i w)" and b: "base (pending i) \<noteq> NULL" and q: "queue w = Some q"
    and u: "u = w\<lparr>blocks := (blocks w)(base (pending i) := None),
      ipcs := (ipcs w)(ipc \<mapsto> i\<lparr>offset := len (pending i), pending := (pending i)\<lparr>base := NULL\<rparr>\<rparr>)\<rparr>"
  shows "free_block (base (pending i)) w = Some (w\<lparr>blocks := (blocks w)(base (pending i) := None)\<rparr>)"
    and "ipc_ok u" and "abs_queue u q = abs_queue w q"
proof -
  let ?v = "store_ipc ipc i w" and ?p = "base (pending i)" and ?b = "(blocks w)(base (pending i) := None)"
  let ?i = "i\<lparr>offset := len (pending i), pending := (pending i)\<lparr>base := NULL\<rparr>\<rparr>"
  have iv: "ipcs ?v ipc = Some i" by simp
  have good: "ipc_good ?v ipc i" using ipc_okD(4) [OF ok iv] .
  then have live: "live_message w (pending i)" and no: "?p \<notin> owned ?v"
    using b by (auto simp: ipc_good_def pending_ok_def live_message_def owned_def)
  obtain port where port: "ipc_port i = Some port"
    using good b by (auto simp: ipc_good_def port_ok_def split: option.splits)
  note wv = ipc_okD(1) [OF ok]
  obtain d where d: "blocks w ?p = Some d" using live by (auto simp: live_message_def)
  have h: "heap_ok w" using wv by (simp add: world_ok_def heap_ok_def)
  show "free_block ?p w = Some (w\<lparr>blocks := ?b\<rparr>)" by (rule free_block_live [OF d h])
  have fv: "free_block ?p ?v = Some (?v\<lparr>blocks := ?b\<rparr>)" using b d by (simp add: free_block_def)
  have qv: "queue ?v = Some q" using q by simp
  have "abs_world (?v\<lparr>blocks := ?b\<rparr>) = Some (abs_queue ?v q)" by (rule release_refines [OF wv no fv qv])
  then show "abs_queue u q = abs_queue w q"
    using q by (simp add: u abs_world_def abs_queue_def payload_def fun_eq_iff)
  have "world_ok (?v\<lparr>blocks := ?b\<rparr>)" by (rule release_ok [OF wv no fv])
  then have "world_ok u" by (simp add: u world_ok_def heap_ok_def queue_ok_def live_message_def)
  moreover have "ipc_good u ipc ?i" using good port q by (auto simp: u ipc_good_def ipc_parts)
  moreover have "port = Thread_port" "port_data (thread_port q) = ipc"
    by (rule open_ipc [OF ok iv port]; use qv in simp)+
  ultimately show "ipc_ok u" using ipc_ok_store [OF ok iv, of u ?i] port q by (simp add: u)
qed

lemma copy_rest:
  assumes ok: "ipc_ok (store_ipc ipc i w)" and env: "env_ok w" and n: "0 < n" "n \<le> INT_MAX"
    and b: "base (pending i) \<noteq> NULL" and ge: "len (pending i) - offset i \<le> n"
  shows "\<exists>w' cs. copy_pending ipc n i w = Some ((int (length (pending_bytes w i)), pending_bytes w i), w')
    \<and> ipc_ok w' \<and> env_ok w' \<and> (\<exists>j. ipcs w' ipc = Some j \<and> ipc_port j = ipc_port i)
    \<and> inbound (store_ipc ipc i w) ipc = pending_bytes w i @ inbound w' ipc
    \<and> inbound_over w' ipc = inbound_over (store_ipc ipc i w) ipc \<and> calls w' = calls w @ cs
    \<and> (Async_send Wake_async \<in> set cs \<longleftrightarrow> inbound w' ipc \<noteq> [] \<or> inbound_over w' ipc)
    \<and> pending_bytes w i \<noteq> [] \<and> length (pending_bytes w i) \<le> n \<and> polls_kept w w'"
proof -
  let ?v = "store_ipc ipc i w" and ?p = "base (pending i)"
  have iv: "ipcs ?v ipc = Some i" by simp
  have good: "ipc_good ?v ipc i" using ipc_okD(4) [OF ok iv] .
  then have live: "live_message w (pending i)" and off: "offset i < len (pending i)"
    using b by (auto simp: ipc_good_def pending_ok_def live_message_def)
  obtain port where port: "ipc_port i = Some port"
    using good b by (auto simp: ipc_good_def port_ok_def split: option.splits)
  obtain q where q: "port = Thread_port" "queue ?v = Some q" "queue_ok ?v q"
    using open_ipc [OF ok iv port] by metis
  let ?i = "i\<lparr>offset := len (pending i), pending := (pending i)\<lparr>base := NULL\<rparr>\<rparr>"
  let ?u = "w\<lparr>blocks := (blocks w)(?p := None), ipcs := (ipcs w)(ipc \<mapsto> ?i)\<rparr>"
  have qw: "queue w = Some q" and qu: "queue ?u = Some q" using q(2) by simp_all
  note fw = release_pending(1) [OF ok b qw refl] and ou = release_pending(2) [OF ok b qw refl]
    and au = release_pending(3) [OF ok b qw refl]
  note wu = ipc_okD(1) [OF ou]
  let ?more = "waiting (abs_queue w q) Thread_port \<noteq> [] \<or> peer_ended q Thread_port"
  have ru: "bare_queue_readable Thread_port ?u = Some (?more, locked_only ?u)"
    using readable_eq [OF wu qu, of Thread_port] unfolding au .
  have len: "length (payload w (pending i)) = len (pending i)" using live_payload [OF live] by simp
  have pb: "pending_bytes w i = drop (offset i) (payload w (pending i))"
      "length (pending_bytes w i) = len (pending i) - offset i"
    using b len by (simp_all add: pending_bytes_def)
  have rb: "read_block ?p (offset i) (len (pending i) - offset i) w = Some (pending_bytes w i)"
    using read_block_payload [OF live, of "offset i" "len (pending i) - offset i"] off len pb(1) by simp
  let ?w' = "if ?more then emit (Async_send Wake_async) (locked_only ?u) else locked_only ?u"
  have sg: "bare_ipc__signal ?i (locked_only ?u) = Some (emit (Async_send Wake_async) (locked_only ?u))"
    using good env by (intro signal_eq [of _ ipc]) (auto simp: ipc_good_def signal_ok_def)
  have small: "c_int (len (pending i) - offset i) = int (len (pending i) - offset i)"
    using ge n(2) by (intro c_int_small) simp
  have "(if n > len (pending i) - offset i then len (pending i) - offset i else n)
      = len (pending i) - offset i"
    using ge by simp
  moreover have "offset i + (len (pending i) - offset i) = len (pending i)" using off by simp
  ultimately have cp: "copy_pending ipc n i w = Some ((int (length (pending_bytes w i)), pending_bytes w i), ?w')"
    using rb fw port q(1) ru sg small pb(2) by (simp add: copy_pending_def Let_def)
  have iu: "inbound ?w' ipc = concat (waiting (abs_queue w q) Thread_port)"
      "inbound_over ?w' ipc = peer_ended q Thread_port"
    using port q(1,2) au by (simp_all add: inbound_def inbound_over_def pending_bytes_def locked_only_def)
  have iw: "inbound ?v ipc = pending_bytes w i @ concat (waiting (abs_queue w q) Thread_port)"
      "inbound_over ?v ipc = peer_ended q Thread_port"
    using port q(1,2) by (simp_all add: inbound_def inbound_over_def)
  have "queue_ok w q" using q(3) by (simp add: queue_ok_def live_message_def)
  then have ne: "concat (waiting (abs_queue w q) Thread_port) \<noteq> [] \<longleftrightarrow> waiting (abs_queue w q) Thread_port \<noteq> []"
    using waiting_nonempty by blast
  have "pending_bytes w i \<noteq> []" "length (pending_bytes w i) \<le> n"
    using pb(2) off ge by auto
  moreover have "ipc_ok ?w'" "env_ok ?w'" "\<exists>j. ipcs ?w' ipc = Some j \<and> ipc_port j = ipc_port i" using ou env by auto
  moreover let ?cs = "[Mutex_lock Queue_lock, Mutex_unlock Queue_lock]
      @ (if ?more then [Async_send Wake_async] else [])"
  have "calls ?w' = calls w @ ?cs" by (simp add: locked_only_def)
  moreover have "Async_send Wake_async \<in> set ?cs \<longleftrightarrow> ?more" by simp
  then have "Async_send Wake_async \<in> set ?cs \<longleftrightarrow> inbound ?w' ipc \<noteq> [] \<or> inbound_over ?w' ipc"
    unfolding iu ne .
  moreover have "inbound ?v ipc = pending_bytes w i @ inbound ?w' ipc"
      "inbound_over ?w' ipc = inbound_over ?v ipc"
    unfolding iu iw by simp_all
  moreover have "polls_kept w ?w'" by (simp add: polls_kept_def)
  ultimately show ?thesis using cp by blast
qed

section \<open>Reading\<close>

lemma ipc_read_spec:
  assumes ok: "ipc_ok w" and env: "env_ok w" and i: "ipcs w ipc = Some i" and n: "0 < n"
  shows "\<exists>r bytes w' cs. bare_ipc_read ipc n w = Some ((r, bytes), w') \<and> ipc_ok w' \<and> env_ok w'
    \<and> (\<exists>j. ipcs w' ipc = Some j \<and> ipc_port j = ipc_port i) \<and> inbound w ipc = bytes @ inbound w' ipc \<and> inbound_over w' ipc = inbound_over w ipc
    \<and> length bytes \<le> min n INT_MAX
    \<and> (if inbound w ipc = []
       then bytes = [] \<and> r = (if inbound_over w ipc then 0 else bare_ipc_would_block)
       else bytes \<noteq> [] \<and> r = int (length bytes))
    \<and> calls w' = calls w @ cs
    \<and> (bytes \<noteq> [] \<and> (inbound w' ipc \<noteq> [] \<or> inbound_over w' ipc) \<longrightarrow> Async_send Wake_async \<in> set cs)
    \<and> polls_kept w w'"
proof -
  let ?w = "emit (Mutex_lock Ipc_lock) w" and ?n = "min n INT_MAX"
  obtain r i' w1 cs where np: "next_pending i ?w = Some (r, i', w1)" "ipc_ok (store_ipc ipc i' w1)"
      "env_ok w1" "calls w1 = calls ?w @ cs" "inbound (store_ipc ipc i' w1) ipc = inbound w ipc"
      "inbound_over (store_ipc ipc i' w1) ipc = inbound_over w ipc"
      "base (pending i') = NULL \<longrightarrow>
        inbound w ipc = [] \<and> r = (if inbound_over w ipc then 0 else bare_ipc_would_block)"
      "ipc_port i' = ipc_port i" "polls_kept ?w w1"
    using next_pending_spec [of ?w ipc i] ok env i by auto
  have n': "0 < ?n" "?n \<le> INT_MAX" using n by auto
  show ?thesis
  proof (cases "base (pending i') = NULL")
    case True
    let ?w' = "emit (Mutex_unlock Ipc_lock) (store_ipc ipc i' w1)"
    have "bare_ipc_read ipc n w = Some ((r, []), ?w')"
      using n i np(1) True by (simp add: bare_ipc_read_def)
    then show ?thesis 
      using np True by (intro exI [of _ r] exI [of _ "[]"] exI [of _ ?w']
          exI [of _ "Mutex_lock Ipc_lock # cs @ [Mutex_unlock Ipc_lock]"]) (auto simp: polls_kept_def)
  next
    case False
    define bs where "bs = (if ?n < len (pending i') - offset i' then take ?n (pending_bytes w1 i')
      else pending_bytes w1 i')"
    have "\<exists>w2 ds. copy_pending ipc ?n i' w1 = Some ((int (length bs), bs), w2) \<and> ipc_ok w2 \<and> env_ok w2
      \<and> (\<exists>j. ipcs w2 ipc = Some j \<and> ipc_port j = ipc_port i') \<and> inbound w ipc = bs @ inbound w2 ipc \<and> inbound_over w2 ipc = inbound_over w ipc
      \<and> calls w2 = calls w1 @ ds \<and> bs \<noteq> [] \<and> length bs \<le> ?n
      \<and> (inbound w2 ipc \<noteq> [] \<or> inbound_over w2 ipc \<longrightarrow> Async_send Wake_async \<in> set ds)
      \<and> polls_kept w1 w2"
    proof (cases "?n < len (pending i') - offset i'")
      case True
      obtain w2 where c: "copy_pending ipc ?n i' w1 = Some ((int ?n, take ?n (pending_bytes w1 i')), w2)"
          "ipc_ok w2" "env_ok w2" "(\<exists>j. ipcs w2 ipc = Some j \<and> ipc_port j = ipc_port i')"
          "inbound (store_ipc ipc i' w1) ipc = take ?n (pending_bytes w1 i') @ inbound w2 ipc"
          "inbound_over w2 ipc = inbound_over (store_ipc ipc i' w1) ipc"
          "calls w2 = calls w1 @ [Async_send Wake_async]" "?n \<le> length (pending_bytes w1 i')"
          "polls_kept w1 w2"
        using copy_some [OF np(2,3) n' False True] by blast
      have l: "length bs = ?n" using True c(8) by (simp add: bs_def)
      then have "bs \<noteq> []" using n'(1) by (metis less_numeral_extra(3) list.size(3))
      then show ?thesis
        using c np(5,6) l True
        by (intro exI [of _ w2] exI [of _ "[Async_send Wake_async]"]) (simp add: bs_def)
    next
      case nless: False
      then have "len (pending i') - offset i' \<le> ?n" by (simp only: not_less)
      then show ?thesis
        using copy_rest [OF np(2,3) n' False] np(5,6) nless by (fastforce simp: bs_def)
    qed
    then obtain w2 ds where c: "copy_pending ipc ?n i' w1 = Some ((int (length bs), bs), w2)"
        "ipc_ok w2" "env_ok w2" "(\<exists>j. ipcs w2 ipc = Some j \<and> ipc_port j = ipc_port i')" "inbound w ipc = bs @ inbound w2 ipc"
        "inbound_over w2 ipc = inbound_over w ipc" "calls w2 = calls w1 @ ds" "bs \<noteq> []"
        "length bs \<le> ?n"
        "inbound w2 ipc \<noteq> [] \<or> inbound_over w2 ipc \<longrightarrow> Async_send Wake_async \<in> set ds"
        "polls_kept w1 w2"
      by blast
    let ?w' = "emit (Mutex_unlock Ipc_lock) w2"
    have "bare_ipc_read ipc n w = Some ((int (length bs), bs), ?w')"
      using n i np(1) False c(1) by (simp add: bare_ipc_read_def)
    then show ?thesis
      using c np(4,8,9) by (intro exI [of _ "int (length bs)"] exI [of _ bs] exI [of _ ?w']
          exI [of _ "Mutex_lock Ipc_lock # cs @ ds @ [Mutex_unlock Ipc_lock]"])
        (auto simp: polls_kept_def)
  qed
qed

section \<open>Readers of a stream\<close>

text \<open>
  A stream that is read in pieces: a read of at least one byte takes some bytes off the front
  while there are any, and otherwise says whether the stream is over.
\<close>

locale byte_stream =
  fixes good :: "'w \<Rightarrow> bool"
    and unread :: "'w \<Rightarrow> byte list"
    and over :: "'w \<Rightarrow> bool"
    and read :: "nat \<Rightarrow> 'w \<Rightarrow> ((int \<times> byte list) \<times> 'w) option"
  assumes read_some: "good w \<Longrightarrow> 0 < n \<Longrightarrow> unread w \<noteq> [] \<Longrightarrow>
      \<exists>bs w'. read n w = Some ((int (length bs), bs), w') \<and> good w' \<and> bs \<noteq> [] \<and> length bs \<le> n
        \<and> unread w = bs @ unread w' \<and> over w' = over w"
    and read_none: "good w \<Longrightarrow> 0 < n \<Longrightarrow> unread w = [] \<Longrightarrow>
      \<exists>r w'. read n w = Some ((r, []), w') \<and> good w' \<and> unread w' = [] \<and> over w' = over w
        \<and> (r = 0 \<longleftrightarrow> over w)"

text \<open>Reading with buffers of the given sizes: all the bytes, and the last result.\<close>

fun read_all :: "(nat \<Rightarrow> 'w \<Rightarrow> ((int \<times> byte list) \<times> 'w) option) \<Rightarrow> nat list \<Rightarrow> 'w
    \<Rightarrow> ((int list \<times> byte list) \<times> 'w) option" where
  "read_all read [] w = Some (([], []), w)"
| "read_all read (n # ns) w = do {
     ((r, bs), w) \<leftarrow> read n w;
     ((rs, cs), w) \<leftarrow> read_all read ns w;
     Some ((r # rs, bs @ cs), w)
   }"

context byte_stream
begin

lemma reads_prefix:
  assumes "good w" and "\<forall>n \<in> set ns. 0 < n"
  shows "\<exists>rs bs w'. read_all read ns w = Some ((rs, bs), w') \<and> good w'
    \<and> unread w = bs @ unread w' \<and> over w' = over w
    \<and> (unread w' = [] \<or> length ns \<le> length bs)"
  using assms
proof (induction ns arbitrary: w)
  case Nil
  then show ?case by simp
next
  case (Cons n ns)
  have n: "0 < n" using Cons.prems(2) by simp
  show ?case
  proof (cases "unread w = []")
    case True
    obtain r w1 where s: "read n w = Some ((r, []), w1)" "good w1" "unread w1 = []" "over w1 = over w"
      using read_none [OF Cons.prems(1) n True] by blast
    obtain rs bs w2 where t: "read_all read ns w1 = Some ((rs, bs), w2)" "good w2"
        "unread w1 = bs @ unread w2" "over w2 = over w1"
      using Cons.IH [OF s(2)] Cons.prems(2) by auto
    then show ?thesis using True s by auto
  next
    case False
    obtain cs w1 where s: "read n w = Some ((int (length cs), cs), w1)" "good w1" "cs \<noteq> []"
        "unread w = cs @ unread w1" "over w1 = over w"
      using read_some [OF Cons.prems(1) n False] by blast
    obtain rs bs w2 where t: "read_all read ns w1 = Some ((rs, bs), w2)" "good w2"
        "unread w1 = bs @ unread w2" "over w2 = over w1" "unread w2 = [] \<or> length ns \<le> length bs"
      using Cons.IH [OF s(2)] Cons.prems(2) by auto
    have "Suc (length ns) \<le> length (cs @ bs)" if "length ns \<le> length bs"
      using that s(3) by (cases cs) auto
    then show ?thesis using s t by auto
  qed
qed

text \<open>As many reads as there are bytes take all of them, and the next one tells the end.\<close>

lemma reads_everything:
  assumes "good w" and "\<forall>n \<in> set ns. 0 < n" and "length (unread w) \<le> length ns" and "0 < m"
  shows "\<exists>rs w' r w2. read_all read ns w = Some ((rs, unread w), w')
    \<and> read m w' = Some ((r, []), w2) \<and> (r = 0 \<longleftrightarrow> over w)"
proof -
  obtain rs bs w' where t: "read_all read ns w = Some ((rs, bs), w')" "good w'"
      "unread w = bs @ unread w'" "over w' = over w" "unread w' = [] \<or> length ns \<le> length bs"
    using reads_prefix [OF assms(1,2)] by blast
  have "unread w' = []" using t(3,5) assms(3) by (cases "unread w'") auto
  then show ?thesis using t read_none [OF t(2) assms(4)] by auto
qed

end

interpretation ipc_stream: byte_stream "\<lambda>w. ipc_ok w \<and> env_ok w \<and> ipcs w ipc \<noteq> None"
    "\<lambda>w. inbound w ipc" "\<lambda>w. inbound_over w ipc" "bare_ipc_read ipc" for ipc
proof unfold_locales
  fix w :: "'a ipc_world_scheme" and n :: nat
  assume g: "ipc_ok w \<and> env_ok w \<and> ipcs w ipc \<noteq> None" and n: "0 < n" and u: "inbound w ipc \<noteq> []"
  obtain i where i: "ipcs w ipc = Some i" using g by blast
  obtain r bs w' where s: "bare_ipc_read ipc n w = Some ((r, bs), w')" "ipc_ok w'" "env_ok w'"
      "ipcs w' ipc \<noteq> None" "inbound w ipc = bs @ inbound w' ipc" "inbound_over w' ipc = inbound_over w ipc"
      "length bs \<le> min n INT_MAX" "bs \<noteq> []" "r = int (length bs)"
    using ipc_read_spec [OF _ _ i n] g u by auto
  then show "\<exists>bs w'. bare_ipc_read ipc n w = Some ((int (length bs), bs), w')
      \<and> (ipc_ok w' \<and> env_ok w' \<and> ipcs w' ipc \<noteq> None) \<and> bs \<noteq> [] \<and> length bs \<le> n
      \<and> inbound w ipc = bs @ inbound w' ipc \<and> inbound_over w' ipc = inbound_over w ipc"
    by auto
next
  fix w :: "'a ipc_world_scheme" and n :: nat
  assume g: "ipc_ok w \<and> env_ok w \<and> ipcs w ipc \<noteq> None" and n: "0 < n" and u: "inbound w ipc = []"
  obtain i where i: "ipcs w ipc = Some i" using g by blast
  obtain w' where s: "bare_ipc_read ipc n w
        = Some ((if inbound_over w ipc then 0 else bare_ipc_would_block, []), w')" "ipc_ok w'"
      "env_ok w'" "ipcs w' ipc \<noteq> None" "inbound w' ipc = []" "inbound_over w' ipc = inbound_over w ipc"
    using ipc_read_spec [OF _ _ i n] g u by auto
  then show "\<exists>r w'. bare_ipc_read ipc n w = Some ((r, []), w')
      \<and> (ipc_ok w' \<and> env_ok w' \<and> ipcs w' ipc \<noteq> None) \<and> inbound w' ipc = []
      \<and> inbound_over w' ipc = inbound_over w ipc \<and> (r = 0 \<longleftrightarrow> inbound_over w ipc)"
    by (auto simp: ipc_codes)
qed

end
