(* ===== verification/Ipc_Ops.thy ===== *)
theory Ipc_Ops
  imports Ipc_Stream
begin

text \<open>
  Every operation on an ipc, and every operation that the worklet makes on the queue
  meanwhile, keeps the invariant of the host end and is at no fault.
\<close>

section \<open>Steps of the queue under an ipc\<close>

lemma pending_ok_caller: "pending_ok w i \<longleftrightarrow> base (pending i) = NULL
    \<or> offset i < len (pending i) \<and> 0 < len (pending i) \<and> len (pending i) \<le> INT_MAX
      \<and> (\<exists>b. caller_heap w (base (pending i)) = Some b \<and> length b = len (pending i))"
  by (auto simp: pending_ok_def live_message_def caller_heap_def restrict_map_def)

lemma written_frame [simp]:
  "ipcs (written p d q w) = ipcs w" "polls (written p d q w) = polls w"
  "signals (written p d q w) = signals w" "self (written p d q w) = self w"
  "brk (written p d q w) = Suc (brk w)"
  by (simp_all add: written_def Let_def)

lemma refused_frame [simp]:
  "ipcs (refused w) = ipcs w" "polls (refused w) = polls w" "signals (refused w) = signals w"
  "self (refused w) = self w" "brk (refused w) = Suc (brk w)"
  by (simp_all add: refused_def)

lemma advanced_frame [simp]:
  "ipcs (advanced_world p s q w) = ipcs w" "polls (advanced_world p s q w) = polls w"
  "signals (advanced_world p s q w) = signals w" "self (advanced_world p s q w) = self w"
  "brk (advanced_world p s q w) = brk w"
  by (simp_all add: advanced_world_def)

lemma destroying_frame [simp]:
  "ipcs (destroying q w) = ipcs w" "polls (destroying q w) = polls w"
  "signals (destroying q w) = signals w" "self (destroying q w) = self w" "brk (destroying q w) = brk w"
  by (simp_all add: destroying_def)

lemma freed_frame [simp]:
  "ipcs (freed w) = ipcs w" "polls (freed w) = polls w" "signals (freed w) = signals w"
  "self (freed w) = self w" "brk (freed w) = brk w"
  by (simp_all add: freed_def)

definition same_host :: "'z ipc_world_scheme \<Rightarrow> 'z ipc_world_scheme \<Rightarrow> bool" where
  "same_host w w' \<longleftrightarrow> ipcs w' = ipcs w \<and> polls w' = polls w \<and> signals w' = signals w
     \<and> self w' = self w \<and> brk w \<le> brk w'"

lemma step_same_host:
  fixes w :: "'z ipc_world_scheme"
  assumes ok: "world_ok w" and q: "queue w = Some q" and st: "queue_step op w = Some (ob, w')"
  shows "same_host w w'"
proof (cases op)
  case (Open_uv cb d)
  then have "ret w (Async_init Queue_async) = 0"
    using st q by (auto simp: bare_queue_open_uv_def emit_ok_def split: if_splits)
  then show ?thesis using st Open_uv q by (auto simp: open_uv_eq same_host_def)
next
  case (Open_thread cb d)
  then show ?thesis using st q by (auto simp: open_thread_eq same_host_def split: if_splits)
next
  case (Write p data)
  then show ?thesis
    using st q write_oom [OF ok q] write_eq [OF ok q, of data p] write_empty [OF q]
    by (cases "data = []"; cases "oom w (brk w)") (auto simp: same_host_def split: if_splits)
next
  case (Read p)
  then show ?thesis
    using st q by (auto simp: read_eq [OF ok q] observe_read_def same_host_def
        split: list.splits if_splits)
next
  case (End p)
  then show ?thesis
    using st by (auto simp: bare_queue_end_def advance_eq [OF ok q] same_host_def split: if_splits)
next
  case (Close p)
  then show ?thesis
    using st by (auto simp: bare_queue_close_def advance_eq [OF ok q] same_host_def split: if_splits)
next
  case Destroy
  then show ?thesis using st by (auto simp: destroy_eq [OF ok q] same_host_def split: if_splits)
next
  case (Release p)
  then show ?thesis using st by (auto simp: free_block_def same_host_def split: if_splits)
qed (use st q in \<open>auto simp: readable_eq [OF ok q] writable_eq [OF ok q] same_host_def
      bare_queue_shutdown_uv_def bare_queue__on_wakeup_uv_def split: if_splits\<close>)

text \<open>The operations that leave the host end's holder as it is.\<close>

definition keeps_host :: "queue_op \<Rightarrow> bool" where
  "keeps_host op = (case op of
     Open_thread cb d \<Rightarrow> False
   | Close p \<Rightarrow> p = Uv_port
   | Read p \<Rightarrow> p = Uv_port
   | Release p \<Rightarrow> False
   | _ \<Rightarrow> True)"

lemma spec_step_host:
  assumes "spec_step op c = (ob, c')" and "keeps_host op" and "bare_queue__listening (phase c Thread_port)"
  shows "\<exists>c2. c' = Some c2 \<and> bare_queue__listening (phase c2 Thread_port)"
  using assms
  by (cases op) (auto simp: keeps_host_def reclaim_def raise_phase_def bare_queue__listening_def
      max_ended split: if_splits list.splits)

lemma spec_step_no_host:
  assumes "spec_step op c = (ob, Some c')" and "keeps_host op" and "op \<noteq> End Thread_port"
    and "\<not> bare_queue__listening (phase c Thread_port)"
  shows "\<not> bare_queue__listening (phase c' Thread_port)"
  using assms
  by (cases op) (auto simp: keeps_host_def reclaim_def raise_phase_def bare_queue__listening_def
      split: if_splits list.splits)

lemma step_pending:
  assumes ok: "world_ok w" and q: "queue w = Some q" and st: "queue_step op w = Some (ob, w')"
    and k: "keeps_host op" and p: "pending_ok w i"
  shows "pending_ok w' i"
proof -
  have "base (pending i) \<noteq> NULL \<Longrightarrow> caller_heap w' (base (pending i)) = caller_heap w (base (pending i))"
  proof -
    assume "base (pending i) \<noteq> NULL"
    then have no: "base (pending i) \<notin> owned w" using p by (simp add: pending_ok_def)
    have m: "base m \<in> owned w" if "next_message w p' = Some m" for m p'
      using that q owned_taken [OF ok q] by (auto simp: next_message_def split: list.splits)
    show ?thesis
      using step_caller_heap [OF ok q st] k no m
      by (cases op) (auto simp: keeps_host_def split: option.splits)
  qed
  then show ?thesis using p by (auto simp: pending_ok_caller)
qed

lemma step_pending_bytes:
  assumes ok: "world_ok w" and q: "queue w = Some q" and st: "queue_step op w = Some (ob, w')"
    and k: "keeps_host op" and p: "pending_ok w i"
  shows "pending_bytes w' i = pending_bytes w i"
proof (cases "base (pending i) = NULL")
  case True
  then show ?thesis by (simp add: pending_bytes_def)
next
  case False
  have p': "pending_ok w' i" by (rule step_pending [OF ok q st k p])
  have same: "blocks v (base (pending i)) = caller_heap v (base (pending i))" if "pending_ok v i" for v
    using that False by (simp add: pending_ok_def caller_heap_def)
  have m: "base m \<in> owned w" if "next_message w a = Some m" for m a
    using that q owned_taken [OF ok q] by (auto simp: next_message_def split: list.splits)
  have "caller_heap w' (base (pending i)) = caller_heap w (base (pending i))"
    using step_caller_heap [OF ok q st] k p False m
    by (cases op) (auto simp: keeps_host_def pending_ok_def split: option.splits)
  then have "blocks w' (base (pending i)) = blocks w (base (pending i))"
    using same [OF p] same [OF p'] by simp
  then show ?thesis by (simp add: pending_bytes_def payload_def)
qed

lemma step_ipc_ok:
  fixes w :: "'z ipc_world_scheme"
  assumes ok: "ipc_ok w" and q: "queue w = Some q" and st: "queue_step op w = Some (ob, w')"
    and k: "keeps_host op" and e: "op = End Thread_port \<Longrightarrow> bare_queue__listening (thread_state q)"
  shows "ipc_ok w'"
proof -
  note w = ipc_okD [OF ok]
  have same: "ipcs w' = ipcs w" "polls w' = polls w" "signals w' = signals w" "brk w \<le> brk w'"
      "self w' = self w"
    using step_same_host [OF w(1) q st] by (auto simp: same_host_def)
  have po: "ports_ok q" using w(1) q by (auto simp: world_ok_def intro: queue_ok_ports)
  have ph: "phase (abs_queue w q) Thread_port = thread_state q"
    using po by (simp add: bare_queue__state_def is_uv_port_at)
  have r: "spec_step op (abs_queue w q) = (ob, abs_world w')"
    using step_refines [OF w(1) q st] by simp
  have ok': "world_ok w'" by (rule step_ok [OF w(1) st])
  have ph': "phase (abs_queue w' q') Thread_port = thread_state q'" if "queue w' = Some q'" for q'
    using ok' that queue_ok_ports [of w' q']
    by (simp add: world_ok_def bare_queue__state_def is_uv_port_at)
  have kept: "\<exists>q'. queue w' = Some q' \<and> bare_queue__listening (thread_state q') \<and> host_end q' = host_end q"
    if l: "bare_queue__listening (thread_state q)"
  proof -
    obtain c2 where "abs_world w' = Some c2" "bare_queue__listening (phase c2 Thread_port)"
      using spec_step_host [OF r k] l ph by auto
    then obtain q' where q': "queue w' = Some q'" "bare_queue__listening (thread_state q')"
      using ph' by (auto simp: abs_world_def)
    have "thread_state q \<noteq> bare_queue_state_idle" using l by (auto simp: bare_queue__listening_def)
    then show ?thesis using q' step_host_end [OF w(1) q st q'(1)] by blast
  qed
  have still: "\<not> bare_queue__listening (thread_state q')"
    if "\<not> bare_queue__listening (thread_state q)" "queue w' = Some q'" for q'
  proof -
    have "spec_step op (abs_queue w q) = (ob, Some (abs_queue w' q'))"
      using r that(2) by (simp add: abs_world_def)
    then show ?thesis using spec_step_no_host [of op _ ob] k e that ph ph' by metis
  qed
  have "ipc_good w' ipc i" if i: "ipcs w' ipc = Some i" for ipc i
  proof -
    have g: "ipc_good w ipc i" using w(4) i same(1) by simp
    have "port_ok w' ipc i"
      using g kept q by (fastforce simp: ipc_good_def port_ok_def split: option.splits)
    then show ?thesis
      using g step_pending [OF w(1) q st k] same by (simp add: ipc_good_def signal_ok_def poll_ok_def)
  qed
  moreover have "served w'"
    unfolding served_def same(1)
  proof (intro allI impI)
    fix q' assume q': "queue w' = Some q'" "bare_queue__listening (thread_state q')"
    then have l: "bare_queue__listening (thread_state q)" using still by blast
    then have "port_data (thread_port q') = port_data (thread_port q)"
      using kept q'(1) by (auto simp: host_end_def)
    then show "\<exists>i. ipcs w (port_data (thread_port q')) = Some i \<and> ipc_port i = Some Thread_port"
      using w(3) q l by (simp add: served_def)
  qed
  moreover have "addresses_ok w'"
    using w(2) same by (auto simp: addresses_ok_def intro: order_less_le_trans)
  ultimately show ?thesis using ok' by (simp add: ipc_ok_def)
qed

section \<open>Writing and ending\<close>

lemma env_step:
  assumes "ipc_ok w" and "env_ok w" and "queue w = Some q" and "\<not> releases op"
  shows "\<exists>ob w'. queue_step op w = Some (ob, w') \<and> env_ok w'
    \<and> (ob, abs_world w') = spec_step op (abs_queue w q)"
proof -
  have w: "world_ok w" using assms(1) by (simp add: ipc_ok_def)
  obtain ob w' where s: "queue_step op w = Some (ob, w')"
    using step_total [OF w assms(3) can_run_env [OF assms(2,4)]] by blast
  show ?thesis
    using s step_env [OF w assms(3,2) s] step_refines [OF w assms(3) s] by blast
qed

definition ipc_status :: "int \<Rightarrow> int" where
  "ipc_status n = (if n = bare_queue_would_block then bare_ipc_would_block
     else if n = bare_queue_closed then bare_ipc_error else n)"

lemma ipc_write_spec:
  assumes ok: "ipc_ok w" and env: "env_ok w" and i: "ipcs w ipc = Some i"
  shows "\<exists>n w'. bare_ipc_write ipc data w = Some (ipc_status n, w') \<and> ipc_ok w' \<and> env_ok w'
    \<and> ipcs w' = ipcs w \<and> pending_bytes w' i = pending_bytes w i \<and> polls_kept w w'
    \<and> (case ipc_port i of
        None \<Rightarrow> n = bare_queue_closed \<and> abs_world w' = abs_world w
      | Some port \<Rightarrow> (\<exists>q. queue w = Some q
          \<and> (Sent n, abs_world w') = spec_step (Write Thread_port data) (abs_queue w q)))"
proof (cases "ipc_port i")
  case None
  then show ?thesis
    using ok env i by (auto simp: bare_ipc_write_def ipc_status_def abs_world_def polls_kept_def)
next
  case (Some port)
  obtain q where q: "port = Thread_port" "queue w = Some q" using open_ipc [OF ok i Some] by metis
  let ?w = "emit (Mutex_lock Ipc_lock) w" and ?op = "Write Thread_port data"
  have ok1: "ipc_ok ?w" "env_ok ?w" "queue ?w = Some q" using ok env q by auto
  obtain ob w1 where s: "queue_step ?op ?w = Some (ob, w1)" "env_ok w1"
      "(ob, abs_world w1) = spec_step ?op (abs_queue ?w q)"
    using env_step [OF ok1, of ?op] by (auto simp: releases_def simp del: queue_step.simps spec_step.simps)
  then obtain n where n: "bare_queue_write Thread_port data ?w = Some (n, w1)" "ob = Sent n" by auto
  have "ipc_ok w1" using step_ipc_ok [OF ok1(1,3) s(1)] by (simp add: keeps_host_def)
  moreover have "ipcs w1 = ipcs w" "polls_kept w w1"
    using step_same_host [OF ipc_okD(1) [OF ok1(1)] ok1(3) s(1)] by (simp_all add: same_host_def polls_kept_def)
  moreover have "bare_ipc_write ipc data w = Some (ipc_status n, emit (Mutex_unlock Ipc_lock) w1)"
    using i Some q(1) n(1) by (simp add: bare_ipc_write_def ipc_status_def)
  moreover have "abs_world (emit (Mutex_unlock Ipc_lock) w1) = abs_world w1" by (simp add: abs_world_def)
  moreover have "pending_ok ?w i" using ipc_okD(4) [OF ok1(1), of ipc i] i by (simp add: ipc_good_def)
  then have "pending_bytes w1 i = pending_bytes w i"
    using step_pending_bytes [OF ipc_okD(1) [OF ok1(1)] ok1(3) s(1)] by (simp add: keeps_host_def)
  ultimately show ?thesis
    using s(2,3) n(2) Some q(2) by (intro exI [of _ n] exI) (auto simp: polls_kept_def simp del: spec_step.simps)
qed

lemma ipc_end_spec:
  assumes ok: "ipc_ok w" and env: "env_ok w" and i: "ipcs w ipc = Some i"
  shows "\<exists>w'. bare_ipc_end ipc w = Some w' \<and> ipc_ok w' \<and> env_ok w' \<and> ipcs w' = ipcs w
    \<and> pending_bytes w' i = pending_bytes w i \<and> polls_kept w w'
    \<and> (case ipc_port i of
        None \<Rightarrow> abs_world w' = abs_world w
      | Some port \<Rightarrow> (\<exists>q. queue w = Some q
          \<and> abs_world w' = Some (raise_phase Thread_port bare_queue_state_ended (abs_queue w q))))"
proof (cases "ipc_port i")
  case None
  then show ?thesis using ok env i by (auto simp: bare_ipc_end_def abs_world_def polls_kept_def)
next
  case (Some port)
  obtain q where q: "port = Thread_port" "queue w = Some q" "bare_queue__listening (thread_state q)"
      "bare_queue__state q Thread_port = thread_state q"
    using open_ipc [OF ok i Some] by metis
  let ?w = "emit (Mutex_lock Ipc_lock) w" and ?op = "End Thread_port"
  have ok1: "ipc_ok ?w" "env_ok ?w" "queue ?w = Some q" using ok env q by auto
  obtain ob w1 where s: "queue_step ?op ?w = Some (ob, w1)" "env_ok w1"
      "(ob, abs_world w1) = spec_step ?op (abs_queue ?w q)"
    using env_step [OF ok1, of ?op] by (auto simp: releases_def simp del: queue_step.simps spec_step.simps)
  then have n: "bare_queue_end Thread_port ?w = Some w1" by auto
  have ok2: "ipc_ok w1" using step_ipc_ok [OF ok1(1,3) s(1)] q(3) by (simp add: keeps_host_def)
  have same: "ipcs w1 = ipcs w" "polls_kept w w1"
    using step_same_host [OF ipc_okD(1) [OF ok1(1)] ok1(3) s(1)]
    by (simp_all add: same_host_def polls_kept_def)
  then have "signal_ok w1 ipc i" using ipc_okD(4) [OF ok2, of ipc i] i by (simp add: ipc_good_def)
  then have sg: "bare_ipc__signal i w1 = Some (emit (Async_send Wake_async) w1)"
    using s(2) by (rule signal_eq)
  let ?c = "raise_phase Thread_port bare_queue_state_ended (abs_queue w q)"
  have "\<not> unheld ?c"
    using q(3,4) by (auto simp: unheld_def raise_phase_def max_ended bare_queue__listening_def)
  then have "abs_world w1 = Some ?c" using s(3) by (simp add: reclaim_unheld)
  moreover have "bare_ipc_end ipc w
      = Some (emit (Mutex_unlock Ipc_lock) (emit (Async_send Wake_async) w1))"
    using i Some q(1) n sg by (simp add: bare_ipc_end_def)
  moreover have "pending_ok ?w i" using ipc_okD(4) [OF ok1(1), of ipc i] i by (simp add: ipc_good_def)
  then have "pending_bytes w1 i = pending_bytes w i"
    using step_pending_bytes [OF ipc_okD(1) [OF ok1(1)] ok1(3) s(1)] by (simp add: keeps_host_def)
  ultimately show ?thesis
    using s(2) ok2 same Some q(2) by (auto simp: abs_world_def polls_kept_def)
qed

section \<open>Closing and destroying\<close>

definition closed_ipc :: "bare_ipc_t \<Rightarrow> bare_ipc_t" where
  "closed_ipc i = (if ipc_port i = None then i
     else i\<lparr>ipc_port := None, pending := (pending i)\<lparr>base := NULL\<rparr>\<rparr>)"

lemma closed_ipc_simps [simp]:
  "ipc_port (closed_ipc i) = None" "ipc_signal (closed_ipc i) = ipc_signal i"
  "ipc_poll (closed_ipc i) = ipc_poll i"
  by (simp_all add: closed_ipc_def)

lemma free_pending:
  assumes ok: "world_ok w" and p: "pending_ok w i"
  shows "\<exists>w'. free_block (base (pending i)) w = Some w' \<and> world_ok w' \<and> queue w' = queue w
    \<and> abs_world w' = abs_world w"
proof (cases "base (pending i) = NULL")
  case True
  then show ?thesis using ok by (simp add: free_block_def)
next
  case False
  then obtain b where b: "blocks w (base (pending i)) = Some b" and no: "base (pending i) \<notin> owned w"
    using p by (auto simp: pending_ok_def live_message_def)
  let ?w = "w\<lparr>blocks := (blocks w)(base (pending i) := None)\<rparr>"
  have f: "free_block (base (pending i)) w = Some ?w"
    using ok by (intro free_block_live [OF b]) (simp add: world_ok_def)
  have "abs_world ?w = abs_world w"
  proof (cases "queue w")
    case None
    then show ?thesis by (simp add: abs_world_def)
  next
    case (Some q)
    then have "abs_world w = Some (abs_queue w q)" by (simp add: abs_world_def)
    then show ?thesis using release_refines [OF ok no f Some] by simp
  qed
  moreover have "queue ?w = queue w" by simp
  ultimately show ?thesis using f release_ok [OF ok no f] by blast
qed

lemma free_block_frame:
  "free_block p w = Some w' \<Longrightarrow> ipcs w' = ipcs w \<and> polls w' = polls w \<and> signals w' = signals w
     \<and> self w' = self w \<and> brk w' = brk w \<and> calls w' = calls w \<and> env_ok w' = env_ok w"
  by (auto simp: free_block_def split: if_splits)

lemma ipc_close_spec:
  assumes ok: "ipc_ok w" and env: "env_ok w" and i: "ipcs w ipc = Some i"
  shows "\<exists>w'. bare_ipc_close ipc w = Some w' \<and> ipc_ok w' \<and> env_ok w'
    \<and> ipcs w' = (ipcs w)(ipc \<mapsto> closed_ipc i) \<and> polls w' = polls w \<and> signals w' = signals w
    \<and> self w' = self w
    \<and> (case ipc_port i of
        None \<Rightarrow> abs_world w' = abs_world w
      | Some port \<Rightarrow> (\<exists>q. queue w = Some q
          \<and> abs_world w' = reclaim (raise_phase Thread_port bare_queue_state_closed (abs_queue w q))))"
proof (cases "ipc_port i")
  case None
  then show ?thesis
    using ok env i by (auto simp: bare_ipc_close_def abs_world_def closed_ipc_def)
next
  case (Some port)
  obtain q where q: "port = Thread_port" "queue w = Some q" using open_ipc [OF ok i Some] by metis
  let ?w = "emit (Mutex_lock Ipc_lock) w" and ?op = "Close Thread_port"
  have ok1: "ipc_ok ?w" "env_ok ?w" "queue ?w = Some q" using ok env q by auto
  note w = ipc_okD [OF ok1(1)]
  obtain ob w1 where s: "queue_step ?op ?w = Some (ob, w1)" "env_ok w1"
      "(ob, abs_world w1) = spec_step ?op (abs_queue ?w q)"
    using env_step [OF ok1, of ?op] by (auto simp: releases_def simp del: queue_step.simps spec_step.simps)
  then have n: "bare_queue_close Thread_port ?w = Some w1" by auto
  have same: "ipcs w1 = ipcs w" "polls w1 = polls w" "signals w1 = signals w" "brk w \<le> brk w1"
      "self w1 = self w"
    using step_same_host [OF w(1) ok1(3) s(1)] by (auto simp: same_host_def)
  have ok2: "world_ok w1" by (rule step_ok [OF w(1) s(1)])
  have g: "ipc_good ?w ipc i" using w(4) i by simp
  have p1: "pending_ok w1 (i\<lparr>ipc_port := None\<rparr>)"
    using g step_caller_heap [OF w(1) ok1(3) s(1)]
    by (simp add: ipc_good_def pending_ok_caller)
  obtain w2 where f: "free_block (base (pending i)) w1 = Some w2" "world_ok w2" "queue w2 = queue w1"
      "abs_world w2 = abs_world w1"
    using free_pending [OF ok2 p1] by auto
  note fr = free_block_frame [OF f(1)]
  let ?i = "closed_ipc i" and ?v = "store_ipc ipc (closed_ipc i) w2"
  have ci: "?i = i\<lparr>ipc_port := None, pending := (pending i)\<lparr>base := NULL\<rparr>\<rparr>"
    using Some by (simp add: closed_ipc_def)
  have "ipc_good ?v ipc ?i"
    using g same fr by (simp add: ipc_good_def ipc_parts ci)
  moreover have "\<not> bare_queue__listening (thread_state q')" if "queue ?v = Some q'" for q'
  proof -
    have q': "queue w1 = Some q'" using that f(3) by simp
    then have "bare_queue__state q' Thread_port = bare_queue_state_closed"
      using s(3) by (auto simp: abs_world_def reclaim_def raise_phase_def split: if_splits
          dest!: arg_cong [of _ _ phase])
    moreover have "ports_ok q'" using ok2 q' by (auto simp: world_ok_def intro: queue_ok_ports)
    ultimately show ?thesis
      by (simp add: bare_queue__state_def is_uv_port_at bare_queue__listening_def)
  qed
  ultimately have ok3: "ipc_ok ?v"
    using ipc_ok_store [OF ok i, of ?v ?i] Some f(2) same fr by auto
  have sg: "bare_ipc__signal ?i ?v = Some (emit (Async_send Wake_async) ?v)"
    using ipc_okD(4) [OF ok3, of ipc ?i] fr s(2) by (intro signal_eq [of _ ipc]) (auto simp: ipc_good_def)
  have "bare_ipc_close ipc w = Some (emit (Mutex_unlock Ipc_lock) (emit (Async_send Wake_async) ?v))"
    using i Some q(1) n f(1) sg by (simp add: bare_ipc_close_def ci)
  moreover have "abs_world ?v = abs_world w1" using f(3,4) by (simp add: abs_world_def)
  ultimately show ?thesis
    using ok3 s(2,3) same fr Some q(2) by (auto simp: abs_world_def)
qed

text \<open>
  What destroying the signal does, on its own thread and on any other: there the thread is
  detached and frees the signal later, here it is joined and the signal freed.
\<close>

definition signal_destroyed :: "bare_ipc_t \<Rightarrow> 'z ipc_world_scheme \<Rightarrow> 'z ipc_world_scheme" where
  "signal_destroyed i w =
     (let signal = ipc_signal i;
          cs = [Mutex_lock Running_mutex, Mutex_unlock Running_mutex, Async_send Close_async]
      in if self w = signal
         then w\<lparr>signals := (signals w)(signal \<mapsto> \<lparr>signal_ipc = NULL, detached = True\<rparr>),
                calls := calls w @ cs @ [Thread_detach]\<rparr>
         else w\<lparr>signals := (signals w)(signal := None),
                calls := calls w @ cs @ [Thread_join, Mutex_destroy Running_mutex]\<rparr>)"

lemma signal_destroy_eq:
  assumes "signal_ok w ipc i" and "env_ok w"
  shows "bare_ipc__signal_destroy i w = Some (i\<lparr>ipc_signal := NULL\<rparr>, signal_destroyed i w)"
  using assms
  by (simp add: bare_ipc__signal_destroy_def signal_destroyed_def signal_ok_def emit_ok_def env_ok_def
      emit_def Let_def)

lemma signal_destroyed_frame [simp]:
  "ipcs (signal_destroyed i w) = ipcs w" "polls (signal_destroyed i w) = polls w"
  "queue (signal_destroyed i w) = queue w" "blocks (signal_destroyed i w) = blocks w"
  "brk (signal_destroyed i w) = brk w" "self (signal_destroyed i w) = self w"
  "world_ok (signal_destroyed i w) = world_ok w" "env_ok (signal_destroyed i w) = env_ok w"
  "abs_world (signal_destroyed i w) = abs_world w"
  by (simp_all add: signal_destroyed_def Let_def abs_world_def)

lemma signal_destroyed_signals:
  "p \<noteq> ipc_signal i \<Longrightarrow> signals (signal_destroyed i w) p = signals w p"
  by (simp add: signal_destroyed_def Let_def)

text \<open>Two ipcs never share a signal.\<close>

lemma one_signal:
  assumes "ipc_ok w" and "ipcs w p = Some i" and "ipcs w p' = Some i'" and "p \<noteq> p'"
  shows "ipc_signal i \<noteq> ipc_signal i'"
  using ipc_okD(4) [OF assms(1,2)] ipc_okD(4) [OF assms(1,3)] assms(4)
  by (auto simp: ipc_good_def signal_ok_def)

lemma ipc_destroy_spec:
  assumes ok: "ipc_ok w" and env: "env_ok w" and i: "ipcs w ipc = Some i"
  shows "\<exists>w'. bare_ipc_destroy ipc w = Some w' \<and> ipc_ok w' \<and> env_ok w'
    \<and> ipcs w' = (ipcs w)(ipc := None) \<and> polls w' = polls w \<and> self w' = self w
    \<and> signals w' (ipc_signal i) = (if self w = ipc_signal i
        then Some \<lparr>signal_ipc = NULL, detached = True\<rparr> else None)
    \<and> (\<forall>p. p \<noteq> ipc_signal i \<longrightarrow> signals w' p = signals w p)
    \<and> (case ipc_port i of
        None \<Rightarrow> abs_world w' = abs_world w
      | Some port \<Rightarrow> (\<exists>q. queue w = Some q
          \<and> abs_world w' = reclaim (raise_phase Thread_port bare_queue_state_closed (abs_queue w q))))"
proof -
  obtain w1 where c: "bare_ipc_close ipc w = Some w1" "ipc_ok w1" "env_ok w1"
      "ipcs w1 = (ipcs w)(ipc \<mapsto> closed_ipc i)" "polls w1 = polls w" "signals w1 = signals w"
      "self w1 = self w"
      "case ipc_port i of
        None \<Rightarrow> abs_world w1 = abs_world w
      | Some port \<Rightarrow> (\<exists>q. queue w = Some q
          \<and> abs_world w1 = reclaim (raise_phase Thread_port bare_queue_state_closed (abs_queue w q)))"
    using ipc_close_spec [OF assms] by blast
  let ?i = "closed_ipc i"
  have i1: "ipcs w1 ipc = Some ?i" using c(4) by simp
  have g: "ipc_good w1 ipc ?i" using ipc_okD(4) [OF c(2) i1] .
  then have sd: "bare_ipc__signal_destroy ?i w1 = Some (?i\<lparr>ipc_signal := NULL\<rparr>, signal_destroyed ?i w1)"
    using c(3) by (intro signal_destroy_eq [of _ ipc]) (simp_all add: ipc_good_def)
  let ?w2 = "emit (Mutex_destroy Ipc_lock) (signal_destroyed ?i w1)"
  let ?w' = "?w2\<lparr>ipcs := (ipcs ?w2)(ipc := None)\<rparr>"
  have d: "bare_ipc_destroy ipc w = Some ?w'"
    using c(1) i1 sd by (simp add: bare_ipc_destroy_def)
  have "ipc_good ?w' p j" if j: "ipcs ?w' p = Some j" for p j
  proof -
    have pj: "p \<noteq> ipc" "ipcs w1 p = Some j" using j by (auto split: if_splits)
    have gj: "ipc_good w1 p j" using ipc_okD(4) [OF c(2) pj(2)] .
    have "ipc_signal j \<noteq> ipc_signal ?i" using one_signal [OF c(2) pj(2) i1] pj(1) by blast
    then have "signals ?w' (ipc_signal j) = signals w1 (ipc_signal j)"
      using signal_destroyed_signals [of "ipc_signal j" ?i w1] by simp
    moreover have "owned ?w' = owned w1" by (simp add: owned_def)
    ultimately show ?thesis
      using gj by (simp add: ipc_good_def ipc_parts live_message_def split: option.splits)
  qed
  moreover have "served ?w'"
    using ipc_okD(3) [OF c(2)] i1 by (fastforce simp: served_def)
  moreover have "addresses_ok ?w'"
    using ipc_okD(2) [OF c(2)] g
    by (auto simp: addresses_ok_def signal_destroyed_def Let_def ipc_good_def signal_ok_def
        split: if_splits)
  ultimately have "ipc_ok ?w'" using ipc_okD(1) [OF c(2)] by (simp add: ipc_ok_def)
  moreover have "signals ?w' (ipc_signal i) = (if self w = ipc_signal i
        then Some \<lparr>signal_ipc = NULL, detached = True\<rparr> else None)"
    using c(7) by (simp add: signal_destroyed_def Let_def)
  moreover have "signals ?w' p = signals w p" if "p \<noteq> ipc_signal i" for p
    using signal_destroyed_signals [of p ?i w1] that c(6) by simp
  moreover have "abs_world ?w' = abs_world w1"
    by (simp add: abs_world_def signal_destroyed_def Let_def split: option.split)
  ultimately show ?thesis
    using d c by (intro exI [of _ ?w']) (auto split: option.splits)
qed

section \<open>Creating\<close>

text \<open>The world after the two allocations and the start of the signal's thread.\<close>

definition signal_started :: "'z ipc_world_scheme \<Rightarrow> 'z ipc_world_scheme" where
  "signal_started w = w\<lparr>brk := Suc (Suc (brk w)), calls := calls w @ [Loop_init, Async_init Wake_async,
       Async_init Close_async, Mutex_init Running_mutex, Thread_create],
     signals := (signals w)(Suc (brk w) \<mapsto> \<lparr>signal_ipc = brk w, detached = False\<rparr>)\<rparr>"

definition new_ipc :: "'z ipc_world_scheme \<Rightarrow> bare_ipc_t" where
  "new_ipc w = \<lparr>ipc_port = None, pending = \<lparr>base = NULL, len = 0\<rparr>, offset = 0,
     ipc_poll = NULL, ipc_signal = Suc (brk w)\<rparr>"

lemma signal_init_eq:
  assumes "\<And>c. ret w c = 0"
  shows "bare_ipc__signal_init (brk w) ((new_ipc w)\<lparr>ipc_signal := NULL\<rparr>) (w\<lparr>brk := Suc (brk w)\<rparr>) =
    Some (if oom w (Suc (brk w)) then (-1, (new_ipc w)\<lparr>ipc_signal := NULL\<rparr>, w\<lparr>brk := Suc (Suc (brk w))\<rparr>)
      else (0, new_ipc w, signal_started w))"
  using assms
  by (simp add: bare_ipc__signal_init_def malloc_struct_def emit_ok_def emit_def NULL_def
      signal_started_def new_ipc_def)

lemma create_no_memory:
  assumes "\<And>c. ret w c = 0" and "0 < brk w" and "oom w (brk w) \<or> oom w (Suc (brk w))"
  shows "\<exists>k. brk w \<le> k \<and> bare_ipc_create w = Some ((-1, NULL), w\<lparr>brk := k\<rparr>)"
proof (cases "oom w (brk w)")
  case True
  then show ?thesis
    by (intro exI [of _ "Suc (brk w)"]) (simp add: bare_ipc_create_def malloc_struct_def)
next
  case False
  then show ?thesis
    using assms signal_init_eq [of w]
    by (intro exI [of _ "Suc (Suc (brk w))"])
      (simp add: bare_ipc_create_def malloc_struct_def NULL_def new_ipc_def)
qed

lemma create_refused:
  assumes "\<And>c. ret w c = 0" and "ipc_ok w" and "\<not> oom w (brk w)" and "\<not> oom w (Suc (brk w))"
    and q: "queue w = Some q" and used: "thread_state q \<noteq> bare_queue_state_idle"
  shows "\<exists>cs. bare_ipc_create w = Some ((-1, NULL), w\<lparr>brk := Suc (Suc (brk w)), calls := cs\<rparr>)"
proof -
  let ?w = "signal_started w" and ?i = "new_ipc w"
  let ?w2 = "?w\<lparr>ipcs := (ipcs ?w)(brk w \<mapsto> ?i)\<rparr>"
  let ?w3 = "?w2\<lparr>calls := calls ?w2 @ [Mutex_lock Queue_lock, Mutex_unlock Queue_lock]\<rparr>"
  note fresh = addresses_fresh [OF ipc_okD(2) [OF assms(2)]]
  have q2: "queue ?w2 = Some q" using q by (simp add: signal_started_def)
  have o: "bare_queue_open_thread on_signal_ptr (brk w) ?w2 = Some (None, ?w3)"
    unfolding open_thread_eq [OF q2] using used by simp
  have sd: "bare_ipc__signal_destroy ?i ?w3 = Some (?i\<lparr>ipc_signal := NULL\<rparr>, signal_destroyed ?i ?w3)"
    using assms(1) by (simp add: bare_ipc__signal_destroy_def signal_destroyed_def emit_ok_def emit_def
        Let_def signal_started_def new_ipc_def)
  have "self w \<noteq> Suc (brk w)" "signals w (Suc (brk w)) = None" "ipcs w (brk w) = None"
    using fresh [of "Suc (brk w)"] fresh [of "brk w"] by auto
  then have "(signal_destroyed ?i ?w3)\<lparr>ipcs := (ipcs (signal_destroyed ?i ?w3))(brk w := None)\<rparr>
      = w\<lparr>brk := Suc (Suc (brk w)), calls := calls (signal_destroyed ?i ?w3)\<rparr>"
    by (simp add: signal_destroyed_def Let_def new_ipc_def signal_started_def fun_upd_idem)
  moreover have "bare_ipc_create w = Some ((-1, NULL),
      (signal_destroyed ?i ?w3)\<lparr>ipcs := (ipcs (signal_destroyed ?i ?w3))(brk w := None)\<rparr>)"
    using signal_init_eq [OF assms(1)] o sd assms(3,4) brk_pos [OF assms(2)]
    by (simp add: bare_ipc_create_def malloc_struct_def NULL_def new_ipc_def)
  ultimately show ?thesis by metis
qed

lemma create_accepted:
  assumes rets: "\<And>c. ret w c = 0" and ok: "ipc_ok w" and mem: "\<not> oom w (brk w)" "\<not> oom w (Suc (brk w))"
    and q: "queue w = Some q" and idle: "thread_state q = bare_queue_state_idle"
  shows "\<exists>w'. bare_ipc_create w = Some ((0, brk w), w') \<and> ipc_ok w' \<and> ret w' = ret w \<and> oom w' = oom w
    \<and> ipcs w' = (ipcs w)(brk w \<mapsto> (new_ipc w)\<lparr>ipc_port := Some Thread_port\<rparr>)
    \<and> signals w' = (signals w)(Suc (brk w) \<mapsto> \<lparr>signal_ipc = brk w, detached = False\<rparr>)
    \<and> polls w' = polls w \<and> self w' = self w
    \<and> abs_world w' = snd (spec_step (Open_thread on_signal_ptr (brk w)) (abs_queue w q))"
proof -
  let ?i = "(new_ipc w)\<lparr>ipc_port := Some Thread_port\<rparr>" and ?s = "signal_started w"
  let ?w2 = "?s\<lparr>ipcs := (ipcs ?s)(brk w \<mapsto> new_ipc w)\<rparr>"
  note w = ipc_okD [OF ok] and fresh = addresses_fresh [OF ipc_okD(2) [OF ok]]
  have q2: "queue ?w2 = Some q" using q by (simp add: signal_started_def)
  obtain w3 where o: "bare_queue_open_thread on_signal_ptr (brk w) ?w2 = Some (Some Thread_port, w3)"
    unfolding open_thread_eq [OF q2] using idle by simp
  have w3: "w3 = ?w2\<lparr>queue := queue w3, calls := calls w3\<rparr>"
    "queue w3 = Some (q\<lparr>thread_port := (thread_port q)\<lparr>port_data := brk w\<rparr>,
       on_signal_thread := on_signal_ptr, thread_state := bare_queue_state_open\<rparr>)"
    using o idle by (auto simp: open_thread_eq [OF q2])
  have ok2: "world_ok ?w2"
    using w(1) by (auto simp: signal_started_def world_ok_def heap_ok_def less_Suc_eq
        queue_ok_def live_message_def)
  have ok3: "world_ok w3" by (rule open_thread_ok [OF ok2 o])
  let ?w' = "emit (Mutex_init Ipc_lock) (w3\<lparr>ipcs := (ipcs w3)(brk w \<mapsto> ?i)\<rparr>)"
  have fields: "ipcs ?w' = (ipcs w)(brk w \<mapsto> ?i)" "polls ?w' = polls w" "self ?w' = self w"
      "signals ?w' = (signals w)(Suc (brk w) \<mapsto> \<lparr>signal_ipc = brk w, detached = False\<rparr>)"
      "brk ?w' = Suc (Suc (brk w))" "queue ?w' = queue w3" "ret ?w' = ret w" "oom ?w' = oom w"
    by (simp, subst w3(1), simp add: signal_started_def)+
  have "bare_ipc_create w = Some ((0, brk w), ?w')"
    using signal_init_eq [OF rets] o mem brk_pos [OF ok] fields(7) rets
    by (simp add: bare_ipc_create_def malloc_struct_def NULL_def new_ipc_def emit_ok_def)
  moreover have "ipc_ok ?w'"
  proof -
    have good: "ipc_good ?w' p j" if j: "ipcs ?w' p = Some j" for p j
    proof (cases "p = brk w")
      case True
      then have "j = ?i" using j fields(1) by simp
      moreover have "port_ok ?w' p ?i"
        unfolding port_ok_def fields(6) w3(2) using True
        by (simp add: bare_queue__listening_def host_end_def)
      ultimately show ?thesis
        using True fields(4) by (simp add: ipc_good_def pending_ok_def signal_ok_def poll_ok_def new_ipc_def)
    next
      case False
      have "ipcs w p = Some j" using j False unfolding fields(1) by simp
      then have g: "ipc_good w p j" by (rule w(4))
      have none: "ipc_port j = None"
        using g q idle by (auto simp: ipc_good_def port_ok_def bare_queue__listening_def split: option.splits)
      have "signals w (ipc_signal j) \<noteq> None" using g by (simp add: ipc_good_def signal_ok_def)
      then have "ipc_signal j \<noteq> Suc (brk w)" using fresh(3) [of "Suc (brk w)"] by auto
      then show ?thesis using g none fields(2,4) by (simp add: ipc_good_def ipc_parts)
    qed
    have "served ?w'"
      unfolding served_def fields(1,6) w3(2) by simp
    moreover have "addresses_ok ?w'"
      using w(2) brk_pos [OF ok] unfolding addresses_ok_def fields(1-5) by (auto simp: less_Suc_eq)
    moreover have "world_ok ?w'" using ok3 by simp
    ultimately show ?thesis using good by (simp add: ipc_ok_def)
  qed
  moreover have "abs_world ?w' = snd (spec_step (Open_thread on_signal_ptr (brk w)) (abs_queue w q))"
  proof -
    have "abs_world ?w' = abs_world w3" by (simp add: abs_world_def split: option.split)
    moreover have "(Flag True, abs_world w3) = spec_step (Open_thread on_signal_ptr (brk w)) (abs_queue ?w2 q)"
      using open_thread_refines [OF ok2 q2 o] by simp
    moreover have "abs_queue ?w2 q = abs_queue w q"
      by (simp add: signal_started_def abs_queue_def payload_def fun_eq_iff)
    ultimately show ?thesis by (metis snd_conv)
  qed
  ultimately show ?thesis using fields by blast
qed

section \<open>Polls\<close>

text \<open>Changing the poll of an ipc, with the polls that other ipcs have kept.\<close>

lemma ipc_ok_polls:
  assumes ok: "ipc_ok w" and i: "ipcs w ipc = Some i"
    and same: "w' = w\<lparr>ipcs := (ipcs w)(ipc \<mapsto> i\<lparr>ipc_poll := x\<rparr>), polls := ps, calls := cs\<rparr>"
    and mine: "x = NULL \<or> (\<exists>p. ps x = Some p \<and> poll_ipc p = ipc)"
    and others: "\<And>y p. polls w y = Some p \<Longrightarrow> poll_ipc p \<noteq> ipc \<Longrightarrow> \<exists>p'. ps y = Some p' \<and> poll_ipc p' = poll_ipc p"
    and dom: "\<forall>y \<in> dom ps. 0 < y \<and> y < brk w"
  shows "ipc_ok w'"
proof -
  have "ipc_good w' p j" if j: "ipcs w' p = Some j" for p j
  proof (cases "p = ipc")
    case True
    then have "j = i\<lparr>ipc_poll := x\<rparr>" using j same by simp
    then show ?thesis
      using ipc_okD(4) [OF ok i] mine True same
      by (auto simp: ipc_good_def ipc_parts live_message_def owned_def split: option.splits)
  next
    case False
    then have "ipc_good w p j" using j same ipc_okD(4) [OF ok] by simp
    then show ?thesis
      using False others same
      by (auto simp: ipc_good_def ipc_parts live_message_def owned_def split: option.splits)
  qed
  moreover have "served w'" using ipc_okD(3) [OF ok] i same by (fastforce simp: served_def)
  moreover have "addresses_ok w'" using ipc_okD(2) [OF ok] i same dom by (auto simp: addresses_ok_def)
  ultimately show ?thesis using ipc_okD(1) [OF ok] same by (simp add: ipc_ok_def)
qed

lemma polls_dom: "ipc_ok w \<Longrightarrow> y \<in> dom (polls w) \<Longrightarrow> 0 < y \<and> y < brk w"
  by (auto simp: ipc_ok_def addresses_ok_def)

lemma ipc_ok_poll_fields:
  assumes ok: "ipc_ok w" and p: "polls w y = Some p" "poll_ipc p' = poll_ipc p"
  shows "ipc_ok (w\<lparr>polls := (polls w)(y \<mapsto> p')\<rparr>)"
proof -
  let ?w = "w\<lparr>polls := (polls w)(y \<mapsto> p')\<rparr>"
  have "ipc_good ?w a j" if "ipc_good w a j" for a j
    using that p by (auto simp: ipc_good_def ipc_parts live_message_def owned_def split: option.splits)
  moreover have "served ?w" using ipc_okD(3) [OF ok] by (simp add: served_def)
  moreover have "addresses_ok ?w" using ipc_okD(2) [OF ok] p(1) by (auto simp: addresses_ok_def)
  ultimately show ?thesis using ipc_okD [OF ok] by (simp add: ipc_ok_def)
qed

lemma set_poll_unchecked:
  assumes "ipcs w ipc = Some i" and "signals w (ipc_signal i) \<noteq> None"
  shows "bare_ipc__set_poll ipc x w = Some (w\<lparr>ipcs := (ipcs w)(ipc \<mapsto> i\<lparr>ipc_poll := x\<rparr>),
    calls := calls w @ [Mutex_lock Running_mutex, Mutex_unlock Running_mutex]\<rparr>)"
  using assms by (auto simp: bare_ipc__set_poll_def emit_def)

lemma poll_create_spec:
  assumes ok: "ipc_ok w" and env: "env_ok w" and i: "ipcs w ipc = Some i"
  shows "\<exists>w'. bare_ipc_poll_create ipc w = Some ((0, brk w), w') \<and> ipc_ok w' \<and> env_ok w'
    \<and> polls w' = (polls w)(brk w \<mapsto> \<lparr>poll_ipc = ipc, events = 0, poll_cb = NULL, poll_data = NULL\<rparr>)
    \<and> ipcs w' = (ipcs w)(ipc \<mapsto> i\<lparr>ipc_poll := brk w\<rparr>) \<and> queue w' = queue w \<and> blocks w' = blocks w"
proof -
  let ?p = "\<lparr>poll_ipc = ipc, events = 0, poll_cb = NULL, poll_data = NULL\<rparr>"
  let ?w0 = "w\<lparr>brk := Suc (brk w)\<rparr>"
  let ?w' = "?w0\<lparr>ipcs := (ipcs w)(ipc \<mapsto> i\<lparr>ipc_poll := brk w\<rparr>), polls := (polls w)(brk w \<mapsto> ?p),
    calls := calls w @ [Mutex_lock Running_mutex, Mutex_unlock Running_mutex]\<rparr>"
  have s: "signals w (ipc_signal i) \<noteq> None"
    using ipc_okD(4) [OF ok i] by (simp add: ipc_good_def signal_ok_def)
  have "bare_ipc_poll_create ipc w = Some ((0, brk w), ?w')"
    using env brk_pos [OF ok] i s
    by (simp add: bare_ipc_poll_create_def malloc_struct_env NULL_def set_poll_unchecked)
  moreover have "ipc_ok ?w'"
  proof (rule ipc_ok_polls [OF ipc_ok_brk [OF ok, of "Suc (brk w)"]])
    show "ipcs ?w0 ipc = Some i" using i by simp
    show "?w' = ?w0\<lparr>ipcs := (ipcs ?w0)(ipc \<mapsto> i\<lparr>ipc_poll := brk w\<rparr>), polls := (polls w)(brk w \<mapsto> ?p),
      calls := calls w @ [Mutex_lock Running_mutex, Mutex_unlock Running_mutex]\<rparr>" by simp
    have "polls w (brk w) = None" using addresses_fresh(2) [OF ipc_okD(2) [OF ok]] by simp
    then show "\<And>y p. polls ?w0 y = Some p \<Longrightarrow> poll_ipc p \<noteq> ipc
        \<Longrightarrow> \<exists>p'. ((polls w)(brk w \<mapsto> ?p)) y = Some p' \<and> poll_ipc p' = poll_ipc p"
      by auto
    show "\<forall>y \<in> dom ((polls w)(brk w \<mapsto> ?p)). 0 < y \<and> y < brk ?w0"
      using polls_dom [OF ok] brk_pos [OF ok] by (auto simp: less_Suc_eq)
  qed auto
  ultimately show ?thesis using env by (intro exI [of _ ?w']) simp
qed

lemma poll_stop_spec:
  assumes ok: "ipc_ok w" and p: "polls w poll = Some p"
  shows "\<exists>w'. bare_ipc_poll_stop poll w = Some (0, w') \<and> ipc_ok w' \<and> env_ok w' = env_ok w
    \<and> w' = w\<lparr>polls := (polls w)(poll \<mapsto> p\<lparr>events := 0, poll_cb := NULL\<rparr>)\<rparr>"
  using ipc_ok_poll_fields [OF ok p] p by (simp add: bare_ipc_poll_stop_def)

lemma poll_destroy_spec:
  assumes ok: "ipc_ok w" and env: "env_ok w" and p: "polls w poll = Some p"
    and i: "ipcs w (poll_ipc p) = Some i"
  shows "\<exists>w'. bare_ipc_poll_destroy poll w = Some w' \<and> ipc_ok w' \<and> env_ok w'
    \<and> polls w' = (polls w)(poll := None) \<and> ipcs w' = (ipcs w)(poll_ipc p \<mapsto> i\<lparr>ipc_poll := NULL\<rparr>)
    \<and> queue w' = queue w \<and> blocks w' = blocks w"
proof -
  let ?cs = "calls w @ [Mutex_lock Running_mutex, Mutex_unlock Running_mutex]"
  let ?w' = "w\<lparr>ipcs := (ipcs w)(poll_ipc p \<mapsto> i\<lparr>ipc_poll := NULL\<rparr>),
    polls := (polls w)(poll := None), calls := ?cs\<rparr>"
  have s: "signals w (ipc_signal i) \<noteq> None"
    using ipc_okD(4) [OF ok i] by (simp add: ipc_good_def signal_ok_def)
  have "bare_ipc_poll_destroy poll w = Some ?w'"
    using p i s by (simp add: bare_ipc_poll_destroy_def bare_ipc_poll_stop_def set_poll_unchecked)
  moreover have "ipc_ok ?w'"
  proof (rule ipc_ok_polls [OF ok i refl])
    show "\<And>y q. polls w y = Some q \<Longrightarrow> poll_ipc q \<noteq> poll_ipc p
        \<Longrightarrow> \<exists>q'. ((polls w)(poll := None)) y = Some q' \<and> poll_ipc q' = poll_ipc q"
      using p by auto
    show "\<forall>y \<in> dom ((polls w)(poll := None)). 0 < y \<and> y < brk w"
      using polls_dom [OF ok] by auto
  qed simp
  ultimately show ?thesis using env by (intro exI [of _ ?w']) simp
qed

lemma poll_start_spec:
  assumes ok: "ipc_ok w" and env: "env_ok w" and p: "polls w poll = Some p"
    and i: "ipcs w (poll_ipc p) = Some i" and e: "evs \<noteq> 0"
  shows "\<exists>w'. bare_ipc_poll_start poll evs cb w = Some (0, w') \<and> ipc_ok w' \<and> env_ok w'
    \<and> w' = w\<lparr>polls := (polls w)(poll \<mapsto> p\<lparr>events := evs, poll_cb := cb\<rparr>),
            calls := calls w @ [Async_send Wake_async]\<rparr>"
proof -
  let ?w = "w\<lparr>polls := (polls w)(poll \<mapsto> p\<lparr>events := evs, poll_cb := cb\<rparr>)\<rparr>"
  have ok1: "ipc_ok ?w" by (rule ipc_ok_poll_fields [OF ok p]) simp
  have "signal_ok ?w (poll_ipc p) i" using ipc_okD(4) [OF ok i] by (simp add: ipc_good_def signal_ok_def)
  then have "bare_ipc__signal i ?w = Some (emit (Async_send Wake_async) ?w)"
    using env by (intro signal_eq) simp_all
  then have "bare_ipc_poll_start poll evs cb w = Some (0, emit (Async_send Wake_async) ?w)"
    using p i e by (simp add: bare_ipc_poll_start_def)
  moreover have "ipc_ok (emit (Async_send Wake_async) ?w)" using ok1 by simp
  ultimately show ?thesis using env by (simp add: emit_def)
qed

end
