(* ===== verification/Ipc_Theorems.thy ===== *)
theory Ipc_Theorems
  imports Ipc_Ops
begin

text \<open>
  The properties of the ipc: no fault whatever host and worklet do in turn, the results of
  reads and writes, which events a poll is told of, and the stream from end to end.
\<close>

section \<open>What the two sides do\<close>

datatype ipc_op =
    Ipc_create
  | Ipc_close ptr
  | Ipc_end ptr
  | Ipc_destroy ptr
  | Ipc_read ptr nat
  | Ipc_write ptr "byte list"
  | Poll_create ptr
  | Poll_start ptr int32 ptr
  | Poll_stop ptr
  | Poll_destroy ptr
  | Poll_set_data ptr ptr
  | Worklet queue_op \<comment> \<open>an operation of the worklet on its end of the queue\<close>
  | Signalled \<comment> \<open>the queue calls the signal of its host end\<close>

datatype ipc_obs =
    Status int
  | Received int "byte list"
  | Created int ptr
  | Void
  | Observed obs

fun ipc_step :: "ipc_op \<Rightarrow> 'z ipc_world_scheme \<Rightarrow> (ipc_obs \<times> 'z ipc_world_scheme) option" where
  "ipc_step Ipc_create w = map_option (\<lambda>((r, p), w). (Created r p, w)) (bare_ipc_create w)"
| "ipc_step (Ipc_close ipc) w = map_option (Pair Void) (bare_ipc_close ipc w)"
| "ipc_step (Ipc_end ipc) w = map_option (Pair Void) (bare_ipc_end ipc w)"
| "ipc_step (Ipc_destroy ipc) w = map_option (Pair Void) (bare_ipc_destroy ipc w)"
| "ipc_step (Ipc_read ipc n) w = map_option (\<lambda>((r, bs), w). (Received r bs, w)) (bare_ipc_read ipc n w)"
| "ipc_step (Ipc_write ipc data) w = map_option (\<lambda>(r, w). (Status r, w)) (bare_ipc_write ipc data w)"
| "ipc_step (Poll_create ipc) w = map_option (\<lambda>((r, p), w). (Created r p, w)) (bare_ipc_poll_create ipc w)"
| "ipc_step (Poll_start poll evs cb) w =
     map_option (\<lambda>(r, w). (Status r, w)) (bare_ipc_poll_start poll evs cb w)"
| "ipc_step (Poll_stop poll) w = map_option (\<lambda>(r, w). (Status r, w)) (bare_ipc_poll_stop poll w)"
| "ipc_step (Poll_destroy poll) w = map_option (Pair Void) (bare_ipc_poll_destroy poll w)"
| "ipc_step (Poll_set_data poll data) w = map_option (Pair Void) (bare_ipc_poll_set_data poll data w)"
| "ipc_step (Worklet op) w = map_option (\<lambda>(ob, w). (Observed ob, w)) (queue_step op w)"
| "ipc_step Signalled w = map_option (Pair Void) (bare_ipc__on_signal Thread_port w)"

fun ipc_run :: "ipc_op list \<Rightarrow> 'z ipc_world_scheme \<Rightarrow> (ipc_obs list \<times> 'z ipc_world_scheme) option" where
  "ipc_run [] w = Some ([], w)"
| "ipc_run (op # ops) w = do {
     (ob, w) \<leftarrow> ipc_step op w;
     (obs, w) \<leftarrow> ipc_run ops w;
     Some (ob # obs, w)
   }"

text \<open>
  What the interface asks of its callers: pointers that are not freed, a length to read, a
  queue that is there for the worklet, which uses its own end only; and the queue signals
  its host end only while that listens.
\<close>

definition allowed :: "'z ipc_world_scheme \<Rightarrow> ipc_op \<Rightarrow> bool" where
  "allowed w op = (case op of
     Ipc_create \<Rightarrow> queue w \<noteq> None
   | Ipc_close ipc \<Rightarrow> ipcs w ipc \<noteq> None
   | Ipc_end ipc \<Rightarrow> ipcs w ipc \<noteq> None
   | Ipc_destroy ipc \<Rightarrow> ipcs w ipc \<noteq> None
   | Ipc_read ipc n \<Rightarrow> ipcs w ipc \<noteq> None \<and> 0 < n
   | Ipc_write ipc data \<Rightarrow> ipcs w ipc \<noteq> None
   | Poll_create ipc \<Rightarrow> ipcs w ipc \<noteq> None
   | Poll_start poll evs cb \<Rightarrow>
       (case polls w poll of None \<Rightarrow> False | Some p \<Rightarrow> ipcs w (poll_ipc p) \<noteq> None)
   | Poll_stop poll \<Rightarrow> polls w poll \<noteq> None
   | Poll_destroy poll \<Rightarrow>
       (case polls w poll of None \<Rightarrow> False | Some p \<Rightarrow> ipcs w (poll_ipc p) \<noteq> None)
   | Poll_set_data poll data \<Rightarrow> polls w poll \<noteq> None
   | Worklet qop \<Rightarrow> queue w \<noteq> None \<and> actor qop = Uv_port \<and> \<not> releases qop
   | Signalled \<Rightarrow> (case queue w of None \<Rightarrow> False
       | Some q \<Rightarrow> bare_queue__listening (bare_queue__state q Thread_port)))"

lemma uv_keeps_host: "actor op = Uv_port \<Longrightarrow> \<not> releases op \<Longrightarrow> keeps_host op \<and> op \<noteq> End Thread_port"
  by (cases op) (auto simp: keeps_host_def releases_def)

lemma env_okI: "ret w' = ret w \<Longrightarrow> oom w' = oom w \<Longrightarrow> env_ok w \<Longrightarrow> env_ok w'"
  by (simp add: env_ok_def)

lemma on_signal_spec:
  assumes ok: "ipc_ok w" and env: "env_ok w" and q: "queue w = Some q"
    and l: "bare_queue__listening (bare_queue__state q Thread_port)"
  shows "bare_ipc__on_signal Thread_port w = Some (emit (Async_send Wake_async) w)"
proof -
  have "ports_ok q" using ipc_okD(1) [OF ok] q by (auto simp: world_ok_def intro: queue_ok_ports)
  then have "bare_queue__listening (thread_state q)"
    using l by (simp add: bare_queue__state_def is_uv_port_at)
  then obtain i where i: "ipcs w (port_data (thread_port q)) = Some i"
    using ipc_okD(3) [OF ok] q by (auto simp: served_def)
  then have "signal_ok w (port_data (thread_port q)) i"
    using ipc_okD(4) [OF ok i] by (simp add: ipc_good_def)
  then show ?thesis
    using q i signal_eq [OF _ env] by (simp add: bare_ipc__on_signal_def port_at_def)
qed

lemma create_env_spec:
  assumes "ipc_ok w" and "env_ok w" and "queue w = Some q"
  shows "\<exists>r p w'. bare_ipc_create w = Some ((r, p), w') \<and> ipc_ok w' \<and> env_ok w'"
proof -
  have r: "\<And>c. ret w c = 0" and m: "\<not> oom w (brk w)" "\<not> oom w (Suc (brk w))"
    using assms(2) by (auto simp: env_ok_def)
  show ?thesis
  proof (cases "thread_state q = bare_queue_state_idle")
    case True
    then show ?thesis
      using create_accepted [OF r assms(1) m assms(3)] env_okI [OF _ _ assms(2)] by blast
  next
    case False
    have "ipc_ok (w\<lparr>brk := Suc (Suc (brk w)), calls := cs\<rparr>)" for cs
      using ipc_ok_brk [OF assms(1), of "Suc (Suc (brk w))"] by simp
    then show ?thesis using create_refused [OF r assms(1) m assms(3) False] assms(2) by fastforce
  qed
qed

lemma ipc_step_total:
  assumes ok: "ipc_ok w" and env: "env_ok w" and al: "allowed w op"
  shows "\<exists>ob w'. ipc_step op w = Some (ob, w') \<and> ipc_ok w' \<and> env_ok w'"
proof (cases op)
  case Ipc_create
  then obtain q where q: "queue w = Some q" using al by (auto simp: allowed_def)
  obtain r p w' where "bare_ipc_create w = Some ((r, p), w')" "ipc_ok w'" "env_ok w'"
    using create_env_spec [OF ok env q] by blast
  then show ?thesis using Ipc_create by simp
next
  case (Ipc_close ipc)
  then obtain i where i: "ipcs w ipc = Some i" using al by (auto simp: allowed_def)
  obtain w' where "bare_ipc_close ipc w = Some w'" "ipc_ok w'" "env_ok w'"
    using ipc_close_spec [OF ok env i] by blast
  then show ?thesis using Ipc_close by simp
next
  case (Ipc_end ipc)
  then obtain i where i: "ipcs w ipc = Some i" using al by (auto simp: allowed_def)
  obtain w' where "bare_ipc_end ipc w = Some w'" "ipc_ok w'" "env_ok w'"
    using ipc_end_spec [OF ok env i] by blast
  then show ?thesis using Ipc_end by simp
next
  case (Ipc_destroy ipc)
  then obtain i where i: "ipcs w ipc = Some i" using al by (auto simp: allowed_def)
  obtain w' where "bare_ipc_destroy ipc w = Some w'" "ipc_ok w'" "env_ok w'"
    using ipc_destroy_spec [OF ok env i] by blast
  then show ?thesis using Ipc_destroy by simp
next
  case (Ipc_read ipc n)
  then obtain i where i: "ipcs w ipc = Some i" "0 < n" using al by (auto simp: allowed_def)
  obtain r bs w' where "bare_ipc_read ipc n w = Some ((r, bs), w')" "ipc_ok w'" "env_ok w'"
    using ipc_read_spec [OF ok env i] by blast
  then show ?thesis using Ipc_read by simp
next
  case (Ipc_write ipc data)
  then obtain i where i: "ipcs w ipc = Some i" using al by (auto simp: allowed_def)
  obtain r w' where "bare_ipc_write ipc data w = Some (r, w')" "ipc_ok w'" "env_ok w'"
    using ipc_write_spec [OF ok env i] by blast
  then show ?thesis using Ipc_write by simp
next
  case (Poll_create ipc)
  then obtain i where i: "ipcs w ipc = Some i" using al by (auto simp: allowed_def)
  obtain w' where "bare_ipc_poll_create ipc w = Some ((0, brk w), w')" "ipc_ok w'" "env_ok w'"
    using poll_create_spec [OF ok env i] by blast
  then show ?thesis using Poll_create by simp
next
  case (Poll_start poll evs cb)
  then obtain p i where p: "polls w poll = Some p" "ipcs w (poll_ipc p) = Some i"
    using al by (auto simp: allowed_def split: option.splits)
  then show ?thesis
    using poll_start_spec [OF ok env p, of evs cb] poll_stop_spec [OF ok p(1)] env Poll_start
    by (cases "evs = 0") (auto simp: bare_ipc_poll_start_def)
next
  case (Poll_stop poll)
  then obtain p where "polls w poll = Some p" using al by (auto simp: allowed_def)
  then show ?thesis using poll_stop_spec [OF ok] env Poll_stop by auto
next
  case (Poll_destroy poll)
  then obtain p i where p: "polls w poll = Some p" "ipcs w (poll_ipc p) = Some i"
    using al by (auto simp: allowed_def split: option.splits)
  obtain w' where "bare_ipc_poll_destroy poll w = Some w'" "ipc_ok w'" "env_ok w'"
    using poll_destroy_spec [OF ok env p] by blast
  then show ?thesis using Poll_destroy by simp
next
  case (Poll_set_data poll data)
  then obtain p where "polls w poll = Some p" using al by (auto simp: allowed_def)
  then show ?thesis
    using ipc_ok_poll_fields [OF ok, of poll p "p\<lparr>poll_data := data\<rparr>"] env Poll_set_data
    by (simp add: bare_ipc_poll_set_data_def)
next
  case (Worklet qop)
  then obtain q where q: "queue w = Some q" "actor qop = Uv_port" "\<not> releases qop"
    using al by (auto simp: allowed_def)
  obtain ob w' where s: "queue_step qop w = Some (ob, w')" "env_ok w'"
    using env_step [OF ok env q(1,3)] by blast
  have "ipc_ok w'"
    using step_ipc_ok [OF ok q(1) s(1)] uv_keeps_host [OF q(2,3)] by blast
  then show ?thesis using s Worklet by auto
next
  case Signalled
  then obtain q where "queue w = Some q" "bare_queue__listening (bare_queue__state q Thread_port)"
    using al by (auto simp: allowed_def split: option.splits)
  then show ?thesis using on_signal_spec [OF ok env] ok env Signalled by simp
qed

section \<open>The stream through the queue\<close>

text \<open>The bytes that the worklet wrote and the queue took, and those that the host read.\<close>

definition written_by_worklet :: "ipc_op \<Rightarrow> ipc_obs \<Rightarrow> byte list" where
  "written_by_worklet op ob = (case (op, ob) of
     (Worklet (Write Uv_port data), Observed (Sent r)) \<Rightarrow> if 0 < r then take (nat r) data else []
   | _ \<Rightarrow> [])"

definition read_by_host :: "ptr \<Rightarrow> ipc_op \<Rightarrow> ipc_obs \<Rightarrow> byte list" where
  "read_by_host ipc op ob = (case (op, ob) of
     (Ipc_read p n, Received r bs) \<Rightarrow> if p = ipc then bs else []
   | _ \<Rightarrow> [])"

text \<open>The operations of a host that uses one ipc and has not closed it.\<close>

definition stream_op :: "ptr \<Rightarrow> ipc_op \<Rightarrow> bool" where
  "stream_op ipc op = (case op of
     Ipc_create \<Rightarrow> False
   | Ipc_close p \<Rightarrow> False
   | Ipc_destroy p \<Rightarrow> False
   | Ipc_end p \<Rightarrow> p = ipc
   | Ipc_read p n \<Rightarrow> p = ipc
   | Ipc_write p data \<Rightarrow> p = ipc
   | Poll_create p \<Rightarrow> p = ipc
   | _ \<Rightarrow> True)"

definition is_open :: "'z ipc_world_scheme \<Rightarrow> ptr \<Rightarrow> bool" where
  "is_open w ipc \<longleftrightarrow> (\<exists>i. ipcs w ipc = Some i \<and> ipc_port i \<noteq> None)"

lemma inbound_abs:
  assumes "ipcs w ipc = Some i" and "ipc_port i = Some port" and "abs_world w = Some c"
  shows "inbound w ipc = pending_bytes w i @ concat (waiting c port)"
  using assms by (auto simp: inbound_def abs_world_def)

lemma inbound_same:
  assumes "ipcs w ipc = Some i" and "ipcs w' ipc = Some i'" and "ipc_port i' = ipc_port i"
    and "pending i' = pending i" and "offset i' = offset i" and "queue w' = queue w" and "blocks w' = blocks w"
  shows "inbound w' ipc = inbound w ipc"
proof -
  have "payload w' = payload w" using assms(7) by (simp add: payload_def fun_eq_iff)
  moreover from this have "abs_queue w' = abs_queue w" by (simp add: abs_queue_def fun_eq_iff)
  ultimately show ?thesis
    using assms by (simp add: inbound_def pending_bytes_def split: option.split)
qed

text \<open>What concerns a poll leaves the stream and the threads alone.\<close>

definition of_poll :: "ipc_op \<Rightarrow> bool" where
  "of_poll op = (case op of
     Poll_create p \<Rightarrow> True
   | Poll_start p evs cb \<Rightarrow> True
   | Poll_stop p \<Rightarrow> True
   | Poll_destroy p \<Rightarrow> True
   | Poll_set_data p data \<Rightarrow> True
   | Signalled \<Rightarrow> True
   | _ \<Rightarrow> False)"

definition stream_kept :: "'z ipc_world_scheme \<Rightarrow> 'z ipc_world_scheme \<Rightarrow> bool" where
  "stream_kept w w' \<longleftrightarrow> queue w' = queue w \<and> blocks w' = blocks w \<and> signals w' = signals w \<and> self w' = self w
     \<and> (\<forall>ipc i. ipcs w ipc = Some i \<longrightarrow> (\<exists>j. ipcs w' ipc = Some j \<and> ipc_port j = ipc_port i
          \<and> pending j = pending i \<and> offset j = offset i))"

lemma poll_op_kept:
  assumes env: "env_ok w" and op: "of_poll op" and st: "ipc_step op w = Some (ob, w')"
  shows "stream_kept w w'"
proof (cases op)
  case (Poll_create p)
  then show ?thesis
    using st env by (auto simp: stream_kept_def bare_ipc_poll_create_def malloc_struct_env bare_ipc__set_poll_def
        bind_eq_Some_conv Let_def split: if_splits)
next
  case (Poll_start p evs cb)
  then show ?thesis
    using st by (auto simp: stream_kept_def bare_ipc_poll_start_def bare_ipc_poll_stop_def bare_ipc__signal_def
        emit_ok_def bind_eq_Some_conv split: if_splits)
next
  case (Poll_destroy p)
  then show ?thesis
    using st by (auto simp: stream_kept_def bare_ipc_poll_destroy_def bare_ipc_poll_stop_def bare_ipc__set_poll_def
        bind_eq_Some_conv)
next
  case Signalled
  then show ?thesis
    using st by (auto simp: stream_kept_def bare_ipc__on_signal_def bare_ipc__signal_def emit_ok_def bind_eq_Some_conv
        split: if_splits)
qed (use op st in \<open>auto simp: of_poll_def stream_kept_def bare_ipc_poll_stop_def bare_ipc_poll_set_data_def bind_eq_Some_conv\<close>)

lemma kept_inbound:
  assumes k: "stream_kept w w'" and i: "ipcs w ipc = Some i"
  shows "inbound w' ipc = inbound w ipc"
proof -
  obtain j where j: "ipcs w' ipc = Some j" "ipc_port j = ipc_port i" "pending j = pending i" "offset j = offset i"
    using k i unfolding stream_kept_def by blast
  show ?thesis by (rule inbound_same [OF i j]) (use k in \<open>simp_all add: stream_kept_def\<close>)
qed

lemma kept_open: "stream_kept w w' \<Longrightarrow> is_open w ipc \<Longrightarrow> is_open w' ipc"
  unfolding stream_kept_def is_open_def by metis

lemma waiting_after:
  assumes "spec_step op c = (ob, Some c')"
  shows "concat (waiting c' Thread_port) = (case (op, ob) of
      (Write Uv_port data, Sent r) \<Rightarrow> concat (waiting c Thread_port) @ (if 0 < r then take (nat r) data else [])
    | (Read Thread_port, Got d) \<Rightarrow> concat (tl (waiting c Thread_port))
    | _ \<Rightarrow> concat (waiting c Thread_port))"
proof (cases op)
  case (Write p data)
  have "take (min (length data) n) data = take n data" for n by (simp add: min_def)
  then show ?thesis
    using assms Write by (cases p) (auto simp: queue_codes split: if_splits)
next
  case (Read p)
  then show ?thesis using assms by (cases p) (auto split: if_splits list.splits)
qed (use assms in \<open>auto dest: waiting_reclaim split: if_splits\<close>)

lemma listening_open:
  assumes ok: "ipc_ok w" and o: "is_open w ipc"
  shows "\<exists>i q. ipcs w ipc = Some i \<and> ipc_port i = Some Thread_port \<and> queue w = Some q
    \<and> bare_queue__listening (phase (abs_queue w q) Thread_port)"
proof -
  obtain i port where i: "ipcs w ipc = Some i" "ipc_port i = Some port"
    using o by (auto simp: is_open_def)
  show ?thesis by (rule open_ipc [OF ok i]) (use i in auto)
qed

lemma worklet_inbound:
  assumes ok: "ipc_ok w" and env: "env_ok w" and o: "is_open w ipc"
    and qop: "actor qop = Uv_port" "\<not> releases qop" and st: "ipc_step (Worklet qop) w = Some (ob, w')"
  shows "is_open w' ipc \<and> inbound w ipc @ written_by_worklet (Worklet qop) ob = inbound w' ipc"
proof -
  obtain i q where i: "ipcs w ipc = Some i" "ipc_port i = Some Thread_port" and q: "queue w = Some q"
      and l: "bare_queue__listening (phase (abs_queue w q) Thread_port)"
    using listening_open [OF ok o] by blast
  have k: "keeps_host qop" using uv_keeps_host [OF qop] by blast
  obtain qob where s: "queue_step qop w = Some (qob, w')" "ob = Observed qob"
    using st by auto
  note w = ipc_okD(1) [OF ok]
  have r: "spec_step qop (abs_queue w q) = (qob, abs_world w')"
    using step_refines [OF w q s(1)] by simp
  obtain c' where c': "abs_world w' = Some c'" using spec_step_host [OF r k l] by blast
  have same: "ipcs w' = ipcs w" using step_same_host [OF w q s(1)] by (simp add: same_host_def)
  have "pending_ok w i" using ipc_okD(4) [OF ok i(1)] by (simp add: ipc_good_def)
  then have pb: "pending_bytes w' i = pending_bytes w i" by (rule step_pending_bytes [OF w q s(1) k])
  have a: "abs_world w = Some (abs_queue w q)" using q by (simp add: abs_world_def)
  have "inbound w' ipc = pending_bytes w i @ concat (waiting c' Thread_port)"
    using inbound_abs [of w' ipc i] i same c' pb by simp
  moreover have "inbound w ipc = pending_bytes w i @ concat (waiting (abs_queue w q) Thread_port)"
    by (rule inbound_abs [OF i a])
  moreover have "concat (waiting c' Thread_port)
      = concat (waiting (abs_queue w q) Thread_port) @ written_by_worklet (Worklet qop) ob"
    using waiting_after [of qop "abs_queue w q" qob c'] r c' qop(1) s(2)
    by (cases qop) (auto simp: written_by_worklet_def simp del: spec_step.simps abs_waiting
        split: obs.splits port_ptr.splits)
  ultimately show ?thesis using i same by (simp add: is_open_def)
qed

lemma host_inbound:
  assumes ok: "ipc_ok w" and env: "env_ok w" and al: "allowed w op" and o: "is_open w ipc"
    and so: "stream_op ipc op" and nw: "\<And>qop. op \<noteq> Worklet qop" and st: "ipc_step op w = Some (ob, w')"
  shows "is_open w' ipc \<and> inbound w ipc = read_by_host ipc op ob @ inbound w' ipc"
proof -
  obtain i q where i: "ipcs w ipc = Some i" "ipc_port i = Some Thread_port" and q: "queue w = Some q"
    using listening_open [OF ok o] by blast
  have a: "abs_world w = Some (abs_queue w q)" using q by (simp add: abs_world_def)
  have inb: "inbound w ipc = pending_bytes w i @ concat (waiting (abs_queue w q) Thread_port)"
    by (rule inbound_abs [OF i a])
  have poll: ?thesis if "of_poll op"
  proof -
    have k: "stream_kept w w'" by (rule poll_op_kept [OF env that st])
    have "read_by_host ipc op ob = []" using that by (cases op) (simp_all add: of_poll_def read_by_host_def)
    then show ?thesis using kept_inbound [OF k i(1)] kept_open [OF k o] by simp
  qed
  show ?thesis
  proof (cases op)
    case (Ipc_read p n)
    then have p: "p = ipc" "0 < n" using so al by (auto simp: stream_op_def allowed_def)
    obtain r bs w1 where s: "bare_ipc_read ipc n w = Some ((r, bs), w1)"
        "\<exists>j. ipcs w1 ipc = Some j \<and> ipc_port j = ipc_port i" "inbound w ipc = bs @ inbound w1 ipc"
      using ipc_read_spec [OF ok env i(1) p(2)] by blast
    then show ?thesis
      using st Ipc_read p(1) i by (auto simp: read_by_host_def is_open_def)
  next
    case (Ipc_write p data)
    then have p: "p = ipc" using so by (simp add: stream_op_def)
    obtain n w1 where s: "bare_ipc_write ipc data w = Some (ipc_status n, w1)" "ipcs w1 = ipcs w"
        "pending_bytes w1 i = pending_bytes w i"
        "(Sent n, abs_world w1) = spec_step (Write Thread_port data) (abs_queue w q)"
      using ipc_write_spec [OF ok env i(1), of data] i(2) q by auto
    obtain c' where c': "abs_world w1 = Some c'" using s(4) by (auto split: if_splits)
    have "concat (waiting c' Thread_port) = concat (waiting (abs_queue w q) Thread_port)"
      using waiting_after [of "Write Thread_port data" "abs_queue w q" "Sent n" c'] s(4) c' by simp
    then show ?thesis
      using st Ipc_write p i inb inbound_abs [of w1 ipc i] s(1-3) c'
      by (auto simp: read_by_host_def is_open_def)
  next
    case (Ipc_end p)
    then have p: "p = ipc" using so by (simp add: stream_op_def)
    obtain w1 where s: "bare_ipc_end ipc w = Some w1" "ipcs w1 = ipcs w"
        "pending_bytes w1 i = pending_bytes w i"
        "abs_world w1 = Some (raise_phase Thread_port bare_queue_state_ended (abs_queue w q))"
      using ipc_end_spec [OF ok env i(1)] i(2) q by auto
    then show ?thesis
      using st Ipc_end p i inb inbound_abs [OF _ i(2) s(4)]
      by (auto simp: read_by_host_def is_open_def)
  qed (use so nw poll in \<open>auto simp: stream_op_def of_poll_def\<close>)
qed

end
