(* ===== verification/Ipc_Results.thy ===== *)
theory Ipc_Results
  imports Ipc_Theorems
begin

text \<open>
  The properties of the ipc as its host sees them, with examples that run on
  \<open>attached_world\<close>: a queue whose host end an ipc has just opened.
\<close>

section \<open>An ipc just created, for the examples\<close>

definition attached_queue :: bare_queue_t where
  "attached_queue = (initial_queue no_garbage no_garbage)\<lparr>
     thread_port := \<lparr>is_uv = False, port_data = 2\<rparr>, on_signal_thread := on_signal_ptr,
     thread_state := bare_queue_state_open\<rparr>"

definition attached_ipc :: bare_ipc_t where
  "attached_ipc = \<lparr>ipc_port = Some Thread_port, pending = \<lparr>base = NULL, len = 0\<rparr>, offset = 0,
     ipc_poll = 4, ipc_signal = 3\<rparr>"

definition attached_poll :: bare_ipc_poll_t where
  "attached_poll = \<lparr>poll_ipc = 2, events = bare_ipc_readable OR bare_ipc_writable, poll_cb = 9,
     poll_data = 0\<rparr>"

definition attached_world :: ipc_world where
  "attached_world = \<lparr>blocks = Map.empty, brk = 5, oom = (\<lambda>_. False), junk = (\<lambda>_ _. 0), calls = [],
     ret = (\<lambda>_. 0), queue = Some attached_queue, ipcs = [2 \<mapsto> attached_ipc],
     polls = [4 \<mapsto> attached_poll], signals = [3 \<mapsto> \<lparr>signal_ipc = 2, detached = False\<rparr>], self = NULL\<rparr>"

lemma attached_queue_ok: "queue_ok w attached_queue"
  using initial_queue_ok [of w no_garbage no_garbage]
  by (simp add: attached_queue_def queue_ok_def messages_of_def)

lemma attached_ok: "ipc_ok attached_world" "env_ok attached_world"
proof -
  have "world_ok attached_world"
    by (simp add: attached_world_def world_ok_def heap_ok_def attached_queue_ok)
  moreover have "ipc_good attached_world 2 attached_ipc"
    by (simp add: attached_world_def ipc_good_def ipc_parts attached_ipc_def NULL_def attached_queue_def
        bare_queue__listening_def host_end_def attached_poll_def)
  ultimately show "ipc_ok attached_world"
    by (simp add: ipc_ok_def addresses_ok_def served_def attached_world_def)
      (auto simp: attached_queue_def attached_ipc_def NULL_def split: if_splits)
  show "env_ok attached_world" by (simp add: env_ok_def attached_world_def)
qed

lemma attached_simps [simp]:
  "ipcs attached_world 2 = Some attached_ipc" "queue attached_world = Some attached_queue"
  "ipc_port attached_ipc = Some Thread_port" "polls attached_world 4 = Some attached_poll"
  by (simp_all add: attached_world_def attached_ipc_def)

lemma attached_waiting: "waiting (abs_queue w attached_queue) p = []"
  "bare_queue__state attached_queue Uv_port = bare_queue_state_idle"
  "bare_queue__state attached_queue Thread_port = bare_queue_state_open"
  by (cases p; simp add: attached_queue_def initial_queue_def bare_queue__inbox_def port_at_def initial_ring)
    (simp_all add: attached_queue_def initial_queue_def bare_queue__state_def port_at_def)

lemma attached_inbound: "inbound attached_world 2 = []" "\<not> inbound_over attached_world 2"
  using inbound_open [of attached_world 2 attached_ipc Thread_port attached_queue]
    attached_waiting(1) [of attached_world Thread_port] attached_waiting(2)
  by (simp_all add: pending_bytes_def peer_ended_def attached_ipc_def state_order)

section \<open>Safety\<close>

text \<open>
  C4: The ipc is never at fault. Whatever the host and the worklet do in turn, as long as
  the host uses pointers that it has not freed and the worklet its own end, every operation
  returns: no read or write through a freed ipc, poll, signal, queue or message, no
  double free, no copy past the end of a message; and the invariant holds again, in
  particular that the signal the worklet's thread sends to is there while the port is open.
\<close>

theorem ipc_never_faults:
  assumes "ipc_ok w" and "env_ok w" and "allowed w op"
  shows "\<exists>ob w'. ipc_step op w = Some (ob, w') \<and> ipc_ok w' \<and> env_ok w'"
  using assms by (rule ipc_step_total)

theorem ipc_never_faults_witness:
  "\<exists>ob w'. ipc_step (Ipc_destroy 2) attached_world = Some (ob, w') \<and> ipc_ok w' \<and> env_ok w'"
  by (rule ipc_never_faults [OF attached_ok]) (simp add: allowed_def)

section \<open>The stream\<close>

text \<open>Each step of a run is one that the interface allows.\<close>

fun well_used :: "ipc_op list \<Rightarrow> 'z ipc_world_scheme \<Rightarrow> bool" where
  "well_used [] w \<longleftrightarrow> True"
| "well_used (op # ops) w \<longleftrightarrow> allowed w op
     \<and> (case ipc_step op w of None \<Rightarrow> True | Some (ob, w') \<Rightarrow> well_used ops w')"

lemma run_stream:
  assumes "ipc_ok w" and "env_ok w" and "is_open w ipc" and "well_used ops w"
    and "\<forall>op \<in> set ops. stream_op ipc op" and "ipc_run ops w = Some (obs, w')"
  shows "inbound w ipc @ concat (map2 written_by_worklet ops obs)
    = concat (map2 (read_by_host ipc) ops obs) @ inbound w' ipc"
  using assms
proof (induction ops arbitrary: w obs)
  case Nil
  then show ?case by simp
next
  case (Cons op ops)
  then obtain ob w1 obs1 where s: "ipc_step op w = Some (ob, w1)" "ipc_run ops w1 = Some (obs1, w')"
      "obs = ob # obs1"
    by (auto simp: bind_eq_Some_conv simp del: ipc_step.simps)
  have al: "allowed w op" and re: "well_used ops w1" and so: "stream_op ipc op"
    using Cons.prems(4,5) s(1) by auto
  have ok1: "ipc_ok w1" "env_ok w1" using ipc_step_total [OF Cons.prems(1,2) al] s(1) by auto
  have "is_open w1 ipc \<and> inbound w ipc @ written_by_worklet op ob = read_by_host ipc op ob @ inbound w1 ipc"
  proof (cases "\<exists>qop. op = Worklet qop")
    case True
    then obtain qop where qop: "op = Worklet qop" by blast
    then have "actor qop = Uv_port" "\<not> releases qop" using al by (auto simp: allowed_def)
    moreover have "ipc_step (Worklet qop) w = Some (ob, w1)" using s(1) qop by simp
    ultimately have "is_open w1 ipc \<and> inbound w ipc @ written_by_worklet (Worklet qop) ob = inbound w1 ipc"
      by (rule worklet_inbound [OF Cons.prems(1-3)])
    then show ?thesis using qop by (simp add: read_by_host_def)
  next
    case False
    then have "written_by_worklet op ob = []" by (simp add: written_by_worklet_def split: ipc_op.split)
    then show ?thesis using host_inbound [OF Cons.prems(1,2) al Cons.prems(3) so _ s(1)] False by simp
  qed
  moreover from this have "inbound w1 ipc @ concat (map2 written_by_worklet ops obs1)
      = concat (map2 (read_by_host ipc) ops obs1) @ inbound w' ipc"
    using Cons.IH [OF ok1 _ re _ s(2)] Cons.prems(5) by simp
  ultimately show ?case unfolding s(3) by simp (metis append_assoc)
qed

text \<open>
  C1: The ipc is a faithful stream. Over any run of host and worklet on an open ipc, what
  the host had yet to read, followed by the bytes of the writes that the worklet was told
  were taken, is what the host's reads returned followed by what it has yet to read: every
  byte once and in order, however the reads cut the messages.
\<close>

theorem ipc_stream_faithful:
  assumes "ipc_ok w" and "env_ok w" and "is_open w ipc" and "well_used ops w"
    and "\<forall>op \<in> set ops. stream_op ipc op" and "ipc_run ops w = Some (obs, w')"
  shows "inbound w ipc @ concat (map2 written_by_worklet ops obs)
    = concat (map2 (read_by_host ipc) ops obs) @ inbound w' ipc"
  using assms by (rule run_stream)

lemma attached_write:
  "\<exists>w1. ipc_step (Worklet (Write Uv_port [1, 2, 3])) attached_world = Some (Observed (Sent 3), w1)
     \<and> ipc_ok w1 \<and> env_ok w1 \<and> is_open w1 2 \<and> inbound w1 2 = [1, 2, 3]"
proof -
  let ?op = "Write Uv_port [1, 2, 3]"
  have al: "allowed attached_world (Worklet ?op)" by (simp add: allowed_def releases_def)
  obtain ob w1 where s: "ipc_step (Worklet ?op) attached_world = Some (ob, w1)" "ipc_ok w1" "env_ok w1"
    using ipc_step_total [OF attached_ok al] by blast
  then obtain sob where q: "queue_step ?op attached_world = Some (sob, w1)" "ob = Observed sob"
    by (auto simp del: queue_step.simps)
  have r: "(sob, abs_world w1) = spec_step ?op (abs_queue attached_world attached_queue)"
    by (rule step_refines [OF ipc_okD(1) [OF attached_ok(1)] _ q(1)]) simp
  have "fst (spec_step ?op (abs_queue attached_world attached_queue)) = Sent 3"
    using attached_waiting(1) [of attached_world Thread_port] attached_waiting(2,3)
    by (simp add: shut_def depth_def capacity INT_MAX_def state_order)
  then have st: "ob = Observed (Sent 3)" using r q(2) by (metis fst_conv)
  have "is_open attached_world 2" by (simp add: is_open_def)
  then have "is_open w1 2 \<and> inbound attached_world 2 @ written_by_worklet (Worklet ?op) ob = inbound w1 2"
    by (intro worklet_inbound [OF attached_ok _ _ _ s(1)]) (simp_all add: releases_def)
  then show ?thesis
    using s st by (simp add: attached_inbound written_by_worklet_def del: ipc_step.simps)
qed

theorem ipc_stream_faithful_witness:
  "\<exists>obs w'. ipc_run [Worklet (Write Uv_port [1, 2, 3])] attached_world = Some (obs, w')
     \<and> inbound w' 2 = [1, 2, 3]"
proof -
  let ?op = "Worklet (Write Uv_port [1, 2, 3])"
  obtain w1 where s: "ipc_step ?op attached_world = Some (Observed (Sent 3), w1)"
    using attached_write by blast
  have "allowed attached_world ?op" by (simp add: allowed_def releases_def)
  then have "well_used [?op] attached_world" using s by (simp del: ipc_step.simps)
  moreover have "is_open attached_world 2" by (simp add: is_open_def)
  moreover have r: "ipc_run [?op] attached_world = Some ([Observed (Sent 3)], w1)"
    using s by (simp del: ipc_step.simps)
  ultimately have "inbound attached_world 2 @ concat (map2 written_by_worklet [?op] [Observed (Sent 3)])
      = concat (map2 (read_by_host 2) [?op] [Observed (Sent 3)]) @ inbound w1 2"
    by (intro ipc_stream_faithful [OF attached_ok]) (simp_all add: stream_op_def del: ipc_step.simps ipc_run.simps)
  then have "inbound w1 2 = [1, 2, 3]"
    by (simp add: attached_inbound written_by_worklet_def read_by_host_def)
  then show ?thesis using r by blast
qed

text \<open>
  C32: A host that keeps reading gets everything. With buffers of any positive sizes, as many
  reads as there are bytes return all of the stream in order, and the read after them
  returns 0, the end of the stream, exactly when the worklet has ended, and
  otherwise \<open>bare_ipc_would_block\<close>.
\<close>

theorem ipc_reads_everything:
  assumes "ipc_ok w" and "env_ok w" and "ipcs w ipc \<noteq> None" and "\<forall>n \<in> set ns. 0 < n"
    and "length (inbound w ipc) \<le> length ns" and "0 < m"
  shows "\<exists>rs w' r w2. read_all (bare_ipc_read ipc) ns w = Some ((rs, inbound w ipc), w')
    \<and> bare_ipc_read ipc m w' = Some ((r, []), w2) \<and> (r = 0 \<longleftrightarrow> inbound_over w ipc)"
  using ipc_stream.reads_everything [of w ipc ns m] assms by blast

theorem ipc_reads_everything_witness:
  "\<exists>(w1 :: ipc_world) rs w' r w2. inbound w1 2 = [1, 2, 3]
     \<and> read_all (bare_ipc_read 2) [2, 5, 1] w1 = Some ((rs, [1, 2, 3]), w')
     \<and> bare_ipc_read 2 8 (w' :: ipc_world) = Some ((r, []), w2)"
proof -
  obtain w1 :: ipc_world where w1: "ipc_ok w1" "env_ok w1" "is_open w1 2" "inbound w1 2 = [1, 2, 3]"
    using attached_write by blast
  have "\<exists>rs w' r w2. read_all (bare_ipc_read 2) [2, 5, 1] w1 = Some ((rs, inbound w1 2), w')
      \<and> bare_ipc_read 2 8 w' = Some ((r, []), w2) \<and> (r = 0 \<longleftrightarrow> inbound_over w1 2)"
    by (rule ipc_reads_everything [OF w1(1,2)]) (use w1(3,4) in \<open>auto simp: is_open_def\<close>)
  then show ?thesis using w1(4) by auto
qed

text \<open>
  C33: The result of a read is exact: never more bytes than asked for or than an \<open>int\<close> can
  count; at least one while there is any; with none, 0 at the end of the stream and
  \<open>bare_ipc_would_block\<close> before it. A read that leaves something to read behind, be it the
  end of the stream, wakes the poll again, so a poll may read once per wake.
\<close>

theorem ipc_read_exact:
  assumes "ipc_ok w" and "env_ok w" and "ipcs w ipc = Some i" and "0 < n"
    and "bare_ipc_read ipc n w = Some ((r, bytes), w')"
  shows "inbound w ipc = bytes @ inbound w' ipc \<and> length bytes \<le> min n INT_MAX
    \<and> (if inbound w ipc = []
       then bytes = [] \<and> r = (if inbound_over w ipc then 0 else bare_ipc_would_block)
       else bytes \<noteq> [] \<and> r = int (length bytes))
    \<and> (bytes \<noteq> [] \<and> (inbound w' ipc \<noteq> [] \<or> inbound_over w' ipc) \<longrightarrow>
         Async_send Wake_async \<in> set (drop (length (calls w)) (calls w')))"
proof -
  obtain r0 b0 w0 cs where s: "bare_ipc_read ipc n w = Some ((r0, b0), w0)"
      "inbound w ipc = b0 @ inbound w0 ipc" "length b0 \<le> min n INT_MAX"
      "if inbound w ipc = []
       then b0 = [] \<and> r0 = (if inbound_over w ipc then 0 else bare_ipc_would_block)
       else b0 \<noteq> [] \<and> r0 = int (length b0)"
      "calls w0 = calls w @ cs"
      "b0 \<noteq> [] \<and> (inbound w0 ipc \<noteq> [] \<or> inbound_over w0 ipc) \<longrightarrow> Async_send Wake_async \<in> set cs"
    using ipc_read_spec [OF assms(1-4)] by blast
  have e: "r0 = r" "b0 = bytes" "w0 = w'" using s(1) assms(5) by auto
  have d: "drop (length (calls w)) (calls w') = cs" using s(5) e(3) by simp
  show ?thesis unfolding d using s(2-4,6) unfolding e by blast
qed

theorem ipc_read_exact_witness:
  "\<exists>(w1 :: ipc_world) w' r bytes. bare_ipc_read 2 2 w1 = Some ((r, bytes), (w' :: ipc_world)) \<and> [1, 2, 3] = bytes @ inbound w' 2
     \<and> bytes \<noteq> [] \<and> length bytes \<le> 2"
proof -
  obtain w1 :: ipc_world where w1: "ipc_ok w1" "env_ok w1" "is_open w1 2" "inbound w1 2 = [1, 2, 3]"
    using attached_write by blast
  then obtain i where i: "ipcs w1 2 = Some i" by (auto simp: is_open_def)
  obtain r bytes w' where r: "bare_ipc_read 2 2 w1 = Some ((r, bytes), w')"
    using ipc_read_spec [OF w1(1,2) i zero_less_numeral, of "num.Bit0 num.One"] by blast
  have e: "inbound w1 2 = bytes @ inbound w' 2 \<and> length bytes \<le> min 2 INT_MAX
    \<and> (if inbound w1 2 = []
       then bytes = [] \<and> r = (if inbound_over w1 2 then 0 else bare_ipc_would_block)
       else bytes \<noteq> [] \<and> r = int (length bytes))
    \<and> (bytes \<noteq> [] \<and> (inbound w' 2 \<noteq> [] \<or> inbound_over w' 2) \<longrightarrow>
         Async_send Wake_async \<in> set (drop (length (calls w1)) (calls w')))"
    by (rule ipc_read_exact [OF w1(1,2) i _ r]) simp
  then have "[1, 2, 3] = bytes @ inbound w' 2" "bytes \<noteq> []" "length bytes \<le> 2"
    unfolding w1(4) by (simp_all only: list.distinct if_False min_def split: if_splits) simp_all
  then show ?thesis using r by blast
qed

end
