(* ===== verification/Ipc_Dispatch.thy ===== *)
theory Ipc_Dispatch
  imports Ipc_Results
begin

text \<open>
  Which events a poll is told of, and what writing, closing and creating an ipc return.
\<close>

section \<open>Readiness\<close>

definition ready_to_read :: "'z ipc_world_scheme \<Rightarrow> ptr \<Rightarrow> bool" where
  "ready_to_read w ipc \<longleftrightarrow> inbound w ipc \<noteq> [] \<or> inbound_over w ipc"

definition ready_to_write :: "'z ipc_world_scheme \<Rightarrow> ptr \<Rightarrow> bool" where
  "ready_to_write w ipc = (case ipcs w ipc of
     None \<Rightarrow> True
   | Some i \<Rightarrow> (case (ipc_port i, queue w) of
       (Some port, Some q) \<Rightarrow> can_write (abs_queue w q) port
     | _ \<Rightarrow> True))"

definition masked :: "int32 \<Rightarrow> bool \<Rightarrow> bool \<Rightarrow> int32" where
  "masked evs r s =
     (let evs = (if r then evs else evs AND NOT bare_ipc_readable)
      in if s then evs else evs AND NOT bare_ipc_writable)"

lemma masked_bits:
  "masked evs r s AND bare_ipc_readable \<noteq> 0 \<longleftrightarrow> evs AND bare_ipc_readable \<noteq> 0 \<and> r"
  "masked evs r s AND bare_ipc_writable \<noteq> 0 \<longleftrightarrow> evs AND bare_ipc_writable \<noteq> 0 \<and> s"
  "masked evs r s AND NOT (bare_ipc_readable OR bare_ipc_writable)
     = evs AND NOT (bare_ipc_readable OR bare_ipc_writable)"
proof -
  have b: "(x AND 1 \<noteq> (0 :: int32)) = bit x 0" "(x AND 2 \<noteq> (0 :: int32)) = bit x 1" for x
    using and_exp_eq_0_iff_not_bit [of x 0] and_exp_eq_0_iff_not_bit [of x 1] by simp_all
  show "masked evs r s AND bare_ipc_readable \<noteq> 0 \<longleftrightarrow> evs AND bare_ipc_readable \<noteq> 0 \<and> r"
    "masked evs r s AND bare_ipc_writable \<noteq> 0 \<longleftrightarrow> evs AND bare_ipc_writable \<noteq> 0 \<and> s"
    by (auto simp: masked_def Let_def bare_ipc_readable_def bare_ipc_writable_def b bit_simps)
  show "masked evs r s AND NOT (bare_ipc_readable OR bare_ipc_writable)
     = evs AND NOT (bare_ipc_readable OR bare_ipc_writable)"
    by (rule bit_word_eqI) (auto simp: masked_def Let_def bit_simps)
qed

lemma ready_locked [simp]:
  "ready_to_read (w\<lparr>calls := cs\<rparr>) ipc = ready_to_read w ipc"
  "ready_to_write (w\<lparr>calls := cs\<rparr>) ipc = ready_to_write w ipc"
proof -
  have "abs_queue (w\<lparr>calls := cs\<rparr>) = abs_queue w" for w :: "'a ipc_world_scheme"
    by (simp add: abs_queue_def fun_eq_iff)
  then show "ready_to_read (w\<lparr>calls := cs\<rparr>) ipc = ready_to_read w ipc"
    "ready_to_write (w\<lparr>calls := cs\<rparr>) ipc = ready_to_write w ipc"
    by (simp_all add: ready_to_read_def ready_to_write_def inbound_def inbound_over_def
        split: option.split)
qed

lemma mask_ready_spec:
  assumes ok: "ipc_ok w" and i: "ipcs w ipc = Some i"
  shows "\<exists>cs. mask_ready i evs w
    = Some (masked evs (ready_to_read w ipc) (ready_to_write w ipc), w\<lparr>calls := cs\<rparr>)"
proof (cases "ipc_port i")
  case None
  then have "ready_to_read w ipc" "ready_to_write w ipc"
    using i inbound_closed [OF i None] by (simp_all add: ready_to_read_def ready_to_write_def)
  then show ?thesis using None by (intro exI [of _ "calls w"]) (simp add: mask_ready_def masked_def)
next
  case (Some port)
  obtain q where q: "port = Thread_port" "queue w = Some q" "queue_ok w q"
    using open_ipc [OF ok i Some] by metis
  note w = ipc_okD(1) [OF ok]
  have rw: "ready_to_write w ipc = can_write (abs_queue w q) Thread_port"
    using i Some q by (simp add: ready_to_write_def)
  have wr: "bare_queue_writable Thread_port v = Some (ready_to_write w ipc, locked_only v)"
    if v: "v = w\<lparr>calls := cs\<rparr>" for v cs
  proof -
    have "world_ok v" "queue v = Some q" "abs_queue v q = abs_queue w q"
      using w q v by (simp_all add: abs_queue_def fun_eq_iff)
    then show ?thesis
      using writable_eq [of v q Thread_port] write_closed_shut [of q Thread_port w] rw
      by (simp add: can_write_def)
  qed
  have lo: "locked_only w = w\<lparr>calls := calls (locked_only w)\<rparr>" by (simp add: locked_only_def)
  show ?thesis
  proof (cases "base (pending i) = NULL")
    case True
    have "ready_to_read w ipc \<longleftrightarrow> waiting (abs_queue w q) Thread_port \<noteq> [] \<or> peer_ended q Thread_port"
      using inbound_open [OF i Some q(2)] waiting_nonempty [OF q(3), of Thread_port] True q(1)
      by (auto simp: ready_to_read_def pending_bytes_def)
    then have "bare_queue_readable Thread_port w = Some (ready_to_read w ipc, locked_only w)"
      using readable_eq [OF w q(2)] by simp
    then show ?thesis
      using Some q(1) True wr [OF lo] lo
      by (intro exI [of _ "calls (locked_only (locked_only w))"])
        (simp add: mask_ready_def masked_def Let_def locked_only_def)
  next
    case False
    have "pending_ok w i" using ipc_okD(4) [OF ok i] by (simp add: ipc_good_def)
    then have "pending_bytes w i \<noteq> []"
      using False live_payload [of w "pending i"] by (auto simp: pending_ok_def pending_bytes_def)
    then have "ready_to_read w ipc"
      using inbound_open(1) [OF i Some q(2)] by (simp add: ready_to_read_def)
    then show ?thesis
      using Some q(1) False wr [of w "calls w"]
      by (intro exI [of _ "calls (locked_only w)"])
        (simp add: mask_ready_def masked_def Let_def locked_only_def)
  qed
qed

lemma dispatch_eq:
  assumes ok: "ipc_ok w" and i: "ipcs w ipc = Some i" and p: "polls w (ipc_poll i) = Some poll"
    and cb: "ipc_poll i \<noteq> NULL" "poll_cb poll \<noteq> NULL"
  shows "\<exists>cs. bare_ipc__dispatch host ipc w =
    (let ready = masked (events poll) (ready_to_read w ipc) (ready_to_write w ipc);
         w' = w\<lparr>calls := cs @ [Mutex_unlock Ipc_lock]\<rparr>
     in if ready \<noteq> 0 then host (poll_cb poll) (ipc_poll i) ready w' else Some w')"
proof -
  let ?w = "emit (Mutex_lock Ipc_lock) w"
  have "?w = w\<lparr>calls := calls w @ [Mutex_lock Ipc_lock]\<rparr>" by (simp add: emit_def)
  then have r: "ready_to_read ?w ipc = ready_to_read w ipc" "ready_to_write ?w ipc = ready_to_write w ipc"
    by simp_all
  obtain cs where "mask_ready i (events poll) ?w
      = Some (masked (events poll) (ready_to_read w ipc) (ready_to_write w ipc), ?w\<lparr>calls := cs\<rparr>)"
    using mask_ready_spec [of ?w ipc i "events poll"] ok i unfolding r by auto
  then show ?thesis
    using i p cb by (intro exI [of _ cs]) (simp add: bare_ipc__dispatch_def emit_def Let_def)
qed

lemma write_ready:
  assumes ok: "ipc_ok w" and env: "env_ok w" and i: "ipcs w ipc = Some i" and d: "data \<noteq> []"
    and st: "bare_ipc_write ipc data w = Some (s, w')"
  shows "s \<noteq> bare_ipc_would_block \<longleftrightarrow> ready_to_write w ipc"
proof -
  obtain n w1 where n: "bare_ipc_write ipc data w = Some (ipc_status n, w1)"
      "case ipc_port i of
        None \<Rightarrow> n = bare_queue_closed \<and> abs_world w1 = abs_world w
      | Some port \<Rightarrow> (\<exists>q. queue w = Some q
          \<and> (Sent n, abs_world w1) = spec_step (Write Thread_port data) (abs_queue w q))"
    using ipc_write_spec [OF ok env i, of data] by blast
  have s: "s = ipc_status n" using st n(1) by simp
  have k: "ipc_status n = bare_ipc_would_block \<longleftrightarrow> n = bare_queue_would_block"
    by (auto simp: ipc_status_def queue_codes ipc_codes)
  show ?thesis
  proof (cases "ipc_port i")
    case None
    then show ?thesis using n(2) i s k by (simp add: ready_to_write_def queue_codes)
  next
    case (Some port)
    then obtain q where q: "port = Thread_port" "queue w = Some q" using open_ipc [OF ok i Some] by metis
    have r: "Sent n = fst (spec_step (Write Thread_port data) (abs_queue w q))"
      using n(2) Some q by (auto dest: arg_cong [of _ _ fst] simp del: spec_step.simps)
    have "0 < int (min (length data) INT_MAX)" using d by simp
    then have "n \<noteq> bare_queue_would_block \<longleftrightarrow> can_write (abs_queue w q) Thread_port"
      using r d by (auto simp: can_write_def queue_codes split: if_splits)
    then show ?thesis using s k i Some q by (simp add: ready_to_write_def)
  qed
qed

lemma read_ready:
  assumes ok: "ipc_ok w" and env: "env_ok w" and i: "ipcs w ipc = Some i" and n: "0 < n"
    and st: "bare_ipc_read ipc n w = Some ((r, bs), w')"
  shows "r \<noteq> bare_ipc_would_block \<longleftrightarrow> ready_to_read w ipc"
proof -
  have e: "if inbound w ipc = []
       then bs = [] \<and> r = (if inbound_over w ipc then 0 else bare_ipc_would_block)
       else bs \<noteq> [] \<and> r = int (length bs)"
    using ipc_read_spec [OF ok env i n] st by (metis option.inject prod.inject)
  then show ?thesis by (cases "inbound w ipc = []") (auto simp: ready_to_read_def ipc_codes)
qed

section \<open>The properties\<close>

text \<open>
  C26: A poll is told exactly what is ready. On each wake the host's callback is called,
  with the ipc unlocked, for those of the poll's events that are ready, and not at all when
  none is: readable when a \<open>bare_ipc_read\<close> at that moment would not return
  \<open>bare_ipc_would_block\<close>, writable when a \<open>bare_ipc_write\<close> of some bytes would not, which for a
  closed ipc is both.
\<close>

theorem dispatch_exact:
  assumes "ipc_ok w" and "env_ok w" and "ipcs w ipc = Some i" and "polls w (ipc_poll i) = Some poll"
    and "ipc_poll i \<noteq> NULL" and "poll_cb poll \<noteq> NULL"
    and "0 < n" and "bare_ipc_read ipc n w = Some ((r, bs), w1)"
    and "data \<noteq> []" and "bare_ipc_write ipc data w = Some (s, w2)"
  shows "\<exists>ready cs. bare_ipc__dispatch host ipc w =
      (if ready \<noteq> 0 then host (poll_cb poll) (ipc_poll i) ready (w\<lparr>calls := cs @ [Mutex_unlock Ipc_lock]\<rparr>)
       else Some (w\<lparr>calls := cs @ [Mutex_unlock Ipc_lock]\<rparr>))
    \<and> (ready AND bare_ipc_readable \<noteq> 0 \<longleftrightarrow>
        events poll AND bare_ipc_readable \<noteq> 0 \<and> r \<noteq> bare_ipc_would_block)
    \<and> (ready AND bare_ipc_writable \<noteq> 0 \<longleftrightarrow>
        events poll AND bare_ipc_writable \<noteq> 0 \<and> s \<noteq> bare_ipc_would_block)"
proof -
  let ?ready = "masked (events poll) (ready_to_read w ipc) (ready_to_write w ipc)"
  obtain cs where "bare_ipc__dispatch host ipc w =
      (let ready = ?ready; w' = w\<lparr>calls := cs @ [Mutex_unlock Ipc_lock]\<rparr>
       in if ready \<noteq> 0 then host (poll_cb poll) (ipc_poll i) ready w' else Some w')"
    using dispatch_eq [OF assms(1,3-6)] by blast
  then show ?thesis
    using read_ready [OF assms(1-3,7,8)] write_ready [OF assms(1-3,9,10)]
    by (intro exI [of _ ?ready] exI [of _ cs]) (simp add: masked_bits Let_def)
qed

theorem dispatch_exact_witness:
  "\<exists>ready cs. bare_ipc__dispatch (\<lambda>cb poll evs w. Some (w\<lparr>self := 7\<rparr>)) 2 attached_world
      = (if ready \<noteq> 0 then Some (attached_world\<lparr>calls := cs @ [Mutex_unlock Ipc_lock], self := 7\<rparr>)
         else Some (attached_world\<lparr>calls := cs @ [Mutex_unlock Ipc_lock]\<rparr>))
    \<and> ready AND bare_ipc_readable = 0 \<and> ready AND bare_ipc_writable \<noteq> 0"
proof -
  have i: "ipcs attached_world 2 = Some attached_ipc" by simp
  have p: "polls attached_world (ipc_poll attached_ipc) = Some attached_poll" "ipc_poll attached_ipc \<noteq> NULL"
      "poll_cb attached_poll \<noteq> NULL"
    by (simp_all add: attached_world_def attached_ipc_def attached_poll_def NULL_def)
  have pos: "0 < (1 :: nat)" and ne: "[5] \<noteq> ([] :: byte list)" by simp_all
  obtain r bs w1 where r: "bare_ipc_read 2 1 attached_world = Some ((r, bs), w1)"
    using ipc_read_spec [OF attached_ok i pos] by blast
  obtain s w2 where s: "bare_ipc_write 2 [5] attached_world = Some (s, w2)"
    using ipc_write_spec [OF attached_ok i] by blast
  have rr: "r = bare_ipc_would_block"
    using read_ready [OF attached_ok i pos r] attached_inbound by (auto simp: ready_to_read_def)
  have ss: "s \<noteq> bare_ipc_would_block"
    unfolding write_ready [OF attached_ok i ne s]
    using attached_waiting(1) [of attached_world Uv_port] by (simp add: ready_to_write_def can_write_def depth_def capacity)
  have ev: "events attached_poll AND bare_ipc_writable \<noteq> 0"
    by (simp add: attached_poll_def bare_ipc_readable_def bare_ipc_writable_def)
  show ?thesis
    using dispatch_exact [OF attached_ok i p pos r ne s, of "\<lambda>cb poll evs w. Some (w\<lparr>self := 7\<rparr>)"] rr ss ev
    by simp
qed

text \<open>
  The result of a write. A closed ipc fails; so does an open one that has ended, or
  whose worklet has closed, when there are bytes to write; a full queue blocks; otherwise the
  bytes, at most \<open>INT_MAX\<close> of them, are queued for the worklet as one message and counted.
\<close>

theorem ipc_write_exact:
  assumes "ipc_ok w" and "env_ok w" and "ipcs w ipc = Some i" and "bare_ipc_write ipc data w = Some (r, w')"
  shows "case (ipc_port i, queue w) of
      (Some port, Some q) \<Rightarrow>
        (let c = abs_queue w q
         in if data = [] then r = 0 \<and> abs_world w' = Some c
            else if shut c Thread_port then r = bare_ipc_error \<and> abs_world w' = Some c
            else if length (waiting c Uv_port) = depth
            then r = bare_ipc_would_block \<and> abs_world w' = Some c
            else r = int (min (length data) INT_MAX)
              \<and> waiting_for Uv_port (abs_world w') = waiting c Uv_port @ [take INT_MAX data])
    | _ \<Rightarrow> r = bare_ipc_error \<and> abs_world w' = abs_world w"
proof -
  obtain n where n: "r = ipc_status n"
      "case ipc_port i of
        None \<Rightarrow> n = bare_queue_closed \<and> abs_world w' = abs_world w
      | Some port \<Rightarrow> (\<exists>q. queue w = Some q
          \<and> (Sent n, abs_world w') = spec_step (Write Thread_port data) (abs_queue w q))"
    using ipc_write_spec [OF assms(1-3), of data] assms(4) by auto
  have st: "ipc_status bare_queue_closed = bare_ipc_error" "ipc_status 0 = 0"
      "ipc_status bare_queue_would_block = bare_ipc_would_block" "ipc_status (int m) = int m" for m
    by (simp_all add: ipc_status_def queue_codes ipc_codes)
  show ?thesis
  proof (cases "ipc_port i")
    case None
    then show ?thesis using n st by simp
  next
    case (Some port)
    then obtain q where q: "queue w = Some q"
        "(Sent n, abs_world w') = spec_step (Write Thread_port data) (abs_queue w q)"
      using n(2) by auto
    show ?thesis
      using q(2) n(1) st unfolding Some q(1)
      by (auto simp: Let_def waiting_for_def simp del: abs_waiting split: if_splits)
  qed
qed

theorem ipc_write_exact_witness:
  "\<exists>w'. bare_ipc_write 2 [5, 6] attached_world = Some (2, w') \<and> waiting_for Uv_port (abs_world w') = [[5, 6]]"
proof -
  have i: "ipcs attached_world 2 = Some attached_ipc" by simp
  obtain r w' where s: "bare_ipc_write 2 [5, 6] attached_world = Some (r, w')"
    using ipc_write_spec [OF attached_ok i] by blast
  have w: "waiting (abs_queue attached_world attached_queue) Uv_port = []" by (rule attached_waiting(1))
  have sh: "\<not> shut (abs_queue attached_world attached_queue) Thread_port"
    using attached_waiting(2,3) by (simp add: shut_def state_order)
  have "r = 2 \<and> waiting_for Uv_port (abs_world w') = [[5, 6]]"
    using ipc_write_exact [OF attached_ok i s] sh w
    by (simp add: Let_def INT_MAX_def depth_def capacity del: abs_waiting)
  then show ?thesis using s by simp
qed

text \<open>
  Closing is final, harmless to repeat, and gives up the host's share. After
  \<open>bare_ipc_close\<close> every read returns 0 with no bytes and every write \<open>bare_ipc_error\<close>;
  closing again changes nothing (but takes the lock); and the queue's host end is closed, so
  that the queue is freed if the worklet's share is gone.
\<close>

theorem ipc_close_final:
  assumes "ipc_ok w" and "env_ok w" and "ipcs w ipc = Some i" and "bare_ipc_close ipc w = Some w1"
    and "0 < n"
  shows "(\<exists>w2. bare_ipc_read ipc n w1 = Some ((0, []), w2))
    \<and> (\<exists>w2. bare_ipc_write ipc data w1 = Some (bare_ipc_error, w2))
    \<and> bare_ipc_close ipc w1 = Some (w1\<lparr>calls := calls w1 @ [Mutex_lock Ipc_lock, Mutex_unlock Ipc_lock]\<rparr>)
    \<and> (\<forall>q. queue w1 = Some q \<longrightarrow> \<not> bare_queue__listening (bare_queue__state q Thread_port) \<or> ipc_port i = None)"
proof -
  obtain w' where s: "bare_ipc_close ipc w = Some w'" "ipc_ok w'" "env_ok w'"
      "ipcs w' = (ipcs w)(ipc \<mapsto> closed_ipc i)"
      "case ipc_port i of
        None \<Rightarrow> abs_world w' = abs_world w
      | Some port \<Rightarrow> (\<exists>q. queue w = Some q
          \<and> abs_world w' = reclaim (raise_phase Thread_port bare_queue_state_closed (abs_queue w q)))"
    using ipc_close_spec [OF assms(1-3)] by blast
  have w1: "w' = w1" using s(1) assms(4) by simp
  have i1: "ipcs w1 ipc = Some (closed_ipc i)" using s(4) w1 by simp
  have none: "ipc_port (closed_ipc i) = None" by simp
  have ok: "ipc_ok w1" "env_ok w1" using s(2,3) w1 by auto
  obtain r bs w2 where rd: "bare_ipc_read ipc n w1 = Some ((r, bs), w2)"
      "if inbound w1 ipc = []
       then bs = [] \<and> r = (if inbound_over w1 ipc then 0 else bare_ipc_would_block)
       else bs \<noteq> [] \<and> r = int (length bs)"
    using ipc_read_spec [OF ok i1 assms(5)] by blast
  then have "\<exists>w2. bare_ipc_read ipc n w1 = Some ((0, []), w2)"
    using inbound_closed [OF i1 none] by simp
  moreover have "\<exists>w2. bare_ipc_write ipc data w1 = Some (bare_ipc_error, w2)"
    using i1 by (simp add: bare_ipc_write_def queue_codes)
  moreover have "bare_ipc_close ipc w1 = Some (w1\<lparr>calls := calls w1 @ [Mutex_lock Ipc_lock, Mutex_unlock Ipc_lock]\<rparr>)"
    using i1 by (simp add: bare_ipc_close_def emit_def)
  moreover have "\<not> bare_queue__listening (bare_queue__state q Thread_port) \<or> ipc_port i = None"
    if q: "queue w1 = Some q" for q
  proof (cases "ipc_port i")
    case (Some port)
    then obtain q0 where "abs_world w1 = reclaim (raise_phase Thread_port bare_queue_state_closed (abs_queue w q0))"
      using s(5) w1 by auto
    then have "abs_queue w1 q = raise_phase Thread_port bare_queue_state_closed (abs_queue w q0)"
      using q by (auto simp: abs_world_def reclaim_unheld split: if_splits)
    then have "phase (abs_queue w1 q) Thread_port
        = phase (raise_phase Thread_port bare_queue_state_closed (abs_queue w q0)) Thread_port"
      by (simp only:)
    then have "phase (abs_queue w1 q) Thread_port = bare_queue_state_closed"
      by (simp add: raise_phase_def)
    then show ?thesis by (simp add: bare_queue__listening_def)
  qed simp
  ultimately show ?thesis by blast
qed

theorem ipc_close_final_witness:
  "\<exists>(w1 :: ipc_world) w2 w3. bare_ipc_close 2 attached_world = Some w1 \<and> bare_ipc_read 2 8 w1 = Some ((0, []), w2)
     \<and> bare_ipc_write 2 [5] w1 = Some (bare_ipc_error, w3)"
proof -
  have i: "ipcs attached_world 2 = Some attached_ipc" by simp
  obtain w1 where c: "bare_ipc_close 2 attached_world = Some w1"
    using ipc_close_spec [OF attached_ok i] by blast
  have "0 < (8 :: nat)" by simp
  then show ?thesis using ipc_close_final [OF attached_ok i c, of 8 "[5]"] c by blast
qed

end
