(* ===== verification/Ipc_Create.thy ===== *)
theory Ipc_Create
  imports Ipc_Dispatch
begin

text \<open>
  Creating an ipc, destroying it, and when a poll is not woken again.
\<close>

section \<open>Creating\<close>

text \<open>
  C34: An ipc is created exactly when both of its allocations succeed and the host's end of
  the queue was never opened before; it then owns that end. In every other case the result
  is -1 and nothing is left behind: no ipc, no signal and its thread, no change of the queue
  or of a block.
\<close>

theorem ipc_create_exact:
  assumes "ipc_ok w" and "\<And>c. ret w c = 0" and "queue w = Some q" and "bare_ipc_create w = Some ((r, p), w')"
  shows "r \<in> {0, -1}
    \<and> (r = 0 \<longleftrightarrow> \<not> oom w (brk w) \<and> \<not> oom w (Suc (brk w)) \<and> thread_state q = bare_queue_state_idle)
    \<and> (if r = 0 then ipcs w p = None \<and> is_open w' p \<and> ipc_ok w'
       else p = NULL \<and> ipcs w' = ipcs w \<and> signals w' = signals w \<and> polls w' = polls w
         \<and> queue w' = queue w \<and> blocks w' = blocks w)"
proof -
  consider (memory) "oom w (brk w) \<or> oom w (Suc (brk w))"
    | (used) "\<not> oom w (brk w)" "\<not> oom w (Suc (brk w))" "thread_state q \<noteq> bare_queue_state_idle"
    | (free) "\<not> oom w (brk w)" "\<not> oom w (Suc (brk w))" "thread_state q = bare_queue_state_idle"
    by blast
  then show ?thesis
  proof cases
    case memory
    then show ?thesis
      using create_no_memory [OF assms(2) brk_pos [OF assms(1)]] assms(4) by auto
  next
    case used
    then show ?thesis using create_refused [OF assms(2,1) _ _ assms(3)] assms(4) by auto
  next
    case free
    obtain w0 where c: "bare_ipc_create w = Some ((0, brk w), w0)" "ipc_ok w0"
        "ipcs w0 = (ipcs w)(brk w \<mapsto> (new_ipc w)\<lparr>ipc_port := Some Thread_port\<rparr>)"
      using create_accepted [OF assms(2,1) free(1,2) assms(3) free(3)] by blast
    have "ipcs w (brk w) = None" using addresses_fresh(1) [OF ipc_okD(2) [OF assms(1)]] by simp
    then show ?thesis using c free assms(4) by (simp add: is_open_def)
  qed
qed

theorem ipc_create_exact_witness:
  "\<exists>p (w' :: ipc_world). bare_ipc_create attached_world = Some ((-1, p), w') \<and> p = NULL
     \<and> ipcs w' = ipcs attached_world \<and> queue w' = queue attached_world"
proof -
  have q: "queue attached_world = Some attached_queue" by simp
  have r0: "\<And>c. ret attached_world c = 0" by (simp add: attached_world_def)
  obtain r p w' where c: "bare_ipc_create attached_world = Some ((r, p), w')"
    using create_env_spec [OF attached_ok q] by blast
  have "thread_state attached_queue \<noteq> bare_queue_state_idle" by (simp add: attached_queue_def)
  then show ?thesis using ipc_create_exact [OF attached_ok(1) r0 q c] c by auto
qed

text \<open>
  An ipc can still be created on a worklet that has been terminated. Whatever the worklet
  has done to its own end, ended or closed it on exit, a host that has not opened its end
  before gets an ipc, which then reads the end of the stream. (The comment of
  \<open>bare_ipc_create\<close> says that it fails.)
\<close>

theorem ipc_create_after_termination:
  assumes "ipc_ok w" and "env_ok w" and "queue w = Some q" and "thread_state q = bare_queue_state_idle"
    and "uv_state q = bare_queue_state_closed" and "waiting (abs_queue w q) Thread_port = []" and "0 < n"
  shows "\<exists>p w' w2. bare_ipc_create w = Some ((0, p), w') \<and> bare_ipc_read p n w' = Some ((0, []), w2)"
proof -
  have r0: "\<And>c. ret w c = 0" and m: "\<not> oom w (brk w)" "\<not> oom w (Suc (brk w))"
    using assms(2) by (auto simp: env_ok_def)
  let ?i = "(new_ipc w)\<lparr>ipc_port := Some Thread_port\<rparr>"
  obtain w' where c: "bare_ipc_create w = Some ((0, brk w), w')" "ipc_ok w'" "ret w' = ret w"
      "oom w' = oom w" "ipcs w' = (ipcs w)(brk w \<mapsto> ?i)"
      "abs_world w' = snd (spec_step (Open_thread on_signal_ptr (brk w)) (abs_queue w q))"
    using create_accepted [OF r0 assms(1) m assms(3,4)] by blast
  have po: "ports_ok q" using ipc_okD(1) [OF assms(1)] assms(3) by (auto simp: world_ok_def intro: queue_ok_ports)
  have ph: "phase (abs_queue w q) Thread_port = bare_queue_state_idle"
      "phase (abs_queue w q) Uv_port = bare_queue_state_closed"
    using assms(4,5) po by (simp_all add: bare_queue__state_def is_uv_port_at)
  define c0 where "c0 = abs_queue w q"
  have a: "abs_world w' = Some (c0\<lparr>phase := (phase c0)(Thread_port := bare_queue_state_open)\<rparr>)"
    using c(6) ph unfolding c0_def [symmetric] by simp
  then obtain q' where q': "queue w' = Some q'"
      "abs_queue w' q' = c0\<lparr>phase := (phase c0)(Thread_port := bare_queue_state_open)\<rparr>"
    by (auto simp: abs_world_def)
  have i': "ipcs w' (brk w) = Some ?i" "ipc_port ?i = Some Thread_port" using c(5) by simp_all
  have "waiting (abs_queue w' q') Thread_port = []"
    unfolding q'(2) using assms(6) by (simp add: c0_def del: abs_waiting)
  then have inb: "inbound w' (brk w) = []"
    using inbound_open(1) [OF i' q'(1)] by (simp add: pending_bytes_def new_ipc_def del: abs_waiting)
  have "phase (abs_queue w' q') Uv_port = bare_queue_state_closed"
    unfolding q'(2) using ph(2) by (simp add: c0_def)
  then have over: "inbound_over w' (brk w)"
    using inbound_open(2) [OF i' q'(1)] by (simp add: peer_ended_def state_order)
  have env': "env_ok w'" using c(3,4) assms(2) by (simp add: env_ok_def)
  obtain r bs w2 where rd: "bare_ipc_read (brk w) n w' = Some ((r, bs), w2)"
      "if inbound w' (brk w) = []
       then bs = [] \<and> r = (if inbound_over w' (brk w) then 0 else bare_ipc_would_block)
       else bs \<noteq> [] \<and> r = int (length bs)"
    using ipc_read_spec [OF c(2) env' i'(1) assms(7)] by blast
  then show ?thesis using c(1) inb over by simp
qed

definition terminated_world :: ipc_world where
  "terminated_world = \<lparr>blocks = Map.empty, brk = 1, oom = (\<lambda>_. False), junk = (\<lambda>_ _. 0), calls = [],
     ret = (\<lambda>_. 0),
     queue = Some ((initial_queue no_garbage no_garbage)\<lparr>uv_state := bare_queue_state_closed\<rparr>),
     ipcs = Map.empty, polls = Map.empty, signals = Map.empty, self = NULL\<rparr>"

lemma terminated_ok: "ipc_ok terminated_world" "env_ok terminated_world"
  by (simp_all add: terminated_world_def ipc_ok_def world_ok_def heap_ok_def addresses_ok_def NULL_def
      initial_queue_ok served_def bare_queue__listening_def env_ok_def)
    (simp add: initial_queue_def)

theorem ipc_create_after_termination_witness:
  "\<exists>p (w' :: ipc_world) w2. bare_ipc_create terminated_world = Some ((0, p), w')
     \<and> bare_ipc_read p 4 w' = Some ((0, []), w2)"
proof -
  let ?q = "(initial_queue no_garbage no_garbage)\<lparr>uv_state := bare_queue_state_closed\<rparr>"
  have q: "queue terminated_world = Some ?q" by (simp add: terminated_world_def)
  have t: "thread_state ?q = bare_queue_state_idle" "uv_state ?q = bare_queue_state_closed"
    by (simp_all add: initial_queue_def)
  have "bare_queue__inbox ?q Thread_port = bare_queue__inbox (initial_queue no_garbage no_garbage) Thread_port"
    by (simp add: bare_queue__inbox_def port_at_def)
  then have w: "waiting (abs_queue terminated_world ?q) Thread_port = []" by (simp add: fresh_inbox)
  show ?thesis by (rule ipc_create_after_termination [OF terminated_ok q t w]) simp
qed

section \<open>A poll that is not woken\<close>

text \<open>
  A write never wakes the poll. Whatever it returns, and however much room the queue
  still has, \<open>bare_ipc_write\<close> sends no wake to the thread of the polls: so after the wake of
  \<open>bare_ipc_poll_start\<close> a poll for writability is not called again merely because the ipc is
  still writable. (The comment of \<open>bare_ipc_poll_start\<close> says that the callback is called again
  for as long as the events remain ready.)
\<close>

theorem ipc_write_no_wake:
  assumes "ipc_ok w" and "env_ok w" and "ipcs w ipc = Some i" and "bare_ipc_write ipc data w = Some (r, w')"
  shows "Async_send Wake_async \<notin> set (drop (length (calls w)) (calls w'))"
proof (cases "ipc_port i")
  case None
  then show ?thesis using assms(3,4) by (auto simp: bare_ipc_write_def)
next
  case (Some port)
  obtain q where q: "port = Thread_port" "queue w = Some q" using open_ipc [OF assms(1,3) Some] by metis
  let ?w = "emit (Mutex_lock Ipc_lock) w"
  have ok1: "world_ok ?w" "queue ?w = Some q" using ipc_okD(1) [OF assms(1)] q by auto
  obtain n w1 where s: "bare_queue_write Thread_port data ?w = Some (n, w1)"
      "w' = emit (Mutex_unlock Ipc_lock) w1"
    using assms(3,4) Some q(1) by (auto simp: bare_ipc_write_def bind_eq_Some_conv)
  have mem: "\<not> oom ?w (brk ?w)" using assms(2) by (simp add: env_ok_def)
  have "ports_ok q" using ok1 by (auto simp: world_ok_def intro: queue_ok_ports)
  then have "set (peer_signal q Thread_port) \<subseteq> {Async_send Queue_async}"
    by (simp add: peer_signal_def is_uv_port_at)
  then have "\<exists>cs. calls w1 = calls ?w @ cs \<and> Async_send Wake_async \<notin> set cs"
    using s(1) write_eq [OF ok1 _ mem, of data Thread_port] write_empty [OF ok1(2)]
    by (cases "data = []") (auto simp: refused_def written_def Let_def split: if_splits)
  then show ?thesis using s(2) by auto
qed

theorem ipc_write_no_wake_witness:
  "\<exists>w'. bare_ipc_write 2 [5] attached_world = Some (1, w') \<and> ready_to_write w' 2
     \<and> Async_send Wake_async \<notin> set (drop (length (calls attached_world)) (calls w'))"
proof -
  have i: "ipcs attached_world 2 = Some attached_ipc" by simp
  have w: "waiting (abs_queue attached_world attached_queue) Uv_port = []" by (rule attached_waiting(1))
  have sh: "\<not> shut (abs_queue attached_world attached_queue) Thread_port"
    using attached_waiting(2,3) by (simp add: shut_def state_order)
  obtain n w' where s: "bare_ipc_write 2 [5] attached_world = Some (ipc_status n, w')"
      "ipcs w' = ipcs attached_world"
      "(Sent n, abs_world w') = spec_step (Write Thread_port [5]) (abs_queue attached_world attached_queue)"
    using ipc_write_spec [OF attached_ok i, of "[5]"] by auto
  then have n: "n = 1" "waiting_for Uv_port (abs_world w') = [[5]]"
    using sh w by (auto simp: waiting_for_def depth_def capacity INT_MAX_def simp del: abs_waiting)
  have "ready_to_write w' 2"
    using s(2) n(2) by (auto simp: ready_to_write_def can_write_def waiting_for_def abs_world_def
        depth_def capacity split: option.splits simp del: abs_waiting)
  moreover have "ipc_status 1 = 1" by (simp add: ipc_status_def queue_codes)
  ultimately show ?thesis
    using ipc_write_no_wake [OF attached_ok i s(1)] s(1) n(1) by simp
qed

end
