(* ===== verification/Ipc_Thread.thy ===== *)
theory Ipc_Thread
  imports Ipc_Create
begin

text \<open>
  The thread of a signal (\<open>src/standalone/ipc.c\<close>): it dispatches on each wake, and a poll's
  callback may do anything there, such as destroy its own ipc.

  \<open>poll_host\<close> is what the thread relies on of the host's callback.
\<close>

section \<open>The thread\<close>

definition bare_ipc__on_wake ::
  "(ptr \<Rightarrow> ptr \<Rightarrow> int32 \<Rightarrow> 'z ipc_world_scheme \<Rightarrow> 'z ipc_world_scheme option)
     \<Rightarrow> ptr \<Rightarrow> 'z ipc_world_scheme \<Rightarrow> 'z ipc_world_scheme option" where
  "bare_ipc__on_wake host signal w = do {
     s \<leftarrow> signals w signal;
     let w = emit (Mutex_lock Running_mutex) w;
     w \<leftarrow> (if signal_ipc s \<noteq> NULL then bare_ipc__dispatch host (signal_ipc s) w else Some w);
     _ \<leftarrow> signals w signal;
     Some (emit (Mutex_unlock Running_mutex) w)
   }"

definition bare_ipc__on_close :: "ptr \<Rightarrow> 'z ipc_world_scheme \<Rightarrow> 'z ipc_world_scheme option" where
  "bare_ipc__on_close signal w = do {
     _ \<leftarrow> signals w signal;
     Some (emit (Async_close Close_async) (emit (Async_close Wake_async) w))
   }"

text \<open>
  What \<open>uv_run\<close> calls: wakes, until the close handle fires, after which both handles are closed
  and it returns. \<open>False\<close>: it has not returned yet.
\<close>

datatype loop_event = On_wake | On_close

fun signal_loop ::
  "(ptr \<Rightarrow> ptr \<Rightarrow> int32 \<Rightarrow> 'z ipc_world_scheme \<Rightarrow> 'z ipc_world_scheme option)
     \<Rightarrow> ptr \<Rightarrow> loop_event list \<Rightarrow> 'z ipc_world_scheme \<Rightarrow> (bool \<times> 'z ipc_world_scheme) option" where
  "signal_loop host signal [] w = Some (False, w)"
| "signal_loop host signal (On_wake # es) w = do {
     w \<leftarrow> bare_ipc__on_wake host signal w;
     signal_loop host signal es w
   }"
| "signal_loop host signal (On_close # es) w = do {
     w \<leftarrow> bare_ipc__on_close signal w;
     Some (True, w)
   }"

text \<open>The rest of the thread, once its loop has returned.\<close>

definition signal_thread_end :: "ptr \<Rightarrow> 'z ipc_world_scheme \<Rightarrow> 'z ipc_world_scheme option" where
  "signal_thread_end signal w = do {
     w \<leftarrow> emit_ok Loop_run w;
     w \<leftarrow> emit_ok Loop_close w;
     s \<leftarrow> signals w signal;
     let w = (if detached s
              then (emit (Mutex_destroy Running_mutex) w)\<lparr>signals := (signals w)(signal := None)\<rparr>
              else w);
     Some (emit Thread_exit w)
   }"

definition bare_ipc__signal_thread ::
  "(ptr \<Rightarrow> ptr \<Rightarrow> int32 \<Rightarrow> 'z ipc_world_scheme \<Rightarrow> 'z ipc_world_scheme option)
     \<Rightarrow> loop_event list \<Rightarrow> ptr \<Rightarrow> 'z ipc_world_scheme \<Rightarrow> (bool \<times> 'z ipc_world_scheme) option" where
  "bare_ipc__signal_thread host es signal w = do {
     let w = emit Thread_enter w;
     (returned, w) \<leftarrow> signal_loop host signal es w;
     if returned then do { w \<leftarrow> signal_thread_end signal w; Some (True, w) }
     else Some (False, w)
   }"

section \<open>The host's callback\<close>

text \<open>On the thread of a signal: the invariant holds and the signal is there.\<close>

definition on_thread :: "'z ipc_world_scheme \<Rightarrow> bool" where
  "on_thread w \<longleftrightarrow> ipc_ok w \<and> env_ok w \<and> signals w (self w) \<noteq> None"

locale poll_host =
  fixes host :: "ptr \<Rightarrow> ptr \<Rightarrow> int32 \<Rightarrow> 'z ipc_world_scheme \<Rightarrow> 'z ipc_world_scheme option"
  assumes callback: "on_thread w \<Longrightarrow> \<exists>w'. host cb poll ready w = Some w' \<and> on_thread w' \<and> self w' = self w"
begin

lemma dispatch_safe:
  assumes t: "on_thread w" and i: "ipcs w ipc \<noteq> None"
  shows "\<exists>w'. bare_ipc__dispatch host ipc w = Some w' \<and> on_thread w' \<and> self w' = self w"
proof -
  obtain i where i: "ipcs w ipc = Some i" using i by blast
  have ok: "ipc_ok w" using t by (simp add: on_thread_def)
  show ?thesis
  proof (cases "ipc_poll i = NULL")
    case True
    then show ?thesis using i t by (simp add: bare_ipc__dispatch_def)
  next
    case False
    then obtain p where p: "polls w (ipc_poll i) = Some p"
      using ipc_okD(4) [OF ok i] by (auto simp: ipc_good_def poll_ok_def)
    show ?thesis
    proof (cases "poll_cb p = NULL")
      case True
      then show ?thesis using i p t False by (simp add: bare_ipc__dispatch_def)
    next
      case cb: False
      obtain cs where d: "bare_ipc__dispatch host ipc w =
          (let ready = masked (events p) (ready_to_read w ipc) (ready_to_write w ipc);
               w' = w\<lparr>calls := cs @ [Mutex_unlock Ipc_lock]\<rparr>
           in if ready \<noteq> 0 then host (poll_cb p) (ipc_poll i) ready w' else Some w')"
        using dispatch_eq [OF ok i p False cb] by blast
      let ?w' = "w\<lparr>calls := cs @ [Mutex_unlock Ipc_lock]\<rparr>"
      have t': "on_thread ?w'" "self ?w' = self w" using t by (simp_all add: on_thread_def)
      show ?thesis using d callback [OF t'(1)] t' by (simp add: Let_def)
    qed
  qed
qed

lemma wake_safe:
  assumes t: "on_thread w" and s: "signals w (self w) = Some s"
    and a: "signal_ipc s = NULL \<or> ipcs w (signal_ipc s) \<noteq> None"
  shows "\<exists>w'. bare_ipc__on_wake host (self w) w = Some w' \<and> on_thread w' \<and> self w' = self w"
proof -
  let ?w = "emit (Mutex_lock Running_mutex) w"
  have t': "on_thread ?w" using t by (simp add: on_thread_def)
  show ?thesis
  proof (cases "signal_ipc s = NULL")
    case True
    then show ?thesis using s t by (simp add: bare_ipc__on_wake_def on_thread_def)
  next
    case False
    then obtain w1 where d: "bare_ipc__dispatch host (signal_ipc s) ?w = Some w1" "on_thread w1"
        "self w1 = self w"
      using dispatch_safe [OF t'] a by auto
    then obtain s1 where "signals w1 (self w) = Some s1" by (auto simp: on_thread_def)
    then show ?thesis
      using d s False by (simp add: bare_ipc__on_wake_def on_thread_def)
  qed
qed

end

section \<open>Hosts that follow the interface\<close>

text \<open>
  A callback that makes any operations it likes, chosen by what it is called with, as long as
  the interface allows them.
\<close>

definition host_program ::
  "(ptr \<Rightarrow> ptr \<Rightarrow> int32 \<Rightarrow> ipc_op list) \<Rightarrow> ptr \<Rightarrow> ptr \<Rightarrow> int32 \<Rightarrow> 'z ipc_world_scheme
     \<Rightarrow> 'z ipc_world_scheme option" where
  "host_program prog cb poll ready w =
     (if well_used (prog cb poll ready) w then map_option snd (ipc_run (prog cb poll ready) w)
      else Some w)"

lemma step_on_thread:
  assumes t: "on_thread w" and al: "allowed w op" and st: "ipc_step op w = Some (ob, w')"
  shows "on_thread w' \<and> self w' = self w"
proof -
  have ok: "ipc_ok w" and env: "env_ok w" using t by (auto simp: on_thread_def)
  have ok': "ipc_ok w' \<and> env_ok w'" using ipc_step_total [OF ok env al] st by auto
  have poll: "self w' = self w \<and> signals w' (self w) \<noteq> None" if "of_poll op"
    using poll_op_kept [OF env that st] t by (simp add: stream_kept_def on_thread_def)
  have "self w' = self w \<and> signals w' (self w) \<noteq> None"
  proof (cases op)
    case Ipc_create
    then obtain q where q: "queue w = Some q" using al by (auto simp: allowed_def)
    have r: "\<And>c. ret w c = 0" and m: "\<not> oom w (brk w)" "\<not> oom w (Suc (brk w))"
      using env by (auto simp: env_ok_def)
    show ?thesis
    proof (cases "thread_state q = bare_queue_state_idle")
      case True
      then show ?thesis
        using create_accepted [OF r ok m q True] st Ipc_create t by (auto simp: on_thread_def)
    next
      case False
      then show ?thesis
        using create_refused [OF r ok m q False] st Ipc_create t by (auto simp: on_thread_def)
    qed
  next
    case (Ipc_close ipc)
    then obtain i where i: "ipcs w ipc = Some i" using al by (auto simp: allowed_def)
    obtain v where "bare_ipc_close ipc w = Some v" "signals v = signals w" "self v = self w"
      using ipc_close_spec [OF ok env i] by blast
    then show ?thesis using st Ipc_close t by (auto simp: on_thread_def)
  next
    case (Ipc_end ipc)
    then obtain i where i: "ipcs w ipc = Some i" using al by (auto simp: allowed_def)
    obtain v where "bare_ipc_end ipc w = Some v" "polls_kept w v"
      using ipc_end_spec [OF ok env i] by blast
    then show ?thesis using st Ipc_end t by (auto simp: on_thread_def polls_kept_def)
  next
    case (Ipc_destroy ipc)
    then obtain i where i: "ipcs w ipc = Some i" using al by (auto simp: allowed_def)
    obtain v where v: "bare_ipc_destroy ipc w = Some v" "self v = self w"
        "signals v (ipc_signal i) = (if self w = ipc_signal i
          then Some \<lparr>signal_ipc = NULL, detached = True\<rparr> else None)"
        "\<forall>p. p \<noteq> ipc_signal i \<longrightarrow> signals v p = signals w p"
      using ipc_destroy_spec [OF ok env i] by blast
    then show ?thesis
      using st Ipc_destroy t by (cases "self w = ipc_signal i") (auto simp: on_thread_def)
  next
    case (Ipc_read ipc n)
    then obtain i where i: "ipcs w ipc = Some i" "0 < n" using al by (auto simp: allowed_def)
    obtain r bs v where "bare_ipc_read ipc n w = Some ((r, bs), v)" "polls_kept w v"
      using ipc_read_spec [OF ok env i] by blast
    then show ?thesis using st Ipc_read t by (auto simp: on_thread_def polls_kept_def)
  next
    case (Ipc_write ipc data)
    then obtain i where i: "ipcs w ipc = Some i" using al by (auto simp: allowed_def)
    obtain r v where "bare_ipc_write ipc data w = Some (r, v)" "polls_kept w v"
      using ipc_write_spec [OF ok env i] by blast
    then show ?thesis using st Ipc_write t by (auto simp: on_thread_def polls_kept_def)
  next
    case (Worklet qop)
    then obtain q sob where q: "queue w = Some q" "queue_step qop w = Some (sob, w')"
      using al st by (auto simp: allowed_def)
    show ?thesis
      using step_same_host [OF ipc_okD(1) [OF ok] q] t by (simp add: same_host_def on_thread_def)
  qed (use poll in \<open>simp_all add: of_poll_def\<close>)
  then show ?thesis using ok' by (simp add: on_thread_def)
qed

lemma run_on_thread:
  "on_thread w \<Longrightarrow> well_used ops w \<Longrightarrow> \<exists>obs w'. ipc_run ops w = Some (obs, w') \<and> on_thread w' \<and> self w' = self w"
proof (induction ops arbitrary: w)
  case Nil
  then show ?case by simp
next
  case (Cons op ops)
  have ok: "ipc_ok w" "env_ok w" using Cons.prems(1) by (auto simp: on_thread_def)
  have al: "allowed w op" using Cons.prems(2) by simp
  obtain ob w1 where s: "ipc_step op w = Some (ob, w1)"
    using ipc_step_total [OF ok al] by blast
  have t: "on_thread w1" "self w1 = self w"
    using step_on_thread [OF Cons.prems(1) _ s] Cons.prems(2) by auto
  then obtain obs w' where "ipc_run ops w1 = Some (obs, w')" "on_thread w'" "self w' = self w1"
    using Cons.IH [OF t(1)] Cons.prems(2) s by auto
  then show ?case using s t(2) by (simp del: ipc_step.simps)
qed

interpretation host_program: poll_host "host_program prog" for prog
proof unfold_locales
  fix w :: "'a ipc_world_scheme" and cb poll ready
  assume "on_thread w"
  then show "\<exists>w'. host_program prog cb poll ready w = Some w' \<and> on_thread w' \<and> self w' = self w"
    using run_on_thread [of w "prog cb poll ready"] by (auto simp: host_program_def)
qed

section \<open>The properties\<close>

text \<open>
  C31: A wake survives whatever its callback does. On the thread of a signal whose ipc is
  there or has been destroyed, a wake returns for any callback that follows the interface,
  even one that destroys its poll and its ipc while it runs: the dispatch uses
  nothing after it has called back, and the signal, whose mutex is released last, is still
  there.
\<close>

theorem wake_survives_callback:
  assumes "ipc_ok w" and "env_ok w" and "signals w (self w) = Some s"
    and "signal_ipc s = NULL \<or> ipcs w (signal_ipc s) \<noteq> None"
  shows "\<exists>w'. bare_ipc__on_wake (host_program prog) (self w) w = Some w'
    \<and> ipc_ok w' \<and> env_ok w' \<and> signals w' (self w) \<noteq> None"
proof -
  have "on_thread w" using assms by (simp add: on_thread_def)
  then obtain w' where "bare_ipc__on_wake (host_program prog) (self w) w = Some w'" "on_thread w'"
      "self w' = self w"
    using host_program.wake_safe [OF _ assms(3,4)] by blast
  then show ?thesis by (auto simp: on_thread_def)
qed

theorem wake_survives_callback_witness:
  "\<exists>w' :: ipc_world. bare_ipc__on_wake (host_program (\<lambda>cb poll ready. [Poll_destroy poll, Ipc_destroy 2])) 3
       (attached_world\<lparr>self := 3\<rparr>) = Some w' \<and> signals w' 3 \<noteq> None"
proof -
  let ?w = "attached_world\<lparr>self := 3\<rparr>" and ?s = "\<lparr>signal_ipc = 2, detached = False\<rparr>"
  have ok: "ipc_ok ?w" by (rule ipc_ok_self [OF attached_ok(1)]) (simp add: attached_world_def)
  have s: "signals ?w (self ?w) = Some ?s" by (simp add: attached_world_def)
  have "env_ok ?w" using attached_ok(2) by simp
  then have "\<exists>w'. bare_ipc__on_wake (host_program (\<lambda>cb poll ready. [Poll_destroy poll, Ipc_destroy 2]))
      (self ?w) ?w = Some w' \<and> ipc_ok w' \<and> env_ok w' \<and> signals w' (self ?w) \<noteq> None"
    by (rule wake_survives_callback [OF ok _ s]) simp
  then show ?thesis by auto
qed

text \<open>
  The signal is freed exactly once, by the right thread. \<open>bare_ipc_destroy\<close> frees the
  ipc in either case; called on any other thread it waits for the signal's thread and frees the
  signal itself; called on the signal's own thread, from a callback, it leaves it detached, and
  the thread frees it when its loop has returned.
\<close>

theorem signal_freed_once:
  assumes "ipc_ok w" and "env_ok w" and "ipcs w ipc = Some i" and "bare_ipc_destroy ipc w = Some w1"
  shows "ipcs w1 ipc = None \<and> (if self w = ipc_signal i
    then signals w1 (ipc_signal i) = Some \<lparr>signal_ipc = NULL, detached = True\<rparr>
      \<and> (\<exists>w2. signal_thread_end (ipc_signal i) w1 = Some w2 \<and> signals w2 = (signals w1)(ipc_signal i := None))
    else signals w1 (ipc_signal i) = None \<and> bare_ipc__on_wake host (ipc_signal i) w1 = None)"
proof -
  obtain v where v: "bare_ipc_destroy ipc w = Some v" "env_ok v" "ipcs v = (ipcs w)(ipc := None)"
      "signals v (ipc_signal i) = (if self w = ipc_signal i
        then Some \<lparr>signal_ipc = NULL, detached = True\<rparr> else None)"
    using ipc_destroy_spec [OF assms(1-3)] by blast
  have "v = w1" using v(1) assms(4) by simp
  then show ?thesis
    using v by (auto simp: signal_thread_end_def emit_ok_env bare_ipc__on_wake_def)
qed

theorem signal_freed_once_witness:
  "\<exists>w1 :: ipc_world. bare_ipc_destroy 2 attached_world = Some w1 \<and> ipcs w1 2 = None \<and> signals w1 3 = None"
proof -
  have i: "ipcs attached_world 2 = Some attached_ipc" by simp
  obtain w1 where d: "bare_ipc_destroy 2 attached_world = Some w1"
    using ipc_destroy_spec [OF attached_ok i] by blast
  have s: "self attached_world \<noteq> ipc_signal attached_ipc" "ipc_signal attached_ipc = 3"
    by (simp_all add: attached_world_def attached_ipc_def NULL_def)
  show ?thesis using signal_freed_once [OF attached_ok i d] d s by auto
qed

end
