(* ===== verification/Ipc_Frame.thy ===== *)
theory Ipc_Frame
  imports Ipc_Thread
begin

text \<open>
  What the queue and the ipc leave alone. No operation of theirs touches the rest of the
  world, and no operation of the host touches the worklet's end of the queue: a theory that
  adds to the world and says what it holds of that end gets its invariants past every step of
  the host from here.
\<close>

section \<open>The rest of the world\<close>

text \<open>For the operations of the queue, all that follows the queue in the record.\<close>

lemma emit_rest [simp]: "qworld.more (emit c w) = qworld.more w" "ipc_world.more (emit c v) = ipc_world.more v"
  by (simp_all add: emit_def)

lemma rest_of_ipc: "qworld.more w' = qworld.more w \<Longrightarrow> ipc_world.more w' = ipc_world.more w"
  by (cases w; cases w') simp

lemma outcome_rest [simp]:
  "qworld.more (written p d q w) = qworld.more w" "qworld.more (refused w) = qworld.more w"
  "qworld.more (taken p q w) = qworld.more w" "qworld.more (locked_only w) = qworld.more w"
  "qworld.more (advanced_world p s q w) = qworld.more w" "qworld.more (destroying q w) = qworld.more w"
  "qworld.more (freed w) = qworld.more w"
  by (simp_all add: written_def Let_def refused_def taken_def locked_only_def advanced_world_def
      destroying_def freed_def)

section \<open>The worklet's end\<close>

definition uv_view :: "bare_queue_t \<Rightarrow> bare_queue_state_t \<times> bool \<times> bare_queue_port_t \<times> ptr" where
  "uv_view q = (uv_state q, destroyed q, uv_port q, on_recv_uv q)"

text \<open>
  The worklet's end is as it was, or the queue was freed, which takes the worklet to have
  destroyed its share.
\<close>

definition uv_kept :: "'z qworld_scheme \<Rightarrow> 'z qworld_scheme \<Rightarrow> bool" where
  "uv_kept w w' \<longleftrightarrow> map_option uv_view (queue w') = map_option uv_view (queue w)
     \<or> queue w' = None \<and> (\<exists>q. queue w = Some q \<and> destroyed q)"

definition apart :: "'z qworld_scheme \<Rightarrow> 'z qworld_scheme \<Rightarrow> bool" where
  "apart w w' \<longleftrightarrow> qworld.more w' = qworld.more w \<and> uv_kept w w'"

lemma uv_view_store [simp]:
  "uv_view (store_inbox q p r) = uv_view q" "uv_view (store_outbox q p r) = uv_view q"
  by (simp_all add: uv_view_def store_inbox_def store_outbox_def)

lemma uv_view_advanced: "ports_ok q \<Longrightarrow> uv_view (advanced Thread_port s q) = uv_view q"
  by (simp add: uv_view_def advanced_def store_state_def is_uv_port_at)

lemma advance_kept:
  assumes ok: "world_ok w" and q: "queue w = Some q" and st: "bare_queue__advance Thread_port s w = Some w'"
  shows "apart w w'"
proof -
  have po: "ports_ok q" using ok q by (auto simp: world_ok_def intro: queue_ok_ports)
  have "destroyed (advanced Thread_port s q) = destroyed q" by (simp add: advanced_def)
  then show ?thesis
    using st q uv_view_advanced [OF po, of s]
    by (auto simp: advance_eq [OF ok q] apart_def uv_kept_def advanced_world_def freed_def
        bare_queue__unowned_def split: if_splits)
qed

text \<open>Every operation of a queue leaves the rest; one of the host leaves the worklet's end.\<close>

lemma step_rest:
  assumes ok: "world_ok w" and q: "queue w = Some q" and st: "queue_step op w = Some (ob, w')"
  shows "qworld.more w' = qworld.more w"
proof (cases op)
  case (Open_uv cb d)
  then have "ret w (Async_init Queue_async) = 0"
    using st q by (auto simp: bare_queue_open_uv_def emit_ok_def split: if_splits)
  then show ?thesis using st Open_uv q by (auto simp: open_uv_eq)
next
  case (Open_thread cb d)
  then show ?thesis using st q by (auto simp: open_thread_eq split: if_splits)
next
  case (Write p data)
  then show ?thesis
    using st q write_oom [OF ok q] write_eq [OF ok q, of data p] write_empty [OF q]
    by (cases "data = []"; cases "oom w (brk w)") (auto split: if_splits)
next
  case (Read p)
  then show ?thesis
    using st q by (auto simp: read_eq [OF ok q] observe_read_def split: list.splits if_splits)
next
  case (End p)
  then show ?thesis
    using st by (auto simp: bare_queue_end_def advance_eq [OF ok q] split: if_splits)
next
  case (Close p)
  then show ?thesis
    using st by (auto simp: bare_queue_close_def advance_eq [OF ok q] split: if_splits)
next
  case Destroy
  then show ?thesis using st by (auto simp: destroy_eq [OF ok q] split: if_splits)
next
  case (Release p)
  then show ?thesis using st by (auto simp: free_block_def split: if_splits)
qed (use st q in \<open>auto simp: readable_eq [OF ok q] writable_eq [OF ok q]
      bare_queue_shutdown_uv_def bare_queue__on_wakeup_uv_def split: if_splits\<close>)

lemma step_apart:
  assumes ok: "world_ok w" and q: "queue w = Some q" and st: "queue_step op w = Some (ob, w')"
    and host: "actor op = Thread_port"
  shows "apart w w'"
proof -
  have "uv_kept w w'"
  proof (cases op)
    case (Open_thread cb d)
    then show ?thesis
      using st q by (auto simp: open_thread_eq uv_kept_def uv_view_def split: if_splits)
  next
    case (Write p data)
    then show ?thesis
      using st q write_oom [OF ok q] write_eq [OF ok q, of data p] write_empty [OF q]
      by (cases "data = []"; cases "oom w (brk w)")
        (auto simp: uv_kept_def written_def refused_def Let_def split: if_splits)
  next
    case (Read p)
    then show ?thesis
      using st q by (auto simp: read_eq [OF ok q] observe_read_def uv_kept_def taken_def
          locked_only_def Let_def split: list.splits if_splits)
  next
    case (End p)
    then show ?thesis
      using st host advance_kept [OF ok q] by (auto simp: bare_queue_end_def apart_def)
  next
    case (Close p)
    then show ?thesis
      using st host advance_kept [OF ok q] by (auto simp: bare_queue_close_def apart_def)
  qed (use st q host in \<open>auto simp: readable_eq [OF ok q] writable_eq [OF ok q] uv_kept_def locked_only_def
      split: if_splits\<close>)
  then show ?thesis using step_rest [OF ok q st] by (simp add: apart_def)
qed

section \<open>The ipc\<close>

definition host_only :: "'z ipc_world_scheme \<Rightarrow> 'z ipc_world_scheme \<Rightarrow> bool" where
  "host_only w w' \<longleftrightarrow> ipc_world.more w' = ipc_world.more w \<and> uv_kept w w'"

lemma host_only_refl [simp, intro]: "host_only w w"
  by (simp add: host_only_def uv_kept_def)

lemma host_only_trans:
  assumes "host_only w w1" and "host_only w1 w2"
  shows "host_only w w2"
proof -
  have "uv_kept w w2"
  proof (cases "queue w1")
    case None
    then have "queue w2 = None" using assms(2) by (auto simp: host_only_def uv_kept_def)
    then show ?thesis using None assms(1) by (auto simp: host_only_def uv_kept_def)
  next
    case (Some q1)
    then obtain q where q: "queue w = Some q" "uv_view q1 = uv_view q"
      using assms(1) by (cases "queue w") (auto simp: host_only_def uv_kept_def)
    then have "destroyed q1 = destroyed q" by (simp add: uv_view_def)
    then show ?thesis using Some q assms(2) by (auto simp: host_only_def uv_kept_def)
  qed
  then show ?thesis using assms by (simp add: host_only_def)
qed

lemma host_only_fields [simp]:
  "host_only w (v\<lparr>calls := cs\<rparr>) = host_only w v" "host_only w (v\<lparr>ipcs := x\<rparr>) = host_only w v"
  "host_only w (v\<lparr>polls := y\<rparr>) = host_only w v" "host_only w (v\<lparr>signals := z\<rparr>) = host_only w v"
  "host_only w (v\<lparr>brk := b\<rparr>) = host_only w v" "host_only w (v\<lparr>blocks := bs\<rparr>) = host_only w v"
  "host_only w (v\<lparr>self := a\<rparr>) = host_only w v" "host_only w (emit c v) = host_only w v"
  by (simp_all add: host_only_def uv_kept_def emit_def)

lemma host_only_from [simp]:
  "host_only (w\<lparr>calls := cs\<rparr>) v = host_only w v" "host_only (w\<lparr>ipcs := x\<rparr>) v = host_only w v"
  "host_only (w\<lparr>polls := y\<rparr>) v = host_only w v" "host_only (w\<lparr>signals := z\<rparr>) v = host_only w v"
  "host_only (emit c w) v = host_only w v"
  by (simp_all add: host_only_def uv_kept_def emit_def)

lemma host_only_apart: "apart w w' \<Longrightarrow> host_only w w'"
  unfolding apart_def host_only_def using rest_of_ipc by blast

lemma host_only_free: "free_block p w = Some w' \<Longrightarrow> host_only w w'"
  by (auto simp: free_block_def split: if_splits)

lemma host_only_signal: "bare_ipc__signal i w = Some w' \<Longrightarrow> host_only w w'"
  by (auto simp: bare_ipc__signal_def emit_ok_def bind_eq_Some_conv split: if_splits)

lemma host_only_malloc: "malloc_struct w = (p, w') \<Longrightarrow> host_only w w'"
  by (auto simp: malloc_struct_def)

lemma host_only_signal_destroy: "bare_ipc__signal_destroy i w = Some (i', w') \<Longrightarrow> host_only w w'"
  by (auto simp: bare_ipc__signal_destroy_def emit_ok_def bind_eq_Some_conv Let_def split: if_splits)

lemma host_only_signal_init: "bare_ipc__signal_init ipc i w = Some (err, i', w') \<Longrightarrow> host_only w w'"
  by (auto simp: bare_ipc__signal_init_def malloc_struct_def emit_ok_def bind_eq_Some_conv Let_def
      split: if_splits)

lemma host_only_open:
  assumes "bare_queue_open_thread cb d w = Some (p, w')"
  shows "host_only w w'"
proof -
  obtain q where q: "queue w = Some q"
    using assms by (auto simp: bare_queue_open_thread_def bind_eq_Some_conv)
  then show ?thesis
    using assms unfolding open_thread_eq [OF q]
    by (auto simp: host_only_def uv_kept_def uv_view_def split: if_splits)
qed

text \<open>The queue's part of an operation on an open ipc.\<close>

lemma host_only_step:
  assumes "ipc_ok w" and "queue w = Some q" and "queue_step op w = Some (ob, w')"
    and "actor op = Thread_port"
  shows "host_only w w'"
  using step_apart [OF ipc_okD(1) [OF assms(1)] assms(2-4)] by (rule host_only_apart)

lemma host_only_read:
  assumes "bare_queue_read p w = Some (r, w')"
  shows "host_only w w'"
  using assms
  by (cases "queue w")
    (auto simp: bare_queue_read_def Let_def host_only_def uv_kept_def emit_def signal_peer_eq
      split: if_splits prod.splits)

lemma host_only_readable: "bare_queue_readable p w = Some (b, w') \<Longrightarrow> host_only w w'"
  by (auto simp: bare_queue_readable_def bind_eq_Some_conv Let_def)

lemma host_only_ipc_write:
  assumes ok: "ipc_ok w" and st: "bare_ipc_write ipc data w = Some (r, w')"
  shows "host_only w w'"
proof -
  obtain i where i: "ipcs w ipc = Some i" using st by (auto simp: bare_ipc_write_def bind_eq_Some_conv)
  show ?thesis
  proof (cases "ipc_port i")
    case None
    then show ?thesis using st i by (auto simp: bare_ipc_write_def)
  next
    case (Some port)
    obtain q where q: "port = Thread_port" "queue w = Some q" using open_ipc [OF ok i Some] by metis
    let ?w = "emit (Mutex_lock Ipc_lock) w"
    obtain n w1 where n: "bare_queue_write Thread_port data ?w = Some (n, w1)"
        "w' = emit (Mutex_unlock Ipc_lock) w1"
      using st i Some q(1) by (auto simp: bare_ipc_write_def bind_eq_Some_conv)
    then have "queue_step (Write Thread_port data) ?w = Some (Sent n, w1)" by simp
    then have "host_only ?w w1"
      using ok q(2) by (intro host_only_step [of ?w q "Write Thread_port data" "Sent n"]) (simp_all del: queue_step.simps)
    then show ?thesis using n(2) by simp
  qed
qed

lemma host_only_advance:
  assumes "ipc_ok w" and "queue w = Some q" and "bare_queue__advance Thread_port s w = Some w'"
  shows "host_only w w'"
  using advance_kept [OF ipc_okD(1) [OF assms(1)] assms(2,3)] by (rule host_only_apart)

lemma host_only_ipc_end:
  assumes ok: "ipc_ok w" and st: "bare_ipc_end ipc w = Some w'"
  shows "host_only w w'"
proof -
  obtain i where i: "ipcs w ipc = Some i" using st by (auto simp: bare_ipc_end_def bind_eq_Some_conv)
  show ?thesis
  proof (cases "ipc_port i")
    case None
    then show ?thesis using st i by (auto simp: bare_ipc_end_def)
  next
    case (Some port)
    obtain q where q: "port = Thread_port" "queue w = Some q" using open_ipc [OF ok i Some] by metis
    let ?w = "emit (Mutex_lock Ipc_lock) w"
    obtain w1 w2 where n: "bare_queue_end Thread_port ?w = Some w1" "bare_ipc__signal i w1 = Some w2"
        "w' = emit (Mutex_unlock Ipc_lock) w2"
      using st i Some q(1) by (auto simp: bare_ipc_end_def bind_eq_Some_conv)
    have "host_only ?w w1"
      using n(1) ok q(2) by (intro host_only_advance [of ?w]) (simp_all add: bare_queue_end_def)
    then have "host_only w w2" using host_only_signal [OF n(2)] host_only_trans [of w w1 w2] by simp
    then show ?thesis using n(3) by simp
  qed
qed

lemma host_only_ipc_close:
  assumes ok: "ipc_ok w" and st: "bare_ipc_close ipc w = Some w'"
  shows "host_only w w'"
proof -
  obtain i where i: "ipcs w ipc = Some i" using st by (auto simp: bare_ipc_close_def bind_eq_Some_conv)
  show ?thesis
  proof (cases "ipc_port i")
    case None
    then show ?thesis using st i by (auto simp: bare_ipc_close_def)
  next
    case (Some port)
    obtain q where q: "port = Thread_port" "queue w = Some q" using open_ipc [OF ok i Some] by metis
    let ?w = "emit (Mutex_lock Ipc_lock) w"
    obtain w1 w2 w3 i' where n: "bare_queue_close Thread_port ?w = Some w1"
        "free_block (base (pending i)) w1 = Some w2"
        "bare_ipc__signal i' (w2\<lparr>ipcs := (ipcs w2)(ipc \<mapsto> i')\<rparr>) = Some w3"
        "w' = emit (Mutex_unlock Ipc_lock) w3"
      using st i Some q(1) by (auto simp: bare_ipc_close_def bind_eq_Some_conv Let_def)
    have "host_only ?w w1"
      using n(1) ok q(2) by (intro host_only_advance [of ?w]) (simp_all add: bare_queue_close_def)
    then have "host_only w w1" by simp
    then have "host_only w (w2\<lparr>ipcs := (ipcs w2)(ipc \<mapsto> i')\<rparr>)"
      using host_only_free [OF n(2)] host_only_trans [of w w1 w2] by simp
    then have "host_only w w3" using host_only_signal [OF n(3)] by (rule host_only_trans)
    then show ?thesis using n(4) by simp
  qed
qed

lemma host_only_ipc_destroy:
  assumes ok: "ipc_ok w" and st: "bare_ipc_destroy ipc w = Some w'"
  shows "host_only w w'"
proof -
  obtain w1 i i' w2 where n: "bare_ipc_close ipc w = Some w1" "bare_ipc__signal_destroy i w1 = Some (i', w2)"
      "w' = (emit (Mutex_destroy Ipc_lock) w2)\<lparr>ipcs := (ipcs w2)(ipc := None)\<rparr>"
    using st by (auto simp: bare_ipc_destroy_def bind_eq_Some_conv Let_def)
  have "host_only w w2"
    using host_only_ipc_close [OF ok n(1)] host_only_signal_destroy [OF n(2)] by (rule host_only_trans)
  then show ?thesis using n(3) by simp
qed

lemma host_only_next:
  "next_pending i w = Some (r, i', w') \<Longrightarrow> host_only w w'"
  by (auto simp: next_pending_def bind_eq_Some_conv Let_def dest: host_only_read split: option.splits if_splits)

lemma host_only_copy:
  assumes st: "copy_pending ipc n i w = Some (r, w')"
  shows "host_only w w'"
  using st
  by (auto simp: copy_pending_def bind_eq_Some_conv Let_def split: if_splits
      dest!: host_only_free host_only_readable host_only_signal)
    (meson host_only_trans)+

lemma host_only_ipc_read:
  assumes st: "bare_ipc_read ipc n w = Some (r, w')"
  shows "host_only w w'"
proof -
  let ?w = "emit (Mutex_lock Ipc_lock) w"
  obtain i result i' w1 w2 where n: "next_pending i ?w = Some (result, i', w1)"
      "(if base (pending i') \<noteq> NULL then copy_pending ipc (min n INT_MAX) i' w1
        else Some ((result, []), w1\<lparr>ipcs := (ipcs w1)(ipc \<mapsto> i')\<rparr>)) = Some (r, w2)"
      "w' = emit (Mutex_unlock Ipc_lock) w2"
    using st by (auto simp: bare_ipc_read_def bind_eq_Some_conv Let_def)
  have "host_only w w1" using host_only_next [OF n(1)] by simp
  moreover have "host_only w1 w2" using n(2) by (auto split: if_splits intro: host_only_copy)
  ultimately show ?thesis using n(3) host_only_trans by simp
qed

lemma host_only_ipc_create:
  assumes st: "bare_ipc_create w = Some ((r, p), w')"
  shows "host_only w w'"
proof -
  obtain ipc w0 where m: "malloc_struct w = (ipc, w0)" by fastforce
  have w0: "host_only w w0" by (rule host_only_malloc [OF m])
  show ?thesis
  proof (cases "ipc = NULL")
    case True
    then show ?thesis using st m w0 by (simp add: bare_ipc_create_def)
  next
    case False
    then obtain i err i1 w1 where i1: "bare_ipc__signal_init ipc i w0 = Some (err, i1, w1)"
        "(if err < 0 then Some ((err, NULL), w1)
          else do {
            (port, w2) \<leftarrow> bare_queue_open_thread on_signal_ptr ipc (w1\<lparr>ipcs := (ipcs w1)(ipc \<mapsto> i1)\<rparr>);
            if port = None then do {
              (i3, w3) \<leftarrow> bare_ipc__signal_destroy i1 w2;
              Some ((-1, NULL), w3\<lparr>ipcs := (ipcs w3)(ipc := None)\<rparr>)
            } else do {
              let w3 = w2\<lparr>ipcs := (ipcs w2)(ipc \<mapsto> i1\<lparr>ipc_port := port\<rparr>)\<rparr>;
              w4 \<leftarrow> emit_ok (Mutex_init Ipc_lock) w3;
              Some ((0, ipc), w4)
            }
          }) = Some ((r, p), w')"
      using st m by (auto simp: bare_ipc_create_def bind_eq_Some_conv Let_def)
    have w1: "host_only w w1" using w0 host_only_signal_init [OF i1(1)] by (rule host_only_trans)
    show ?thesis
    proof (cases "err < 0")
      case True
      then show ?thesis using i1(2) w1 by simp
    next
      case False
      then obtain port w2 where o: "bare_queue_open_thread on_signal_ptr ipc (w1\<lparr>ipcs := (ipcs w1)(ipc \<mapsto> i1)\<rparr>)
          = Some (port, w2)"
        using i1(2) by (auto simp: bind_eq_Some_conv)
      have "host_only w w2"
        using w1 host_only_open [OF o] host_only_trans [of w w1 w2] by simp
      then show ?thesis
        using i1(2) False o host_only_signal_destroy [of i1 w2] host_only_trans [of w w2]
        by (auto simp: bind_eq_Some_conv emit_ok_def Let_def split: if_splits)
    qed
  qed
qed

lemma host_only_poll_create:
  "bare_ipc_poll_create ipc w = Some (r, w') \<Longrightarrow> host_only w w'"
  by (auto simp: bare_ipc_poll_create_def malloc_struct_def bare_ipc__set_poll_def bind_eq_Some_conv Let_def
      split: if_splits)

lemma host_only_poll_stop: "bare_ipc_poll_stop poll w = Some (r, w') \<Longrightarrow> host_only w w'"
  by (auto simp: bare_ipc_poll_stop_def bind_eq_Some_conv)

lemma host_only_poll_start: "bare_ipc_poll_start poll evs cb w = Some (r, w') \<Longrightarrow> host_only w w'"
  by (auto simp: bare_ipc_poll_start_def bare_ipc_poll_stop_def bare_ipc__signal_def emit_ok_def
      bind_eq_Some_conv Let_def split: if_splits)

lemma host_only_poll_destroy: "bare_ipc_poll_destroy poll w = Some w' \<Longrightarrow> host_only w w'"
  by (auto simp: bare_ipc_poll_destroy_def bare_ipc_poll_stop_def bare_ipc__set_poll_def
      bind_eq_Some_conv Let_def)

text \<open>Every operation of the host is apart from the worklet.\<close>

definition by_host :: "ipc_op \<Rightarrow> bool" where
  "by_host op = (case op of Worklet qop \<Rightarrow> False | _ \<Rightarrow> True)"

lemma ipc_step_host_only:
  assumes "ipc_ok w" and "ipc_step op w = Some (ob, w')" and "by_host op"
  shows "host_only w w'"
proof (cases op)
  case (Poll_set_data poll data)
  then show ?thesis using assms(2) by (auto simp: bare_ipc_poll_set_data_def bind_eq_Some_conv)
next
  case Signalled
  then show ?thesis using assms(2) by (auto simp: bare_ipc__on_signal_def bind_eq_Some_conv
        intro: host_only_signal)
next
  case (Worklet qop)
  then show ?thesis using assms(3) by (simp add: by_host_def)
qed (use assms(1,2) in \<open>auto intro: host_only_ipc_create host_only_ipc_close host_only_ipc_end
      host_only_ipc_destroy host_only_ipc_read host_only_ipc_write host_only_poll_create
      host_only_poll_start host_only_poll_stop host_only_poll_destroy\<close>)

end
