(* ===== verification/Worklet_Data.thy ===== *)
theory Worklet_Data
  imports Ipc_Frame
begin

text \<open>
  The data of a worklet (\<open>src/worklet.h\<close>, the structs and the globals of \<open>src/worklet.c\<close>).

  A world holds one worklet beside its queue and its ipcs: the struct that the host owns
  (\<open>worklet\<close>), the state that it shares with the worklet's thread (\<open>wstate\<close>), and what
  lives on the stack of that thread: the semaphore \<open>finished\<close> and the struct \<open>ipc\<close>. Each of
  them is \<open>None\<close> before it exists and once it is gone, so that a use after that is a fault.
  The other worklets of the process show in the globals, such as the number that run.

  \<open>native\<close> is the state of the platform that Bare Kit is built for; its type \<open>'p\<close> is left
  open.
\<close>

section \<open>The structs\<close>

record bare_worklet_options_t =
  version :: int
  memory_limit :: nat
  android_jvm :: ptr
  android_context :: ptr

text \<open>\<open>task\<close> is a member on iOS only; the other platforms leave it alone.\<close>

record bare_suspension_t =
  task :: ptr

record bare_worklet_callbacks =
  suspend_cb :: ptr
  suspend_data :: ptr
  wakeup_cb :: ptr
  wakeup_data :: ptr
  idle_cb :: ptr
  idle_data :: ptr
  resume_cb :: ptr
  resume_data :: ptr
  exit_cb :: ptr
  exit_data :: ptr

record bare_worklet_state_t =
  finished :: bool
  bare :: ptr
  suspension :: bare_suspension_t
  suspended :: bool
  resuming :: bool
  callbacks :: bare_worklet_callbacks

text \<open>
  \<open>source\<close> are the bytes of the caller, \<open>None\<close> a null pointer. \<open>finished_sem\<close> is the pointer
  \<open>finished\<close> to the semaphore on the thread's stack.
\<close>

record bare_worklet_t =
  options :: bare_worklet_options_t
  state :: ptr
  filename :: string
  source :: "byte list option"
  source_len :: nat
  argc :: nat
  argv :: "string list"
  thread :: ptr
  finished_sem :: ptr
  worklet_queue :: ptr
  worklet_data :: ptr

record bare_worklet__ipc_t =
  signal :: bool \<comment> \<open>whether the reference to the JavaScript function is there\<close>

section \<open>The world\<close>

record 'p wworld = ipc_world +
  worklet :: "bare_worklet_t option"
  wstate :: "bare_worklet_state_t option"
  semaphore :: "nat option" \<comment> \<open>the value of the semaphore \<open>finished\<close>\<close>
  thread_ipc :: "bare_worklet__ipc_t option"
  init_guard :: bool \<comment> \<open>\<open>bare_worklet__init_guard\<close>\<close>
  running :: int \<comment> \<open>\<open>bare_worklet__running\<close>\<close>
  torn_down :: bool \<comment> \<open>\<open>bare_worklet__torn_down\<close>\<close>
  platform_guard :: bool \<comment> \<open>\<open>bare_worklet__platform_guard\<close>\<close>
  platform :: ptr \<comment> \<open>\<open>bare_worklet__platform\<close>\<close>
  optimize_for_memory :: bool \<comment> \<open>\<open>bare_worklet__platform_options\<close>\<close>
  native :: 'p

text \<open>The address of the thread's semaphore, and of its struct \<open>ipc\<close>.\<close>

definition finished_ptr :: ptr where
  "finished_ptr = 1"

definition thread_ipc_ptr :: ptr where
  "thread_ipc_ptr = 2"

text \<open>The address of the function \<open>bare_worklet__on_ipc_signal\<close>.\<close>

definition on_ipc_signal_ptr :: ptr where
  "on_ipc_signal_ptr = 3"

section \<open>Zeroed structs\<close>

definition zero_options :: bare_worklet_options_t where
  "zero_options = \<lparr>version = 0, memory_limit = 0, android_jvm = NULL, android_context = NULL\<rparr>"

definition zero_callbacks :: bare_worklet_callbacks where
  "zero_callbacks = \<lparr>suspend_cb = NULL, suspend_data = NULL, wakeup_cb = NULL, wakeup_data = NULL,
     idle_cb = NULL, idle_data = NULL, resume_cb = NULL, resume_data = NULL,
     exit_cb = NULL, exit_data = NULL\<rparr>"

definition zero_state :: bare_worklet_state_t where
  "zero_state = \<lparr>finished = False, bare = NULL, suspension = \<lparr>task = NULL\<rparr>, suspended = False,
     resuming = False, callbacks = zero_callbacks\<rparr>"

definition zero_worklet :: bare_worklet_t where
  "zero_worklet = \<lparr>options = zero_options, state = NULL, filename = [], source = None,
     source_len = 0, argc = 0, argv = [], thread = NULL, finished_sem = NULL,
     worklet_queue = NULL, worklet_data = NULL\<rparr>"

section \<open>What a platform may touch\<close>

text \<open>Every call to libuv, Bare and JavaScript succeeds; memory may still run out.\<close>

definition calls_ok :: "'z machine_scheme \<Rightarrow> bool" where
  "calls_ok w \<longleftrightarrow> (\<forall>c. ret w c = 0)"

lemma calls_ok_env: "env_ok w \<Longrightarrow> calls_ok w"
  by (simp add: calls_ok_def env_ok_def)

lemma emit_ok_calls: "calls_ok w \<Longrightarrow> emit_ok c w = Some (emit c w)"
  by (simp add: emit_ok_def calls_ok_def)

lemma calls_ok_emit [simp]: "calls_ok (emit c w) = calls_ok w"
  by (simp add: calls_ok_def)

text \<open>The functions of a platform change its own state and call out; the rest is as it was.\<close>

definition native_only :: "'p wworld \<Rightarrow> 'p wworld \<Rightarrow> bool" where
  "native_only w w' \<longleftrightarrow> (\<exists>cs n. w' = w\<lparr>calls := calls w @ cs, native := n\<rparr>)"

lemma native_only_refl [simp, intro]: "native_only w w"
  unfolding native_only_def by (rule exI [of _ "[]"], rule exI [of _ "native w"]) simp

lemma native_only_trans: "native_only w w' \<Longrightarrow> native_only w' w2 \<Longrightarrow> native_only w w2"
  unfolding native_only_def by (elim exE) (simp, metis)

lemma native_only_emit [simp, intro]:
  assumes "native_only w v"
  shows "native_only w (emit c v)"
proof -
  obtain cs n where "v = w\<lparr>calls := calls w @ cs, native := n\<rparr>"
    using assms by (auto simp: native_only_def)
  then have "emit c v = w\<lparr>calls := calls w @ (cs @ [c]), native := n\<rparr>" by (simp add: emit_def)
  then show ?thesis unfolding native_only_def by blast
qed

lemma native_only_native [simp, intro]: "native_only w v \<Longrightarrow> native_only w (v\<lparr>native := n\<rparr>)"
  unfolding native_only_def by (elim exE) (simp, metis)

lemma native_only_calls [simp, intro]: "native_only w (w\<lparr>calls := calls w @ cs\<rparr>)"
  unfolding native_only_def by (rule exI [of _ cs], rule exI [of _ "native w"]) simp

lemma native_onlyE:
  assumes "native_only w w'"
  obtains cs n where "w' = w\<lparr>calls := calls w @ cs, native := n\<rparr>"
  using assms by (auto simp: native_only_def)

section \<open>Frames\<close>

text \<open>The fields of the worklet under a call, and what the parts below it are to them.\<close>

lemma worklet_emit [simp]:
  "worklet (emit c w) = worklet w"
  "wstate (emit c w) = wstate w"
  "semaphore (emit c w) = semaphore w"
  "thread_ipc (emit c w) = thread_ipc w"
  "init_guard (emit c w) = init_guard w"
  "running (emit c w) = running w"
  "torn_down (emit c w) = torn_down w"
  "platform_guard (emit c w) = platform_guard w"
  "platform (emit c w) = platform w"
  "optimize_for_memory (emit c w) = optimize_for_memory w"
  "native (emit c w) = native w"
  by (simp_all add: emit_def)

lemma same_rest:
  assumes "ipc_world.more w' = ipc_world.more w"
  shows "worklet w' = worklet w"
    "wstate w' = wstate w"
    "semaphore w' = semaphore w"
    "thread_ipc w' = thread_ipc w"
    "init_guard w' = init_guard w"
    "running w' = running w"
    "torn_down w' = torn_down w"
    "platform_guard w' = platform_guard w"
    "platform w' = platform w"
    "optimize_for_memory w' = optimize_for_memory w"
    "native w' = native w"
  using assms by (cases w; cases w'; simp)+

lemma calls_ok_fields [simp]:
  "calls_ok (w\<lparr>worklet := x0\<rparr>) = calls_ok w"
  "calls_ok (w\<lparr>wstate := x1\<rparr>) = calls_ok w"
  "calls_ok (w\<lparr>semaphore := x2\<rparr>) = calls_ok w"
  "calls_ok (w\<lparr>thread_ipc := x3\<rparr>) = calls_ok w"
  "calls_ok (w\<lparr>init_guard := x4\<rparr>) = calls_ok w"
  "calls_ok (w\<lparr>running := x5\<rparr>) = calls_ok w"
  "calls_ok (w\<lparr>torn_down := x6\<rparr>) = calls_ok w"
  "calls_ok (w\<lparr>platform_guard := x7\<rparr>) = calls_ok w"
  "calls_ok (w\<lparr>platform := x8\<rparr>) = calls_ok w"
  "calls_ok (w\<lparr>optimize_for_memory := x9\<rparr>) = calls_ok w"
  "calls_ok (w\<lparr>native := x10\<rparr>) = calls_ok w"
  by (simp_all add: calls_ok_def)

lemma env_ok_fields [simp]:
  "env_ok (w\<lparr>worklet := x0\<rparr>) = env_ok w"
  "env_ok (w\<lparr>wstate := x1\<rparr>) = env_ok w"
  "env_ok (w\<lparr>semaphore := x2\<rparr>) = env_ok w"
  "env_ok (w\<lparr>thread_ipc := x3\<rparr>) = env_ok w"
  "env_ok (w\<lparr>init_guard := x4\<rparr>) = env_ok w"
  "env_ok (w\<lparr>running := x5\<rparr>) = env_ok w"
  "env_ok (w\<lparr>torn_down := x6\<rparr>) = env_ok w"
  "env_ok (w\<lparr>platform_guard := x7\<rparr>) = env_ok w"
  "env_ok (w\<lparr>platform := x8\<rparr>) = env_ok w"
  "env_ok (w\<lparr>optimize_for_memory := x9\<rparr>) = env_ok w"
  "env_ok (w\<lparr>native := x10\<rparr>) = env_ok w"
  by (simp_all add: env_ok_def)

lemma heap_ok_fields [simp]:
  "heap_ok (w\<lparr>worklet := x0\<rparr>) = heap_ok w"
  "heap_ok (w\<lparr>wstate := x1\<rparr>) = heap_ok w"
  "heap_ok (w\<lparr>semaphore := x2\<rparr>) = heap_ok w"
  "heap_ok (w\<lparr>thread_ipc := x3\<rparr>) = heap_ok w"
  "heap_ok (w\<lparr>init_guard := x4\<rparr>) = heap_ok w"
  "heap_ok (w\<lparr>running := x5\<rparr>) = heap_ok w"
  "heap_ok (w\<lparr>torn_down := x6\<rparr>) = heap_ok w"
  "heap_ok (w\<lparr>platform_guard := x7\<rparr>) = heap_ok w"
  "heap_ok (w\<lparr>platform := x8\<rparr>) = heap_ok w"
  "heap_ok (w\<lparr>optimize_for_memory := x9\<rparr>) = heap_ok w"
  "heap_ok (w\<lparr>native := x10\<rparr>) = heap_ok w"
  by (simp_all add: heap_ok_def)

lemma world_ok_fields [simp]:
  "world_ok (w\<lparr>worklet := x0\<rparr>) = world_ok w"
  "world_ok (w\<lparr>wstate := x1\<rparr>) = world_ok w"
  "world_ok (w\<lparr>semaphore := x2\<rparr>) = world_ok w"
  "world_ok (w\<lparr>thread_ipc := x3\<rparr>) = world_ok w"
  "world_ok (w\<lparr>init_guard := x4\<rparr>) = world_ok w"
  "world_ok (w\<lparr>running := x5\<rparr>) = world_ok w"
  "world_ok (w\<lparr>torn_down := x6\<rparr>) = world_ok w"
  "world_ok (w\<lparr>platform_guard := x7\<rparr>) = world_ok w"
  "world_ok (w\<lparr>platform := x8\<rparr>) = world_ok w"
  "world_ok (w\<lparr>optimize_for_memory := x9\<rparr>) = world_ok w"
  "world_ok (w\<lparr>native := x10\<rparr>) = world_ok w"
  by (simp_all add: world_ok_def heap_ok_def queue_ok_def live_message_def)

lemma abs_queue_fields [simp]:
  "abs_queue (w\<lparr>worklet := x0\<rparr>) = abs_queue w"
  "abs_queue (w\<lparr>wstate := x1\<rparr>) = abs_queue w"
  "abs_queue (w\<lparr>semaphore := x2\<rparr>) = abs_queue w"
  "abs_queue (w\<lparr>thread_ipc := x3\<rparr>) = abs_queue w"
  "abs_queue (w\<lparr>init_guard := x4\<rparr>) = abs_queue w"
  "abs_queue (w\<lparr>running := x5\<rparr>) = abs_queue w"
  "abs_queue (w\<lparr>torn_down := x6\<rparr>) = abs_queue w"
  "abs_queue (w\<lparr>platform_guard := x7\<rparr>) = abs_queue w"
  "abs_queue (w\<lparr>platform := x8\<rparr>) = abs_queue w"
  "abs_queue (w\<lparr>optimize_for_memory := x9\<rparr>) = abs_queue w"
  "abs_queue (w\<lparr>native := x10\<rparr>) = abs_queue w"
  by (simp_all add: abs_queue_def payload_def fun_eq_iff)

lemma abs_world_fields [simp]:
  "abs_world (w\<lparr>worklet := x0\<rparr>) = abs_world w"
  "abs_world (w\<lparr>wstate := x1\<rparr>) = abs_world w"
  "abs_world (w\<lparr>semaphore := x2\<rparr>) = abs_world w"
  "abs_world (w\<lparr>thread_ipc := x3\<rparr>) = abs_world w"
  "abs_world (w\<lparr>init_guard := x4\<rparr>) = abs_world w"
  "abs_world (w\<lparr>running := x5\<rparr>) = abs_world w"
  "abs_world (w\<lparr>torn_down := x6\<rparr>) = abs_world w"
  "abs_world (w\<lparr>platform_guard := x7\<rparr>) = abs_world w"
  "abs_world (w\<lparr>platform := x8\<rparr>) = abs_world w"
  "abs_world (w\<lparr>optimize_for_memory := x9\<rparr>) = abs_world w"
  "abs_world (w\<lparr>native := x10\<rparr>) = abs_world w"
  by (simp_all add: abs_world_def)

lemma abs_world_calls [simp]: "abs_world (w\<lparr>calls := cs\<rparr>) = abs_world w"
  by (simp add: abs_world_def)

lemma calls_ok_calls [simp]:
  "calls_ok (w\<lparr>calls := cs\<rparr>) = calls_ok w" "calls_ok (w\<lparr>brk := b\<rparr>) = calls_ok w"
  "calls_ok (w\<lparr>queue := q\<rparr>) = calls_ok w"
  by (simp_all add: calls_ok_def)

lemma ipc_good_fields [simp]:
  "ipc_good (w\<lparr>worklet := x0\<rparr>) = ipc_good w"
  "ipc_good (w\<lparr>wstate := x1\<rparr>) = ipc_good w"
  "ipc_good (w\<lparr>semaphore := x2\<rparr>) = ipc_good w"
  "ipc_good (w\<lparr>thread_ipc := x3\<rparr>) = ipc_good w"
  "ipc_good (w\<lparr>init_guard := x4\<rparr>) = ipc_good w"
  "ipc_good (w\<lparr>running := x5\<rparr>) = ipc_good w"
  "ipc_good (w\<lparr>torn_down := x6\<rparr>) = ipc_good w"
  "ipc_good (w\<lparr>platform_guard := x7\<rparr>) = ipc_good w"
  "ipc_good (w\<lparr>platform := x8\<rparr>) = ipc_good w"
  "ipc_good (w\<lparr>optimize_for_memory := x9\<rparr>) = ipc_good w"
  "ipc_good (w\<lparr>native := x10\<rparr>) = ipc_good w"
  by (simp_all add: ipc_good_def ipc_parts live_message_def owned_def fun_eq_iff split: option.split)

lemma ipc_ok_fields [simp]:
  "ipc_ok (w\<lparr>worklet := x0\<rparr>) = ipc_ok w"
  "ipc_ok (w\<lparr>wstate := x1\<rparr>) = ipc_ok w"
  "ipc_ok (w\<lparr>semaphore := x2\<rparr>) = ipc_ok w"
  "ipc_ok (w\<lparr>thread_ipc := x3\<rparr>) = ipc_ok w"
  "ipc_ok (w\<lparr>init_guard := x4\<rparr>) = ipc_ok w"
  "ipc_ok (w\<lparr>running := x5\<rparr>) = ipc_ok w"
  "ipc_ok (w\<lparr>torn_down := x6\<rparr>) = ipc_ok w"
  "ipc_ok (w\<lparr>platform_guard := x7\<rparr>) = ipc_ok w"
  "ipc_ok (w\<lparr>platform := x8\<rparr>) = ipc_ok w"
  "ipc_ok (w\<lparr>optimize_for_memory := x9\<rparr>) = ipc_ok w"
  "ipc_ok (w\<lparr>native := x10\<rparr>) = ipc_ok w"
  by (simp_all add: ipc_ok_def addresses_ok_def served_def)

end
