(* ===== verification/Platform.thy ===== *)
theory Platform
  imports Worklet_Data
begin

text \<open>
  What a worklet asks of the platform it runs on (\<open>src/platform.h\<close>, \<open>src/suspension.h\<close>,
  \<open>src/resources.h\<close>, \<open>src/symbols.h\<close>). The build picks one implementation of each function;
  a value of \<open>platform_ops\<close> is such a choice, and the operations of a worklet take it as an
  argument. The locale \<open>worklet_platform\<close> states what the worklet relies on, and the lemmas
  proved from it hold for every platform that keeps these laws.

  The theory then has the default choice (\<open>src/platform.c\<close>, \<open>src/resources.c\<close>,
  \<open>src/symbols.c\<close>, \<open>src/suspension.c\<close>), which does next to nothing.
\<close>

section \<open>The interface\<close>

record 'p platform_ops =
  on_thread_enter :: "'p wworld \<Rightarrow> 'p wworld option"
  on_thread_exit :: "'p wworld \<Rightarrow> 'p wworld option"
  retain_context :: "bare_worklet_options_t \<Rightarrow> bare_worklet_options_t \<Rightarrow> 'p wworld
    \<Rightarrow> (bare_worklet_options_t \<times> 'p wworld) option"
  release_context :: "bare_worklet_options_t \<Rightarrow> 'p wworld \<Rightarrow> 'p wworld option"
  publish_context :: "ptr \<Rightarrow> bare_worklet_options_t \<Rightarrow> 'p wworld \<Rightarrow> 'p wworld option"
  create_resources :: "bare_worklet_options_t \<Rightarrow> 'p wworld \<Rightarrow> ((js_value_t \<times> js_value_t) \<times> 'p wworld) option"
  expose_symbols :: "'p wworld \<Rightarrow> 'p wworld option"
  suspension_init :: "bare_suspension_t \<Rightarrow> 'p wworld \<Rightarrow> (int \<times> bare_suspension_t \<times> 'p wworld) option"
  suspension_start :: "bare_suspension_t \<Rightarrow> int \<Rightarrow> 'p wworld \<Rightarrow> (int \<times> 'p wworld) option"
  suspension_end :: "bare_suspension_t \<Rightarrow> 'p wworld \<Rightarrow> (int \<times> 'p wworld) option"
  suspension_destroy :: "bare_suspension_t \<Rightarrow> 'p wworld \<Rightarrow> 'p wworld option"

text \<open>
  \<open>ready\<close> is the platform's part of the invariant, before and after the worklet's thread has
  entered the platform and not yet left it; \<open>offered\<close> is what the host has to see to in the
  options that it hands over, \<open>held\<close> holds of the options of a worklet from
  \<open>retain_context\<close> to \<open>release_context\<close>, and \<open>initialised\<close> of a suspension from
  \<open>suspension_init\<close> to \<open>suspension_destroy\<close>. What one part of a worklet relies on, the
  operations of the others carry over. A suspension that is started has a timeout of at
  least 0, which the worklet asserts before it hands it to Bare.
\<close>

definition carried :: "('a \<Rightarrow> 'p \<Rightarrow> bool) \<Rightarrow> 'p \<Rightarrow> 'p \<Rightarrow> bool" where
  "carried R n n' \<longleftrightarrow> (\<forall>x. R x n \<longrightarrow> R x n')"

lemma carriedD: "carried R n n' \<Longrightarrow> R x n \<Longrightarrow> R x n'"
  by (simp add: carried_def)

lemma carried_refl [simp]: "carried R n n"
  by (simp add: carried_def)

lemma carried_True [simp]: "carried (\<lambda>_ _. True) n m"
  by (simp add: carried_def)

locale worklet_platform =
  fixes P :: "'p platform_ops"
    and ready :: "bool \<Rightarrow> 'p \<Rightarrow> bool"
    and offered :: "bare_worklet_options_t \<Rightarrow> 'p \<Rightarrow> bool"
    and held :: "bare_worklet_options_t \<Rightarrow> 'p \<Rightarrow> bool"
    and initialised :: "bare_suspension_t \<Rightarrow> 'p \<Rightarrow> bool"
  assumes thread_enter: "ready False (native w) \<Longrightarrow> calls_ok w \<Longrightarrow>
      \<exists>w'. on_thread_enter P w = Some w' \<and> native_only w w' \<and> ready True (native w')
        \<and> carried held (native w) (native w')"
    and thread_exit: "ready True (native w) \<Longrightarrow> calls_ok w \<Longrightarrow>
      \<exists>w'. on_thread_exit P w = Some w' \<and> native_only w w' \<and> ready False (native w')
        \<and> carried held (native w) (native w')"
    and retain: "ready b (native w) \<Longrightarrow> calls_ok w \<Longrightarrow> offered opts0 (native w) \<Longrightarrow> held opts (native w) \<Longrightarrow>
      \<exists>opts' w'. retain_context P opts opts0 w = Some (opts', w') \<and> native_only w w' \<and> ready b (native w')
        \<and> memory_limit opts' = memory_limit opts \<and> held opts' (native w')"
    and nothing_held: "ready b n \<Longrightarrow> held (zero_options\<lparr>memory_limit := m\<rparr>) n"
    and release: "ready b (native w) \<Longrightarrow> calls_ok w \<Longrightarrow> held opts (native w) \<Longrightarrow>
      \<exists>w'. release_context P opts w = Some w' \<and> native_only w w' \<and> ready b (native w')
        \<and> carried initialised (native w) (native w')"
    and publish: "ready True (native w) \<Longrightarrow> calls_ok w \<Longrightarrow> held opts (native w) \<Longrightarrow>
      \<exists>w'. publish_context P ba opts w = Some w' \<and> native_only w w' \<and> ready True (native w')
        \<and> carried held (native w) (native w') \<and> carried initialised (native w) (native w')"
    and resources: "ready True (native w) \<Longrightarrow> calls_ok w \<Longrightarrow> held opts (native w) \<Longrightarrow>
      \<exists>r w'. create_resources P opts w = Some (r, w') \<and> native_only w w' \<and> ready True (native w')
        \<and> carried held (native w) (native w') \<and> carried initialised (native w) (native w')"
    and expose: "ready b (native w) \<Longrightarrow> calls_ok w \<Longrightarrow>
      \<exists>w'. expose_symbols P w = Some w' \<and> native_only w w' \<and> ready b (native w')
        \<and> carried offered (native w) (native w')"
    and init: "ready b (native w) \<Longrightarrow> calls_ok w \<Longrightarrow>
      \<exists>s' w'. suspension_init P s w = Some (0, s', w') \<and> native_only w w' \<and> ready b (native w')
        \<and> initialised s' (native w') \<and> carried held (native w) (native w')"
    and start: "ready b (native w) \<Longrightarrow> initialised s (native w) \<Longrightarrow> calls_ok w \<Longrightarrow>
      \<exists>n w'. suspension_start P s t w = Some (n, w') \<and> 0 \<le> n \<and> native_only w w' \<and> ready b (native w')
        \<and> initialised s (native w') \<and> carried held (native w) (native w')"
    and end_ok: "ready b (native w) \<Longrightarrow> initialised s (native w) \<Longrightarrow> calls_ok w \<Longrightarrow>
      \<exists>w'. suspension_end P s w = Some (0, w') \<and> native_only w w' \<and> ready b (native w')
        \<and> initialised s (native w') \<and> carried held (native w) (native w')"
    and destroy: "ready b (native w) \<Longrightarrow> initialised s (native w) \<Longrightarrow> calls_ok w \<Longrightarrow>
      \<exists>w'. suspension_destroy P s w = Some w' \<and> native_only w w' \<and> ready b (native w')
        \<and> carried held (native w) (native w')"

section \<open>The default platform\<close>

definition bare_kit__on_thread_enter :: "'z machine_scheme \<Rightarrow> 'z machine_scheme option" where
  "bare_kit__on_thread_enter w = Some w"

definition bare_kit__on_thread_exit :: "'z machine_scheme \<Rightarrow> 'z machine_scheme option" where
  "bare_kit__on_thread_exit w = Some w"

definition bare_kit__retain_context :: "bare_worklet_options_t \<Rightarrow> bare_worklet_options_t
    \<Rightarrow> 'z machine_scheme \<Rightarrow> (bare_worklet_options_t \<times> 'z machine_scheme) option" where
  "bare_kit__retain_context opts opts0 w = Some (opts, w)"

definition bare_kit__release_context ::
  "bare_worklet_options_t \<Rightarrow> 'z machine_scheme \<Rightarrow> 'z machine_scheme option" where
  "bare_kit__release_context opts w = Some w"

definition bare_kit__publish_context ::
  "ptr \<Rightarrow> bare_worklet_options_t \<Rightarrow> 'z machine_scheme \<Rightarrow> 'z machine_scheme option" where
  "bare_kit__publish_context b opts w = Some w"

definition bare_kit__create_resources :: "bare_worklet_options_t \<Rightarrow> 'z machine_scheme
    \<Rightarrow> ((js_value_t \<times> js_value_t) \<times> 'z machine_scheme) option" where
  "bare_kit__create_resources opts w = do {
     w \<leftarrow> emit_ok (Js (Js_create_value Js_null)) w;
     w \<leftarrow> emit_ok (Js (Js_create_value Js_null)) w;
     Some ((Js_null, Js_null), w)
   }"

definition bare_kit__expose_symbols :: "'z machine_scheme \<Rightarrow> 'z machine_scheme option" where
  "bare_kit__expose_symbols w = Some w"

section \<open>The default suspension\<close>

definition bare_suspension_init ::
  "bare_suspension_t \<Rightarrow> 'z machine_scheme \<Rightarrow> (int \<times> bare_suspension_t \<times> 'z machine_scheme) option" where
  "bare_suspension_init s w = Some (0, s, w)"

definition bare_suspension_start ::
  "bare_suspension_t \<Rightarrow> int \<Rightarrow> 'z machine_scheme \<Rightarrow> (int \<times> 'z machine_scheme) option" where
  "bare_suspension_start s timeout w = Some (if timeout < 0 then 30000 else timeout, w)"

definition bare_suspension_end ::
  "bare_suspension_t \<Rightarrow> 'z machine_scheme \<Rightarrow> (int \<times> 'z machine_scheme) option" where
  "bare_suspension_end s w = Some (0, w)"

definition bare_suspension_destroy ::
  "bare_suspension_t \<Rightarrow> 'z machine_scheme \<Rightarrow> 'z machine_scheme option" where
  "bare_suspension_destroy s w = Some w"

definition default_platform :: "'p platform_ops" where
  "default_platform = \<lparr>on_thread_enter = bare_kit__on_thread_enter,
     on_thread_exit = bare_kit__on_thread_exit, retain_context = bare_kit__retain_context,
     release_context = bare_kit__release_context, publish_context = bare_kit__publish_context,
     create_resources = bare_kit__create_resources, expose_symbols = bare_kit__expose_symbols,
     suspension_init = bare_suspension_init, suspension_start = bare_suspension_start,
     suspension_end = bare_suspension_end, suspension_destroy = bare_suspension_destroy\<rparr>"

lemmas default_defs = bare_kit__on_thread_enter_def bare_kit__on_thread_exit_def
  bare_kit__retain_context_def bare_kit__release_context_def bare_kit__publish_context_def
  bare_kit__create_resources_def bare_kit__expose_symbols_def
  bare_suspension_init_def bare_suspension_start_def bare_suspension_end_def bare_suspension_destroy_def

interpretation default: worklet_platform default_platform "\<lambda>_ _. True" "\<lambda>_ _. True" "\<lambda>_ _. True" "\<lambda>_ _. True"
proof unfold_locales
  show "\<exists>r w'. create_resources default_platform opts w = Some (r, w') \<and> native_only w w'
      \<and> True \<and> carried (\<lambda>_ _. True) (native w) (native w') \<and> carried (\<lambda>_ _. True) (native w) (native w')"
    if "calls_ok w" for w :: "'a wworld" and opts
    using that native_only_trans [OF native_only_emit native_only_emit]
    by (simp add: default_platform_def bare_kit__create_resources_def emit_ok_calls)
qed (auto simp: default_platform_def default_defs)

section \<open>Exposing the symbols on Unix\<close>

text \<open>
  On Apple and Linux the library is promoted to the global scope (\<open>src/unix/symbols.c\<close>). What
  the dynamic linker knows of it is the environment's: its name, and whether it can be opened.
\<close>

record dynamic_linker =
  library_name :: "string option" \<comment> \<open>\<open>dli_fname\<close>, if \<open>dladdr\<close> finds the library\<close>
  opens :: bool

definition unix_expose_symbols :: "dynamic_linker \<Rightarrow> 'z machine_scheme \<Rightarrow> 'z machine_scheme option" where
  "unix_expose_symbols dl w =
     (let w = emit (Process Dladdr) w
      in case library_name dl of
           None \<Rightarrow> Some w
         | Some name \<Rightarrow>
             let w = emit (Process (Dlopen name)) w
             in Some (if opens dl then emit (Process Dlclose) w else w))"

definition unix_platform :: "dynamic_linker \<Rightarrow> 'p platform_ops" where
  "unix_platform dl = default_platform\<lparr>expose_symbols := unix_expose_symbols dl\<rparr>"

interpretation unix: worklet_platform "unix_platform dl" "\<lambda>_ _. True" "\<lambda>_ _. True" "\<lambda>_ _. True" "\<lambda>_ _. True" for dl
proof unfold_locales
  show "\<exists>w'. expose_symbols (unix_platform dl) w = Some w' \<and> native_only w w' \<and> True
      \<and> carried (\<lambda>_ _. True) (native w) (native w')" for w :: "'a wworld"
    by (simp add: unix_platform_def unix_expose_symbols_def Let_def split: option.split)
qed (use default.thread_enter default.thread_exit default.retain default.release default.publish
      default.resources default.init default.start default.end_ok default.destroy
      in \<open>simp_all add: unix_platform_def\<close>)

end
