(* ===== verification/Worklet.thy ===== *)
theory Worklet
  imports Platform
begin

text \<open>
  The worklet as its host sees it (\<open>src/worklet.c\<close>): creating, configuring, starting,
  suspending, resuming, waking up, terminating and destroying it, and the state that the
  worklets of the process share.

  \<open>P\<close> is the platform. At a barrier the parameter \<open>others\<close> is what the other threads do while the
  caller waits; at the condition variable of \<open>bare_worklet_teardown\<close> it is a list of their turns.
\<close>

section \<open>Once per process\<close>

definition bare_worklet__on_init :: "'p platform_ops \<Rightarrow> 'p wworld \<Rightarrow> 'p wworld option" where
  "bare_worklet__on_init P w = do {
     w \<leftarrow> emit_ok (Mutex_init Process_lock) w;
     w \<leftarrow> emit_ok Cond_init w;
     let w = emit (Process Ignore_sigpipe) w;
     w \<leftarrow> emit_ok (Process Set_rlimit) w;
     expose_symbols P w
   }"

definition once_init :: "'p platform_ops \<Rightarrow> 'p wworld \<Rightarrow> 'p wworld option" where
  "once_init P w =
     (if init_guard w then Some w
      else map_option (\<lambda>w. w\<lparr>init_guard := True\<rparr>) (bare_worklet__on_init P w))"

section \<open>Creating\<close>

text \<open>\<open>calloc\<close> of the two structs.\<close>

definition calloc_worklet :: "'p wworld \<Rightarrow> ptr \<times> 'p wworld" where
  "calloc_worklet w = (let (p, w) = malloc_struct w
     in (p, if p = NULL then w else w\<lparr>worklet := Some zero_worklet\<rparr>))"

definition calloc_state :: "'p wworld \<Rightarrow> ptr \<times> 'p wworld" where
  "calloc_state w = (let (p, w) = malloc_struct w
     in (p, if p = NULL then w else w\<lparr>wstate := Some zero_state\<rparr>))"

text \<open>\<open>opts\<close> is \<open>None\<close> for a null pointer. The result is a status and the address written.\<close>

definition bare_worklet_create ::
  "'p platform_ops \<Rightarrow> (nat \<Rightarrow> bare_queue_message_t) \<Rightarrow> (nat \<Rightarrow> bare_queue_message_t)
     \<Rightarrow> bare_worklet_options_t option \<Rightarrow> 'p wworld \<Rightarrow> ((int \<times> ptr) \<times> 'p wworld) option" where
  "bare_worklet_create P g_uv g_thread opts w = do {
     w \<leftarrow> once_init P w;
     let (p, w) = calloc_worklet w;
     let (s, w) = calloc_state w;
     (q, w) \<leftarrow> bare_queue_create g_uv g_thread w;
     if p = NULL \<or> s = NULL \<or> q = NULL then do {
       w \<leftarrow> (if q \<noteq> NULL then bare_queue_destroy w else Some w);
       let w = w\<lparr>wstate := None\<rparr>;
       let w = w\<lparr>worklet := None\<rparr>;
       Some ((-1, NULL), w)
     } else do {
       w \<leftarrow> emit_ok (Mutex_init State_lock) w;
       k \<leftarrow> worklet w;
       let k = k\<lparr>state := s, worklet_queue := q\<rparr>;
       (k, w) \<leftarrow> (case opts of
                   None \<Rightarrow> Some (k, w)
                 | Some opts \<Rightarrow> do {
                     let k = k\<lparr>options := (options k)\<lparr>memory_limit := memory_limit opts\<rparr>\<rparr>;
                     (kept, w) \<leftarrow> retain_context P (options k) opts w;
                     Some (k\<lparr>options := kept\<rparr>, w)
                   });
       Some ((0, p), w\<lparr>worklet := Some k\<rparr>)
     }
   }"

section \<open>Configuring\<close>

definition set_callbacks :: "(bare_worklet_callbacks \<Rightarrow> bare_worklet_callbacks) \<Rightarrow> 'p wworld
    \<Rightarrow> (int \<times> 'p wworld) option" where
  "set_callbacks f w = do {
     _ \<leftarrow> worklet w;
     s \<leftarrow> wstate w;
     Some (0, w\<lparr>wstate := Some (s\<lparr>callbacks := f (callbacks s)\<rparr>)\<rparr>)
   }"

definition bare_worklet_on_suspend :: "ptr \<Rightarrow> ptr \<Rightarrow> 'p wworld \<Rightarrow> (int \<times> 'p wworld) option" where
  "bare_worklet_on_suspend cb data = set_callbacks (\<lambda>c. c\<lparr>suspend_cb := cb, suspend_data := data\<rparr>)"

definition bare_worklet_on_wakeup :: "ptr \<Rightarrow> ptr \<Rightarrow> 'p wworld \<Rightarrow> (int \<times> 'p wworld) option" where
  "bare_worklet_on_wakeup cb data = set_callbacks (\<lambda>c. c\<lparr>wakeup_cb := cb, wakeup_data := data\<rparr>)"

definition bare_worklet_on_idle :: "ptr \<Rightarrow> ptr \<Rightarrow> 'p wworld \<Rightarrow> (int \<times> 'p wworld) option" where
  "bare_worklet_on_idle cb data = set_callbacks (\<lambda>c. c\<lparr>idle_cb := cb, idle_data := data\<rparr>)"

definition bare_worklet_on_resume :: "ptr \<Rightarrow> ptr \<Rightarrow> 'p wworld \<Rightarrow> (int \<times> 'p wworld) option" where
  "bare_worklet_on_resume cb data = set_callbacks (\<lambda>c. c\<lparr>resume_cb := cb, resume_data := data\<rparr>)"

definition bare_worklet_on_exit :: "ptr \<Rightarrow> ptr \<Rightarrow> 'p wworld \<Rightarrow> (int \<times> 'p wworld) option" where
  "bare_worklet_on_exit cb data = set_callbacks (\<lambda>c. c\<lparr>exit_cb := cb, exit_data := data\<rparr>)"

definition bare_worklet_get_data :: "'p wworld \<Rightarrow> ptr option" where
  "bare_worklet_get_data w = map_option worklet_data (worklet w)"

definition bare_worklet_set_data :: "ptr \<Rightarrow> 'p wworld \<Rightarrow> 'p wworld option" where
  "bare_worklet_set_data data w = do {
     k \<leftarrow> worklet w;
     Some (w\<lparr>worklet := Some (k\<lparr>worklet_data := data\<rparr>)\<rparr>)
   }"

definition bare_worklet_optimize_for_memory :: "bool \<Rightarrow> 'p wworld \<Rightarrow> (int \<times> 'p wworld) option" where
  "bare_worklet_optimize_for_memory on w = do {
     w \<leftarrow> emit_ok (Process (Setenv_threadpool (if on then ''1'' else ''4''))) w;
     Some (0, w\<lparr>optimize_for_memory := on\<rparr>)
   }"

section \<open>The platform thread\<close>

text \<open>
  The thread of the JavaScript platform up to the barrier, and from there to its end. The
  address of the platform is the environment's (\<open>js\<close>).
\<close>

definition platform_thread_begin :: "ptr \<Rightarrow> 'p wworld \<Rightarrow> 'p wworld option" where
  "platform_thread_begin js w = do {
     let w = emit (Process Setup_args) w;
     w \<leftarrow> emit_ok Loop_init w;
     w \<leftarrow> emit_ok (Async_init Shutdown_async) w;
     w \<leftarrow> emit_ok (Js (Js_create_platform (optimize_for_memory w))) w;
     let w = w\<lparr>platform := js\<rparr>;
     Some (emit (Barrier_wait Platform_barrier) w)
   }"

definition bare_worklet__on_platform_shutdown :: "'p wworld \<Rightarrow> 'p wworld" where
  "bare_worklet__on_platform_shutdown w = emit (Async_close Shutdown_async) w"

definition platform_thread_end :: "'p wworld \<Rightarrow> 'p wworld option" where
  "platform_thread_end w = do {
     w \<leftarrow> emit_ok Loop_run w;
     let w = bare_worklet__on_platform_shutdown w;
     w \<leftarrow> emit_ok (Js Js_destroy_platform) w;
     w \<leftarrow> emit_ok Loop_run w;
     emit_ok Loop_close w
   }"

definition bare_worklet__on_platform_thread :: "ptr \<Rightarrow> 'p wworld \<Rightarrow> 'p wworld option" where
  "bare_worklet__on_platform_thread js w = do {
     w \<leftarrow> platform_thread_begin js w;
     platform_thread_end w
   }"

text \<open>The barrier holds the caller until the platform thread has come to it too.\<close>

definition bare_worklet__on_platform_init :: "ptr \<Rightarrow> 'p wworld \<Rightarrow> 'p wworld option" where
  "bare_worklet__on_platform_init js w = do {
     w \<leftarrow> emit_ok (Barrier_init Platform_barrier) w;
     w \<leftarrow> emit_ok Thread_create w;
     w \<leftarrow> platform_thread_begin js w;
     let w = emit (Barrier_wait Platform_barrier) w;
     Some (emit (Barrier_destroy Platform_barrier) w)
   }"

definition once_platform :: "ptr \<Rightarrow> 'p wworld \<Rightarrow> 'p wworld option" where
  "once_platform js w =
     (if platform_guard w then Some w
      else map_option (\<lambda>w. w\<lparr>platform_guard := True\<rparr>) (bare_worklet__on_platform_init js w))"

section \<open>The running worklets of the process\<close>

definition bare_worklet__on_stopped :: "'p wworld \<Rightarrow> 'p wworld" where
  "bare_worklet__on_stopped w =
     (let w = emit (Mutex_lock Process_lock) w;
          w = w\<lparr>running := running w - 1\<rparr>;
          w = (if running w = 0 then emit Cond_signal w else w)
      in emit (Mutex_unlock Process_lock) w)"

text \<open>The start of another worklet, which is refused once the process is torn down.\<close>

definition other_starts :: "'p wworld \<Rightarrow> 'p wworld" where
  "other_starts w = (let w = emit (Mutex_lock Process_lock) w
     in emit (Mutex_unlock Process_lock) (if torn_down w then w else w\<lparr>running := running w + 1\<rparr>))"

text \<open>
  What happens while a thread waits for the condition variable, which leaves the lock to the
  others: another worklet starts or stops, or the thread gets its chance to wake up. It takes
  it if the variable was signalled since it fell asleep, or if it is a spurious one.
\<close>

datatype turn = Another_starts | Another_stops | May_wake bool

definition signalled_since :: "'p wworld \<Rightarrow> 'p wworld \<Rightarrow> bool" where
  "signalled_since w w' \<longleftrightarrow> Cond_signal \<in> set (drop (length (calls w)) (calls w'))"

text \<open>
  The wait for the running worklets, over the turns that it is given: whether it ended, and the
  state then, or when there are no more turns. \<open>wait_stopped\<close> is at the head of the loop,
  \<open>asleep\<close> in \<open>uv_cond_wait\<close>.
\<close>

function wait_stopped :: "turn list \<Rightarrow> 'p wworld \<Rightarrow> bool \<times> 'p wworld"
  and asleep :: "bool \<Rightarrow> turn list \<Rightarrow> 'p wworld \<Rightarrow> bool \<times> 'p wworld" where
  "wait_stopped ts w = (if running w > 0 then asleep False ts (emit Cond_wait w) else (True, w))"
| "asleep signalled [] w = (False, w)"
| "asleep signalled (t # ts) w = (case t of
     Another_starts \<Rightarrow> asleep (signalled \<or> signalled_since w (other_starts w)) ts (other_starts w)
   | Another_stops \<Rightarrow> asleep (signalled \<or> signalled_since w (bare_worklet__on_stopped w)) ts (bare_worklet__on_stopped w)
   | May_wake spurious \<Rightarrow> if signalled \<or> spurious then wait_stopped ts w else asleep signalled ts w)"
  by pat_completeness auto
termination
  by (relation "measure (\<lambda>x. case x of Inl (ts, w) \<Rightarrow> 2 * length ts + 1 | Inr (signalled, ts, w) \<Rightarrow> 2 * length ts)") auto

text \<open>The teardown up to the wait, and what is left after it.\<close>

definition teardown_begin :: "'p platform_ops \<Rightarrow> 'p wworld \<Rightarrow> 'p wworld option" where
  "teardown_begin P w = do {
     w \<leftarrow> once_init P w;
     let w = emit (Mutex_lock Process_lock) w;
     Some (w\<lparr>torn_down := True\<rparr>)
   }"

definition teardown_end :: "'p wworld \<Rightarrow> 'p wworld option" where
  "teardown_end w = do {
     let w = emit (Mutex_unlock Process_lock) w;
     if platform w \<noteq> NULL then do {
       w \<leftarrow> emit_ok (Async_send Shutdown_async) w;
       emit_ok Thread_join w
     } else Some w
   }"

text \<open>The result is \<open>None\<close> if it still waits when the turns are over.\<close>

definition bare_worklet_teardown ::
  "'p platform_ops \<Rightarrow> turn list \<Rightarrow> 'p wworld \<Rightarrow> (int option \<times> 'p wworld) option" where
  "bare_worklet_teardown P ts w = do {
     w \<leftarrow> teardown_begin P w;
     let (stopped, w) = wait_stopped ts w;
     if stopped then do {
       w \<leftarrow> teardown_end w;
       Some (Some 0, w)
     } else Some (None, w)
   }"

section \<open>Starting\<close>

text \<open>
  The start up to the wait for the thread, the part that can fail: the result is \<open>Inl\<close> the
  status that is returned at once, or \<open>Inr ()\<close> with the thread created. \<open>tid\<close> is what
  \<open>uv_thread_create\<close> writes to \<open>worklet->thread\<close>, whether it succeeds or not.
\<close>

definition start_thread ::
  "ptr \<Rightarrow> string \<Rightarrow> byte list option \<Rightarrow> nat \<Rightarrow> string list \<Rightarrow> 'p wworld
     \<Rightarrow> ((int + unit) \<times> 'p wworld) option" where
  "start_thread tid path src n args w = do {
     k \<leftarrow> worklet w;
     let k = k\<lparr>filename := path, source := src, source_len := n, argc := length args, argv := args\<rparr>;
     let w = w\<lparr>worklet := Some k\<rparr>;
     let w = emit (Mutex_lock Process_lock) w;
     let down = torn_down w;
     let w = (if \<not> down then w\<lparr>running := running w + 1\<rparr> else w);
     let w = emit (Mutex_unlock Process_lock) w;
     if down then Some (Inl (-1), w)
     else do {
       w \<leftarrow> emit_ok (Barrier_init Ready_barrier) w;
       let err = ret w Thread_create;
       let w = emit Thread_create w;
       let k = k\<lparr>thread := tid\<rparr>;
       let w = w\<lparr>worklet := Some k\<rparr>;
       if err < 0 then do {
         let w = emit (Barrier_destroy Ready_barrier) w;
         let w = w\<lparr>worklet := Some (k\<lparr>thread := NULL\<rparr>)\<rparr>;
         Some (Inl err, bare_worklet__on_stopped w)
       } else do {
         w \<leftarrow> emit_ok Thread_detach w;
         Some (Inr (), w)
       }
     }
   }"

text \<open>
  The wait for the thread at the barrier, in which the thread has its turns: it ends once the
  thread has come to the barrier too. Then what is left.
\<close>

definition barrier_wait :: "('p wworld \<Rightarrow> 'p wworld option) \<Rightarrow> 'p wworld \<Rightarrow> 'p wworld option" where
  "barrier_wait others w = map_option (emit (Barrier_wait Ready_barrier)) (others w)"

definition start_ready :: "('p wworld \<Rightarrow> 'p wworld option) \<Rightarrow> 'p wworld \<Rightarrow> 'p wworld option" where
  "start_ready others w = do {
     _ \<leftarrow> worklet w;
     w \<leftarrow> barrier_wait others w;
     Some (emit (Barrier_destroy Ready_barrier) w)
   }"

definition bare_worklet_start ::
  "('p wworld \<Rightarrow> 'p wworld option) \<Rightarrow> ptr \<Rightarrow> string \<Rightarrow> byte list option \<Rightarrow> nat \<Rightarrow> string list
     \<Rightarrow> 'p wworld \<Rightarrow> (int \<times> 'p wworld) option" where
  "bare_worklet_start others tid path src n args w = do {
     (r, w) \<leftarrow> start_thread tid path src n args w;
     (case r of
        Inl err \<Rightarrow> Some (err, w)
      | Inr _ \<Rightarrow> do {
          w \<leftarrow> start_ready others w;
          Some (0, w)
        })
   }"

section \<open>Suspending, resuming, waking up, terminating\<close>

definition bare_worklet_suspend ::
  "'p platform_ops \<Rightarrow> int \<Rightarrow> 'p wworld \<Rightarrow> (int \<times> 'p wworld) option" where
  "bare_worklet_suspend P linger w = do {
     _ \<leftarrow> worklet w;
     s \<leftarrow> wstate w;
     let w = emit (Mutex_lock State_lock) w;
     (err, w) \<leftarrow> (if bare s \<noteq> NULL then do {
                    (linger, w) \<leftarrow> suspension_start P (suspension s) linger w;
                    _ \<leftarrow> c_assert (linger \<ge> 0);
                    let w = w\<lparr>wstate := Some (s\<lparr>suspended := True\<rparr>)\<rparr>;
                    let err = ret w (Bare (Bare_suspend linger));
                    Some (err, emit (Bare (Bare_suspend linger)) w)
                  } else Some (0, w));
     Some (err, emit (Mutex_unlock State_lock) w)
   }"

definition bare_worklet_resume ::
  "'p platform_ops \<Rightarrow> 'p wworld \<Rightarrow> (int \<times> 'p wworld) option" where
  "bare_worklet_resume P w = do {
     _ \<leftarrow> worklet w;
     s \<leftarrow> wstate w;
     let w = emit (Mutex_lock State_lock) w;
     (err, w) \<leftarrow> (if bare s \<noteq> NULL then do {
                    (err, w) \<leftarrow> suspension_end P (suspension s) w;
                    _ \<leftarrow> c_assert (err = 0);
                    let s = (if suspended s then s\<lparr>suspended := False, resuming := True\<rparr> else s);
                    let w = w\<lparr>wstate := Some s\<rparr>;
                    let err = ret w (Bare Bare_resume);
                    Some (err, emit (Bare Bare_resume) w)
                  } else Some (0, w));
     Some (err, emit (Mutex_unlock State_lock) w)
   }"

definition bare_worklet_wakeup ::
  "'p platform_ops \<Rightarrow> int \<Rightarrow> 'p wworld \<Rightarrow> (int \<times> 'p wworld) option" where
  "bare_worklet_wakeup P deadline w = do {
     _ \<leftarrow> worklet w;
     s \<leftarrow> wstate w;
     let w = emit (Mutex_lock State_lock) w;
     (err, w) \<leftarrow> (if bare s \<noteq> NULL then do {
                    (deadline, w) \<leftarrow> suspension_start P (suspension s) deadline w;
                    _ \<leftarrow> c_assert (deadline \<ge> 0);
                    let err = ret w (Bare (Bare_wakeup deadline));
                    Some (err, emit (Bare (Bare_wakeup deadline)) w)
                  } else Some (0, w));
     Some (err, emit (Mutex_unlock State_lock) w)
   }"

definition bare_worklet_terminate :: "'p wworld \<Rightarrow> (int \<times> 'p wworld) option" where
  "bare_worklet_terminate w = do {
     _ \<leftarrow> worklet w;
     s \<leftarrow> wstate w;
     let w = emit (Mutex_lock State_lock) w;
     (err, w) \<leftarrow> Some (if bare s \<noteq> NULL
                     then (ret w (Bare Bare_terminate), emit (Bare Bare_terminate) w) else (0, w));
     Some (err, emit (Mutex_unlock State_lock) w)
   }"

section \<open>Destroying\<close>

text \<open>Posting a semaphore that is not there, or through a null pointer, is a fault.\<close>

definition sem_post :: "ptr \<Rightarrow> 'p wworld \<Rightarrow> 'p wworld option" where
  "sem_post p w = (if p \<noteq> finished_ptr then None else do {
     n \<leftarrow> semaphore w;
     Some (emit Sem_post (w\<lparr>semaphore := Some (Suc n)\<rparr>))
   })"

text \<open>The two ways of \<open>bare_worklet_destroy\<close>, and what follows both.\<close>

definition destroy_started :: "'p wworld \<Rightarrow> 'p wworld option" where
  "destroy_started w = do {
     (_, w) \<leftarrow> bare_worklet_terminate w;
     k \<leftarrow> worklet w;
     sem_post (finished_sem k) w
   }"

definition destroy_unstarted :: "'p wworld \<Rightarrow> 'p wworld option" where
  "destroy_unstarted w = do {
     _ \<leftarrow> wstate w;
     let w = emit (Mutex_destroy State_lock) w;
     let w = w\<lparr>wstate := None\<rparr>;
     w \<leftarrow> bare_queue_close Uv_port w;
     bare_queue_destroy w
   }"

definition free_worklet :: "'p platform_ops \<Rightarrow> 'p wworld \<Rightarrow> 'p wworld option" where
  "free_worklet P w = do {
     k \<leftarrow> worklet w;
     w \<leftarrow> release_context P (options k) w;
     Some (w\<lparr>worklet := None\<rparr>)
   }"

definition bare_worklet_destroy :: "'p platform_ops \<Rightarrow> 'p wworld \<Rightarrow> 'p wworld option" where
  "bare_worklet_destroy P w = do {
     k \<leftarrow> worklet w;
     w \<leftarrow> (if thread k \<noteq> NULL then destroy_started w else destroy_unstarted w);
     free_worklet P w
   }"

end
