(* ===== verification/Worklet_Thread.thy ===== *)
theory Worklet_Thread
  imports Worklet
begin

text \<open>
  The worklet's own thread (\<open>src/worklet.c\<close>): the callbacks it gets from Bare, the functions
  that it gives to JavaScript for the ipc, and its body from the first line to the last.

  JavaScript and Bare are not part of the program. \<open>js\<close> is what their code does to the world
  when control goes there, at each of the points of \<open>js_entry\<close>: it runs the callbacks and
  the functions of this theory. The body of the thread is cut at the points where it waits
  for the host, \<open>bare_worklet__on_thread\<close> puts it together again.
\<close>

section \<open>Lifecycle callbacks\<close>

definition bare_worklet__on_suspend :: "int \<Rightarrow> 'p wworld \<Rightarrow> 'p wworld option" where
  "bare_worklet__on_suspend linger w = do {
     s \<leftarrow> wstate w;
     Some (if finished s then w
           else if suspend_cb (callbacks s) \<noteq> NULL
           then emit (Callback_with (suspend_cb (callbacks s)) linger (suspend_data (callbacks s))) w
           else w)
   }"

definition bare_worklet__on_wakeup :: "int \<Rightarrow> 'p wworld \<Rightarrow> 'p wworld option" where
  "bare_worklet__on_wakeup deadline w = do {
     s \<leftarrow> wstate w;
     Some (if finished s then w
           else if wakeup_cb (callbacks s) \<noteq> NULL
           then emit (Callback_with (wakeup_cb (callbacks s)) deadline (wakeup_data (callbacks s))) w
           else w)
   }"

definition bare_worklet__on_idle :: "'p platform_ops \<Rightarrow> 'p wworld \<Rightarrow> 'p wworld option" where
  "bare_worklet__on_idle P w = do {
     s \<leftarrow> wstate w;
     let w = emit (Mutex_lock State_lock) w;
     w \<leftarrow> (if \<not> resuming s then do {
             (err, w) \<leftarrow> suspension_end P (suspension s) w;
             _ \<leftarrow> c_assert (err = 0);
             Some w
           } else Some w);
     let w = emit (Mutex_unlock State_lock) w;
     Some (if finished s then w
           else if idle_cb (callbacks s) \<noteq> NULL
           then emit (Callback (idle_cb (callbacks s)) (idle_data (callbacks s))) w
           else w)
   }"

definition bare_worklet__on_resume :: "'p wworld \<Rightarrow> 'p wworld option" where
  "bare_worklet__on_resume w = do {
     s \<leftarrow> wstate w;
     let w = emit (Mutex_lock State_lock) w;
     let s = s\<lparr>resuming := False\<rparr>;
     let w = w\<lparr>wstate := Some s\<rparr>;
     let w = emit (Mutex_unlock State_lock) w;
     Some (if finished s then w
           else if resume_cb (callbacks s) \<noteq> NULL
           then emit (Callback (resume_cb (callbacks s)) (resume_data (callbacks s))) w
           else w)
   }"

section \<open>The ipc in JavaScript\<close>

definition bare_worklet__on_ipc_finalize :: "ptr \<Rightarrow> 'p wworld \<Rightarrow> 'p wworld option" where
  "bare_worklet__on_ipc_finalize data w = free_block data w"

text \<open>A JavaScript value that the engine is asked for; the code asserts that it gets it.\<close>

definition js_create :: "js_value_t \<Rightarrow> 'p wworld \<Rightarrow> (js_value_t \<times> 'p wworld) option" where
  "js_create v w = do {
     w \<leftarrow> emit_ok (Js (Js_create_value v)) w;
     Some (v, w)
   }"

definition bare_worklet__on_ipc_read ::
  "port_ptr \<Rightarrow> 'p wworld \<Rightarrow> (js_value_t \<times> 'p wworld) option" where
  "bare_worklet__on_ipc_read port w = do {
     w \<leftarrow> emit_ok (Js Js_get_callback_info) w;
     ((status, message), w) \<leftarrow> bare_queue_read port w;
     if status = bare_queue_would_block then js_create Js_undefined w
     else do {
       m \<leftarrow> message;
       if len m = 0 then js_create Js_null w
       else js_create (Js_external_arraybuffer (base m) (len m)) w
     }
   }"

text \<open>
  \<open>args\<close> are the arguments of the call, of which the code takes at most one. What is not a
  typed array has no bytes to give, and \<open>js_get_typedarray_info\<close> fails.
\<close>

definition bare_worklet__on_ipc_write ::
  "port_ptr \<Rightarrow> js_value_t list \<Rightarrow> 'p wworld \<Rightarrow> (js_value_t \<times> 'p wworld) option" where
  "bare_worklet__on_ipc_write port args w = do {
     w \<leftarrow> emit_ok (Js Js_get_callback_info) w;
     _ \<leftarrow> c_assert (length args = 1);
     data \<leftarrow> (case hd args of Js_typedarray data \<Rightarrow> Some data | _ \<Rightarrow> None);
     w \<leftarrow> emit_ok (Js Js_get_typedarray_info) w;
     (n, w) \<leftarrow> bare_queue_write port data w;
     js_create (if n = bare_queue_closed then Js_null else Js_int32 n) w
   }"

definition bare_worklet__on_ipc_end ::
  "port_ptr \<Rightarrow> 'p wworld \<Rightarrow> (js_value_t \<times> 'p wworld) option" where
  "bare_worklet__on_ipc_end port w = do {
     w \<leftarrow> emit_ok (Js Js_get_callback_info) w;
     w \<leftarrow> bare_queue_end port w;
     Some (Js_undefined, w)
   }"

definition bare_worklet__on_ipc_ref ::
  "port_ptr \<Rightarrow> 'p wworld \<Rightarrow> (js_value_t \<times> 'p wworld) option" where
  "bare_worklet__on_ipc_ref port w = do {
     w \<leftarrow> emit_ok (Js Js_get_callback_info) w;
     _ \<leftarrow> queue w;
     Some (Js_undefined, emit (Async_ref Queue_async) w)
   }"

definition bare_worklet__on_ipc_unref ::
  "port_ptr \<Rightarrow> 'p wworld \<Rightarrow> (js_value_t \<times> 'p wworld) option" where
  "bare_worklet__on_ipc_unref port w = do {
     w \<leftarrow> emit_ok (Js Js_get_callback_info) w;
     _ \<leftarrow> queue w;
     Some (Js_undefined, emit (Async_unref Queue_async) w)
   }"

text \<open>\<open>fn\<close> is what the JavaScript function does that the worklet's script gave for signals.\<close>

definition bare_worklet__on_ipc_signal ::
  "('p wworld \<Rightarrow> 'p wworld option) \<Rightarrow> port_ptr \<Rightarrow> 'p wworld \<Rightarrow> 'p wworld option" where
  "bare_worklet__on_ipc_signal fn port w = do {
     q \<leftarrow> queue w;
     _ \<leftarrow> c_assert (port_data (port_at q port) = thread_ipc_ptr);
     ipc \<leftarrow> thread_ipc w;
     _ \<leftarrow> c_assert (signal ipc);
     w \<leftarrow> emit_ok (Js Js_open_handle_scope) w;
     w \<leftarrow> emit_ok (Js Js_get_reference_value) w;
     w \<leftarrow> emit_ok (Js Js_get_global) w;
     let w = emit (Js (Js_call_function ''signal'' [])) w;
     w \<leftarrow> fn w;
     emit_ok (Js Js_close_handle_scope) w
   }"

section \<open>The body of the thread\<close>

datatype js_entry =
    Open_ipc \<comment> \<open>the call of \<open>openIPC\<close>\<close>
  | Start_module \<comment> \<open>the call of \<open>start\<close>\<close>
  | Run_loop \<comment> \<open>\<open>bare_run\<close>\<close>
  | Teardown_bare \<comment> \<open>\<open>bare_teardown\<close>\<close>

text \<open>Lines 495 to 547: the loop and the Bare instance, whose address is \<open>inst\<close>.\<close>

definition thread_setup :: "'p platform_ops \<Rightarrow> ptr \<Rightarrow> ptr \<Rightarrow> 'p wworld \<Rightarrow> 'p wworld option" where
  "thread_setup P js_plat inst w = do {
     w \<leftarrow> once_platform js_plat w;
     k \<leftarrow> worklet w;
     s \<leftarrow> wstate w;
     w \<leftarrow> on_thread_enter P w;
     w \<leftarrow> emit_ok Sem_init w;
     let w = w\<lparr>semaphore := Some 0\<rparr>;
     let k = k\<lparr>finished_sem := finished_ptr\<rparr>;
     let w = w\<lparr>worklet := Some k\<rparr>;
     (err, sus, w) \<leftarrow> suspension_init P (suspension s) w;
     _ \<leftarrow> c_assert (err = 0);
     let s = s\<lparr>suspension := sus\<rparr>;
     let w = w\<lparr>wstate := Some s\<rparr>;
     w \<leftarrow> emit_ok Loop_init w;
     w \<leftarrow> emit_ok (Bare (Bare_setup (memory_limit (options k)))) w;
     w \<leftarrow> publish_context P inst (options k) w;
     w \<leftarrow> emit_ok (Bare (Bare_on Suspend_event)) w;
     w \<leftarrow> emit_ok (Bare (Bare_on Wakeup_event)) w;
     w \<leftarrow> emit_ok (Bare (Bare_on Idle_event)) w;
     w \<leftarrow> emit_ok (Bare (Bare_on Resume_event)) w;
     s \<leftarrow> wstate w;
     let w = emit (Mutex_lock State_lock) w;
     let w = w\<lparr>wstate := Some (s\<lparr>bare := inst\<rparr>)\<rparr>;
     Some (emit (Mutex_unlock State_lock) w)
   }"

text \<open>
  Lines 549 to 598: the bundle, the queue's end and what JavaScript gets of it, up to the call
  of \<open>openIPC\<close>; the bundle itself has no way to the program's state before that. Then the
  reference to the function that \<open>openIPC\<close> returned (line 600).
\<close>

definition create_native :: "string \<Rightarrow> 'p wworld \<Rightarrow> 'p wworld option" where
  "create_native name w = do {
     w \<leftarrow> emit_ok (Js (Js_create_function name)) w;
     emit_ok (Js (Js_set_named_property name)) w
   }"

definition thread_open :: "'p wworld \<Rightarrow> (port_ptr \<times> 'p wworld) option" where
  "thread_open w = do {
     w \<leftarrow> emit_ok (Js Js_open_handle_scope) w;
     w \<leftarrow> emit_ok (Bare Bare_load) w;
     w \<leftarrow> emit_ok (Js (Js_get_named_property ''exports'')) w;
     _ \<leftarrow> worklet w;
     let w = w\<lparr>thread_ipc := Some \<lparr>signal = False\<rparr>\<rparr>;
     (port, w) \<leftarrow> bare_queue_open_uv on_ipc_signal_ptr thread_ipc_ptr w;
     w \<leftarrow> emit_ok (Js Js_create_object) w;
     w \<leftarrow> create_native ''read'' w;
     w \<leftarrow> create_native ''write'' w;
     w \<leftarrow> create_native ''end'' w;
     w \<leftarrow> create_native ''ref'' w;
     w \<leftarrow> create_native ''unref'' w;
     w \<leftarrow> emit_ok (Js (Js_get_named_property ''openIPC'')) w;
     w \<leftarrow> emit_ok (Js (Js_call_function ''openIPC'' [Js_object])) w;
     Some (port, w)
   }"

definition thread_reference :: "'p wworld \<Rightarrow> 'p wworld option" where
  "thread_reference w = do {
     ipc \<leftarrow> thread_ipc w;
     w \<leftarrow> emit_ok (Js Js_create_reference) w;
     Some (w\<lparr>thread_ipc := Some (ipc\<lparr>signal := True\<rparr>)\<rparr>)
   }"

text \<open>Lines 603 to 625: the arguments of \<open>start\<close>, read from the struct of the host one last time.\<close>

definition thread_ready :: "'p platform_ops \<Rightarrow> 'p wworld \<Rightarrow> (js_value_t list \<times> 'p wworld) option" where
  "thread_ready P w = do {
     w \<leftarrow> emit_ok (Js (Js_get_named_property ''start'')) w;
     k \<leftarrow> worklet w;
     (path, w) \<leftarrow> js_create (Js_string (filename k)) w;
     (src, w) \<leftarrow> (case source k of
                   None \<Rightarrow> js_create Js_null w
                 | Some src \<Rightarrow> do {
                     _ \<leftarrow> c_assert (source_len k \<le> length src);
                     js_create (Js_arraybuffer (take (source_len k) src)) w
                   });
     ((directory, read), w) \<leftarrow> create_resources P (options k) w;
     Some ([path, src, directory, read], emit (Barrier_wait Ready_barrier) w)
   }"

text \<open>From its beginning to the barrier at which \<open>bare_worklet_start\<close> waits for it.\<close>

definition thread_to_barrier :: "'p platform_ops \<Rightarrow> ptr \<Rightarrow> ptr \<Rightarrow> 'p wworld \<Rightarrow> 'p wworld option" where
  "thread_to_barrier P js_plat inst w = do {
     w \<leftarrow> thread_setup P js_plat inst w;
     (_, w) \<leftarrow> thread_open w;
     w \<leftarrow> thread_reference w;
     (_, w) \<leftarrow> thread_ready P w;
     Some w
   }"

text \<open>Lines 627 to 633: the script and the loop. The result of the script's call is not checked.\<close>

definition thread_call_start :: "js_value_t list \<Rightarrow> 'p wworld \<Rightarrow> 'p wworld" where
  "thread_call_start args w = emit (Js (Js_call_function ''start'' args)) w"

definition thread_loop :: "'p wworld \<Rightarrow> 'p wworld option" where
  "thread_loop w = do {
     w \<leftarrow> emit_ok (Js Js_close_handle_scope) w;
     emit_ok (Bare Bare_run) w
   }"

definition thread_run ::
  "(js_entry \<Rightarrow> 'p wworld \<Rightarrow> 'p wworld option) \<Rightarrow> js_value_t list \<Rightarrow> 'p wworld \<Rightarrow> 'p wworld option" where
  "thread_run js args w = do {
     w \<leftarrow> js Start_module (thread_call_start args w);
     w \<leftarrow> thread_loop w;
     js Run_loop w
   }"

text \<open>Lines 635 to 649: the host no longer reaches the worklet.\<close>

definition thread_retire :: "port_ptr \<Rightarrow> 'p wworld \<Rightarrow> 'p wworld option" where
  "thread_retire port w = do {
     s \<leftarrow> wstate w;
     let w = w\<lparr>wstate := Some (s\<lparr>finished := True\<rparr>)\<rparr>;
     bare_queue_close port w
   }"

definition thread_detach_bare :: "'p platform_ops \<Rightarrow> 'p wworld \<Rightarrow> 'p wworld option" where
  "thread_detach_bare P w = do {
     s \<leftarrow> wstate w;
     let w = emit (Mutex_lock State_lock) w;
     let w = w\<lparr>wstate := Some (s\<lparr>bare := NULL\<rparr>)\<rparr>;
     (err, w) \<leftarrow> suspension_end P (suspension s) w;
     _ \<leftarrow> c_assert (err = 0);
     Some (emit (Mutex_unlock State_lock) w)
   }"

text \<open>Lines 651 to 655: no signal from here on.\<close>

definition thread_shutdown :: "'p wworld \<Rightarrow> 'p wworld option" where
  "thread_shutdown w = do {
     w \<leftarrow> bare_queue_shutdown_uv w;
     ipc \<leftarrow> thread_ipc w;
     _ \<leftarrow> c_assert (signal ipc);
     w \<leftarrow> emit_ok (Js Js_delete_reference) w;
     Some (w\<lparr>thread_ipc := Some (ipc\<lparr>signal := False\<rparr>)\<rparr>)
   }"

text \<open>
  Lines 657 to 668, around what JavaScript does in \<open>bare_teardown\<close>, which gives the exit code
  \<open>code\<close>: the exit callback and one running worklet less.
\<close>

definition thread_exit :: "'p platform_ops \<Rightarrow> int \<Rightarrow> 'p wworld \<Rightarrow> 'p wworld option" where
  "thread_exit P code w = do {
     w \<leftarrow> emit_ok (Bare Bare_teardown) w;
     w \<leftarrow> emit_ok Loop_close w;
     s \<leftarrow> wstate w;
     w \<leftarrow> suspension_destroy P (suspension s) w;
     let w = (if exit_cb (callbacks s) \<noteq> NULL
              then emit (Callback_with (exit_cb (callbacks s)) code (exit_data (callbacks s))) w else w);
     Some (bare_worklet__on_stopped w)
   }"

text \<open>
  Lines 671 to 681, for which the host must have posted the semaphore: the thread gives back
  its share of the queue, frees the state, and its stack frame ends.
\<close>

definition thread_free :: "'p platform_ops \<Rightarrow> 'p wworld \<Rightarrow> 'p wworld option" where
  "thread_free P w = do {
     n \<leftarrow> semaphore w;
     _ \<leftarrow> c_assert (0 < n);
     let w = emit Sem_wait w;
     let w = emit Sem_destroy w;
     let w = w\<lparr>semaphore := None\<rparr>;
     w \<leftarrow> bare_queue_destroy w;
     w \<leftarrow> on_thread_exit P w;
     _ \<leftarrow> wstate w;
     let w = emit (Mutex_destroy State_lock) w;
     let w = w\<lparr>wstate := None\<rparr>;
     Some (w\<lparr>thread_ipc := None\<rparr>)
   }"

text \<open>
  The whole body. \<open>host\<close> is what the host does while the thread waits: \<open>False\<close> at the barrier,
  \<open>True\<close> at the semaphore.
\<close>

definition bare_worklet__on_thread ::
  "'p platform_ops \<Rightarrow> (js_entry \<Rightarrow> 'p wworld \<Rightarrow> 'p wworld option) \<Rightarrow> (bool \<Rightarrow> 'p wworld \<Rightarrow> 'p wworld option)
     \<Rightarrow> ptr \<Rightarrow> ptr \<Rightarrow> int \<Rightarrow> 'p wworld \<Rightarrow> 'p wworld option" where
  "bare_worklet__on_thread P js host js_plat inst code w = do {
     w \<leftarrow> thread_setup P js_plat inst w;
     (port, w) \<leftarrow> thread_open w;
     w \<leftarrow> js Open_ipc w;
     w \<leftarrow> thread_reference w;
     (args, w) \<leftarrow> thread_ready P w;
     w \<leftarrow> host False w;
     w \<leftarrow> thread_run js args w;
     w \<leftarrow> thread_retire port w;
     w \<leftarrow> thread_detach_bare P w;
     w \<leftarrow> thread_shutdown w;
     w \<leftarrow> js Teardown_bare w;
     w \<leftarrow> thread_exit P code w;
     w \<leftarrow> host True w;
     thread_free P w
   }"

end
