(* ===== verification/Worklet_Life.thy ===== *)
theory Worklet_Life
  imports Worklet_Thread
begin

text \<open>
  The life of a worklet up to its start and past its end: what creating one leaves behind
  when it fails, what the host's part of starting one comes to, that tearing down the process
  waits for the worklets and no longer, and what a worklet that never ran still owes its ipc.
\<close>

section \<open>Creating\<close>

text \<open>What is there after the allocations, each of which may have failed.\<close>

definition new_worklet :: "bare_worklet_options_t \<Rightarrow> ptr \<Rightarrow> ptr \<Rightarrow> bare_worklet_t" where
  "new_worklet opts s q = zero_worklet\<lparr>options := opts, state := s, worklet_queue := q\<rparr>"

definition memory_for_worklet :: "'z machine_scheme \<Rightarrow> bool" where
  "memory_for_worklet w \<longleftrightarrow> \<not> oom w (brk w) \<and> \<not> oom w (Suc (brk w)) \<and> \<not> oom w (Suc (Suc (brk w)))"

lemma heap_ok_brk: "heap_ok w \<Longrightarrow> brk w \<le> k \<Longrightarrow> heap_ok (w\<lparr>brk := k\<rparr>)"
  by (auto simp: heap_ok_def intro: order_less_le_trans)

lemma destroy_initial:
  assumes "heap_ok w" and "queue w = Some (initial_queue g1 g2)"
  shows "bare_queue_destroy w = Some (w\<lparr>queue := None,
    calls := calls w @ [Mutex_lock Queue_lock, Mutex_unlock Queue_lock, Mutex_destroy Queue_lock]\<rparr>)"
proof -
  have ok: "world_ok w" using assms by (simp add: world_ok_def initial_queue_ok)
  have "bare_queue__unowned ((initial_queue g1 g2)\<lparr>destroyed := True\<rparr>)"
    by (simp add: bare_queue__unowned_def initial_queue_def)
  moreover have "messages_of (initial_queue g1 g2) = []"
    by (simp add: messages_of_def initial_queue_def initial_ring)
  then have "messages_of ((initial_queue g1 g2)\<lparr>destroyed := True\<rparr>) = []"
    by (simp add: messages_of_def)
  moreover have "blocks w |` UNIV = blocks w" by (simp add: restrict_map_def)
  ultimately show ?thesis
    using destroy_eq [OF ok assms(2)]
    by (simp add: freed_def destroying_def owned_def)
qed

context worklet_platform
begin

lemma once_init_spec:
  assumes "ready b (native w)" and "calls_ok w"
  shows "\<exists>cs n. once_init P w = Some (w\<lparr>calls := calls w @ cs, native := n, init_guard := True\<rparr>) \<and> ready b n
    \<and> carried offered (native w) n"
proof (cases "init_guard w")
  case True
  then show ?thesis
    using assms(1) by (intro exI [of _ "[]"] exI [of _ "native w"]) (simp add: once_init_def)
next
  case False
  let ?w = "emit (Process Set_rlimit) (emit (Process Ignore_sigpipe) (emit Cond_init (emit (Mutex_init Process_lock) w)))"
  obtain w' where w': "expose_symbols P ?w = Some w'" "native_only ?w w'" "ready b (native w')"
      "carried offered (native w) (native w')"
    using expose [of b ?w] assms by auto
  then obtain cs n where "w' = ?w\<lparr>calls := calls ?w @ cs, native := n\<rparr>" by (auto elim: native_onlyE)
  then have "w' = w\<lparr>calls := calls w @ (drop (length (calls w)) (calls ?w) @ cs), native := n\<rparr>" "native w' = n"
    by (simp_all add: emit_def)
  then show ?thesis
    using False w' assms(2)
    by (intro exI) (auto simp: once_init_def bare_worklet__on_init_def emit_ok_calls)
qed

lemma create_spec:
  assumes r: "ready b (native w)" and c: "calls_ok w" and ok: "world_ok w"
    and none: "worklet w = None" "wstate w = None" "queue w = None"
    and offer: "\<forall>opts0. opts = Some opts0 \<longrightarrow> offered opts0 (native w)"
  shows "\<exists>w'. bare_worklet_create P g1 g2 opts w
      = Some (if memory_for_worklet w then (0, brk w) else (-1, NULL), w')
    \<and> ready b (native w') \<and> calls_ok w' \<and> blocks w' = blocks w \<and> brk w' = Suc (Suc (Suc (brk w)))
    \<and> ipcs w' = ipcs w \<and> polls w' = polls w \<and> signals w' = signals w \<and> self w' = self w
    \<and> ret w' = ret w \<and> oom w' = oom w \<and> semaphore w' = semaphore w \<and> thread_ipc w' = thread_ipc w
    \<and> running w' = running w \<and> torn_down w' = torn_down w \<and> init_guard w'
    \<and> (if memory_for_worklet w
       then (\<exists>kept. worklet w' = Some (new_worklet kept (Suc (brk w)) (Suc (Suc (brk w))))
             \<and> (case opts of None \<Rightarrow> kept = zero_options | Some opts \<Rightarrow> memory_limit kept = memory_limit opts)
             \<and> held kept (native w'))
           \<and> wstate w' = Some zero_state \<and> queue w' = Some (initial_queue g1 g2)
       else worklet w' = None \<and> wstate w' = None \<and> queue w' = None)"
proof -
  have b: "0 < brk w" "brk w \<noteq> NULL" using ok by (auto simp: world_ok_def heap_ok_def NULL_def)
  obtain cs n where once: "once_init P w = Some (w\<lparr>calls := calls w @ cs, native := n, init_guard := True\<rparr>)"
      "ready b n" "carried offered (native w) n" using once_init_spec [OF r c] by blast
  have zero: "zero_options\<lparr>memory_limit := 0\<rparr> = zero_options" by (simp add: zero_options_def)
  let ?w1 = "w\<lparr>calls := calls w @ cs, native := n, init_guard := True\<rparr>"
  have ret: "ret w (Mutex_init Queue_lock) = 0" "ret w (Mutex_init State_lock) = 0"
    using c by (simp_all add: calls_ok_def)
  show ?thesis
  proof (cases "memory_for_worklet w")
    case True
    then have m: "\<not> oom w (brk w)" "\<not> oom w (Suc (brk w))" "\<not> oom w (Suc (Suc (brk w)))"
      by (simp_all add: memory_for_worklet_def)
    let ?w2 = "w\<lparr>native := n, init_guard := True, worklet := Some zero_worklet, wstate := Some zero_state,
        brk := Suc (Suc (Suc (brk w))), queue := Some (initial_queue g1 g2),
        calls := calls w @ cs @ [Mutex_init Queue_lock, Mutex_init State_lock]\<rparr>"
    show ?thesis
    proof (cases opts)
      case None
      then show ?thesis
        using True m b once ret c none nothing_held [OF once(2), of 0] zero
        by (simp add: bare_worklet_create_def calloc_worklet_def calloc_state_def malloc_struct_def
            create_eq emit_ok_def emit_def NULL_def new_worklet_def zero_worklet_def calls_ok_def)
    next
      case (Some o1)
      let ?k = "zero_options\<lparr>memory_limit := memory_limit o1\<rparr>"
      have pre: "ready b (native ?w2)" "calls_ok ?w2" "offered o1 (native ?w2)" "held ?k (native ?w2)"
        using once(2,3) c offer Some nothing_held [OF once(2)] by (simp_all add: calls_ok_def carried_def)
      obtain kept w' where w': "retain_context P ?k o1 ?w2 = Some (kept, w')" "native_only ?w2 w'"
          "ready b (native w')" "memory_limit kept = memory_limit ?k" "held kept (native w')"
        using retain [OF pre] by blast
      then obtain cs' n' where "w' = ?w2\<lparr>calls := calls ?w2 @ cs', native := n'\<rparr>"
        by (auto elim: native_onlyE)
      then show ?thesis
        using True Some m b once ret c none w'
        by (simp add: bare_worklet_create_def calloc_worklet_def calloc_state_def malloc_struct_def
            create_eq emit_ok_def emit_def NULL_def new_worklet_def zero_worklet_def calls_ok_def)
    qed
  next
    case False
    have h: "heap_ok w" using ok by (simp add: world_ok_def)
    show ?thesis
      using False b once ret c none h
      by (auto simp: bare_worklet_create_def calloc_worklet_def calloc_state_def malloc_struct_def
          create_eq emit_ok_def emit_def NULL_def calls_ok_def memory_for_worklet_def
          destroy_initial heap_ok_brk)
  qed
qed

end

text \<open>
  A worklet is created exactly when its three allocations succeed; it then has a zeroed
  state, a queue that nobody has opened and a copy of the memory limit. In every other case
  the result is -1, the pointer written is null, and nothing is left behind: no struct, no
  state, no queue, no block.
\<close>

theorem worklet_create_exact:
  assumes "calls_ok w" and "world_ok w" and "worklet w = None" and "wstate w = None" and "queue w = None"
    and "bare_worklet_create default_platform g1 g2 opts w = Some ((r, p), w')"
  shows "blocks w' = blocks w \<and> running w' = running w \<and>
    (if memory_for_worklet w
     then r = 0 \<and> p = brk w \<and> wstate w' = Some zero_state \<and> queue w' = Some (initial_queue g1 g2)
       \<and> (\<exists>kept. worklet w' = Some (new_worklet kept (Suc (brk w)) (Suc (Suc (brk w))))
            \<and> memory_limit kept = (case opts of None \<Rightarrow> 0 | Some opts \<Rightarrow> memory_limit opts))
     else r = -1 \<and> p = NULL \<and> worklet w' = None \<and> wstate w' = None \<and> queue w' = None)"
  using default.create_spec [OF TrueI assms(1-5), of opts g1 g2] assms(6)
  by (cases opts) (auto simp: zero_options_def split: if_splits)

definition empty_world :: "unit wworld" where
  "empty_world = \<lparr>blocks = Map.empty, brk = 5, oom = (\<lambda>_. False), junk = (\<lambda>_ _. 0), calls = [],
     ret = (\<lambda>_. 0), queue = None, ipcs = Map.empty, polls = Map.empty, signals = Map.empty, self = NULL,
     worklet = None, wstate = None, semaphore = None, thread_ipc = None, init_guard = False,
     running = 0, torn_down = False, platform_guard = False, platform = NULL,
     optimize_for_memory = False, native = ()\<rparr>"

lemma empty_world_simps [simp]:
  "worklet empty_world = None" "wstate empty_world = None" "queue empty_world = None"
  "ipcs empty_world = Map.empty" "running empty_world = 0" "brk empty_world = 5"
  "oom empty_world = (\<lambda>_. False)" "blocks empty_world = Map.empty" "torn_down empty_world = False"
  by (simp_all add: empty_world_def)

lemma empty_world_ok: "calls_ok empty_world" "world_ok empty_world"
  by (simp_all add: calls_ok_def world_ok_def heap_ok_def empty_world_def)

theorem worklet_create_exact_witness:
  "\<exists>w'. bare_worklet_create default_platform no_garbage no_garbage None
       (empty_world\<lparr>oom := (\<lambda>p. p = 7)\<rparr>) = Some ((-1, NULL), w')
     \<and> worklet w' = None \<and> wstate w' = None \<and> queue w' = None"
proof -
  let ?w = "empty_world\<lparr>oom := (\<lambda>p. p = 7)\<rparr>"
  have ok: "calls_ok ?w" "world_ok ?w"
    by (simp_all add: calls_ok_def world_ok_def heap_ok_def empty_world_def)
  have none: "worklet ?w = None" "wstate ?w = None" "queue ?w = None" by simp_all
  have m: "\<not> memory_for_worklet ?w" by (simp add: memory_for_worklet_def)
  obtain r p w' where c: "bare_worklet_create default_platform no_garbage no_garbage None ?w = Some ((r, p), w')"
    using default.create_spec [OF TrueI ok none, of None no_garbage no_garbage] m by auto
  show ?thesis using worklet_create_exact [OF ok none c] m c by simp
qed

section \<open>Starting\<close>

lemma start_thread_eq:
  assumes "worklet w = Some k" and "ret w (Barrier_init Ready_barrier) = 0" and "ret w Thread_detach = 0"
  shows "start_thread tid path src n args w = Some
    (let k' = k\<lparr>filename := path, source := src, source_len := n, argc := length args, argv := args\<rparr>;
         cs = [Mutex_lock Process_lock, Mutex_unlock Process_lock];
         begun = [Barrier_init Ready_barrier, Thread_create];
         stop = [Barrier_destroy Ready_barrier, Mutex_lock Process_lock]
           @ (if running w = 0 then [Cond_signal] else []) @ [Mutex_unlock Process_lock]
     in if torn_down w then (Inl (-1), w\<lparr>worklet := Some k', calls := calls w @ cs\<rparr>)
        else if ret w Thread_create < 0
        then (Inl (ret w Thread_create), w\<lparr>running := running w,
               worklet := Some (k'\<lparr>thread := NULL\<rparr>), calls := calls w @ cs @ begun @ stop\<rparr>)
        else (Inr (), w\<lparr>running := running w + 1, worklet := Some (k'\<lparr>thread := tid\<rparr>),
               calls := calls w @ cs @ begun @ [Thread_detach]\<rparr>))"
  using assms
  by (simp add: start_thread_def emit_ok_def emit_def Let_def bare_worklet__on_stopped_def)

section \<open>Tearing down the process\<close>

definition stops :: "turn list \<Rightarrow> nat" where
  "stops ts = count_list ts Another_stops"

lemma stops_simps [simp]:
  "stops [] = 0" "stops (Another_starts # ts) = stops ts" "stops (Another_stops # ts) = Suc (stops ts)"
  "stops (May_wake b # ts) = stops ts"
  by (simp_all add: stops_def)

text \<open>There is a chance to wake up after \<open>n\<close> worklets have stopped.\<close>

definition woken_after :: "int \<Rightarrow> turn list \<Rightarrow> bool" where
  "woken_after n ts \<longleftrightarrow> (\<exists>us b vs. ts = us @ May_wake b # vs \<and> int (stops us) = n)"

lemma woken_after_simps [simp]:
  "\<not> woken_after n []"
  "woken_after n (Another_starts # ts) = woken_after n ts"
  "woken_after n (Another_stops # ts) = woken_after (n - 1) ts"
  "woken_after n (May_wake b # ts) = (n = 0 \<or> woken_after n ts)"
proof -
  have c: "t # ts = us @ May_wake b # vs \<longleftrightarrow> us = [] \<and> t = May_wake b \<and> ts = vs
      \<or> (\<exists>us'. us = t # us' \<and> ts = us' @ May_wake b # vs)" for t ts us b vs
    by (cases us) auto
  show "\<not> woken_after n []" "woken_after n (Another_starts # ts) = woken_after n ts"
      "woken_after n (May_wake b # ts) = (n = 0 \<or> woken_after n ts)"
    unfolding woken_after_def c by (auto intro: exI [of _ "[]"]) (metis stops_simps)+
  have "int (Suc m) = n \<longleftrightarrow> int m = n - 1" for m by auto
  then show "woken_after n (Another_stops # ts) = woken_after (n - 1) ts"
    unfolding woken_after_def c by (auto; metis stops_simps(3))
qed

lemma other_starts_down: "torn_down w \<Longrightarrow>
    other_starts w = w\<lparr>calls := calls w @ [Mutex_lock Process_lock, Mutex_unlock Process_lock]\<rparr>"
  by (simp add: other_starts_def emit_def Let_def)

lemma on_stopped_eq:
  "bare_worklet__on_stopped w = w\<lparr>running := running w - 1,
     calls := calls w @ [Mutex_lock Process_lock] @ (if running w = 1 then [Cond_signal] else []) @ [Mutex_unlock Process_lock]\<rparr>"
  by (simp add: bare_worklet__on_stopped_def emit_def Let_def)

lemma signalled_since_stop: "signalled_since w (bare_worklet__on_stopped w) \<longleftrightarrow> running w = 1"
  by (simp add: signalled_since_def on_stopped_eq)

text \<open>A thread that sleeps on has been signalled unless a worklet runs.\<close>

lemma asleep_spec:
  assumes "torn_down w" and "0 \<le> running w" and "running w = 0 \<longrightarrow> signalled" and "int (stops ts) \<le> running w"
  shows "\<exists>w'. asleep signalled ts w = (woken_after (running w) ts, w') \<and> torn_down w' \<and> ret w' = ret w
    \<and> (woken_after (running w) ts \<longrightarrow> running w' = 0)"
  using assms
proof (induction ts arbitrary: w signalled)
  case (Cons t ts)
  show ?case
  proof (cases t)
    case Another_starts
    have "\<not> signalled_since w (other_starts w)" using Cons.prems(1) by (simp add: other_starts_down signalled_since_def)
    then show ?thesis using Cons.IH [of "other_starts w" signalled] Cons.prems Another_starts
      by (simp add: other_starts_down)
  next
    case Another_stops
    then show ?thesis
      using Cons.IH [of "bare_worklet__on_stopped w" "signalled \<or> running w = 1"] Cons.prems
      by (simp add: signalled_since_stop) (simp add: on_stopped_eq)
  next
    case (May_wake b)
    show ?thesis
    proof (cases "0 < running w")
      case True
      then show ?thesis
        using Cons.IH [of "emit Cond_wait w" False] Cons.IH [of w signalled] Cons.prems May_wake by auto
    next
      case False
      then show ?thesis using Cons.prems May_wake by auto
    qed
  qed
qed simp

context worklet_platform
begin

lemma teardown_spec:
  assumes r: "ready b (native w)" and c: "calls_ok w" and n: "0 \<le> running w" "int (stops ts) \<le> running w"
  shows "\<exists>w'. bare_worklet_teardown P ts w = Some (if running w = 0 \<or> woken_after (running w) ts then Some 0 else None, w')
    \<and> torn_down w' \<and> (running w = 0 \<or> woken_after (running w) ts \<longrightarrow> running w' = 0)"
proof -
  obtain cs m where once: "once_init P w = Some (w\<lparr>calls := calls w @ cs, native := m, init_guard := True\<rparr>)"
    using once_init_spec [OF r c] by blast
  let ?w = "emit (Mutex_lock Process_lock) (w\<lparr>calls := calls w @ cs, native := m, init_guard := True\<rparr>)
    \<lparr>torn_down := True\<rparr>"
  have begin_eq: "teardown_begin P w = Some ?w" using once by (simp add: teardown_begin_def)
  obtain w1 where w1: "wait_stopped ts ?w = (running w = 0 \<or> woken_after (running w) ts, w1)" "torn_down w1" "ret w1 = ret w"
      "running w = 0 \<or> woken_after (running w) ts \<longrightarrow> running w1 = 0"
  proof (cases "running w = 0")
    case True
    then show ?thesis using that [of ?w] by simp
  next
    case False
    then show ?thesis using asleep_spec [of "emit Cond_wait ?w" False ts] n that by auto
  qed
  have "calls_ok w1" using w1(3) c by (simp add: calls_ok_def)
  then show ?thesis
    using w1 by (auto simp: bare_worklet_teardown_def begin_eq teardown_end_def emit_ok_calls Let_def)
qed

end

text \<open>
  C37: Tearing down the process returns as soon as it can, and no sooner. Whatever turns the other
  threads get while it waits, in which no more worklets stop than run: it returns 0 if none
  ran, or once all have stopped and it gets the chance to wake up, although no wake-up is
  spurious, and by then none runs. Until then it waits, spurious wake-ups or not.
\<close>

theorem worklet_teardown_returns:
  assumes "calls_ok w" and "0 \<le> running w" and "int (stops ts) \<le> running w"
  shows "\<exists>r w'. bare_worklet_teardown default_platform ts w = Some (r, w') \<and> torn_down w'
    \<and> r = (if running w = 0 \<or> (\<exists>us b vs. ts = us @ May_wake b # vs \<and> int (stops us) = running w) then Some 0 else None)
    \<and> (r = Some 0 \<longrightarrow> running w' = 0)"
proof -
  have e: "(\<exists>us b vs. ts = us @ May_wake b # vs \<and> int (stops us) = running w) = woken_after (running w) ts"
    by (simp only: woken_after_def)
  show ?thesis unfolding e using default.teardown_spec [OF TrueI assms] by auto
qed

theorem worklet_teardown_returns_witness:
  "\<exists>w'. bare_worklet_teardown default_platform [Another_stops, May_wake True, Another_starts, Another_stops, May_wake False]
      (empty_world\<lparr>running := 2\<rparr>) = Some (Some 0, w') \<and> running w' = 0"
proof -
  let ?us = "[Another_stops, May_wake True, Another_starts, Another_stops]" and ?w = "empty_world\<lparr>running := 2\<rparr>"
  let ?ts = "?us @ [May_wake False]"
  have ok: "calls_ok ?w" by (simp add: calls_ok_def empty_world_def)
  have ex: "\<exists>us b vs. ?ts = us @ May_wake b # vs \<and> int (stops us) = running ?w"
    by (intro exI [of _ ?us] exI [of _ False] exI [of _ "[]"]) simp
  have n: "0 \<le> running ?w" "int (stops ?ts) \<le> running ?w" by simp_all
  obtain r w' where w': "bare_worklet_teardown default_platform ?ts ?w = Some (r, w')"
      "r = (if running ?w = 0 \<or> (\<exists>us b vs. ?ts = us @ May_wake b # vs \<and> int (stops us) = running ?w) then Some 0 else None)"
      "r = Some 0 \<longrightarrow> running w' = 0"
    using worklet_teardown_returns [OF ok n] by blast
  have "r = Some 0" using w'(2) by (simp only: if_P [OF disjI2 [OF ex]])
  then show ?thesis using w'(1,3) by simp
qed

section \<open>Destroying a worklet that never started\<close>

context worklet_platform
begin

lemma free_worklet_spec:
  assumes r: "ready b (native w)" and c: "calls_ok w" and k: "worklet w = Some k" and h: "held (options k) (native w)"
  shows "\<exists>cs n. free_worklet P w = Some (w\<lparr>calls := calls w @ cs, native := n, worklet := None\<rparr>)
    \<and> ready b n \<and> carried initialised (native w) n"
proof -
  obtain w' where w': "release_context P (options k) w = Some w'" "native_only w w'" "ready b (native w')"
      "carried initialised (native w) (native w')"
    using release [OF r c h] by blast
  then obtain cs n where "w' = w\<lparr>calls := calls w @ cs, native := n\<rparr>" by (auto elim: native_onlyE)
  then show ?thesis using w' k by (intro exI [of _ cs] exI [of _ n]) (simp add: free_worklet_def)
qed

end

lemma destroy_unstarted_spec:
  assumes ok: "ipc_ok w" and env: "env_ok w" and q: "queue w = Some q" "\<not> destroyed q"
    and s: "wstate w = Some s"
  shows "\<exists>w'. destroy_unstarted w = Some w' \<and> ipc_ok w' \<and> env_ok w' \<and> ipcs w' = ipcs w
    \<and> abs_world w' = reclaim ((raise_phase Uv_port bare_queue_state_closed (abs_queue w q))\<lparr>released := True\<rparr>)
    \<and> (\<forall>ipc i. ipcs w ipc = Some i \<longrightarrow> pending_bytes w' i = pending_bytes w i)
    \<and> ipc_world.more w' = ipc_world.more (w\<lparr>wstate := None\<rparr>)"
proof -
  let ?w = "(emit (Mutex_destroy State_lock) w)\<lparr>wstate := None\<rparr>"
  let ?c = "raise_phase Uv_port bare_queue_state_closed (abs_queue w q)"
  have ok0: "ipc_ok ?w" "env_ok ?w" "queue ?w = Some q" using ok env q by simp_all
  note w0 = ipc_okD(1) [OF ok0(1)]
  obtain ob w1 where s1: "queue_step (Close Uv_port) ?w = Some (ob, w1)" "env_ok w1"
      "(ob, abs_world w1) = spec_step (Close Uv_port) (abs_queue ?w q)"
    using env_step [OF ok0, of "Close Uv_port"] by (auto simp: releases_def simp del: queue_step.simps spec_step.simps)
  have c1: "bare_queue_close Uv_port ?w = Some w1" using s1(1) by auto
  have ok1: "ipc_ok w1" using step_ipc_ok [OF ok0(1,3) s1(1)] by (simp add: keeps_host_def)
  have "reclaim ?c = Some ?c" using q(2) by (simp add: reclaim_def raise_phase_def)
  then have "abs_world w1 = Some ?c" using s1(3) by (simp add: emit_def)
  then obtain q1 where q1: "queue w1 = Some q1" "abs_queue w1 q1 = ?c" by (auto simp: abs_world_def)
  obtain ob2 w2 where s2: "queue_step Destroy w1 = Some (ob2, w2)" "env_ok w2"
      "(ob2, abs_world w2) = spec_step Destroy (abs_queue w1 q1)"
    using env_step [OF ok1 s1(2) q1(1), of Destroy] by (auto simp: releases_def simp del: queue_step.simps spec_step.simps)
  have c2: "bare_queue_destroy w1 = Some w2" using s2(1) by auto
  note w1 = ipc_okD(1) [OF ok1]
  have ok2: "ipc_ok w2" using step_ipc_ok [OF ok1 q1(1) s2(1)] by (simp add: keeps_host_def)
  have same: "ipcs w1 = ipcs w" "ipcs w2 = ipcs w1"
    using step_same_host [OF w0 ok0(3) s1(1)] step_same_host [OF w1 q1(1) s2(1)] by (simp_all add: same_host_def)
  have "pending_bytes w2 i = pending_bytes w i" if i: "ipcs w ipc = Some i" for ipc i
  proof -
    have "ipc_good ?w ipc i" "ipc_good w1 ipc i"
      by (rule ipc_okD(4) [OF ok0(1)], simp add: i) (rule ipc_okD(4) [OF ok1], simp add: i same)
    then have p: "pending_ok ?w i" "pending_ok w1 i" unfolding ipc_good_def by blast+
    have "pending_bytes w1 i = pending_bytes ?w i"
      using step_pending_bytes [OF w0 ok0(3) s1(1) _ p(1)] by (simp add: keeps_host_def)
    moreover have "pending_bytes w2 i = pending_bytes w1 i"
      using step_pending_bytes [OF w1 q1(1) s2(1) _ p(2)] by (simp add: keeps_host_def)
    moreover have "pending_bytes ?w i = pending_bytes w i" by (simp add: pending_bytes_def payload_def)
    ultimately show ?thesis by simp
  qed
  moreover have "ipc_world.more w2 = ipc_world.more (w\<lparr>wstate := None\<rparr>)"
    using rest_of_ipc [OF step_rest [OF w0 ok0(3) s1(1)]] rest_of_ipc [OF step_rest [OF w1 q1(1) s2(1)]]
    by (cases w) (simp add: emit_def)
  moreover have "destroy_unstarted w = Some w2" using s c1 c2 by (simp add: destroy_unstarted_def)
  ultimately show ?thesis using ok2 s2(2,3) q1(2) same by simp
qed

text \<open>What the host can still read of a queue whose worklet has given it up.\<close>

lemma given_up_stream:
  assumes ok: "ipc_ok w" and ok': "ipc_ok w'" and i: "ipcs w ipc = Some i" "ipc_port i \<noteq> None"
    and q: "queue w = Some q" and ipcs: "ipcs w' = ipcs w" and pb: "pending_bytes w' i = pending_bytes w i"
    and a: "abs_world w' = reclaim ((raise_phase Uv_port bare_queue_state_closed (abs_queue w q))\<lparr>released := True\<rparr>)"
  shows "inbound w' ipc = inbound w ipc \<and> inbound_over w' ipc"
proof -
  obtain port where port: "ipc_port i = Some port" using i(2) by blast
  obtain q0 where "port = Thread_port" "queue w = Some q0" "bare_queue__listening (thread_state q0)"
      "bare_queue__state q0 Thread_port = thread_state q0"
    using open_ipc [OF ok i(1) port] by metis
  then have t: "port = Thread_port" "bare_queue__listening (bare_queue__state q Thread_port)" using q by auto
  define c where "c = abs_queue w q"
  let ?c = "(raise_phase Uv_port bare_queue_state_closed c)\<lparr>released := True\<rparr>"
  have "bare_queue__listening (phase c Thread_port)" using t(2) by (simp add: c_def)
  then have a': "abs_world w' = Some ?c"
    using a by (auto simp: c_def [symmetric] reclaim_def raise_phase_def bare_queue__listening_def)
  then obtain q' where q': "queue w' = Some q'" "abs_queue w' q' = ?c" by (auto simp: abs_world_def)
  have po: "ports_ok q'" using ipc_okD(1) [OF ok'] q'(1) by (auto simp: world_ok_def intro: queue_ok_ports)
  have "phase (abs_queue w' q') Uv_port = max (phase c Uv_port) bare_queue_state_closed"
    unfolding q'(2) by (simp add: raise_phase_def)
  moreover have "bare_queue_state_ended \<le> max s bare_queue_state_closed" for s
    by (cases s) (auto simp: max_def state_order)
  ultimately have "peer_ended q' Thread_port" by (simp add: peer_ended_def)
  moreover have "abs_world w = Some c" using q by (simp add: abs_world_def c_def)
  ultimately show ?thesis
    using i q' port t(1) a' pb ipcs inbound_open [of w' ipc i port q'] inbound_abs [of w ipc i port c]
      inbound_abs [of w' ipc i port ?c]
    by (simp add: raise_phase_def)
qed

text \<open>
  Destroying a worklet that never started frees its struct and its state, and gives up its
  share of the queue: the queue is freed at once unless an ipc is open. An open ipc keeps what
  it had to read and then reads the end of the stream.
\<close>

theorem worklet_destroy_unstarted:
  assumes "ipc_ok w" and "env_ok w" and "worklet w = Some k" and "thread k = NULL"
    and "wstate w = Some s" and "queue w = Some q" and "\<not> destroyed q"
  shows "\<exists>w'. bare_worklet_destroy default_platform w = Some w' \<and> worklet w' = None \<and> wstate w' = None
    \<and> ipc_ok w' \<and> ipcs w' = ipcs w
    \<and> (queue w' = None \<longleftrightarrow> \<not> bare_queue__listening (thread_state q))
    \<and> (\<forall>ipc. is_open w ipc \<longrightarrow> inbound w' ipc = inbound w ipc
         \<and> (inbound w ipc = [] \<longrightarrow> (\<exists>w2. bare_ipc_read ipc 1 w' = Some ((0, []), w2))))"
proof -
  obtain w1 where w1: "destroy_unstarted w = Some w1" "ipc_ok w1" "env_ok w1" "ipcs w1 = ipcs w"
      "abs_world w1 = reclaim ((raise_phase Uv_port bare_queue_state_closed (abs_queue w q))\<lparr>released := True\<rparr>)"
      "\<forall>ipc i. ipcs w ipc = Some i \<longrightarrow> pending_bytes w1 i = pending_bytes w i"
      "ipc_world.more w1 = ipc_world.more (w\<lparr>wstate := None\<rparr>)"
    using destroy_unstarted_spec [OF assms(1,2,6,7,5)] by blast
  have fields: "worklet w1 = Some k" "wstate w1 = None" using same_rest [OF w1(7)] assms(3) by simp_all
  obtain cs n where f: "free_worklet default_platform w1
      = Some (w1\<lparr>calls := calls w1 @ cs, native := n, worklet := None\<rparr>)"
    using default.free_worklet_spec [OF TrueI calls_ok_env [OF w1(3)] fields(1)] by blast
  let ?w' = "w1\<lparr>calls := calls w1 @ cs, native := n, worklet := None\<rparr>"
  have d: "bare_worklet_destroy default_platform w = Some ?w'"
    using assms(3,4) w1(1) f by (simp add: bare_worklet_destroy_def)
  have po: "ports_ok q" using ipc_okD(1) [OF assms(1)] assms(6) by (auto simp: world_ok_def intro: queue_ok_ports)
  define c where "c = abs_queue w q"
  have t: "phase c Thread_port = thread_state q" using po by (simp add: c_def bare_queue__state_def is_uv_port_at)
  have "abs_world w1 = None \<longleftrightarrow> \<not> bare_queue__listening (thread_state q)"
    using w1(5) t by (cases "thread_state q")
      (auto simp: c_def [symmetric] reclaim_def raise_phase_def bare_queue__listening_def)
  then have qn: "queue ?w' = None \<longleftrightarrow> \<not> bare_queue__listening (thread_state q)"
    by (simp add: abs_world_def)
  have ok': "ipc_ok ?w'" "env_ok ?w'" using w1(2,3) by simp_all
  have st: "inbound ?w' ipc = inbound w ipc
      \<and> (inbound w ipc = [] \<longrightarrow> (\<exists>w2. bare_ipc_read ipc 1 ?w' = Some ((0, []), w2)))" if o: "is_open w ipc" for ipc
  proof -
    obtain i where i: "ipcs w ipc = Some i" "ipc_port i \<noteq> None" using o by (auto simp: is_open_def)
    have "pending_bytes ?w' i = pending_bytes w1 i" by (simp add: pending_bytes_def payload_def)
    then have gs: "inbound ?w' ipc = inbound w ipc \<and> inbound_over ?w' ipc"
      using w1(4,5,6) i by (intro given_up_stream [OF assms(1) ok'(1) i assms(6)]) simp_all
    have i': "ipcs ?w' ipc = Some i" using i(1) w1(4) by simp
    obtain r bs w2 where rd: "bare_ipc_read ipc 1 ?w' = Some ((r, bs), w2)"
        "if inbound ?w' ipc = []
         then bs = [] \<and> r = (if inbound_over ?w' ipc then 0 else bare_ipc_would_block)
         else bs \<noteq> [] \<and> r = int (length bs)"
      using ipc_read_spec [OF ok' i', of 1] by auto
    show ?thesis using gs rd by (auto split: if_splits)
  qed
  show ?thesis using d fields ok' w1(4) qn st by (intro exI [of _ ?w']) simp
qed

text \<open>A worklet that was created and has an ipc, but has not started.\<close>

definition created_world :: "unit wworld" where
  "created_world = \<lparr>blocks = Map.empty, brk = 9, oom = (\<lambda>_. False), junk = (\<lambda>_ _. 0), calls = [],
     ret = (\<lambda>_. 0), queue = Some attached_queue, ipcs = [2 \<mapsto> attached_ipc],
     polls = [4 \<mapsto> attached_poll], signals = [3 \<mapsto> \<lparr>signal_ipc = 2, detached = False\<rparr>], self = NULL,
     worklet = Some (new_worklet zero_options 6 7), wstate = Some zero_state, semaphore = None,
     thread_ipc = None, init_guard = True, running = 0, torn_down = False, platform_guard = False,
     platform = NULL, optimize_for_memory = False, native = ()\<rparr>"

lemma created_simps [simp]:
  "ipcs created_world 2 = Some attached_ipc" "queue created_world = Some attached_queue"
  "worklet created_world = Some (new_worklet zero_options 6 7)" "wstate created_world = Some zero_state"
  "running created_world = 0" "torn_down created_world = False" "semaphore created_world = None"
  "thread_ipc created_world = None"
  by (simp_all add: created_world_def)

lemma created_ok: "ipc_ok created_world" "env_ok created_world"
proof -
  have "world_ok created_world"
    by (simp add: created_world_def world_ok_def heap_ok_def attached_queue_ok)
  moreover have "ipc_good created_world 2 attached_ipc"
    by (simp add: created_world_def ipc_good_def ipc_parts attached_ipc_def NULL_def attached_queue_def
        bare_queue__listening_def host_end_def attached_poll_def)
  ultimately show "ipc_ok created_world"
    by (simp add: ipc_ok_def addresses_ok_def served_def created_world_def)
      (auto simp: attached_queue_def attached_ipc_def NULL_def split: if_splits)
  show "env_ok created_world" by (simp add: env_ok_def created_world_def)
qed

lemma created_inbound: "inbound created_world 2 = []"
  using inbound_open [of created_world 2 attached_ipc Thread_port attached_queue]
    attached_waiting(1) [of created_world Thread_port]
  by (simp add: pending_bytes_def attached_ipc_def)

theorem worklet_destroy_unstarted_witness:
  "\<exists>w' w2. bare_worklet_destroy default_platform created_world = Some w' \<and> worklet w' = None
     \<and> queue w' \<noteq> None \<and> bare_ipc_read 2 1 w' = Some ((0, []), w2)"
proof -
  have k: "thread (new_worklet zero_options 6 7) = NULL" by (simp add: new_worklet_def zero_worklet_def)
  have q: "\<not> destroyed attached_queue" "bare_queue__listening (thread_state attached_queue)"
    by (simp_all add: attached_queue_def initial_queue_def bare_queue__listening_def)
  have o: "is_open created_world 2" by (simp add: is_open_def)
  obtain w' where w': "bare_worklet_destroy default_platform created_world = Some w'" "worklet w' = None"
      "queue w' = None \<longleftrightarrow> \<not> bare_queue__listening (thread_state attached_queue)"
      "\<forall>ipc. is_open created_world ipc \<longrightarrow> inbound w' ipc = inbound created_world ipc
         \<and> (inbound created_world ipc = [] \<longrightarrow> (\<exists>w2. bare_ipc_read ipc 1 w' = Some ((0, []), w2)))"
    using worklet_destroy_unstarted [OF created_ok created_simps(3) k created_simps(4,2) q(1)]
    by (elim exE conjE) (rule that)
  have "\<exists>w2. bare_ipc_read 2 1 w' = Some ((0, []), w2)" using w'(4) o created_inbound by blast
  then show ?thesis using w'(1-3) q(2) by auto
qed

end
