(* ===== verification/Platform_Apple.thy ===== *)
theory Platform_Apple
  imports Platform Complex_Main
begin

text \<open>
  The platforms of Apple: the resources of an application bundle (\<open>src/apple/resources.c\<close>),
  and on iOS the background task that a worklet holds for as long as it lingers
  (\<open>src/ios/suspension.m\<close>).

  Core Foundation and UIKit are not part of the program. What they answer is the
  environment's, in fields of the platform's state: the bundle that the process runs in, the
  identifiers of background tasks, the background time that is left. A URL is the list of its
  path components. \<open>cf_live\<close> counts the Core Foundation objects that the code has to release.
\<close>

section \<open>Resources\<close>

record apple_state =
  main_bundle :: bool \<comment> \<open>\<open>CFBundleGetMainBundle\<close> is not null\<close>
  bundle_url :: "string list option" \<comment> \<open>\<open>CFBundleCopyBundleURL\<close>\<close>
  path_extension :: "string \<Rightarrow> string option" \<comment> \<open>of the last component\<close>
  bundle_at :: "string list \<Rightarrow> bool" \<comment> \<open>\<open>CFBundleCreate\<close> is not null\<close>
  resources_url :: "string list \<Rightarrow> string list option" \<comment> \<open>\<open>CFBundleCopyResourcesDirectoryURL\<close>\<close>
  system_path :: "string list \<Rightarrow> string option" \<comment> \<open>\<open>CFURLGetFileSystemRepresentation\<close>\<close>
  cf_live :: int

definition cf_copied :: "'z apple_state_scheme \<Rightarrow> 'z apple_state_scheme" where
  "cf_copied a = a\<lparr>cf_live := cf_live a + 1\<rparr>"

definition cf_release :: "'z apple_state_scheme \<Rightarrow> 'z apple_state_scheme" where
  "cf_release a = a\<lparr>cf_live := cf_live a - 1\<rparr>"

definition bare_kit__has_extension ::
  "string list \<Rightarrow> string \<Rightarrow> 'z apple_state_scheme \<Rightarrow> bool \<times> 'z apple_state_scheme" where
  "bare_kit__has_extension url extension a =
     (case (if url = [] then None else path_extension a (last url)) of
        None \<Rightarrow> (False, a)
      | Some actual \<Rightarrow>
          let a = cf_copied a;
              equal = (actual = extension)
          in (equal, cf_release a))"

text \<open>The loop over the parents of an application extension, which ends at the root at the latest.\<close>

function climb :: "string list \<Rightarrow> 'z apple_state_scheme \<Rightarrow> string list \<times> 'z apple_state_scheme" where
  "climb url a =
     (let (app, a) = bare_kit__has_extension url ''app'' a
      in if app then (url, a)
         else (let parent = butlast url;
                   a = cf_copied a;
                   root = (parent = url);
                   a = cf_release a
               in if root then (parent, a) else climb parent a))"
  by pat_completeness auto

termination
proof (relation "measure (\<lambda>(url, a). length url)")
  fix url :: "string list" and a :: "'z apple_state_scheme" and x app a1 parent a2 root a3
  assume "parent = butlast url" "root = (parent = url)" "\<not> root"
  then have "url \<noteq> []" by auto
  then show "((parent, a3), url, a) \<in> measure (\<lambda>(url, a). length url)"
    using \<open>parent = butlast url\<close> by simp
qed simp

declare climb.simps [simp del]

definition bare_kit__copy_application_url ::
  "'z apple_state_scheme \<Rightarrow> string list option \<times> 'z apple_state_scheme" where
  "bare_kit__copy_application_url a =
     (if \<not> main_bundle a then (None, a)
      else case bundle_url a of
        None \<Rightarrow> (None, a)
      | Some url \<Rightarrow>
          let a = cf_copied a;
              (appex, a) = bare_kit__has_extension url ''appex'' a;
              (url, a) = (if appex then climb url a else (url, a));
              (app, a) = bare_kit__has_extension url ''app'' a
          in if app then (Some url, a) else (None, cf_release a))"

text \<open>The directory of the resources, \<open>None\<close> where there is none.\<close>

definition resources_directory :: "'z apple_state_scheme \<Rightarrow> string option \<times> 'z apple_state_scheme" where
  "resources_directory a = (case bare_kit__copy_application_url a of
       (None, a) \<Rightarrow> (None, a)
     | (Some url, a) \<Rightarrow>
         if \<not> bundle_at a url then (None, cf_release a)
         else let a = cf_release (cf_copied a) in
           (case resources_url a url of
              None \<Rightarrow> (None, cf_release a)
            | Some resources \<Rightarrow>
                let a = cf_release (cf_copied a);
                    a = cf_release (cf_copied a)
                in (system_path a resources, cf_release a)))"

definition apple_create_resources :: "bare_worklet_options_t \<Rightarrow> 'z apple_state_scheme wworld
    \<Rightarrow> ((js_value_t \<times> js_value_t) \<times> 'z apple_state_scheme wworld) option" where
  "apple_create_resources opts w = do {
     w \<leftarrow> emit_ok (Js (Js_create_value Js_null)) w;
     w \<leftarrow> emit_ok (Js (Js_create_value Js_null)) w;
     let (directory, a) = resources_directory (native w);
     let w = w\<lparr>native := a\<rparr>;
     (case directory of
        None \<Rightarrow> Some ((Js_null, Js_null), w)
      | Some path \<Rightarrow> do {
          w \<leftarrow> emit_ok (Js (Js_create_value (Js_string path))) w;
          Some ((Js_string path, Js_null), w)
        })
   }"

section \<open>Background tasks\<close>

text \<open>
  \<open>tasks\<close> are the task objects and the identifiers they hold, \<open>retained\<close> those that a
  suspension has not released; an expiration handler keeps its object beyond that.
\<close>

record ios_state = apple_state +
  application :: bool \<comment> \<open>\<open>sharedApplication\<close> is not nil\<close>
  tasks :: "ptr \<rightharpoonup> nat"
  retained :: "ptr set"
  next_object :: ptr
  begun :: nat \<comment> \<open>how many tasks were begun\<close>
  identifier_of :: "nat \<Rightarrow> nat"
  time_left :: "nat \<Rightarrow> rat" \<comment> \<open>\<open>backgroundTimeRemaining\<close>, a double, in seconds\<close>
  rounded :: "rat \<Rightarrow> rat" \<comment> \<open>the double that an exact product is rounded to\<close>
  meanwhile :: "nat list \<times> nat list" \<comment> \<open>handlers that run during a call, before and after its exchange\<close>

definition invalid_task :: nat where
  "invalid_task = 0"

definition end_task :: "nat \<Rightarrow> 'z machine_scheme \<Rightarrow> 'z machine_scheme" where
  "end_task prev w = (if prev \<noteq> invalid_task then emit (End_task prev) w else w)"

definition ios_suspension_init ::
  "bare_suspension_t \<Rightarrow> ios_state wworld \<Rightarrow> (int \<times> bare_suspension_t \<times> ios_state wworld) option" where
  "ios_suspension_init s w =
     (let i = native w;
          object = next_object i
      in Some (0, s\<lparr>task := object\<rparr>,
           w\<lparr>native := i\<lparr>next_object := Suc object, retained := insert object (retained i),
               tasks := (tasks i)(object \<mapsto> invalid_task)\<rparr>\<rparr>))"

text \<open>
  The expiration handler of the task \<open>next\<close> that was begun for the object \<open>object\<close>. It takes no
  lock. The system calls it once \<open>beginBackgroundTaskWithName\<close> has given the identifier.
\<close>

definition ios_expired :: "ptr \<Rightarrow> nat \<Rightarrow> ios_state wworld \<Rightarrow> ios_state wworld option" where
  "ios_expired object next w = do {
     let i = native w;
     cur \<leftarrow> tasks i object;
     let w = w\<lparr>native := i\<lparr>tasks := (tasks i)(object \<mapsto> (if cur = next then invalid_task else cur))\<rparr>\<rparr>;
     Some (emit (End_task next) w)
   }"

text \<open>Those of the tasks that were begun as the \<open>ks\<close>-th run, one after the other.\<close>

fun ios_expirations :: "ptr \<Rightarrow> nat list \<Rightarrow> ios_state wworld \<Rightarrow> ios_state wworld option" where
  "ios_expirations object [] w = Some w"
| "ios_expirations object (k # ks) w =
     Option.bind (ios_expired object (identifier_of (native w) k) w) (ios_expirations object ks)"

text \<open>
  The largest double, and the conversion of a double to an \<open>int\<close>: towards zero, and undefined if
  the result is not an \<open>int\<close>. The doubles that are compared with it are finite.
\<close>

definition DBL_MAX :: rat where
  "DBL_MAX = (2 ^ 53 - 1) * 2 ^ 971"

definition int_of_double :: "rat \<Rightarrow> int option" where
  "int_of_double x =
     (let n = (if x < 0 then \<lceil>x\<rceil> else \<lfloor>x\<rfloor>)
      in if - (2 ^ 31) \<le> n \<and> n < 2 ^ 31 then Some n else None)"

text \<open>
  The exchange is atomic, what comes before and after it is not: the handlers of \<open>meanwhile\<close> run
  between \<open>beginBackgroundTaskWithName\<close> and the exchange, that of the task that is just begun
  among them, and between the exchange and \<open>endBackgroundTask\<close>.
\<close>

definition ios_suspension_start ::
  "bare_suspension_t \<Rightarrow> int \<Rightarrow> ios_state wworld \<Rightarrow> (int \<times> ios_state wworld) option" where
  "ios_suspension_start s timeout w =
     (let i = native w in
      if \<not> application i then Some (if timeout < 0 then 30000 else timeout, w)
      else do {
        _ \<leftarrow> c_assert (task s \<in> retained i);
        let next = identifier_of i (begun i);
        let w = (emit (Begin_task next) w)\<lparr>native := i\<lparr>begun := Suc (begun i)\<rparr>\<rparr>;
        w \<leftarrow> ios_expirations (task s) (fst (meanwhile i)) w;
        prev \<leftarrow> tasks (native w) (task s);
        let w = w\<lparr>native := (native w)\<lparr>tasks := (tasks (native w))(task s \<mapsto> next)\<rparr>\<rparr>;
        w \<leftarrow> ios_expirations (task s) (snd (meanwhile i)) w;
        let w = end_task prev w;
        let remaining = time_left i (begun i);
        let remaining = (if remaining = DBL_MAX then 30 else remaining);
        let remaining = rounded i (remaining * 1000);
        if timeout < 0 \<or> of_int timeout > remaining then do {
          n \<leftarrow> int_of_double remaining;
          Some (n, w)
        } else Some (timeout, w)
      })"

definition ios_suspension_end ::
  "bare_suspension_t \<Rightarrow> ios_state wworld \<Rightarrow> (int \<times> ios_state wworld) option" where
  "ios_suspension_end s w =
     (let i = native w in
      if \<not> application i then Some (0, w)
      else do {
        _ \<leftarrow> c_assert (task s \<in> retained i);
        prev \<leftarrow> tasks i (task s);
        let w = w\<lparr>native := i\<lparr>tasks := (tasks i)(task s \<mapsto> invalid_task)\<rparr>\<rparr>;
        w \<leftarrow> ios_expirations (task s) (snd (meanwhile i)) w;
        Some (0, end_task prev w)
      })"

definition ios_suspension_destroy :: "bare_suspension_t \<Rightarrow> ios_state wworld \<Rightarrow> ios_state wworld option" where
  "ios_suspension_destroy s w = do {
     let i = native w;
     _ \<leftarrow> c_assert (task s \<in> retained i);
     Some (w\<lparr>native := i\<lparr>retained := retained i - {task s}\<rparr>\<rparr>)
   }"

section \<open>The platforms\<close>

definition macos_platform :: "dynamic_linker \<Rightarrow> apple_state platform_ops" where
  "macos_platform dl = (unix_platform dl)\<lparr>create_resources := apple_create_resources\<rparr>"

definition ios_platform :: "dynamic_linker \<Rightarrow> ios_state platform_ops" where
  "ios_platform dl = (unix_platform dl)\<lparr>create_resources := apple_create_resources,
     suspension_init := ios_suspension_init, suspension_start := ios_suspension_start,
     suspension_end := ios_suspension_end, suspension_destroy := ios_suspension_destroy\<rparr>"

text \<open>
  UIKit gives each task an identifier of its own, unless it cannot begin one. In the foreground the
  time that is left is \<open>DBL_MAX\<close>; in the background it is a time that in milliseconds is an \<open>int\<close>,
  some 24 days. Rounding keeps the order and the whole numbers that a double can hold, as any
  rounding of IEEE 754 does.
\<close>

definition ios_ready :: "ios_state \<Rightarrow> bool" where
  "ios_ready i \<longleftrightarrow> (\<forall>n. time_left i n = DBL_MAX \<or> 0 \<le> time_left i n \<and> time_left i n * 1000 \<le> of_nat INT_MAX)
     \<and> (\<forall>x y. x \<le> y \<longrightarrow> rounded i x \<le> rounded i y) \<and> (\<forall>k. \<bar>k\<bar> \<le> 2 ^ 53 \<longrightarrow> rounded i (of_int k) = of_int k)
     \<and> (\<forall>m n. identifier_of i m \<noteq> invalid_task \<longrightarrow> identifier_of i m = identifier_of i n \<longrightarrow> m = n)"

lemma ios_ready_tasks [simp]:
  "ios_ready (i\<lparr>begun := n\<rparr>) = ios_ready i" "ios_ready (i\<lparr>tasks := t\<rparr>) = ios_ready i"
  "ios_ready (i\<lparr>meanwhile := h\<rparr>) = ios_ready i" "ios_ready (i\<lparr>next_object := p\<rparr>) = ios_ready i"
  "ios_ready (i\<lparr>retained := r\<rparr>) = ios_ready i"
  by (simp_all add: ios_ready_def)

text \<open>The seconds that a suspension has, and the result of the conversion for them.\<close>

definition seconds_left :: "ios_state \<Rightarrow> rat" where
  "seconds_left i = (if time_left i (begun i) = DBL_MAX then 30 else time_left i (begun i))"

lemma small_less_DBL_MAX: "of_int k < DBL_MAX" if "k \<le> 2 ^ 53"
proof -
  have "(of_int k :: rat) \<le> of_int (2 ^ 53)" using that by (rule of_int_le_iff [THEN iffD2])
  also have "\<dots> < DBL_MAX" by (simp add: DBL_MAX_def)
  finally show ?thesis .
qed

lemma converted:
  assumes "ios_ready i"
  defines "x \<equiv> rounded i (seconds_left i * 1000)"
  shows "int_of_double x = Some \<lfloor>x\<rfloor>" and "0 \<le> \<lfloor>x\<rfloor>" and "\<lfloor>x\<rfloor> \<le> int INT_MAX"
    and "\<lfloor>seconds_left i * 1000\<rfloor> \<le> \<lfloor>x\<rfloor>" and "\<lfloor>x\<rfloor> \<le> \<lceil>seconds_left i * 1000\<rceil>"
    and "\<bar>n\<bar> \<le> 2 ^ 53 \<Longrightarrow> of_int n \<le> seconds_left i * 1000 \<Longrightarrow> of_int n \<le> x"
    and "\<bar>n\<bar> \<le> 2 ^ 53 \<Longrightarrow> seconds_left i * 1000 \<le> of_int n \<Longrightarrow> x \<le> of_int n"
proof -
  let ?y = "seconds_left i * 1000"
  have mono: "a \<le> b \<Longrightarrow> rounded i a \<le> rounded i b" and whole: "\<bar>k\<bar> \<le> 2 ^ 53 \<Longrightarrow> rounded i (of_int k) = of_int k" for a b k
    using assms(1) by (auto simp: ios_ready_def)
  show lower: "of_int n \<le> x" if "\<bar>n\<bar> \<le> 2 ^ 53" "of_int n \<le> ?y" for n
    using mono [OF that(2)] whole [OF that(1)] by (simp add: x_def)
  show upper: "x \<le> of_int n" if "\<bar>n\<bar> \<le> 2 ^ 53" "?y \<le> of_int n" for n
    using mono [OF that(2)] whole [OF that(1)] by (simp add: x_def)
  have y: "0 \<le> ?y" "?y \<le> of_int (int INT_MAX)"
    using assms(1) by (auto simp: ios_ready_def seconds_left_def INT_MAX_def)
  have fl: "0 \<le> \<lfloor>?y\<rfloor>" "\<lceil>?y\<rceil> \<le> int INT_MAX" using y by (simp_all add: ceiling_le_iff)
  then have small: "\<bar>\<lfloor>?y\<rfloor>\<bar> \<le> 2 ^ 53" "\<bar>\<lceil>?y\<rceil>\<bar> \<le> 2 ^ 53"
    using floor_le_ceiling [of ?y] by (simp_all add: INT_MAX_def)
  show 1: "\<lfloor>?y\<rfloor> \<le> \<lfloor>x\<rfloor>" using lower [OF small(1)] by (simp add: le_floor_iff)
  have "x \<le> of_int \<lceil>?y\<rceil>" using upper [OF small(2)] by simp
  then show 2: "\<lfloor>x\<rfloor> \<le> \<lceil>?y\<rceil>" by (meson floor_le_iff le_less_trans less_add_one of_int_less_iff floor_mono floor_of_int order.trans)
  show 3: "0 \<le> \<lfloor>x\<rfloor>" by (rule order.trans [OF fl(1) 1])
  show 4: "\<lfloor>x\<rfloor> \<le> int INT_MAX" by (rule order.trans [OF 2 fl(2)])
  show "int_of_double x = Some \<lfloor>x\<rfloor>" using 3 4 by (simp add: int_of_double_def INT_MAX_def)
qed

definition ios_initialised :: "bare_suspension_t \<Rightarrow> ios_state \<Rightarrow> bool" where
  "ios_initialised s i \<longleftrightarrow> task s \<in> retained i \<and> tasks i (task s) \<noteq> None"

lemmas ios_defs = ios_platform_def unix_platform_def default_platform_def default_defs
  ios_suspension_init_def ios_suspension_start_def ios_suspension_end_def ios_suspension_destroy_def

lemma native_only_end_task [simp, intro]: "native_only w v \<Longrightarrow> native_only w (end_task prev v)"
  by (simp add: end_task_def)

lemma native_end_task [simp]: "native (end_task prev w) = native w"
  by (simp add: end_task_def)

text \<open>The resources change the count of live objects only.\<close>

lemma extension_fields:
  "bare_kit__has_extension url e a = (b, a') \<Longrightarrow> a' = a"
  by (auto simp: bare_kit__has_extension_def cf_copied_def cf_release_def Let_def split: option.splits if_splits)

lemma climb_fields: "climb url a = (url', a') \<Longrightarrow> a' = a"
proof (induction url a arbitrary: url' a' rule: climb.induct)
  case (1 url a)
  obtain app a1 where e: "bare_kit__has_extension url ''app'' a = (app, a1)" by fastforce
  have a1: "a1 = a" by (rule extension_fields [OF e])
  have same: "cf_release (cf_copied a) = a" by (simp add: cf_release_def cf_copied_def)
  show ?case
  proof (cases "app \<or> butlast url = url")
    case True
    then show ?thesis using 1(2) e a1 same by (subst (asm) climb.simps) (auto simp: Let_def split: if_splits)
  next
    case False
    then have "climb (butlast url) (cf_release (cf_copied a1)) = (url', a')"
      using 1(2) e by (subst (asm) climb.simps) (auto simp: Let_def)
    moreover have "\<not> app" "(butlast url = url) = False" using False by simp_all
    ultimately show ?thesis
      using 1(1) [OF refl e [symmetric] _ refl refl refl refl] same a1 by simp
  qed
qed

lemma application_url_fields:
  "bare_kit__copy_application_url a = (url, a') \<Longrightarrow> a' = (if url = None then a else cf_copied a)"
  by (auto simp: bare_kit__copy_application_url_def Let_def cf_copied_def cf_release_def
      dest!: extension_fields climb_fields split: if_splits prod.splits option.splits)

lemma resources_fields: "resources_directory a = (d, a') \<Longrightarrow> a' = a"
  by (auto simp: resources_directory_def Let_def cf_copied_def cf_release_def
      dest!: application_url_fields split: if_splits prod.splits option.splits)

lemma apple_resources_spec:
  assumes "calls_ok w"
  shows "\<exists>r cs. apple_create_resources opts w = Some (r, w\<lparr>calls := calls w @ cs\<rparr>)"
proof -
  obtain d a where d: "resources_directory (native w) = (d, a)" by fastforce
  have a: "a = native w" by (rule resources_fields [OF d])
  show ?thesis
    using d a assms
    by (cases d) (auto simp: apple_create_resources_def emit_ok_calls emit_def)
qed

interpretation macos: worklet_platform "macos_platform dl" "\<lambda>_ _. True" "\<lambda>_ _. True" "\<lambda>_ _. True" "\<lambda>_ _. True" for dl
proof unfold_locales
  show "\<exists>r w'. create_resources (macos_platform dl) opts w = Some (r, w') \<and> native_only w w'
      \<and> True \<and> carried (\<lambda>_ _. True) (native w) (native w') \<and> carried (\<lambda>_ _. True) (native w) (native w')"
    if "calls_ok w" for w and opts
    using apple_resources_spec [OF that, of opts] by (auto simp: macos_platform_def)
qed (use unix.thread_enter [where dl = dl] unix.thread_exit [where dl = dl] unix.retain [where dl = dl] unix.release [where dl = dl]
      unix.publish [where dl = dl] unix.expose [where dl = dl] unix.init [where dl = dl] unix.start [where dl = dl]
      unix.end_ok [where dl = dl] unix.destroy [where dl = dl]
      in \<open>simp_all add: macos_platform_def\<close>)

text \<open>What handlers come to: each ends its task, and clears the object if it is the one that it holds.\<close>

lemma ios_expirations_eq:
  assumes "tasks (native w) object = Some n"
  shows "ios_expirations object ks w = Some (w\<lparr>calls := calls w @ map (\<lambda>k. End_task (identifier_of (native w) k)) ks,
    native := (native w)\<lparr>tasks := (tasks (native w))(object \<mapsto>
      if n \<in> identifier_of (native w) ` set ks then invalid_task else n)\<rparr>\<rparr>)"
  using assms
proof (induction ks arbitrary: w n)
  case Nil
  then have "(tasks (native w))(object \<mapsto> n) = tasks (native w)" by (simp add: fun_upd_idem)
  then show ?case by simp
next
  case (Cons k ks)
  define x where "x = identifier_of (native w) k"
  define m where "m = (if n = x then invalid_task else n)"
  let ?w = "emit (End_task x) (w\<lparr>native := (native w)\<lparr>tasks := (tasks (native w))(object \<mapsto> m)\<rparr>\<rparr>)"
  have t: "tasks (native ?w) object = Some m" by simp
  have e: "ios_expired object x w = Some ?w" using Cons.prems by (simp add: ios_expired_def m_def Let_def)
  have "(if m \<in> identifier_of (native w) ` set ks then invalid_task else m)
      = (if n \<in> identifier_of (native w) ` set (k # ks) then invalid_task else n)"
    by (simp add: m_def x_def)
  moreover have "ios_expirations object (k # ks) w = ios_expirations object ks ?w" using e by (simp add: x_def)
  ultimately show ?case using Cons.IH [OF t] by (simp add: emit_def x_def [symmetric] del: fun_upd_apply split del: if_split)
qed

text \<open>The two operations, all told.\<close>

definition ended_by :: "ios_state \<Rightarrow> nat list \<Rightarrow> nat set" where
  "ended_by i ks = identifier_of i ` set ks"

definition after_start :: "bare_suspension_t \<Rightarrow> nat \<Rightarrow> ios_state wworld \<Rightarrow> ios_state wworld" where
  "after_start s n w =
     (let i = native w; next = identifier_of i (begun i); (hs, hs') = meanwhile i;
          ends = map (\<lambda>k. End_task (identifier_of i k))
      in end_task (if n \<in> ended_by i hs then invalid_task else n)
        (w\<lparr>calls := calls w @ Begin_task next # ends hs @ ends hs',
          native := i\<lparr>begun := Suc (begun i), tasks := (tasks i)(task s \<mapsto>
            if next \<in> ended_by i hs' then invalid_task else next)\<rparr>\<rparr>))"

lemma ios_start_eq:
  assumes r: "ios_ready (native w)" and i: "task s \<in> retained (native w)" "tasks (native w) (task s) = Some n"
    and app: "application (native w)"
  shows "ios_suspension_start s t w =
    Some (let x = rounded (native w) (seconds_left (native w) * 1000)
      in if t < 0 \<or> x < of_int t then \<lfloor>x\<rfloor> else t, after_start s n w)"
proof -
  let ?i = "native w"
  let ?w1 = "(emit (Begin_task (identifier_of ?i (begun ?i))) w)\<lparr>native := ?i\<lparr>begun := Suc (begun ?i)\<rparr>\<rparr>"
  have t1: "tasks (native ?w1) (task s) = Some n" using i(2) by simp
  obtain hs hs' where m: "meanwhile ?i = (hs, hs')" by (cases "meanwhile ?i")
  let ?n1 = "if n \<in> ended_by ?i hs then invalid_task else n"
  let ?w2 = "?w1\<lparr>calls := calls ?w1 @ map (\<lambda>k. End_task (identifier_of ?i k)) hs,
      native := (native ?w1)\<lparr>tasks := (tasks ?i)(task s \<mapsto> ?n1)\<rparr>\<rparr>"
  have e1: "ios_expirations (task s) hs ?w1 = Some ?w2"
    using ios_expirations_eq [OF t1, of hs] by (simp add: ended_by_def)
  let ?w3 = "?w2\<lparr>native := (native ?w2)\<lparr>tasks := (tasks (native ?w2))(task s \<mapsto> identifier_of ?i (begun ?i))\<rparr>\<rparr>"
  have t3: "tasks (native ?w3) (task s) = Some (identifier_of ?i (begun ?i))" by simp
  note e2 = ios_expirations_eq [OF t3, of hs']
  note c = converted(1) [OF r]
  show ?thesis
    unfolding ios_suspension_start_def Let_def m fst_conv snd_conv
    using app i e1 e2 c
    by (simp add: after_start_def m ended_by_def seconds_left_def Let_def emit_def)
qed

definition after_end :: "bare_suspension_t \<Rightarrow> nat \<Rightarrow> ios_state wworld \<Rightarrow> ios_state wworld" where
  "after_end s n w =
     (let i = native w
      in end_task n (w\<lparr>calls := calls w @ map (\<lambda>k. End_task (identifier_of i k)) (snd (meanwhile i)),
          native := i\<lparr>tasks := (tasks i)(task s \<mapsto> invalid_task)\<rparr>\<rparr>))"

lemma ios_end_eq:
  assumes i: "task s \<in> retained (native w)" "tasks (native w) (task s) = Some n" and app: "application (native w)"
  shows "ios_suspension_end s w = Some (0, after_end s n w)"
proof -
  let ?i = "native w"
  let ?w1 = "w\<lparr>native := ?i\<lparr>tasks := (tasks ?i)(task s \<mapsto> invalid_task)\<rparr>\<rparr>"
  have "tasks (native ?w1) (task s) = Some invalid_task" by simp
  note e = ios_expirations_eq [OF this, of "snd (meanwhile ?i)"]
  show ?thesis using e i app by (simp add: ios_suspension_end_def after_end_def Let_def)
qed

lemma after_native_only [simp]: "native_only w (after_start s n w)" "native_only w (after_end s n w)"
  by (simp_all add: after_start_def after_end_def Let_def split: prod.split)

lemma ios_start_spec:
  assumes r: "ios_ready (native w)" and i: "ios_initialised s (native w)"
  shows "\<exists>n w'. ios_suspension_start s t w = Some (n, w') \<and> 0 \<le> n \<and> native_only w w'
    \<and> ios_ready (native w') \<and> (\<forall>s. ios_initialised s (native w) \<longrightarrow> ios_initialised s (native w'))"
proof (cases "application (native w)")
  case False
  then show ?thesis using r by (auto simp: ios_suspension_start_def)
next
  case True
  obtain prev where prev: "task s \<in> retained (native w)" "tasks (native w) (task s) = Some prev"
    using i by (auto simp: ios_initialised_def)
  have "ios_ready (native (after_start s prev w))" "ios_initialised s' (native w) \<Longrightarrow> ios_initialised s' (native (after_start s prev w))" for s'
    using r by (auto simp: after_start_def ios_initialised_def Let_def split: prod.split)
  then show ?thesis using ios_start_eq [OF r prev True, of t] converted(2) [OF r] by (simp add: Let_def)
qed

lemma ios_end_spec:
  assumes r: "ios_ready (native w)" and i: "ios_initialised s (native w)"
  shows "\<exists>w'. ios_suspension_end s w = Some (0, w') \<and> native_only w w'
    \<and> ios_ready (native w') \<and> ios_initialised s (native w')"
proof (cases "application (native w)")
  case False
  then show ?thesis using r i by (auto simp: ios_suspension_end_def)
next
  case True
  obtain prev where prev: "task s \<in> retained (native w)" "tasks (native w) (task s) = Some prev"
    using i by (auto simp: ios_initialised_def)
  have "ios_ready (native (after_end s prev w))" "ios_initialised s (native (after_end s prev w))"
    using r prev by (auto simp: after_end_def ios_initialised_def Let_def)
  then show ?thesis using ios_end_eq [OF prev True] by simp
qed

interpretation ios: worklet_platform "ios_platform dl" "\<lambda>_. ios_ready" "\<lambda>_ _. True" "\<lambda>_ _. True" ios_initialised for dl
proof unfold_locales
  show "\<exists>r w'. create_resources (ios_platform dl) opts w = Some (r, w') \<and> native_only w w' \<and> ios_ready (native w')
      \<and> carried (\<lambda>_ _. True) (native w) (native w') \<and> carried ios_initialised (native w) (native w')"
    if "ios_ready (native w)" "calls_ok w" for w and opts
    using apple_resources_spec [OF that(2), of opts] that(1) by (auto simp: ios_platform_def)
  show "\<exists>n w'. suspension_start (ios_platform dl) s t w = Some (n, w') \<and> 0 \<le> n \<and> native_only w w'
      \<and> ios_ready (native w') \<and> ios_initialised s (native w') \<and> carried (\<lambda>_ _. True) (native w) (native w')"
    if "ios_ready (native w)" "ios_initialised s (native w)" for w s t
    using ios_start_spec [OF that, of t] that by (auto simp: ios_platform_def)
  show "\<exists>w'. suspension_end (ios_platform dl) s w = Some (0, w') \<and> native_only w w'
      \<and> ios_ready (native w') \<and> ios_initialised s (native w') \<and> carried (\<lambda>_ _. True) (native w) (native w')"
    if "ios_ready (native w)" "ios_initialised s (native w)" for w s
    using ios_end_spec [OF that] by (simp add: ios_platform_def)
  show "\<exists>w'. expose_symbols (ios_platform dl) w = Some w' \<and> native_only w w' \<and> ios_ready (native w')
      \<and> carried (\<lambda>_ _. True) (native w) (native w')"
    if "ios_ready (native w)" for w
    using that by (simp add: ios_platform_def unix_platform_def unix_expose_symbols_def Let_def
        split: option.split)
qed (auto simp: ios_defs ios_initialised_def Let_def)

end
