(* ===== verification/Worklet_Control.thy ===== *)
theory Worklet_Control
  imports Worklet_Life Platform_Apple
begin

text \<open>
  Suspending, resuming and waking up: nothing happens to a worklet that has not started or has
  torn down, the time that is handed to Bare is in bounds, and the flag \<open>resuming\<close> keeps an
  idle that comes late from ending a suspension that was started after it. What is at stake is
  seen on iOS, where a suspension holds a background task.
\<close>

section \<open>Without a Bare instance\<close>

lemma control_null:
  assumes "worklet w \<noteq> None" and "wstate w = Some s" and "bare s = NULL"
  shows "bare_worklet_suspend P n w = Some (0, w\<lparr>calls := calls w @ [Mutex_lock State_lock, Mutex_unlock State_lock]\<rparr>)"
    and "bare_worklet_resume P w = Some (0, w\<lparr>calls := calls w @ [Mutex_lock State_lock, Mutex_unlock State_lock]\<rparr>)"
    and "bare_worklet_wakeup P n w = Some (0, w\<lparr>calls := calls w @ [Mutex_lock State_lock, Mutex_unlock State_lock]\<rparr>)"
    and "bare_worklet_terminate w = Some (0, w\<lparr>calls := calls w @ [Mutex_lock State_lock, Mutex_unlock State_lock]\<rparr>)"
  using assms
  by (auto simp: bare_worklet_suspend_def bare_worklet_resume_def bare_worklet_wakeup_def
      bare_worklet_terminate_def emit_def)

text \<open>
  Before a worklet has set up its Bare instance and after it has torn it down, suspending,
  resuming, waking up and terminating it return 0 and do nothing but take and release the lock.
  On any platform, no task is begun or ended and Bare is not called.
\<close>

theorem control_without_bare:
  assumes "worklet w \<noteq> None" and "wstate w = Some s" and "bare s = NULL"
  shows "\<forall>op \<in> {bare_worklet_suspend P n, bare_worklet_resume P, bare_worklet_wakeup P n, bare_worklet_terminate}.
    op w = Some (0, w\<lparr>calls := calls w @ [Mutex_lock State_lock, Mutex_unlock State_lock]\<rparr>)"
  using control_null [OF assms] by simp

theorem control_without_bare_witness:
  "bare_worklet_suspend default_platform 100 created_world = Some (0, created_world\<lparr>calls :=
     calls created_world @ [Mutex_lock State_lock, Mutex_unlock State_lock]\<rparr>)"
  using control_without_bare [of created_world zero_state default_platform 100]
  by (simp add: zero_state_def)

section \<open>The time to linger\<close>

text \<open>A worklet whose Bare instance is up, on a platform that is ready.\<close>

definition attached :: "('p \<Rightarrow> bool) \<Rightarrow> (bare_suspension_t \<Rightarrow> 'p \<Rightarrow> bool) \<Rightarrow> 'p wworld \<Rightarrow> bool" where
  "attached ok live w \<longleftrightarrow> worklet w \<noteq> None \<and> calls_ok w \<and> ok (native w)
     \<and> (\<exists>s. wstate w = Some s \<and> bare s \<noteq> NULL \<and> live (suspension s) (native w))"

context worklet_platform
begin

lemma suspend_spec:
  assumes "attached (ready b) initialised w" and "wstate w = Some s"
  shows "\<exists>m w1. suspension_start P (suspension s) n (emit (Mutex_lock State_lock) w) = Some (m, w1)
    \<and> native_only w w1 \<and> ready b (native w1) \<and> initialised (suspension s) (native w1) \<and> carried held (native w) (native w1) \<and> 0 \<le> m
    \<and> bare_worklet_suspend P n w = Some (0, emit (Mutex_unlock State_lock)
        (emit (Bare (Bare_suspend m)) (w1\<lparr>wstate := Some (s\<lparr>suspended := True\<rparr>)\<rparr>)))
    \<and> bare_worklet_wakeup P n w = Some (0, emit (Mutex_unlock State_lock) (emit (Bare (Bare_wakeup m)) w1))"
proof -
  let ?w = "emit (Mutex_lock State_lock) w"
  have a: "ready b (native ?w)" "initialised (suspension s) (native ?w)" "calls_ok ?w" "bare s \<noteq> NULL"
      "worklet w \<noteq> None"
    using assms by (auto simp: attached_def)
  obtain m w1 where m: "suspension_start P (suspension s) n ?w = Some (m, w1)" "0 \<le> m" "native_only ?w w1"
      "ready b (native w1)" "initialised (suspension s) (native w1)" "carried held (native w) (native w1)"
    using start [OF a(1-3), of n] by auto
  have n: "native_only w w1" using native_only_trans [OF _ m(3)] by simp
  have "ret w1 c = 0" for c using n a(3) by (auto elim!: native_onlyE simp: calls_ok_def)
  then show ?thesis
    using m n a assms(2)
    by (intro exI [of _ m] exI [of _ w1]) (auto simp: bare_worklet_suspend_def bare_worklet_wakeup_def Let_def)
qed

lemma resume_spec:
  assumes "attached (ready b) initialised w" and "wstate w = Some s"
  shows "\<exists>w1. suspension_end P (suspension s) (emit (Mutex_lock State_lock) w) = Some (0, w1)
    \<and> native_only w w1 \<and> ready b (native w1) \<and> initialised (suspension s) (native w1) \<and> carried held (native w) (native w1)
    \<and> bare_worklet_resume P w = Some (0, emit (Mutex_unlock State_lock) (emit (Bare Bare_resume)
        (w1\<lparr>wstate := Some (if suspended s then s\<lparr>suspended := False, resuming := True\<rparr> else s)\<rparr>)))
    \<and> (\<not> resuming s \<longrightarrow> bare_worklet__on_idle P w
        = Some (if finished s \<or> idle_cb (callbacks s) = NULL then emit (Mutex_unlock State_lock) w1
            else emit (Callback (idle_cb (callbacks s)) (idle_data (callbacks s))) (emit (Mutex_unlock State_lock) w1)))"
proof -
  let ?w = "emit (Mutex_lock State_lock) w"
  have a: "ready b (native ?w)" "initialised (suspension s) (native ?w)" "calls_ok ?w" "bare s \<noteq> NULL"
      "worklet w \<noteq> None"
    using assms by (auto simp: attached_def)
  obtain w1 where m: "suspension_end P (suspension s) ?w = Some (0, w1)" "native_only ?w w1"
      "ready b (native w1)" "initialised (suspension s) (native w1)" "carried held (native w) (native w1)"
    using end_ok [OF a(1-3)] by auto
  have n: "native_only w w1" using native_only_trans [OF _ m(2)] by simp
  have "ret w1 c = 0" for c using n a(3) by (auto elim!: native_onlyE simp: calls_ok_def)
  then show ?thesis
    using m n a assms(2)
    by (intro exI [of _ w1]) (auto simp: bare_worklet_resume_def bare_worklet__on_idle_def Let_def)
qed

end

text \<open>The time that is handed on, of the one that is asked for and the double that is left.\<close>

lemma handed_on:
  assumes "ios_ready i" and "- (2 ^ 31) \<le> n" and "n < 2 ^ 31"
  defines "left \<equiv> seconds_left i * 1000"
  defines "m \<equiv> (if n < 0 \<or> rounded i left < of_int n then \<lfloor>rounded i left\<rfloor> else n)"
  shows "0 \<le> m" and "m \<le> int INT_MAX" and "0 \<le> n \<Longrightarrow> of_int n \<le> left \<Longrightarrow> m = n"
    and "\<not> (0 \<le> n \<and> of_int n \<le> left) \<Longrightarrow> \<lfloor>left\<rfloor> \<le> m \<and> m \<le> \<lceil>left\<rceil> \<and> (0 \<le> n \<longrightarrow> m \<le> n)"
proof -
  let ?x = "rounded i left"
  note x = converted [OF assms(1), folded left_def]
  have n: "\<bar>n\<bar> \<le> 2 ^ 53" "n \<le> int INT_MAX" using assms(2,3) by (auto simp: INT_MAX_def)
  show "0 \<le> m" "m \<le> int INT_MAX" using x(2,3) n(2) by (auto simp: m_def)
  show "m = n" if "0 \<le> n" "of_int n \<le> left" using x(6) [OF n(1) that(2)] that(1) by (simp add: m_def)
  show "\<lfloor>left\<rfloor> \<le> m \<and> m \<le> \<lceil>left\<rceil> \<and> (0 \<le> n \<longrightarrow> m \<le> n)" if a: "\<not> (0 \<le> n \<and> of_int n \<le> left)"
  proof (cases "n < 0")
    case True
    then show ?thesis using x(4,5) by (simp add: m_def)
  next
    case False
    then have "left \<le> of_int n" using a by simp
    then have le: "?x \<le> of_int n" by (rule x(7) [OF n(1)])
    then have "\<lfloor>?x\<rfloor> \<le> n" by (metis floor_mono floor_of_int)
    moreover have "m = \<lfloor>?x\<rfloor>" using le False by (cases "?x = of_int n") (simp_all add: m_def)
    ultimately show ?thesis using x(4,5) by simp
  qed
qed

text \<open>
  C38: The time that suspending or waking up a worklet hands to Bare, on iOS, of which \<open>ios_ready\<close>
  assumes that the time left in the background is not negative and below 24 days. The double
  in seconds (30 in the foreground) becomes milliseconds without an overflow, and loses less
  than one of them. A negative time stands for all that is left; a time that is left is handed on
  as it is; a longer one is cut to what is left, and is not made longer by the rounding. Without
  an application a negative time is 30 seconds, any other is handed on.
\<close>

theorem linger_in_bounds:
  assumes "attached ios_ready ios_initialised w" and "- (2 ^ 31) \<le> n" and "n < 2 ^ 31"
  shows "\<exists>m w1 w2 cs. bare_worklet_suspend (ios_platform dl) n w = Some (0, w1)
    \<and> bare_worklet_wakeup (ios_platform dl) n w = Some (0, w2)
    \<and> calls w1 = calls w @ cs @ [Bare (Bare_suspend m), Mutex_unlock State_lock]
    \<and> calls w2 = calls w @ cs @ [Bare (Bare_wakeup m), Mutex_unlock State_lock]
    \<and> 0 \<le> m \<and> m \<le> int INT_MAX
    \<and> (let left = (if time_left (native w) (begun (native w)) = DBL_MAX then 30 else time_left (native w) (begun (native w))) * 1000 in
        if \<not> application (native w) then m = (if n < 0 then 30000 else n)
        else if 0 \<le> n \<and> of_int n \<le> left then m = n
        else \<lfloor>left\<rfloor> \<le> m \<and> m \<le> \<lceil>left\<rceil> \<and> (0 \<le> n \<longrightarrow> m \<le> n))"
proof -
  let ?i = "native w" and ?left = "seconds_left (native w) * 1000"
  let ?x = "rounded ?i ?left"
  let ?m = "if \<not> application ?i then if n < 0 then 30000 else n else if n < 0 \<or> ?x < of_int n then \<lfloor>?x\<rfloor> else n"
  obtain s where s: "wstate w = Some s" using assms(1) by (auto simp: attached_def)
  let ?w = "emit (Mutex_lock State_lock) w"
  have r: "ios_ready ?i" "ios_initialised (suspension s) ?i" using assms(1) s by (auto simp: attached_def)
  obtain m v where v: "suspension_start (ios_platform dl) (suspension s) n ?w = Some (m, v)"
      "native_only w v"
      "bare_worklet_suspend (ios_platform dl) n w = Some (0, emit (Mutex_unlock State_lock)
         (emit (Bare (Bare_suspend m)) (v\<lparr>wstate := Some (s\<lparr>suspended := True\<rparr>)\<rparr>)))"
      "bare_worklet_wakeup (ios_platform dl) n w = Some (0, emit (Mutex_unlock State_lock) (emit (Bare (Bare_wakeup m)) v))"
    using ios.suspend_spec [OF assms(1) s, of dl n] by blast
  obtain cs x where "v = w\<lparr>calls := calls w @ cs, native := x\<rparr>" using v(2) by (auto elim: native_onlyE)
  then have cs: "calls v = calls w @ cs" by simp
  obtain k where "tasks ?i (task (suspension s)) = Some k" using r(2) by (auto simp: ios_initialised_def)
  then have "ios_suspension_start (suspension s) n ?w = Some (?m, if application ?i then after_start (suspension s) k ?w else ?w)"
    using ios_start_eq [of ?w "suspension s" k n] r by (auto simp: ios_initialised_def ios_suspension_start_def Let_def)
  then have m: "m = ?m" using v(1) by (simp add: ios_platform_def)
  note t = handed_on [OF r(1) assms(2,3)]
  have "0 \<le> m \<and> m \<le> int INT_MAX" using m t(1,2) assms(2,3) by (auto simp: INT_MAX_def)
  moreover have "m = (if n < 0 then 30000 else n)" if "\<not> application ?i" using m that by simp
  moreover have "m = n" if "application ?i" "0 \<le> n" "of_int n \<le> ?left" using m t(3) that by simp
  moreover have "\<lfloor>?left\<rfloor> \<le> m \<and> m \<le> \<lceil>?left\<rceil> \<and> (0 \<le> n \<longrightarrow> m \<le> n)" if "application ?i" "\<not> (0 \<le> n \<and> of_int n \<le> ?left)"
    using m t(4) that by simp
  ultimately show ?thesis
    using v(3,4) cs by (intro exI [of _ m] exI [of _ cs] exI conjI) (auto simp: seconds_left_def Let_def)
qed

text \<open>
  A worklet that runs on iOS, with 20 seconds left in the background, on a machine that rounds down
  to 20 binary places.
\<close>

definition phone :: ios_state where
  "phone = \<lparr>main_bundle = False, bundle_url = None, path_extension = (\<lambda>_. None), bundle_at = (\<lambda>_. False),
     resources_url = (\<lambda>_. None), system_path = (\<lambda>_. None), cf_live = 0, application = True,
     tasks = [1 \<mapsto> invalid_task], retained = {1}, next_object = 2, begun = 0, identifier_of = Suc,
     time_left = (\<lambda>_. 20), rounded = (\<lambda>x. of_int \<lfloor>x * 2 ^ 20\<rfloor> / 2 ^ 20), meanwhile = ([], [])\<rparr>"

definition phone_world :: "ios_state wworld" where
  "phone_world = \<lparr>blocks = Map.empty, brk = 9, oom = (\<lambda>_. False), junk = (\<lambda>_ _. 0), calls = [],
     ret = (\<lambda>_. 0), queue = None, ipcs = Map.empty, polls = Map.empty, signals = Map.empty, self = NULL,
     worklet = Some zero_worklet, wstate = Some (zero_state\<lparr>bare := 8, suspension := \<lparr>task = 1\<rparr>\<rparr>),
     semaphore = None, thread_ipc = None, init_guard = True, running = 1, torn_down = False,
     platform_guard = True, platform = 7, optimize_for_memory = False, native = phone\<rparr>"

lemma phone_simps [simp]:
  "wstate phone_world = Some (zero_state\<lparr>bare := 8, suspension := \<lparr>task = 1\<rparr>\<rparr>)" "calls phone_world = []"
  "native phone_world = phone" "application phone" "tasks phone = [1 \<mapsto> invalid_task]" "begun phone = 0"
  "identifier_of phone = Suc" "time_left phone k = 20"
  by (simp_all add: phone_world_def phone_def)

lemma twenty_seconds: "(20 :: rat) \<noteq> DBL_MAX"
  using small_less_DBL_MAX [of 20] by simp

lemma phone_ready: "ios_ready phone" "ios_initialised \<lparr>task = 1\<rparr> phone"
proof -
  have "rounded phone x \<le> rounded phone y" if "x \<le> y" for x y
    using that by (simp add: phone_def floor_mono divide_right_mono)
  moreover have "rounded phone (of_int k) = of_int k" for k
  proof -
    have "(of_int k :: rat) * 2 ^ 20 = of_int (k * 2 ^ 20)" by simp
    then have "\<lfloor>(of_int k :: rat) * 2 ^ 20\<rfloor> = k * 2 ^ 20" by (simp only: floor_of_int)
    then show ?thesis by (simp add: phone_def)
  qed
  ultimately show "ios_ready phone" by (simp add: ios_ready_def INT_MAX_def)
qed (simp add: ios_initialised_def phone_def)

lemma phone_attached: "attached ios_ready ios_initialised phone_world"
  using phone_ready by (simp add: attached_def calls_ok_def NULL_def) (simp add: phone_world_def)

definition no_linker :: dynamic_linker where
  "no_linker = \<lparr>library_name = None, opens = False\<rparr>"

theorem linger_in_bounds_witness:
  "\<exists>w1 cs. bare_worklet_suspend (ios_platform no_linker) 60000 phone_world = Some (0, w1)
     \<and> calls w1 = cs @ [Bare (Bare_suspend 20000), Mutex_unlock State_lock]"
proof -
  have n: "- (2 ^ 31) \<le> (60000 :: int)" "(60000 :: int) < 2 ^ 31" by simp_all
  obtain m w1 cs where m: "bare_worklet_suspend (ios_platform no_linker) 60000 phone_world = Some (0, w1)"
      "calls w1 = calls phone_world @ cs @ [Bare (Bare_suspend m), Mutex_unlock State_lock]"
      "let left = (if time_left (native phone_world) (begun (native phone_world)) = DBL_MAX then 30
          else time_left (native phone_world) (begun (native phone_world))) * 1000 in
        if \<not> application (native phone_world) then m = (if (60000 :: int) < 0 then 30000 else 60000)
        else if 0 \<le> (60000 :: int) \<and> of_int 60000 \<le> left then m = 60000
        else \<lfloor>left\<rfloor> \<le> m \<and> m \<le> \<lceil>left\<rceil> \<and> (0 \<le> (60000 :: int) \<longrightarrow> m \<le> 60000)"
    using linger_in_bounds [OF phone_attached n, of no_linker] by blast
  then have "m = 20000" using twenty_seconds by (simp add: Let_def)
  then show ?thesis using m by auto
qed

section \<open>Background tasks\<close>

text \<open>
  What the host and the worklet's thread do to a suspension, in any order: each is one critical
  section under the lock of the state. The expiration handlers take no lock: \<open>Expire n\<close> is that
  of the n-th task, between two sections, and those that run within one are its \<open>handlers\<close>,
  before and after it exchanges the identifier.
\<close>

type_synonym handlers = "nat list \<times> nat list"

datatype control =
    Do_suspend int handlers
  | Do_resume handlers
  | Do_wakeup int handlers
  | On_idle handlers
  | On_resume
  | Expire nat

definition interrupted :: "handlers \<Rightarrow> ios_state wworld \<Rightarrow> ios_state wworld" where
  "interrupted h w = w\<lparr>native := (native w)\<lparr>meanwhile := h\<rparr>\<rparr>"

definition control_step :: "dynamic_linker \<Rightarrow> control \<Rightarrow> ios_state wworld \<Rightarrow> ios_state wworld option" where
  "control_step dl c w = (case c of
     Do_suspend n h \<Rightarrow> map_option snd (bare_worklet_suspend (ios_platform dl) n (interrupted h w))
   | Do_resume h \<Rightarrow> map_option snd (bare_worklet_resume (ios_platform dl) (interrupted h w))
   | Do_wakeup n h \<Rightarrow> map_option snd (bare_worklet_wakeup (ios_platform dl) n (interrupted h w))
   | On_idle h \<Rightarrow> bare_worklet__on_idle (ios_platform dl) (interrupted h w)
   | On_resume \<Rightarrow> bare_worklet__on_resume w
   | Expire n \<Rightarrow> do {
       s \<leftarrow> wstate w;
       ios_expired (task (suspension s)) (identifier_of (native w) n) w
     })"

fun control_run :: "dynamic_linker \<Rightarrow> control list \<Rightarrow> ios_state wworld \<Rightarrow> ios_state wworld option" where
  "control_run dl [] w = Some w"
| "control_run dl (c # cs) w = Option.bind (control_step dl c w) (control_run dl cs)"

text \<open>The tasks that were begun and not ended, read off the calls.\<close>

definition task_step :: "nat set \<Rightarrow> call \<Rightarrow> nat set" where
  "task_step S c = (case c of
     Begin_task n \<Rightarrow> if n = invalid_task then S else insert n S
   | End_task n \<Rightarrow> S - {n}
   | _ \<Rightarrow> S)"

definition outstanding :: "call list \<Rightarrow> nat set" where
  "outstanding cs = foldl task_step {} cs"

lemma outstanding_append [simp]: "outstanding (cs @ ds) = foldl task_step (outstanding cs) ds"
  by (simp add: outstanding_def)

lemma outstanding_emit [simp]: "outstanding (calls (emit c w)) = task_step (outstanding (calls w)) c"
  by simp

lemma task_step_other [simp]:
  "task_step S (Mutex_lock l) = S" "task_step S (Mutex_unlock l) = S" "task_step S (Bare b) = S"
  "task_step S (Callback p d) = S" "task_step S (End_task n) = S - {n}"
  "task_step S (Begin_task n) = (if n = invalid_task then S else insert n S)"
  by (simp_all add: task_step_def)

lemma foldl_ends [simp]: "foldl task_step S (map (\<lambda>k. End_task (f k)) ks) = S - f ` set ks"
  by (induction ks arbitrary: S) auto

lemma foldl_end_task [simp]: "foldl task_step S (calls (end_task n w)) = (if n = invalid_task then foldl task_step S (calls w) else foldl task_step S (calls w) - {n})"
  by (simp add: end_task_def)


text \<open>What is outstanding is the task that the suspension holds, unless it has expired.\<close>

definition valid :: "nat \<Rightarrow> nat set" where
  "valid n = (if n = invalid_task then {} else {n})"

definition held_task :: "ios_state wworld \<Rightarrow> nat set" where
  "held_task w = (case wstate w of None \<Rightarrow> {}
   | Some s \<Rightarrow> (case tasks (native w) (task (suspension s)) of None \<Rightarrow> {} | Some n \<Rightarrow> valid n))"

definition phone_ok :: "ios_state wworld \<Rightarrow> bool" where
  "phone_ok w \<longleftrightarrow> attached ios_ready ios_initialised w \<and> application (native w)
     \<and> outstanding (calls w) \<subseteq> held_task w
     \<and> held_task w \<subseteq> identifier_of (native w) ` {..< begun (native w)}"

lemma phone_okD:
  assumes "phone_ok w"
  obtains s n where "wstate w = Some s" "tasks (native w) (task (suspension s)) = Some n"
    "held_task w = valid n" "outstanding (calls w) \<subseteq> valid n" "application (native w)"
    "attached ios_ready ios_initialised w" "n = invalid_task \<or> (\<exists>k < begun (native w). identifier_of (native w) k = n)"
proof -
  obtain s n where s: "wstate w = Some s" "tasks (native w) (task (suspension s)) = Some n"
    using assms by (auto simp: phone_ok_def attached_def ios_initialised_def)
  have h: "held_task w = valid n" using s by (simp add: held_task_def)
  moreover have "n = invalid_task \<or> (\<exists>k < begun (native w). identifier_of (native w) k = n)"
    using assms h by (auto simp: phone_ok_def valid_def split: if_splits)
  ultimately show ?thesis using s assms that by (simp add: phone_ok_def)
qed

lemma interrupted_simps [simp]:
  "wstate (interrupted h w) = wstate w" "calls (interrupted h w) = calls w" "worklet (interrupted h w) = worklet w"
  "native (interrupted h w) = (native w)\<lparr>meanwhile := h\<rparr>" "calls_ok (interrupted h w) = calls_ok w"
  by (simp_all add: interrupted_def calls_ok_def)

lemma interrupted_attached:
  "attached ios_ready ios_initialised (interrupted h w) = attached ios_ready ios_initialised w"
  by (simp add: attached_def ios_initialised_def)

text \<open>What starting leaves: \<open>n\<close> was held before, and \<open>new\<close> is the task that is begun.\<close>

lemma start_tasks:
  fixes s :: bare_suspension_t
  assumes n: "outstanding (calls w) \<subseteq> valid n" and h: "meanwhile (native w) = (hs, hs')"
    and fresh: "n = invalid_task \<or> (\<exists>k < begun (native w). identifier_of (native w) k = n)" and r: "ios_ready (native w)"
  defines "new \<equiv> identifier_of (native w) (begun (native w))" and "v \<equiv> after_start s n w"
  shows "tasks (native v) (task s) = Some (if new \<in> ended_by (native w) hs' then invalid_task else new)"
    and "outstanding (calls v) = valid new - ended_by (native w) hs - ended_by (native w) hs'"
    and "begun (native v) = Suc (begun (native w)) \<and> identifier_of (native v) = identifier_of (native w) \<and> application (native v) = application (native w)"
    and "\<exists>cs. calls v = calls w @ cs \<and> (\<forall>x. Begin_task x \<in> set cs \<longrightarrow> x = new)"
proof -
  have ne: "new \<noteq> n" if "n \<noteq> invalid_task"
    using fresh that r unfolding ios_ready_def new_def by (metis order_less_irrefl)
  show "outstanding (calls v) = valid new - ended_by (native w) hs - ended_by (native w) hs'"
  proof -
    let ?A = "ended_by (native w) hs" and ?B = "ended_by (native w) hs'"
    let ?S = "(outstanding (calls w) \<union> valid new) - ?A - ?B" and ?n = "if n \<in> ?A then invalid_task else n"
    let ?ended = "\<lambda>k. End_task (identifier_of (native w) k)"
    have "calls v = calls w @ (Begin_task new # map ?ended hs @ map ?ended hs') @ (if ?n = invalid_task then [] else [End_task ?n])"
      by (simp add: v_def after_start_def h Let_def end_task_def new_def)
    moreover have "foldl task_step (outstanding (calls w)) (Begin_task new # map ?ended hs @ map ?ended hs') = ?S"
      by (simp add: ended_by_def valid_def)
    ultimately have "outstanding (calls v) = (if ?n = invalid_task then ?S else ?S - {?n})"
      by (simp only: outstanding_append foldl_append) simp
    moreover have "outstanding (calls w) - ?A \<subseteq> {?n} - {invalid_task}"
      using n by (auto simp: valid_def split: if_splits)
    moreover have "?n \<noteq> invalid_task \<Longrightarrow> new \<noteq> ?n" using ne by (simp split: if_splits)
    ultimately show ?thesis by (auto simp: valid_def)
  qed
  show "tasks (native v) (task s) = Some (if new \<in> ended_by (native w) hs' then invalid_task else new)"
    by (simp add: v_def after_start_def h Let_def new_def)
  show "begun (native v) = Suc (begun (native w)) \<and> identifier_of (native v) = identifier_of (native w) \<and> application (native v) = application (native w)"
    by (simp add: v_def after_start_def h Let_def)
  show "\<exists>cs. calls v = calls w @ cs \<and> (\<forall>x. Begin_task x \<in> set cs \<longrightarrow> x = new)"
    by (auto simp: v_def after_start_def h Let_def end_task_def new_def)
qed

lemma end_tasks:
  fixes s :: bare_suspension_t
  assumes n: "outstanding (calls w) \<subseteq> valid n"
  defines "v \<equiv> after_end s n w"
  shows "tasks (native v) (task s) = Some invalid_task" and "outstanding (calls v) = {}"
    and "begun (native v) = begun (native w) \<and> identifier_of (native v) = identifier_of (native w) \<and> application (native v) = application (native w)"
    and "\<exists>cs. calls v = calls w @ cs \<and> (\<forall>x. Begin_task x \<notin> set cs)"
  using n by (auto simp: v_def after_end_def Let_def outstanding_def valid_def end_task_def split: if_splits)

text \<open>What each operation does to the two flags, to the task that is held and to those that are outstanding.\<close>

definition flags :: "control \<Rightarrow> bool \<times> bool \<Rightarrow> bool \<times> bool" where
  "flags c f = (case c of
     Do_suspend n h \<Rightarrow> (True, snd f)
   | Do_resume h \<Rightarrow> (if fst f then (False, True) else f)
   | On_resume \<Rightarrow> (fst f, False)
   | _ \<Rightarrow> f)"

definition flags_of :: "'p wworld \<Rightarrow> bool \<times> bool" where
  "flags_of w = (case wstate w of None \<Rightarrow> (False, False) | Some s \<Rightarrow> (suspended s, resuming s))"

definition newest :: "ios_state wworld \<Rightarrow> nat" where
  "newest w = identifier_of (native w) (begun (native w))"

definition tasks_after :: "control \<Rightarrow> ios_state wworld \<Rightarrow> nat set \<times> nat set" where
  "tasks_after c w = (let now = (held_task w, outstanding (calls w)); ended = ended_by (native w);
     begin = (\<lambda>h. (valid (newest w) - ended (snd h), valid (newest w) - ended (fst h) - ended (snd h))) in
   case c of
     Do_suspend n h \<Rightarrow> begin h
   | Do_wakeup n h \<Rightarrow> begin h
   | Do_resume h \<Rightarrow> ({}, {})
   | On_idle h \<Rightarrow> if snd (flags_of w) then now else ({}, {})
   | On_resume \<Rightarrow> now
   | Expire n \<Rightarrow> (held_task w - ended [n], outstanding (calls w) - ended [n]))"

definition begins :: "control \<Rightarrow> bool" where
  "begins c \<longleftrightarrow> (\<exists>n h. c = Do_suspend n h \<or> c = Do_wakeup n h)"

definition stepped_to :: "control \<Rightarrow> ios_state wworld \<Rightarrow> ios_state wworld \<Rightarrow> bool" where
  "stepped_to c w w' \<longleftrightarrow> phone_ok w' \<and> flags_of w' = flags c (flags_of w)
     \<and> (held_task w', outstanding (calls w')) = tasks_after c w
     \<and> begun (native w') = begun (native w) + (if begins c then 1 else 0) \<and> identifier_of (native w') = identifier_of (native w)
     \<and> (\<exists>cs. calls w' = calls w @ cs \<and> (\<forall>x. Begin_task x \<in> set cs \<longrightarrow> x = newest w))"

lemmas step_defs = control_step_def stepped_to_def tasks_after_def flags_def flags_of_def begins_def newest_def Let_def

lemma phone_okI:
  assumes "wstate w = Some s" "bare s \<noteq> NULL" "worklet w \<noteq> None" "calls_ok w" "ios_ready (native w)"
    "ios_initialised (suspension s) (native w)" "application (native w)"
    "tasks (native w) (task (suspension s)) = Some n" "outstanding (calls w) \<subseteq> valid n"
    "n = invalid_task \<or> (\<exists>k < begun (native w). identifier_of (native w) k = n)"
  shows "phone_ok w \<and> held_task w = valid n"
  using assms by (auto simp: phone_ok_def attached_def held_task_def valid_def)

lemma native_only_same:
  assumes "native_only w v"
  shows "wstate v = wstate w" "worklet v = worklet w" "calls_ok v = calls_ok w"
  using assms by (auto elim!: native_onlyE simp: calls_ok_def)

lemma valid_unless: "valid (if n \<in> A then invalid_task else n) = valid n - A"
  by (auto simp: valid_def)

lemma begin_step:
  assumes ok: "phone_ok w" and s: "wstate w = Some s" and c: "c \<in> {Do_suspend t h, Do_wakeup t h}"
  shows "\<exists>w'. control_step dl c w = Some w' \<and> stepped_to c w w'"
proof -
  obtain n where n: "tasks (native w) (task (suspension s)) = Some n" "outstanding (calls w) \<subseteq> valid n"
      "application (native w)" "attached ios_ready ios_initialised w"
      "n = invalid_task \<or> (\<exists>k < begun (native w). identifier_of (native w) k = n)"
    using phone_okD [OF ok] s by (metis option.inject)
  let ?u = "interrupted h w"
  let ?w = "emit (Mutex_lock State_lock) ?u" and ?k = "begun (native w)" and ?ended = "ended_by (native w)"
  let ?id = "identifier_of (native w) ?k"
  let ?h = "if ?id \<in> ?ended (snd h) then invalid_task else ?id" and ?out = "valid ?id - ?ended (fst h) - ?ended (snd h)"
  have a: "attached ios_ready ios_initialised ?u" "wstate ?u = Some s" using n(4) s by (simp_all add: interrupted_attached)
  obtain m v where v: "suspension_start (ios_platform dl) (suspension s) t ?w = Some (m, v)"
      "native_only ?u v" "ios_ready (native v)" "ios_initialised (suspension s) (native v)"
      "bare_worklet_suspend (ios_platform dl) t ?u = Some (0, emit (Mutex_unlock State_lock)
        (emit (Bare (Bare_suspend m)) (v\<lparr>wstate := Some (s\<lparr>suspended := True\<rparr>)\<rparr>)))"
      "bare_worklet_wakeup (ios_platform dl) t ?u = Some (0, emit (Mutex_unlock State_lock) (emit (Bare (Bare_wakeup m)) v))"
    using ios.suspend_spec [OF a, of dl t] by blast
  have r: "ios_ready (native ?w)" "task (suspension s) \<in> retained (native ?w)" "bare s \<noteq> NULL" "worklet w \<noteq> None" "calls_ok w"
    using n(4) s by (auto simp: attached_def ios_initialised_def)
  have "v = after_start (suspension s) n ?w"
    using v(1) ios_start_eq [OF r(1,2), of n t] n(1,3) by (simp add: ios_platform_def)
  moreover have "meanwhile (native ?w) = (fst h, snd h)" by simp
  ultimately have v': "tasks (native v) (task (suspension s)) = Some ?h" "outstanding (calls v) = ?out"
      "begun (native v) = Suc ?k" "identifier_of (native v) = identifier_of (native w)" "application (native v)"
      "\<exists>cs. calls v = calls w @ cs \<and> (\<forall>x. Begin_task x \<in> set cs \<longrightarrow> x = ?id)"
    using start_tasks [of ?w n "fst h" "snd h" "suspension s"] n(2,3,5) r(1) by (auto simp: ended_by_def)
  obtain cs where cs: "calls v = calls w @ cs" "\<forall>x. Begin_task x \<in> set cs \<longrightarrow> x = ?id" using v'(6) by blast
  have id: "?h = invalid_task \<or> (\<exists>k < Suc ?k. identifier_of (native w) k = ?h)" by auto
  have held: "valid ?h = valid ?id - ?ended (snd h)" by (rule valid_unless)
  have out: "?out \<subseteq> valid ?h" unfolding held by blast
  note same = native_only_same [OF v(2)]
  consider "c = Do_suspend t h" | "c = Do_wakeup t h" using c by blast
  then show ?thesis
  proof cases
    case 1
    let ?s = "s\<lparr>suspended := True\<rparr>"
    let ?v = "emit (Mutex_unlock State_lock) (emit (Bare (Bare_suspend m)) (v\<lparr>wstate := Some ?s\<rparr>))"
    have ok': "phone_ok ?v \<and> held_task ?v = valid ?h"
      by (rule phone_okI [of _ ?s]) (use r same v(3,4) v'(1-5) id out in simp_all)
    have "calls ?v = calls w @ (cs @ [Bare (Bare_suspend m), Mutex_unlock State_lock])" using cs(1) by simp
    then have "\<exists>ds. calls ?v = calls w @ ds \<and> (\<forall>x. Begin_task x \<in> set ds \<longrightarrow> x = ?id)"
      using cs(2) by (intro exI [of _ "cs @ [Bare (Bare_suspend m), Mutex_unlock State_lock]"]) auto
    moreover have "outstanding (calls ?v) = ?out" using v'(2) by simp
    ultimately show ?thesis
      using 1 v(5) v'(3,4) s ok' held by (intro exI [of _ ?v]) (simp add: step_defs)
  next
    case 2
    let ?v = "emit (Mutex_unlock State_lock) (emit (Bare (Bare_wakeup m)) v)"
    have ok': "phone_ok ?v \<and> held_task ?v = valid ?h"
      by (rule phone_okI [of _ s]) (use r same v(3,4) v'(1-5) id out s in simp_all)
    have "calls ?v = calls w @ (cs @ [Bare (Bare_wakeup m), Mutex_unlock State_lock])" using cs(1) by simp
    then have "\<exists>ds. calls ?v = calls w @ ds \<and> (\<forall>x. Begin_task x \<in> set ds \<longrightarrow> x = ?id)"
      using cs(2) by (intro exI [of _ "cs @ [Bare (Bare_wakeup m), Mutex_unlock State_lock]"]) auto
    moreover have "outstanding (calls ?v) = ?out" using v'(2) by simp
    ultimately show ?thesis
      using 2 v(6) v'(3,4) s same(1) ok' held by (intro exI [of _ ?v]) (simp add: step_defs)
  qed
qed

lemma end_step:
  assumes ok: "phone_ok w" and s: "wstate w = Some s"
  shows "\<exists>w'. control_step dl (Do_resume h) w = Some w' \<and> stepped_to (Do_resume h) w w'"
    and "\<not> resuming s \<Longrightarrow> \<exists>w'. control_step dl (On_idle h) w = Some w' \<and> stepped_to (On_idle h) w w'"
proof -
  obtain n where n: "tasks (native w) (task (suspension s)) = Some n" "outstanding (calls w) \<subseteq> valid n"
      "application (native w)" "attached ios_ready ios_initialised w"
    using phone_okD [OF ok] s by (metis option.inject)
  let ?u = "interrupted h w"
  let ?w = "emit (Mutex_lock State_lock) ?u"
  have a: "attached ios_ready ios_initialised ?u" "wstate ?u = Some s" using n(4) s by (simp_all add: interrupted_attached)
  obtain v where v: "suspension_end (ios_platform dl) (suspension s) ?w = Some (0, v)"
      "native_only ?u v" "ios_ready (native v)" "ios_initialised (suspension s) (native v)"
      "bare_worklet_resume (ios_platform dl) ?u = Some (0, emit (Mutex_unlock State_lock) (emit (Bare Bare_resume)
        (v\<lparr>wstate := Some (if suspended s then s\<lparr>suspended := False, resuming := True\<rparr> else s)\<rparr>)))"
      "\<not> resuming s \<longrightarrow> bare_worklet__on_idle (ios_platform dl) ?u
        = Some (if finished s \<or> idle_cb (callbacks s) = NULL then emit (Mutex_unlock State_lock) v
            else emit (Callback (idle_cb (callbacks s)) (idle_data (callbacks s))) (emit (Mutex_unlock State_lock) v))"
    using ios.resume_spec [OF a, of dl] by blast
  have r: "bare s \<noteq> NULL" "worklet w \<noteq> None" "calls_ok w" "task (suspension s) \<in> retained (native ?w)"
    using n(4) s by (auto simp: attached_def ios_initialised_def)
  have "v = after_end (suspension s) n ?w"
    using v(1) ios_end_eq [OF r(4), of n] n(1,3) by (simp add: ios_platform_def)
  then have v': "tasks (native v) (task (suspension s)) = Some invalid_task" "outstanding (calls v) = {}"
      "begun (native v) = begun (native w)" "identifier_of (native v) = identifier_of (native w)"
      "application (native v)" "\<exists>cs. calls v = calls w @ cs \<and> (\<forall>x. Begin_task x \<notin> set cs)"
    using end_tasks [of ?w n "suspension s"] n(2,3) by auto
  obtain cs where cs: "calls v = calls w @ cs" "\<forall>x. Begin_task x \<notin> set cs" using v'(6) by blast
  have e: "valid invalid_task = {}" by (simp add: valid_def)
  note same = native_only_same [OF v(2)]
  let ?s = "if suspended s then s\<lparr>suspended := False, resuming := True\<rparr> else s"
  let ?r = "emit (Mutex_unlock State_lock) (emit (Bare Bare_resume) (v\<lparr>wstate := Some ?s\<rparr>))"
  have "phone_ok ?r \<and> held_task ?r = valid invalid_task"
    by (rule phone_okI [of _ ?s]) (use r same v(3,4) v'(1-5) e in simp_all)
  moreover have "calls ?r = calls w @ (cs @ [Bare Bare_resume, Mutex_unlock State_lock])" using cs(1) by simp
  then have "\<exists>ds. calls ?r = calls w @ ds \<and> (\<forall>x. Begin_task x \<in> set ds \<longrightarrow> x = newest w)"
    using cs(2) by (intro exI [of _ "cs @ [Bare Bare_resume, Mutex_unlock State_lock]"]) auto
  moreover have "outstanding (calls ?r) = {}" using v'(2) by simp
  ultimately show "\<exists>w'. control_step dl (Do_resume h) w = Some w' \<and> stepped_to (Do_resume h) w w'"
    using v(5) v'(3,4) s e by (intro exI [of _ ?r]) (simp add: step_defs)
  assume nr: "\<not> resuming s"
  let ?i = "if finished s \<or> idle_cb (callbacks s) = NULL then emit (Mutex_unlock State_lock) v
            else emit (Callback (idle_cb (callbacks s)) (idle_data (callbacks s))) (emit (Mutex_unlock State_lock) v)"
  have "phone_ok ?i \<and> held_task ?i = valid invalid_task"
    by (rule phone_okI [of _ s]) (use r same v(3,4) v'(1-5) e s in simp_all)
  moreover let ?es = "Mutex_unlock State_lock # (if finished s \<or> idle_cb (callbacks s) = NULL then []
      else [Callback (idle_cb (callbacks s)) (idle_data (callbacks s))])"
  have "calls ?i = calls w @ (cs @ ?es)" using cs(1) by simp
  then have "\<exists>ds. calls ?i = calls w @ ds \<and> (\<forall>x. Begin_task x \<in> set ds \<longrightarrow> x = newest w)"
    using cs(2) by (intro exI [of _ "cs @ ?es"]) auto
  moreover have "outstanding (calls ?i) = {}" using v'(2) by simp
  ultimately show "\<exists>w'. control_step dl (On_idle h) w = Some w' \<and> stepped_to (On_idle h) w w'"
    using v(6) v'(3,4) s e nr same(1) by (intro exI [of _ ?i]) (simp add: step_defs)
qed

lemma quiet_step:
  assumes ok: "phone_ok w" and s: "wstate w = Some s" and c: "c = On_idle h \<and> resuming s \<or> c = On_resume \<or> c = Expire k"
  shows "\<exists>w'. control_step dl c w = Some w' \<and> stepped_to c w w'"
proof -
  obtain n where n: "tasks (native w) (task (suspension s)) = Some n" "outstanding (calls w) \<subseteq> valid n"
      "application (native w)" "attached ios_ready ios_initialised w" "held_task w = valid n"
      "n = invalid_task \<or> (\<exists>k < begun (native w). identifier_of (native w) k = n)"
    using phone_okD [OF ok] s by (metis option.inject)
  have r: "bare s \<noteq> NULL" "worklet w \<noteq> None" "calls_ok w" "ios_ready (native w)"
      "ios_initialised (suspension s) (native w)"
    using n(4) s by (auto simp: attached_def)
  consider "c = On_idle h" "resuming s" | "c = On_resume" | "c = Expire k" using c by blast
  then show ?thesis
  proof cases
    case 1
    let ?l = "emit (Mutex_unlock State_lock) (emit (Mutex_lock State_lock) (interrupted h w))"
    let ?v = "if finished s \<or> idle_cb (callbacks s) = NULL then ?l
        else emit (Callback (idle_cb (callbacks s)) (idle_data (callbacks s))) ?l"
    have "phone_ok ?v \<and> held_task ?v = valid n"
      by (rule phone_okI [of _ s]) (use r n s in \<open>simp_all add: ios_initialised_def\<close>)
    then show ?thesis
      using 1 s n(5) by (intro exI [of _ ?v]) (simp add: step_defs bare_worklet__on_idle_def)
  next
    case 2
    let ?s = "s\<lparr>resuming := False\<rparr>"
    let ?l = "emit (Mutex_unlock State_lock) ((emit (Mutex_lock State_lock) w)\<lparr>wstate := Some ?s\<rparr>)"
    let ?v = "if finished s \<or> resume_cb (callbacks s) = NULL then ?l
        else emit (Callback (resume_cb (callbacks s)) (resume_data (callbacks s))) ?l"
    have "phone_ok ?v \<and> held_task ?v = valid n"
      by (rule phone_okI [of _ ?s]) (use r n s in simp_all)
    then show ?thesis
      using 2 s n(5) by (intro exI [of _ ?v]) (simp add: step_defs bare_worklet__on_resume_def)
  next
    case 3
    let ?i = "native w"
    let ?id = "identifier_of ?i k"
    let ?n = "if n = ?id then invalid_task else n"
    let ?v = "emit (End_task ?id) (w\<lparr>native := ?i\<lparr>tasks := (tasks ?i)(task (suspension s) \<mapsto> ?n)\<rparr>\<rparr>)"
    have "ios_ready (native ?v)" "ios_initialised (suspension s) (native ?v)"
      using r(4,5) by (simp_all add: ios_initialised_def)
    moreover have v: "valid ?n = valid n - {?id}" by (auto simp: valid_def)
    moreover have "outstanding (calls ?v) = outstanding (calls w) - {?id}" by simp
    then have "outstanding (calls ?v) \<subseteq> valid ?n" using n(2) v by blast
    ultimately have "phone_ok ?v \<and> held_task ?v = valid ?n"
      by (intro phone_okI [of _ s]) (use r n s in auto)
    moreover have "control_step dl c w = Some ?v"
      using 3 s n(1) by (auto simp: control_step_def ios_expired_def Let_def)
    ultimately show ?thesis
      using 3 s n(5) v by (intro exI [of _ ?v]) (simp add: step_defs ended_by_def)
  qed
qed

lemma control_step_total:
  assumes ok: "phone_ok w"
  shows "\<exists>w'. control_step dl c w = Some w' \<and> stepped_to c w w'"
proof -
  obtain s where s: "wstate w = Some s" using phone_okD [OF ok] by metis
  show ?thesis
  proof (cases c)
    case (Do_suspend n h)
    then show ?thesis using begin_step [OF ok s, of c n h] by simp
  next
    case (Do_resume h)
    then show ?thesis using end_step(1) [OF ok s] by simp
  next
    case (Do_wakeup n h)
    then show ?thesis using begin_step [OF ok s, of c n h] by simp
  next
    case (On_idle h)
    then show ?thesis using end_step(2) [OF ok s] quiet_step [OF ok s, of c h] by (cases "resuming s") simp_all
  next
    case On_resume
    then show ?thesis using quiet_step [OF ok s, of c] by simp
  next
    case (Expire k)
    then show ?thesis using quiet_step [OF ok s, of c _ k] by simp
  qed
qed

lemma control_run_total:
  "phone_ok w \<Longrightarrow> \<exists>w'. control_run dl cs w = Some w' \<and> phone_ok w'"
proof (induction cs arbitrary: w)
  case (Cons c cs)
  then obtain w1 where "control_step dl c w = Some w1" "phone_ok w1"
    using control_step_total [of w dl c] by (auto simp: stepped_to_def)
  then show ?case using Cons.IH by simp
qed simp

lemma control_run_append:
  "control_run dl (cs @ ds) w = Option.bind (control_run dl cs w) (control_run dl ds)"
  by (induction cs arbitrary: w) (auto simp: bind_assoc split: bind_split)

text \<open>A predicate that each of some operations keeps is kept by a run of them.\<close>

lemma control_run_keeps:
  assumes "phone_ok w" and "I w"
    and "\<And>c v v'. c \<in> set cs \<Longrightarrow> phone_ok v \<Longrightarrow> I v \<Longrightarrow> stepped_to c v v' \<Longrightarrow> I v'"
  shows "\<exists>w'. control_run dl cs w = Some w' \<and> phone_ok w' \<and> I w'"
  using assms
proof (induction cs arbitrary: w)
  case (Cons c cs)
  obtain w1 where w1: "control_step dl c w = Some w1" "stepped_to c w w1"
    using control_step_total [OF Cons.prems(1)] by blast
  have "I w1" using Cons.prems(3) [of c w w1] Cons.prems(1,2) w1(2) by simp
  moreover have "phone_ok w1" using w1(2) by (simp add: stepped_to_def)
  ultimately obtain w' where "control_run dl cs w1 = Some w'" "phone_ok w' \<and> I w'"
    using Cons.IH [of w1] Cons.prems(3) by (meson list.set_intros(2))
  then show ?case using w1(1) by simp
qed simp





lemma phone_world_ok: "phone_ok phone_world"
  using phone_attached by (simp add: phone_ok_def held_task_def valid_def outstanding_def)


text \<open>
  A task that expires between its begin and the exchange is ended by its handler and held after
  it, so that it is ended once more.
\<close>

lemma early_expiry_held:
  assumes "phone_ok w" and "newest w \<noteq> invalid_task"
  shows "\<exists>w'. control_run dl [Do_suspend n ([begun (native w)], [])] w = Some w'
    \<and> held_task w' = {newest w} \<and> outstanding (calls w') = {}"
proof -
  obtain w' where "control_step dl (Do_suspend n ([begun (native w)], [])) w = Some w'"
      "stepped_to (Do_suspend n ([begun (native w)], [])) w w'"
    using control_step_total [OF assms(1)] by blast
  then show ?thesis using assms(2) by (auto simp: stepped_to_def tasks_after_def ended_by_def newest_def valid_def Let_def)
qed

text \<open>
  C40: An idle never ends a suspension that was started after the resume it raced with. If a
  worklet is suspended, resumed and suspended again before its thread has seen the resume
  (\<open>On_resume\<close>), then any number of idles that come in between leave the task of the newest
  suspension alone, unless it expires; once the resume has been seen, the next idle ends it.
\<close>

theorem idle_spares_newer_suspension:
  assumes "phone_ok w" and "\<And>k. identifier_of (native w) k \<noteq> invalid_task"
    and "\<And>h. Do_resume h \<notin> set xs" and "On_resume \<notin> set ys"
    and "\<And>z. z \<in> set zs \<Longrightarrow> (\<exists>n. z = Do_suspend n ([], []) \<or> z = Do_wakeup n ([], [])) \<or> (\<exists>h. z = On_idle h)"
  shows "\<exists>w' w2. control_run dl ([Do_suspend a h] @ xs @ [Do_resume h'] @ ys @ [Do_suspend b ([], [])] @ zs) w = Some w'
    \<and> outstanding (calls w') = {identifier_of (native w) (begun (native w') - 1)}
    \<and> control_run dl [On_resume, On_idle h2] w' = Some w2 \<and> outstanding (calls w2) = {}"
proof -
  let ?ids = "\<lambda>v. identifier_of (native v) = identifier_of (native w)"
  let ?newest = "\<lambda>v. snd (flags_of v) \<and> ?ids v
    \<and> outstanding (calls v) = {identifier_of (native w) (begun (native v) - 1)}"
  note step = control_step_total [of _ dl]
  note defs = stepped_to_def flags_def tasks_after_def begins_def newest_def valid_def ended_by_def Let_def
  obtain w1 where w1: "control_step dl (Do_suspend a h) w = Some w1" "stepped_to (Do_suspend a h) w w1"
    using step [OF assms(1)] by blast
  have "phone_ok w1" "fst (flags_of w1) \<and> ?ids w1" using w1(2) by (simp_all add: stepped_to_def flags_def)
  then obtain w2 where w2: "control_run dl xs w1 = Some w2" "phone_ok w2" "fst (flags_of w2) \<and> ?ids w2"
    using control_run_keeps [of w1 "\<lambda>v. fst (flags_of v) \<and> ?ids v" xs dl] assms(3)
    by (fastforce simp: stepped_to_def flags_def split: control.splits)
  obtain w3 where w3: "control_step dl (Do_resume h') w2 = Some w3" "stepped_to (Do_resume h') w2 w3"
    using step [OF w2(2)] by blast
  have "phone_ok w3" "snd (flags_of w3) \<and> ?ids w3"
    using w2(3) w3(2) by (simp_all add: stepped_to_def flags_def)
  then obtain w4 where w4: "control_run dl ys w3 = Some w4" "phone_ok w4" "snd (flags_of w4) \<and> ?ids w4"
    using control_run_keeps [of w3 "\<lambda>v. snd (flags_of v) \<and> ?ids v" ys dl] assms(4)
    by (fastforce simp: stepped_to_def flags_def split: control.splits if_splits)
  obtain w5 where w5: "control_step dl (Do_suspend b ([], [])) w4 = Some w5" "stepped_to (Do_suspend b ([], [])) w4 w5"
    using step [OF w4(2)] by blast
  have keep: "?newest v'" if "z \<in> set zs" "?newest v" "stepped_to z v v'" for z v v'
    using assms(5) [OF that(1)] that(2,3) assms(2) by (elim disjE exE) (simp_all add: defs)
  have "phone_ok w5" "?newest w5"
    using w4(3) w5(2) assms(2) by (simp_all add: defs)
  then obtain w6 where w6: "control_run dl zs w5 = Some w6" "phone_ok w6" "?newest w6"
    using control_run_keeps [of w5 ?newest zs dl] keep by blast
  obtain w7 where w7: "control_step dl On_resume w6 = Some w7" "stepped_to On_resume w6 w7"
    using step [OF w6(2)] by blast
  have "phone_ok w7" using w7(2) by (simp add: stepped_to_def)
  then obtain w8 where w8: "control_step dl (On_idle h2) w7 = Some w8" "stepped_to (On_idle h2) w7 w8"
    using step by blast
  have "\<not> snd (flags_of w7)" using w7(2) by (simp add: stepped_to_def flags_def)
  then have "outstanding (calls w8) = {}" using w8(2) by (simp add: stepped_to_def tasks_after_def)
  then show ?thesis
    using w1(1) w2(1) w3(1) w4(1) w5(1) w6(1,3) w7(1) w8(1) by (simp add: control_run_append)
qed

theorem idle_spares_newer_suspension_witness:
  "\<exists>w'. control_run no_linker [Do_suspend 5 ([], []), Do_resume ([], []), Do_suspend 6 ([], []), On_idle ([], [])] phone_world = Some w'
     \<and> outstanding (calls w') \<noteq> {}"
proof -
  have "\<exists>w' w2. control_run no_linker ([Do_suspend 5 ([], [])] @ [] @ [Do_resume ([], [])] @ [] @ [Do_suspend 6 ([], [])] @ [On_idle ([], [])]) phone_world = Some w'
    \<and> outstanding (calls w') = {identifier_of (native phone_world) (begun (native w') - 1)}
    \<and> control_run no_linker [On_resume, On_idle ([], [])] w' = Some w2 \<and> outstanding (calls w2) = {}"
    by (rule idle_spares_newer_suspension [OF phone_world_ok]) (auto simp: invalid_task_def)
  then show ?thesis by auto
qed

end
