(* ===== verification/Worklet_Js.thy ===== *)
theory Worklet_Js
  imports Worklet_Life
begin

text \<open>
  The ipc as the worklet's JavaScript sees it: the five functions of the object \<open>native\<close> that
  \<open>src/worklet.c\<close> gives to \<open>openIPC\<close>. What each returns is of the type that the comments in the
  code document, and bytes survive the way through the queue in both directions.
\<close>

section \<open>Calls from JavaScript\<close>

datatype native_call =
    Native_read
  | Native_write "byte list"
  | Native_end
  | Native_ref
  | Native_unref

primrec native_step :: "native_call \<Rightarrow> 'p wworld \<Rightarrow> (js_value_t \<times> 'p wworld) option" where
  "native_step Native_read w = bare_worklet__on_ipc_read Uv_port w"
| "native_step (Native_write data) w = bare_worklet__on_ipc_write Uv_port [Js_typedarray data] w"
| "native_step Native_end w = bare_worklet__on_ipc_end Uv_port w"
| "native_step Native_ref w = bare_worklet__on_ipc_ref Uv_port w"
| "native_step Native_unref w = bare_worklet__on_ipc_unref Uv_port w"

primrec native_run :: "native_call list \<Rightarrow> 'p wworld \<Rightarrow> (js_value_t list \<times> 'p wworld) option" where
  "native_run [] w = Some ([], w)"
| "native_run (c # cs) w = do {
     (v, w) \<leftarrow> native_step c w;
     (vs, w) \<leftarrow> native_run cs w;
     Some (v # vs, w)
   }"

text \<open>
  The documented types: \<open>read\<close> gives an \<open>ArrayBuffer\<close>, \<open>null\<close> or \<open>undefined\<close>, \<open>write\<close> a
  number that is the bytes taken or -1, or \<open>null\<close>, and the other three nothing. The memory of
  an \<open>ArrayBuffer\<close> is a whole block of the heap that is not the queue's.
\<close>

fun typed :: "native_call \<Rightarrow> js_value_t \<Rightarrow> 'p wworld \<Rightarrow> bool" where
  "typed Native_read (Js_external_arraybuffer p n) w \<longleftrightarrow>
     0 < n \<and> n \<le> INT_MAX \<and> (\<exists>b. caller_heap w p = Some b \<and> length b = n)"
| "typed Native_read v w \<longleftrightarrow> v = Js_null \<or> v = Js_undefined"
| "typed (Native_write data) v w \<longleftrightarrow> v = Js_null \<or> v = Js_int32 (-1)
     \<or> v = Js_int32 (int (min (length data) INT_MAX))"
| "typed c v w \<longleftrightarrow> v = Js_undefined"

text \<open>What the calls do to the channel, and the values they return for it.\<close>

fun native_op :: "native_call \<Rightarrow> queue_op" where
  "native_op Native_read = Read Uv_port"
| "native_op (Native_write data) = Write Uv_port data"
| "native_op Native_end = End Uv_port"
| "native_op Native_ref = Wakeup"
| "native_op Native_unref = Wakeup"

fun value_for :: "obs \<Rightarrow> 'p wworld \<Rightarrow> js_value_t \<Rightarrow> bool" where
  "value_for Blocked w v \<longleftrightarrow> v = Js_undefined"
| "value_for Eof w v \<longleftrightarrow> v = Js_null"
| "value_for (Got d) w v \<longleftrightarrow> (\<exists>p. v = Js_external_arraybuffer p (length d) \<and> caller_heap w p = Some d)"
| "value_for (Sent n) w v \<longleftrightarrow> v = (if n = bare_queue_closed then Js_null else Js_int32 n)"
| "value_for ob w v \<longleftrightarrow> v = Js_undefined"

lemma caller_heap_emit [simp]: "caller_heap (emit c w) = caller_heap w"
  by (simp add: emit_def)

lemma abs_world_emit [simp]: "abs_world (emit c w) = abs_world w"
  by (simp add: abs_world_def)

text \<open>No operation but \<open>bare_queue_open_uv\<close> changes what the worklet's end calls back.\<close>

definition recv_view :: "bare_queue_t \<Rightarrow> bare_queue_port_t \<times> ptr" where
  "recv_view q = (uv_port q, on_recv_uv q)"

lemma recv_view_simps [simp]:
  "recv_view (store_inbox q p r) = recv_view q" "recv_view (advanced p s q) = recv_view q"
  "recv_view (q\<lparr>destroyed := b\<rparr>) = recv_view q"
  by (simp_all add: recv_view_def store_inbox_def advanced_def store_state_def)

lemma step_recv_view:
  assumes ok: "world_ok w" and q: "queue w = Some q" and st: "queue_step op w = Some (ob, w')"
    and q': "queue w' = Some q'" and op: "\<And>cb d. op \<noteq> Open_uv cb d"
  shows "recv_view q' = recv_view q"
proof (cases op)
  case (Open_thread cb d)
  then show ?thesis using st q q' by (auto simp: open_thread_eq recv_view_def split: if_splits)
next
  case (Write p data)
  then show ?thesis
    using st q q' write_oom [OF ok q] write_eq [OF ok q, of data p] write_empty [OF q]
    by (cases "data = []"; cases "oom w (brk w)") (auto simp: written_def refused_def Let_def split: if_splits)
next
  case (Read p)
  then show ?thesis
    using st q q' by (auto simp: read_eq [OF ok q] observe_read_def taken_def locked_only_def Let_def
        split: list.splits if_splits)
next
  case (End p)
  then show ?thesis
    using st q' by (auto simp: bare_queue_end_def advance_eq [OF ok q] advanced_world_def freed_def split: if_splits)
next
  case (Close p)
  then show ?thesis
    using st q' by (auto simp: bare_queue_close_def advance_eq [OF ok q] advanced_world_def freed_def split: if_splits)
next
  case Destroy
  then show ?thesis using st q' by (auto simp: destroy_eq [OF ok q] destroying_def freed_def split: if_splits)
next
  case (Release p)
  then show ?thesis using st q q' by (auto simp: free_block_def split: if_splits)
qed (use st q q' op in \<open>auto simp: readable_eq [OF ok q] writable_eq [OF ok q] locked_only_def
      bare_queue_shutdown_uv_def bare_queue__on_wakeup_uv_def split: if_splits\<close>)

text \<open>A read: the queue's step, and the block that is handed over.\<close>

lemma native_read_spec:
  assumes ok: "ipc_ok w" and env: "env_ok w" and q: "queue w = Some q"
  shows "\<exists>ob v w1. queue_step (Read Uv_port) (emit (Js Js_get_callback_info) w) = Some (ob, w1)
    \<and> native_step Native_read w = Some (v, emit (Js (Js_create_value v)) w1)
    \<and> value_for ob w1 v
    \<and> (ob \<noteq> Blocked \<longrightarrow> ob \<noteq> Eof \<longrightarrow> (\<exists>p n. v = Js_external_arraybuffer p n \<and> 0 < n \<and> n \<le> INT_MAX
         \<and> caller_heap w1 = (caller_heap w)(p := blocks w p) \<and> p \<in> owned w))
    \<and> (ob = Blocked \<or> ob = Eof \<longrightarrow> caller_heap w1 = caller_heap w)"
proof -
  let ?w = "emit (Js Js_get_callback_info) w"
  note e = calls_ok_env [OF env]
  have w: "world_ok ?w" "queue ?w = Some q" using ipc_okD(1) [OF ok] q by simp_all
  note rd = read_eq [OF w, of Uv_port]
  show ?thesis
  proof (cases "ring_messages (bare_queue__inbox q Uv_port)")
    case Nil
    have "calls_ok (locked_only ?w)" using e by (simp add: locked_only_def)
    then show ?thesis
      using rd Nil e
      by (auto simp: bare_worklet__on_ipc_read_def emit_ok_calls js_create_def observe_read_def eof_message_def
          queue_codes)
  next
    case (Cons m ms)
    let ?w1 = "taken Uv_port q ?w"
    have live: "live_message ?w m" by (rule read_message_live [OF w Cons])
    have c: "caller_heap ?w1 = (caller_heap w)(base m := blocks w (base m))"
      using caller_taken [OF w Cons] by simp
    have own: "base m \<in> owned w" using owned_taken [OF w Cons] by (simp add: owned_def)
    obtain b where b: "blocks w (base m) = Some b" "length b = len m" using live by (auto simp: live_message_def)
    have pay: "payload ?w1 m = b" using b(1) by (simp add: payload_def)
    have "calls_ok ?w1" using e by (simp add: taken_def Let_def)
    then show ?thesis
      using rd Cons e live b c pay own
      by (auto simp: bare_worklet__on_ipc_read_def emit_ok_calls js_create_def observe_read_def
          queue_codes live_message_def)
  qed
qed

lemma native_op_keeps:
  assumes "\<not> released ch" and "spec_step (native_op c) ch = (ob, x)"
  shows "\<exists>ch'. x = Some ch' \<and> \<not> released ch'"
  using assms
  by (cases c) (auto simp: reclaim_def raise_phase_def split: if_splits list.splits)

text \<open>What a call comes to: its result, and the world it leaves.\<close>

definition native_leaves :: "native_call \<Rightarrow> 'p wworld \<Rightarrow> bare_queue_t \<Rightarrow> js_value_t \<Rightarrow> 'p wworld \<Rightarrow> bool" where
  "native_leaves c w q v w' \<longleftrightarrow> ipc_ok w' \<and> env_ok w' \<and> typed c v w' \<and> ipc_world.more w' = ipc_world.more w
     \<and> (\<exists>q'. queue w' = Some q' \<and> \<not> destroyed q' \<and> recv_view q' = recv_view q)
     \<and> (\<exists>ob. spec_step (native_op c) (abs_queue w q) = (ob, abs_world w') \<and> value_for ob w' v)
     \<and> caller_heap w \<subseteq>\<^sub>m caller_heap w'"

lemma native_queue_step:
  fixes w :: "'p wworld"
  assumes ok: "ipc_ok w" and env: "env_ok w" and q: "queue w = Some q" "\<not> destroyed q"
    and st: "queue_step (native_op c) w = Some (ob, v)"
  shows "ipc_ok v" and "env_ok v" and "\<exists>q'. queue v = Some q' \<and> \<not> destroyed q' \<and> recv_view q' = recv_view q"
    and "ipc_world.more v = ipc_world.more w" and "spec_step (native_op c) (abs_queue w q) = (ob, abs_world v)"
proof -
  have al: "allowed w (Worklet (native_op c))" using q(1) by (cases c) (simp_all add: allowed_def releases_def)
  show "ipc_ok v" "env_ok v" using ipc_step_total [OF ok env al] st by auto
  note w = ipc_okD(1) [OF ok]
  show r: "spec_step (native_op c) (abs_queue w q) = (ob, abs_world v)" using step_refines [OF w q(1) st] by simp
  obtain q' where q': "queue v = Some q'" "\<not> destroyed q'"
    using native_op_keeps [OF _ r] q(2) by (auto simp: abs_world_def)
  have "recv_view q' = recv_view q"
    by (rule step_recv_view [OF w q(1) st q'(1)]) (cases c, simp_all)
  then show "\<exists>q'. queue v = Some q' \<and> \<not> destroyed q' \<and> recv_view q' = recv_view q" using q' by blast
  show "ipc_world.more v = ipc_world.more w" by (rule rest_of_ipc [OF step_rest [OF w q(1) st]])
qed

lemma native_read_leaves:
  assumes ok: "ipc_ok w" and env: "env_ok w" and q: "queue w = Some q" "\<not> destroyed q"
  shows "\<exists>v w'. native_step Native_read w = Some (v, w') \<and> native_leaves Native_read w q v w'"
proof -
  let ?w = "emit (Js Js_get_callback_info) w"
  obtain ob v v1 where s: "queue_step (Read Uv_port) ?w = Some (ob, v1)"
      "native_step Native_read w = Some (v, emit (Js (Js_create_value v)) v1)" "value_for ob v1 v"
      "ob \<noteq> Blocked \<longrightarrow> ob \<noteq> Eof \<longrightarrow> (\<exists>p n. v = Js_external_arraybuffer p n \<and> 0 < n \<and> n \<le> INT_MAX
       \<and> caller_heap v1 = (caller_heap w)(p := blocks w p) \<and> p \<in> owned w)"
      "ob = Blocked \<or> ob = Eof \<longrightarrow> caller_heap v1 = caller_heap w"
    using native_read_spec [OF ok env q(1)] by (elim exE conjE) (rule that)
  have "caller_heap w \<subseteq>\<^sub>m caller_heap v1"
  proof (cases "ob = Blocked \<or> ob = Eof")
    case False
    then obtain p where "caller_heap v1 = (caller_heap w)(p := blocks w p)" "p \<in> owned w" using s(4) by blast
    then show ?thesis by (simp add: map_le_def caller_heap_def)
  qed (use s(5) in simp)
  moreover have "typed Native_read v v1" using s(3,4) by (cases ob) (auto split: if_splits)
  then have "typed Native_read v (emit (Js (Js_create_value v)) v1)" by (cases v) simp_all
  moreover have "value_for ob (emit (Js (Js_create_value v)) v1) v" using s(3) by (cases ob) simp_all
  ultimately show ?thesis
    using s(2) native_queue_step [of ?w q Native_read ob v1] ok env q s(1)
    by (intro exI [of _ v] exI [of _ "emit (Js (Js_create_value v)) v1"]) (simp add: native_leaves_def)
qed

lemma native_write_leaves:
  assumes ok: "ipc_ok w" and env: "env_ok w" and q: "queue w = Some q" "\<not> destroyed q"
  shows "\<exists>v w'. native_step (Native_write data) w = Some (v, w') \<and> native_leaves (Native_write data) w q v w'"
proof -
  let ?w = "emit (Js Js_get_typedarray_info) (emit (Js Js_get_callback_info) w)" and ?op = "Write Uv_port data"
  have w: "ipc_ok ?w" "env_ok ?w" "queue ?w = Some q" using ok env q by simp_all
  obtain sob v1 where s: "queue_step ?op ?w = Some (sob, v1)"
    using env_step [OF w, of ?op] by (auto simp: releases_def simp del: queue_step.simps spec_step.simps)
  then obtain n where n: "bare_queue_write Uv_port data ?w = Some (n, v1)" "sob = Sent n" by auto
  have "queue_step (native_op (Native_write data)) ?w = Some (sob, v1)" using s by simp
  note l = native_queue_step [OF w q(2) this]
  let ?v = "if n = bare_queue_closed then Js_null else Js_int32 n"
  have "native_step (Native_write data) w = Some (?v, emit (Js (Js_create_value ?v)) v1)"
    using n(1) calls_ok_env [OF env] calls_ok_env [OF l(2)]
    by (simp add: bare_worklet__on_ipc_write_def emit_ok_calls js_create_def)
  moreover have "typed (Native_write data) ?v (emit (Js (Js_create_value ?v)) v1)"
    using l(5) n(2) by (auto simp: queue_codes split: if_splits)
  moreover have "caller_heap v1 = caller_heap w" using step_caller_heap [OF ipc_okD(1) [OF w(1)] w(3) s] by simp
  ultimately show ?thesis
    using l n(2) by (intro exI [of _ ?v] exI [of _ "emit (Js (Js_create_value ?v)) v1"]) (simp add: native_leaves_def)
qed

lemma native_end_leaves:
  assumes ok: "ipc_ok w" and env: "env_ok w" and q: "queue w = Some q" "\<not> destroyed q"
  shows "\<exists>v w'. native_step Native_end w = Some (v, w') \<and> native_leaves Native_end w q v w'"
proof -
  let ?w = "emit (Js Js_get_callback_info) w" and ?op = "End Uv_port"
  have w: "ipc_ok ?w" "env_ok ?w" "queue ?w = Some q" using ok env q by simp_all
  obtain sob v1 where s: "queue_step ?op ?w = Some (sob, v1)"
    using env_step [OF w, of ?op] by (auto simp: releases_def simp del: queue_step.simps spec_step.simps)
  then have n: "bare_queue_end Uv_port ?w = Some v1" "sob = Done" by auto
  have "queue_step (native_op Native_end) ?w = Some (sob, v1)" using s by simp
  note l = native_queue_step [OF w q(2) this]
  have "native_step Native_end w = Some (Js_undefined, v1)"
    using n(1) calls_ok_env [OF env] by (simp add: bare_worklet__on_ipc_end_def emit_ok_calls)
  moreover have "caller_heap v1 = caller_heap w" using step_caller_heap [OF ipc_okD(1) [OF w(1)] w(3) s] by simp
  ultimately show ?thesis
    using l n(2) by (intro exI [of _ Js_undefined] exI [of _ v1]) (simp add: native_leaves_def)
qed

lemma native_leaves_some:
  assumes ok: "ipc_ok w" and env: "env_ok w" and q: "queue w = Some q" "\<not> destroyed q"
  shows "\<exists>v w'. native_step c w = Some (v, w') \<and> native_leaves c w q v w'"
proof -
  let ?w = "emit (Js Js_get_callback_info) w"
  note e = calls_ok_env [OF env]
  have silent: ?thesis if "native_step c w = Some (Js_undefined, emit x ?w)" "c = Native_ref \<or> c = Native_unref" for x
    using that ok env q
    by (intro exI [of _ Js_undefined] exI [of _ "emit x ?w"]) (auto simp: native_leaves_def abs_world_def)
  show ?thesis
  proof (cases c)
    case Native_ref
    show ?thesis by (rule silent) (use q(1) e Native_ref in \<open>simp_all add: bare_worklet__on_ipc_ref_def emit_ok_calls\<close>)
  next
    case Native_unref
    show ?thesis by (rule silent) (use q(1) e Native_unref in \<open>simp_all add: bare_worklet__on_ipc_unref_def emit_ok_calls\<close>)
  qed (use native_read_leaves [OF assms] native_write_leaves [OF assms] native_end_leaves [OF assms] in simp_all)
qed

lemma native_spec:
  assumes "ipc_ok w" and "env_ok w" and "queue w = Some q" and "\<not> destroyed q"
  shows "\<exists>v w' q'. native_step c w = Some (v, w') \<and> ipc_ok w' \<and> env_ok w' \<and> typed c v w'
    \<and> queue w' = Some q' \<and> \<not> destroyed q' \<and> ipc_world.more w' = ipc_world.more w
    \<and> (\<exists>ob. spec_step (native_op c) (abs_queue w q) = (ob, abs_world w') \<and> value_for ob w' v)
    \<and> recv_view q' = recv_view q \<and> caller_heap w \<subseteq>\<^sub>m caller_heap w'"
  using native_leaves_some [OF assms, of c] unfolding native_leaves_def by blast

section \<open>The types of the results\<close>

lemma typed_later:
  assumes "typed c v w" and "caller_heap w \<subseteq>\<^sub>m caller_heap w'"
  shows "typed c v w'"
proof (cases "\<exists>p n. c = Native_read \<and> v = Js_external_arraybuffer p n")
  case True
  then obtain p n where c: "c = Native_read" "v = Js_external_arraybuffer p n" by blast
  then obtain b where b: "caller_heap w p = Some b" using assms(1) by auto
  then have "caller_heap w' p = Some b" using assms(2) by (auto simp: map_le_def dom_def)
  then show ?thesis using c assms(1) b by auto
next
  case False
  then show ?thesis using assms(1) by (cases c; cases v) auto
qed

text \<open>
  C19: The functions of \<open>native\<close> are well typed. As long as the worklet has not given up its share
  of the queue, whatever the script calls in whatever order returns without a fault, and each
  result is of the type that the code documents for it, still so after all the calls that
  follow: an \<open>ArrayBuffer\<close> stays a whole live block that the queue neither owns nor changes.
\<close>

theorem native_results_typed:
  assumes "ipc_ok w" and "env_ok w" and "queue w = Some q" and "\<not> destroyed q"
  shows "\<exists>vs w'. native_run cs w = Some (vs, w') \<and> list_all2 (\<lambda>c v. typed c v w') cs vs \<and> ipc_ok w'
    \<and> ipc_world.more w' = ipc_world.more w"
proof -
  have "\<exists>vs w'. native_run cs w = Some (vs, w') \<and> list_all2 (\<lambda>c v. typed c v w') cs vs \<and> ipc_ok w'
    \<and> ipc_world.more w' = ipc_world.more w \<and> caller_heap w \<subseteq>\<^sub>m caller_heap w'"
    using assms
  proof (induction cs arbitrary: w q)
    case Nil
    then show ?case by simp
  next
    case (Cons c cs)
    obtain v w1 q1 where s: "native_step c w = Some (v, w1)" "ipc_ok w1" "env_ok w1" "typed c v w1"
        "queue w1 = Some q1" "\<not> destroyed q1" "ipc_world.more w1 = ipc_world.more w"
        "caller_heap w \<subseteq>\<^sub>m caller_heap w1"
      using native_spec [OF Cons.prems, of c] by (elim exE conjE) (rule that)
    obtain vs w' where r: "native_run cs w1 = Some (vs, w')" "list_all2 (\<lambda>c v. typed c v w') cs vs" "ipc_ok w'"
        "ipc_world.more w' = ipc_world.more w1" "caller_heap w1 \<subseteq>\<^sub>m caller_heap w'"
      using Cons.IH [OF s(2,3,5,6)] by (elim exE conjE) (rule that)
    have "caller_heap w \<subseteq>\<^sub>m caller_heap w'" using s(8) r(5) by (rule map_le_trans)
    then show ?case using s(1,7) r typed_later [OF s(4) r(5)] by simp
  qed
  then show ?thesis by blast
qed

lemma attached_not_destroyed: "\<not> destroyed attached_queue"
  by (simp add: attached_queue_def initial_queue_def)

theorem native_results_typed_witness:
  "\<exists>v1 v2 w'. native_run [Native_read, Native_write [1, 2, 3]] created_world = Some ([v1, v2], w')
     \<and> typed Native_read v1 w' \<and> typed (Native_write [1, 2, 3]) v2 w'"
proof -
  obtain vs w' where r: "native_run [Native_read, Native_write [1, 2, 3]] created_world = Some (vs, w')"
      "list_all2 (\<lambda>c v. typed c v w') [Native_read, Native_write [1, 2, 3]] vs"
    using native_results_typed [OF created_ok created_simps(2) attached_not_destroyed] by blast
  then obtain v1 v2 where "vs = [v1, v2]" by (auto simp: list_all2_Cons1)
  then show ?thesis using r by auto
qed

section \<open>From JavaScript to the host\<close>

text \<open>
  C20: What the script writes is what the host reads. If \<open>write\<close> of a typed array returns a
  number that is not -1, then the host, reading with buffers of any positive sizes, gets what
  it had yet to read before and then exactly that many bytes of the array.
\<close>

theorem native_write_reaches_host:
  assumes "ipc_ok w" and "env_ok w" and "is_open w ipc" and "queue w = Some q" and "\<not> destroyed q"
    and "native_step (Native_write data) w = Some (Js_int32 n, w')" and "n \<noteq> -1"
    and "\<forall>k \<in> set ns. 0 < k" and "length (inbound w ipc) + length data \<le> length ns"
  shows "\<exists>rs w2. read_all (bare_ipc_read ipc) ns w' = Some ((rs, inbound w ipc @ take (nat n) data), w2)
    \<and> n = int (min (length data) INT_MAX)"
proof -
  let ?w = "emit (Js Js_get_typedarray_info) (emit (Js Js_get_callback_info) w)"
  have ok: "ipc_ok ?w" "env_ok ?w" "is_open ?w ipc" using assms(1-3) by (simp_all add: is_open_def)
  obtain m w1 where m: "bare_queue_write Uv_port data ?w = Some (m, w1)"
      "Js_int32 n = (if m = bare_queue_closed then Js_null else Js_int32 m)" "w' = emit (Js (Js_create_value (Js_int32 m))) w1"
    using assms(6) by (auto simp: bare_worklet__on_ipc_write_def js_create_def emit_ok_def bind_eq_Some_conv
        split: if_splits)
  then have n: "m = n" by (simp split: if_splits)
  have t: "typed (Native_write data) (Js_int32 n) w'"
    using native_spec [OF assms(1,2,4,5), of "Native_write data"] assms(6) by auto
  then have nn: "n = int (min (length data) INT_MAX)" using assms(7) by auto
  have st: "ipc_step (Worklet (Write Uv_port data)) ?w = Some (Observed (Sent n), w1)" using m(1) n by simp
  have wi: "is_open w1 ipc \<and> inbound ?w ipc @ written_by_worklet (Worklet (Write Uv_port data)) (Observed (Sent n))
      = inbound w1 ipc"
    by (rule worklet_inbound [OF ok _ _ st]) (simp_all add: releases_def)
  then have o: "is_open w1 ipc" "inbound w1 ipc = inbound w ipc @ take (nat n) data"
    using nn by (simp_all add: written_by_worklet_def split: if_splits)
  have q: "queue ?w = Some q" using assms(4) by simp
  have al: "allowed ?w (Worklet (Write Uv_port data))" using q by (simp add: allowed_def releases_def)
  have ok1: "ipc_ok w1" "env_ok w1" using ipc_step_total [OF ok(1,2) al] st by auto
  have inb: "ipc_ok w'" "env_ok w'" "ipcs w' ipc \<noteq> None" "inbound w' ipc = inbound w ipc @ take (nat n) data"
    using m(3) ok1 o by (auto simp: is_open_def)
  have "length (inbound w' ipc) \<le> length ns" using inb(4) assms(9) by simp
  then obtain rs w2 where "read_all (bare_ipc_read ipc) ns w' = Some ((rs, inbound w' ipc), w2)"
    using ipc_stream.reads_everything [of w' ipc ns 1] inb(1-3) assms(8) by auto
  then show ?thesis using inb(4) nn by auto
qed

lemma attached_not_shut: "\<not> shut (abs_queue w attached_queue) p"
  by (cases p) (simp_all add: shut_def attached_queue_def initial_queue_def bare_queue__state_def port_at_def state_order)

lemma created_native_write:
  "\<exists>w'. native_step (Native_write [1, 2, 3]) created_world = Some (Js_int32 3, w')"
proof -
  obtain v w' where s: "native_step (Native_write [1, 2, 3]) created_world = Some (v, w')"
      "\<exists>ob. spec_step (native_op (Native_write [1, 2, 3])) (abs_queue created_world attached_queue)
         = (ob, abs_world w') \<and> value_for ob w' v"
    using native_spec [OF created_ok created_simps(2) attached_not_destroyed, of "Native_write [1, 2, 3]"]
    by blast
  have "ring_messages (bare_queue__inbox attached_queue p) = []" for p
    using attached_waiting(1) [of created_world p] by simp
  then have "v = Js_int32 3" using s(2) attached_not_shut [of created_world Uv_port] by (auto simp: depth_def capacity queue_codes INT_MAX_def)
  then show ?thesis using s(1) by blast
qed

theorem native_write_reaches_host_witness:
  "\<exists>w' rs w2. native_step (Native_write [1, 2, 3]) created_world = Some (Js_int32 3, w')
     \<and> read_all (bare_ipc_read 2) [2, 5, 1] w' = Some ((rs, [1, 2, 3]), w2)"
proof -
  obtain w' where w': "native_step (Native_write [1, 2, 3]) created_world = Some (Js_int32 3, w')"
    using created_native_write by blast
  have o: "is_open created_world 2" by (simp add: is_open_def)
  show ?thesis
    using native_write_reaches_host [OF created_ok o created_simps(2) attached_not_destroyed w', of "[2, 5, 1]"] w'
    by (simp add: created_inbound)
qed

section \<open>From the host to JavaScript\<close>

text \<open>The host sends some messages; the results of its writes.\<close>

primrec host_send :: "ptr \<Rightarrow> byte list list \<Rightarrow> 'p wworld \<Rightarrow> (int list \<times> 'p wworld) option" where
  "host_send ipc [] w = Some ([], w)"
| "host_send ipc (d # ds) w = do {
     (r, w) \<leftarrow> bare_ipc_write ipc d w;
     (rs, w) \<leftarrow> host_send ipc ds w;
     Some (r # rs, w)
   }"

text \<open>
  The script reads as often as told and copies each buffer, which the garbage collector then
  takes.
\<close>

primrec script_receive :: "nat \<Rightarrow> 'p wworld \<Rightarrow> (byte list list \<times> 'p wworld) option" where
  "script_receive 0 w = Some ([], w)"
| "script_receive (Suc k) w = do {
     (v, w) \<leftarrow> native_step Native_read w;
     (d, w) \<leftarrow> (case v of
                  Js_external_arraybuffer p n \<Rightarrow> do {
                    d \<leftarrow> read_block p 0 n w;
                    w \<leftarrow> bare_worklet__on_ipc_finalize p w;
                    Some (d, w)
                  }
                | _ \<Rightarrow> Some ([], w));
     (ds, w) \<leftarrow> script_receive k w;
     Some (d # ds, w)
   }"

text \<open>A buffer that the script drops is freed, and nothing else happens.\<close>

definition unpended :: "'z ipc_world_scheme \<Rightarrow> ptr \<Rightarrow> bool" where
  "unpended w p \<longleftrightarrow> (\<forall>ipc i. ipcs w ipc = Some i \<longrightarrow> base (pending i) \<noteq> NULL \<longrightarrow> base (pending i) \<noteq> p)"

lemma finalize_spec:
  assumes ok: "ipc_ok w" and env: "env_ok w" and p: "caller_heap w p = Some b"
    and free: "unpended w p"
  shows "\<exists>w'. bare_worklet__on_ipc_finalize p w = Some w' \<and> ipc_ok w' \<and> env_ok w'
    \<and> abs_world w' = abs_world w \<and> caller_heap w' = (caller_heap w)(p := None) \<and> queue w' = queue w
    \<and> ipc_world.more w' = ipc_world.more w \<and> ipcs w' = ipcs w"
proof -
  let ?w = "w\<lparr>blocks := (blocks w)(p := None)\<rparr>"
  note w = ipc_okD [OF ok]
  have b: "blocks w p = Some b" "p \<notin> owned w" using p by (auto simp: caller_heap_def restrict_map_def split: if_splits)
  have h: "heap_ok w" using w(1) by (simp add: world_ok_def)
  have f: "free_block p w = Some ?w" by (rule free_block_live [OF b(1) h])
  have wok: "world_ok ?w" by (rule release_ok [OF w(1) b(2) f])
  have a: "abs_world ?w = abs_world w"
  proof (cases "queue w")
    case None
    then show ?thesis by (simp add: abs_world_def)
  next
    case (Some q)
    then show ?thesis using release_refines [OF w(1) b(2) f Some] by (simp add: abs_world_def)
  qed
  have "ipc_good ?w a j" if j: "ipcs w a = Some j" for a j
  proof -
    have g: "ipc_good w a j" by (rule w(4) [OF j])
    have "base (pending j) = NULL \<or> base (pending j) \<noteq> p" using free j by (auto simp: unpended_def)
    then have "pending_ok ?w j"
      using g by (auto simp: ipc_good_def pending_ok_def live_message_def owned_def)
    then show ?thesis using g by (simp add: ipc_good_def port_ok_def signal_ok_def poll_ok_def split: option.splits)
  qed
  then have "ipc_ok ?w" using w wok by (simp add: ipc_ok_def addresses_ok_def served_def)
  moreover have "caller_heap ?w = (caller_heap w)(p := None)"
    by (auto simp: caller_heap_def restrict_map_def fun_eq_iff)
  ultimately show ?thesis using f a env by (simp add: bare_worklet__on_ipc_finalize_def)
qed

lemma host_write_caller:
  assumes ok: "ipc_ok w" and i: "ipcs w ipc = Some i" "ipc_port i \<noteq> None"
    and st: "bare_ipc_write ipc data w = Some (r, w')"
  shows "caller_heap w' = caller_heap w"
proof -
  obtain port where port: "ipc_port i = Some port" using i(2) by blast
  obtain q where q: "port = Thread_port" "queue w = Some q" using open_ipc [OF ok i(1) port] by metis
  let ?w = "emit (Mutex_lock Ipc_lock) w"
  have w: "world_ok ?w" "queue ?w = Some q" using ipc_okD(1) [OF ok] q(2) by simp_all
  obtain n w1 where n: "bare_queue_write Thread_port data ?w = Some (n, w1)"
      "w' = emit (Mutex_unlock Ipc_lock) w1"
    using st i(1) port q(1) by (auto simp: bare_ipc_write_def bind_eq_Some_conv)
  then have "queue_step (Write Thread_port data) ?w = Some (Sent n, w1)" by simp
  then have "caller_heap w1 = caller_heap ?w" using step_caller_heap [OF w] by fastforce
  then show ?thesis using n(2) by simp
qed

lemma host_send_spec:
  assumes "ipc_ok w" and "env_ok w" and "is_open w ipc" and "abs_world w = Some ch" and "\<not> shut ch Thread_port"
    and "length (waiting ch Uv_port) + length ds \<le> depth" and "\<forall>d \<in> set ds. d \<noteq> [] \<and> length d \<le> INT_MAX"
  shows "\<exists>w'. host_send ipc ds w = Some (map (\<lambda>d. int (length d)) ds, w') \<and> ipc_ok w' \<and> env_ok w'
    \<and> abs_world w' = Some (ch\<lparr>waiting := (waiting ch)(Uv_port := waiting ch Uv_port @ ds)\<rparr>)
    \<and> caller_heap w' = caller_heap w"
  using assms
proof (induction ds arbitrary: w ch)
  case Nil
  then show ?case by simp
next
  case (Cons d ds)
  obtain i port where i: "ipcs w ipc = Some i" "ipc_port i = Some port"
    using Cons.prems(3) by (auto simp: is_open_def)
  let ?ch = "ch\<lparr>waiting := (waiting ch)(Uv_port := waiting ch Uv_port @ [d])\<rparr>"
  obtain n w1 where s: "bare_ipc_write ipc d w = Some (ipc_status n, w1)" "ipc_ok w1" "env_ok w1" "ipcs w1 = ipcs w"
      "\<exists>q. queue w = Some q \<and> (Sent n, abs_world w1) = spec_step (Write Thread_port d) (abs_queue w q)"
    using ipc_write_spec [OF Cons.prems(1,2) i(1), of d] i(2) by auto
  then have "(Sent n, abs_world w1) = spec_step (Write Thread_port d) ch"
    using Cons.prems(4) by (auto simp: abs_world_def simp del: spec_step.simps)
  then have n: "n = int (length d)" "abs_world w1 = Some ?ch"
    using Cons.prems(5-7) by (auto split: if_splits)
  have cp: "caller_heap w1 = caller_heap w"
    using host_write_caller [OF Cons.prems(1) i(1) _ s(1)] i(2) by simp
  have "d \<noteq> []" using Cons.prems(7) by simp
  then have st: "ipc_status n = int (length d)"
    using n(1) by (simp add: ipc_status_def queue_codes)
  have o: "is_open w1 ipc" using s(4) i by (simp add: is_open_def)
  have sh: "\<not> shut ?ch Thread_port" using Cons.prems(5) by (simp add: shut_def)
  obtain w' where "host_send ipc ds w1 = Some (map (\<lambda>d. int (length d)) ds, w')" "ipc_ok w'" "env_ok w'"
      "abs_world w' = Some (?ch\<lparr>waiting := (waiting ?ch)(Uv_port := waiting ?ch Uv_port @ ds)\<rparr>)"
      "caller_heap w' = caller_heap w1"
    using Cons.IH [OF s(2,3) o n(2) sh] Cons.prems(6,7) by fastforce
  moreover have "?ch\<lparr>waiting := (waiting ?ch)(Uv_port := waiting ?ch Uv_port @ ds)\<rparr>
      = ch\<lparr>waiting := (waiting ch)(Uv_port := waiting ch Uv_port @ d # ds)\<rparr>"
    by (rule channel_eqI) simp_all
  ultimately show ?case using s(1) st cp by (simp add: fun_upd_def)
qed

lemma script_receive_spec:
  assumes "ipc_ok w" and "env_ok w" and "abs_world w = Some ch" and "\<not> released ch" and "waiting ch Uv_port = ds"
  shows "\<exists>w'. script_receive (length ds) w = Some (ds, w') \<and> ipc_ok w'
    \<and> abs_world w' = Some (ch\<lparr>waiting := (waiting ch)(Uv_port := [])\<rparr>) \<and> caller_heap w' = caller_heap w"
  using assms
proof (induction ds arbitrary: w ch)
  case Nil
  then have "(waiting ch)(Uv_port := []) = waiting ch" by auto
  then show ?case using Nil by simp
next
  case (Cons d ds)
  obtain q where q: "queue w = Some q" "abs_queue w q = ch" "\<not> destroyed q"
    using Cons.prems(3,4) by (auto simp: abs_world_def)
  let ?w = "emit (Js Js_get_callback_info) w"
  have w: "world_ok ?w" "queue ?w = Some q" using ipc_okD(1) [OF Cons.prems(1)] q(1) by simp_all
  obtain ob v w1 where s: "queue_step (Read Uv_port) ?w = Some (ob, w1)"
      "native_step Native_read w = Some (v, emit (Js (Js_create_value v)) w1)" "value_for ob w1 v"
      "ob \<noteq> Blocked \<longrightarrow> ob \<noteq> Eof \<longrightarrow> (\<exists>p n. v = Js_external_arraybuffer p n \<and> 0 < n \<and> n \<le> INT_MAX
         \<and> caller_heap w1 = (caller_heap w)(p := blocks w p) \<and> p \<in> owned w)"
    using native_read_spec [OF Cons.prems(1,2) q(1)] by (elim exE conjE) (rule that)
  let ?ch = "ch\<lparr>waiting := (waiting ch)(Uv_port := ds)\<rparr>" and ?w1 = "emit (Js (Js_create_value v)) w1"
  have "(ob, abs_world w1) = spec_step (Read Uv_port) (abs_queue ?w q)" by (rule step_refines [OF w s(1)])
  then have ob: "ob = Got d" "abs_world w1 = Some ?ch" using q(2) Cons.prems(5) by simp_all
  then obtain p where v: "v = Js_external_arraybuffer p (length d)" "caller_heap w1 p = Some d"
      "caller_heap w1 = (caller_heap w)(p := blocks w p)" "p \<in> owned w"
    using s(3,4) by auto
  have k: "ipc_ok ?w1" "env_ok ?w1"
    using native_spec [OF Cons.prems(1,2) q(1,3), of Native_read] s(2) by auto
  have "ipcs ?w1 = ipcs w" using step_same_host [OF w s(1)] by (simp add: same_host_def)
  moreover have "base (pending i) \<noteq> p" if "ipcs w ipc = Some i" "base (pending i) \<noteq> NULL" for ipc i
    using ipc_okD(4) [OF Cons.prems(1) that(1)] that(2) v(4) by (auto simp: ipc_good_def pending_ok_def)
  ultimately have un: "unpended ?w1 p" by (simp add: unpended_def)
  have cp: "caller_heap ?w1 p = Some d" using v(2) by simp
  obtain w2 where f: "bare_worklet__on_ipc_finalize p ?w1 = Some w2" "ipc_ok w2" "env_ok w2"
      "abs_world w2 = abs_world ?w1" "caller_heap w2 = (caller_heap ?w1)(p := None)"
    using finalize_spec [OF k cp un] by blast
  have "caller_heap w p = None" using v(4) by (simp add: caller_heap_def)
  then have c2: "caller_heap w2 = caller_heap w" using f(5) v(3) by auto
  have rb: "read_block p 0 (length d) ?w1 = Some d"
    using v(2) by (auto simp: read_block_def caller_heap_def restrict_map_def split: if_splits)
  have a2: "abs_world w2 = Some ?ch" using f(4) ob(2) by simp
  obtain w' where "script_receive (length ds) w2 = Some (ds, w')" "ipc_ok w'"
      "abs_world w' = Some (?ch\<lparr>waiting := (waiting ?ch)(Uv_port := [])\<rparr>)" "caller_heap w' = caller_heap w2"
    using Cons.IH [OF f(2,3) a2] Cons.prems(4) by fastforce
  moreover have "?ch\<lparr>waiting := (waiting ?ch)(Uv_port := [])\<rparr> = ch\<lparr>waiting := (waiting ch)(Uv_port := [])\<rparr>"
    by (rule channel_eqI) simp_all
  ultimately show ?case using s(2) v(1) rb f(1) c2 by (simp add: fun_upd_def)
qed

text \<open>
  C21: What the host writes is what the script reads. Up to 1023 messages, written while nothing
  waits and neither end has ended, are each taken whole, and as many calls of \<open>read\<close> hand the
  script exactly these messages in order. Once its buffers are collected, the heap outside the
  queue and the channel are as they were: each message was copied in, handed over and freed once.
\<close>

theorem host_write_reaches_script:
  assumes "ipc_ok w" and "env_ok w" and "is_open w ipc" and "queue w = Some q" and "\<not> destroyed q"
    and "waiting (abs_queue w q) Uv_port = []" and "\<not> shut (abs_queue w q) Thread_port"
    and "length ds < BARE_QUEUE_CAPACITY" and "\<forall>d \<in> set ds. d \<noteq> [] \<and> length d \<le> INT_MAX"
  shows "\<exists>w1 w2. host_send ipc ds w = Some (map (\<lambda>d. int (length d)) ds, w1)
    \<and> script_receive (length ds) w1 = Some (ds, w2)
    \<and> abs_world w2 = abs_world w \<and> caller_heap w2 = caller_heap w"
proof -
  define ch where "ch = abs_queue w q"
  have a: "abs_world w = Some ch" using assms(4) by (simp add: abs_world_def ch_def)
  have ch: "\<not> released ch" "waiting ch Uv_port = []" "\<not> shut ch Thread_port"
    using assms(5-7) by (simp_all add: ch_def)
  let ?ch = "ch\<lparr>waiting := (waiting ch)(Uv_port := ds)\<rparr>"
  have l: "length (waiting ch Uv_port) + length ds \<le> depth" using ch(2) assms(8) by (simp add: depth_def)
  obtain w1 where w1: "host_send ipc ds w = Some (map (\<lambda>d. int (length d)) ds, w1)" "ipc_ok w1" "env_ok w1"
      "abs_world w1 = Some ?ch" "caller_heap w1 = caller_heap w"
    using host_send_spec [OF assms(1-3) a ch(3) l assms(9)] ch(2) by auto
  obtain w2 where "script_receive (length ds) w1 = Some (ds, w2)"
      "abs_world w2 = Some (?ch\<lparr>waiting := (waiting ?ch)(Uv_port := [])\<rparr>)" "caller_heap w2 = caller_heap w1"
    using script_receive_spec [OF w1(2-4)] ch(1) by auto
  moreover have "(waiting ch)(Uv_port := []) = waiting ch" using ch(2) by auto
  ultimately show ?thesis using w1 a by simp
qed

theorem host_write_reaches_script_witness:
  "\<exists>w1 w2. host_send 2 [[1, 2], [3]] created_world = Some ([2, 1], w1)
     \<and> script_receive 2 w1 = Some ([[1, 2], [3]], w2) \<and> caller_heap w2 = Map.empty"
proof -
  have o: "is_open created_world 2" by (simp add: is_open_def)
  have "\<exists>w1 w2. host_send 2 [[1, 2], [3]] created_world = Some (map (\<lambda>d. int (length d)) [[1, 2], [3 :: byte]], w1)
    \<and> script_receive (length [[1, 2], [3 :: byte]]) w1 = Some ([[1, 2], [3]], w2)
    \<and> abs_world w2 = abs_world created_world \<and> caller_heap w2 = caller_heap created_world"
    by (intro host_write_reaches_script [OF created_ok o created_simps(2) attached_not_destroyed])
      (use attached_not_shut attached_waiting(1) [of created_world Uv_port] in \<open>simp_all add: capacity INT_MAX_def\<close>)
  moreover have "caller_heap created_world = Map.empty" by (simp add: caller_heap_def created_world_def)
  moreover have "length [[1, 2], [3 :: byte]] = 2" "map (\<lambda>d. int (length d)) [[1, 2], [3 :: byte]] = [2, 1]"
    by simp_all
  ultimately show ?thesis by metis
qed

end
