(* ===== verification/Worklet_Cycle.thy ===== *)
theory Worklet_Cycle
  imports Worklet_Control Worklet_Js
begin

text \<open>
  The life of a worklet: its host, its thread, the other worklets of the process and the
  teardown of the process, interleaved in any order that their waits allow.

  An event is one operation of one of them, up to the next point where it waits for another or
  gives up a lock that another may hold. \<open>cycle_step\<close> runs the code of an event, \<open>may\<close> says when
  it can come: the place where its thread is, what the barrier and the semaphore hold back,
  and what the interface asks of the host.
\<close>

section \<open>Events\<close>

datatype host_pc =
    Configuring \<comment> \<open>created, not started\<close>
  | Starting \<comment> \<open>in \<open>bare_worklet_start\<close>, at the barrier\<close>
  | Started
  | Terminated \<comment> \<open>in \<open>bare_worklet_destroy\<close>, about to post the semaphore\<close>
  | Posted \<comment> \<open>in \<open>bare_worklet_destroy\<close>, about to free its struct\<close>
  | Destroyed
  | Discarded \<comment> \<open>destroyed without having been started\<close>

datatype thread_pc =
    Not_created | Born | Set_up | Opened | Referenced
  | Waiting \<comment> \<open>at the barrier\<close>
  | Released | In_module | Looping | Retired | Detached | Shut
  | Exited \<comment> \<open>at the semaphore\<close>
  | Finished

primrec stage :: "thread_pc \<Rightarrow> nat" where
  "stage Not_created = 0" | "stage Born = 1" | "stage Set_up = 2" | "stage Opened = 3"
| "stage Referenced = 4" | "stage Waiting = 5" | "stage Released = 6" | "stage In_module = 7"
| "stage Looping = 8" | "stage Retired = 9" | "stage Detached = 10" | "stage Shut = 11"
| "stage Exited = 12" | "stage Finished = 13"

datatype lifecycle = Suspend_ev int | Wakeup_ev int | Idle_ev | Resume_ev

datatype event =
    Set_callbacks "bare_worklet_callbacks \<Rightarrow> bare_worklet_callbacks"
  | Set_data ptr
  | Start ptr string "byte list option" nat "string list"
  | Pass_barrier
  | Suspend int
  | Resume
  | Wake_up int
  | Terminate
  | Discard \<comment> \<open>\<open>bare_worklet_destroy\<close> of a worklet that has not started\<close>
  | Destroy_terminate
  | Destroy_post
  | Destroy_free
  | Host_ipc ipc_op
  | Other_starts \<comment> \<open>another worklet of the process\<close>
  | Other_stops
  | Begin_teardown
  | End_teardown
  | Setup
  | Open_bundle
  | Reference
  | Ready
  | Call_start
  | Loop
  | Native native_call \<comment> \<open>JavaScript calls a function of the ipc\<close>
  | Lifecycle lifecycle
  | Signal
  | Retire
  | Detach
  | Shutdown
  | Exit int
  | Free

record 'p cycle =
  world_of :: "'p wworld"
  host_at :: host_pc
  thread_at :: thread_pc
  start_args :: "js_value_t list"
  others_running :: nat
  tearing :: bool \<comment> \<open>\<open>bare_worklet_teardown\<close> was called\<close>
  down :: bool \<comment> \<open>and has passed its wait\<close>

definition run_lifecycle :: "'p platform_ops \<Rightarrow> lifecycle \<Rightarrow> 'p wworld \<Rightarrow> 'p wworld option" where
  "run_lifecycle P l w = (case l of
     Suspend_ev n \<Rightarrow> bare_worklet__on_suspend n w
   | Wakeup_ev n \<Rightarrow> bare_worklet__on_wakeup n w
   | Idle_ev \<Rightarrow> bare_worklet__on_idle P w
   | Resume_ev \<Rightarrow> bare_worklet__on_resume w)"

text \<open>
  Where an event leaves the host and the thread. The addresses \<open>js\<close> and \<open>inst\<close> of the
  JavaScript platform and of the Bare instance are the environment's.
\<close>

definition at_world :: "'p cycle \<Rightarrow> 'p wworld \<Rightarrow> 'p cycle" where
  "at_world c w = c\<lparr>world_of := w\<rparr>"

definition host_to :: "host_pc \<Rightarrow> 'p cycle \<Rightarrow> 'p wworld \<Rightarrow> 'p cycle" where
  "host_to h c w = c\<lparr>world_of := w, host_at := h\<rparr>"

definition thread_to :: "thread_pc \<Rightarrow> 'p cycle \<Rightarrow> 'p wworld \<Rightarrow> 'p cycle" where
  "thread_to t c w = c\<lparr>world_of := w, thread_at := t\<rparr>"

lemmas to_defs = at_world_def host_to_def thread_to_def

fun cycle_step :: "'p platform_ops \<Rightarrow> ptr \<Rightarrow> ptr \<Rightarrow> event \<Rightarrow> 'p cycle \<Rightarrow> 'p cycle option" where
  "cycle_step P js inst (Set_callbacks f) c = map_option (at_world c \<circ> snd) (set_callbacks f (world_of c))"
| "cycle_step P js inst (Set_data d) c = map_option (at_world c) (bare_worklet_set_data d (world_of c))"
| "cycle_step P js inst (Start tid path src n args) c = do {
     (r, w) \<leftarrow> start_thread tid path src n args (world_of c);
     Some (case r of Inl err \<Rightarrow> at_world c w
       | Inr _ \<Rightarrow> c\<lparr>world_of := w, host_at := Starting, thread_at := Born\<rparr>)
   }"
| "cycle_step P js inst Pass_barrier c =
     map_option (\<lambda>w. c\<lparr>world_of := w, host_at := Started, thread_at := Released\<rparr>) (start_ready Some (world_of c))"
| "cycle_step P js inst (Suspend n) c = map_option (at_world c \<circ> snd) (bare_worklet_suspend P n (world_of c))"
| "cycle_step P js inst Resume c = map_option (at_world c \<circ> snd) (bare_worklet_resume P (world_of c))"
| "cycle_step P js inst (Wake_up n) c = map_option (at_world c \<circ> snd) (bare_worklet_wakeup P n (world_of c))"
| "cycle_step P js inst Terminate c = map_option (at_world c \<circ> snd) (bare_worklet_terminate (world_of c))"
| "cycle_step P js inst Discard c = map_option (host_to Discarded c) (bare_worklet_destroy P (world_of c))"
| "cycle_step P js inst Destroy_terminate c =
     map_option (host_to Terminated c \<circ> snd) (bare_worklet_terminate (world_of c))"
| "cycle_step P js inst Destroy_post c = do {
     k \<leftarrow> worklet (world_of c);
     map_option (host_to Posted c) (sem_post (finished_sem k) (world_of c))
   }"
| "cycle_step P js inst Destroy_free c = map_option (host_to Destroyed c) (free_worklet P (world_of c))"
| "cycle_step P js inst (Host_ipc op) c = map_option (at_world c \<circ> snd) (ipc_step op (world_of c))"
| "cycle_step P js inst Other_starts c = Some (c\<lparr>world_of := other_starts (world_of c),
     others_running := (if torn_down (world_of c) then others_running c else Suc (others_running c))\<rparr>)"
| "cycle_step P js inst Other_stops c =
     Some (c\<lparr>world_of := bare_worklet__on_stopped (world_of c), others_running := others_running c - 1\<rparr>)"
| "cycle_step P js inst Begin_teardown c =
     map_option (\<lambda>w. c\<lparr>world_of := w, tearing := True\<rparr>) (teardown_begin P (world_of c))"
| "cycle_step P js inst End_teardown c =
     map_option (\<lambda>w. c\<lparr>world_of := w, down := True\<rparr>) (teardown_end (world_of c))"
| "cycle_step P js inst Setup c = map_option (thread_to Set_up c) (thread_setup P js inst (world_of c))"
| "cycle_step P js inst Open_bundle c = map_option (thread_to Opened c \<circ> snd) (thread_open (world_of c))"
| "cycle_step P js inst Reference c = map_option (thread_to Referenced c) (thread_reference (world_of c))"
| "cycle_step P js inst Ready c =
     map_option (\<lambda>(args, w). c\<lparr>world_of := w, thread_at := Waiting, start_args := args\<rparr>) (thread_ready P (world_of c))"
| "cycle_step P js inst Call_start c = Some (thread_to In_module c (thread_call_start (start_args c) (world_of c)))"
| "cycle_step P js inst Loop c = map_option (thread_to Looping c) (thread_loop (world_of c))"
| "cycle_step P js inst (Native n) c = map_option (at_world c \<circ> snd) (native_step n (world_of c))"
| "cycle_step P js inst (Lifecycle l) c = map_option (at_world c) (run_lifecycle P l (world_of c))"
| "cycle_step P js inst Signal c = do {
     w \<leftarrow> bare_queue__on_wakeup_uv (world_of c);
     map_option (at_world c) (bare_worklet__on_ipc_signal Some Uv_port w)
   }"
| "cycle_step P js inst Retire c = map_option (thread_to Retired c) (thread_retire Uv_port (world_of c))"
| "cycle_step P js inst Detach c = map_option (thread_to Detached c) (thread_detach_bare P (world_of c))"
| "cycle_step P js inst Shutdown c = map_option (thread_to Shut c) (thread_shutdown (world_of c))"
| "cycle_step P js inst (Exit code) c = map_option (thread_to Exited c) (thread_exit P code (world_of c))"
| "cycle_step P js inst Free c = map_option (thread_to Finished c) (thread_free P (world_of c))"

text \<open>
  When an event may come. The host uses the worklet only until it destroys it; a thread that
  waits goes on when the barrier or the semaphore lets it; the functions of the ipc are there
  for JavaScript from the call of \<open>openIPC\<close> to the end of \<open>bare_teardown\<close>.
\<close>

definition may :: "event \<Rightarrow> 'p cycle \<Rightarrow> bool" where
  "may e c = (let h = host_at c; t = thread_at c; w = world_of c in (case e of
     Set_callbacks f \<Rightarrow> h = Configuring
   | Set_data d \<Rightarrow> h \<in> {Configuring, Starting, Started}
   | Start tid path src n args \<Rightarrow> h = Configuring \<and> tid \<noteq> NULL
       \<and> (case src of None \<Rightarrow> True | Some b \<Rightarrow> n \<le> length b)
   | Pass_barrier \<Rightarrow> h = Starting \<and> t = Waiting
   | Suspend n \<Rightarrow> h \<in> {Configuring, Starting, Started}
   | Resume \<Rightarrow> h \<in> {Configuring, Starting, Started}
   | Wake_up n \<Rightarrow> h \<in> {Configuring, Starting, Started}
   | Terminate \<Rightarrow> h \<in> {Configuring, Starting, Started}
   | Discard \<Rightarrow> h = Configuring
   | Destroy_terminate \<Rightarrow> h = Started
   | Destroy_post \<Rightarrow> h = Terminated
   | Destroy_free \<Rightarrow> h = Posted
   | Host_ipc op \<Rightarrow> by_host op
       \<and> (if op = Ipc_create then h \<in> {Configuring, Starting, Started} else allowed w op)
   | Other_starts \<Rightarrow> True
   | Other_stops \<Rightarrow> 0 < others_running c
   | Begin_teardown \<Rightarrow> \<not> tearing c
   | End_teardown \<Rightarrow> tearing c \<and> \<not> down c \<and> running w \<le> 0
   | Setup \<Rightarrow> t = Born
   | Open_bundle \<Rightarrow> t = Set_up
   | Reference \<Rightarrow> t = Opened
   | Ready \<Rightarrow> t = Referenced
   | Call_start \<Rightarrow> t = Released
   | Loop \<Rightarrow> t = In_module
   | Native n \<Rightarrow> t \<in> {Opened, In_module, Looping, Shut}
   | Lifecycle l \<Rightarrow> t \<in> {Looping, Shut}
   | Signal \<Rightarrow> t = Looping
   | Retire \<Rightarrow> t = Looping
   | Detach \<Rightarrow> t = Retired
   | Shutdown \<Rightarrow> t = Detached
   | Exit code \<Rightarrow> t = Shut
   | Free \<Rightarrow> t = Exited \<and> (\<exists>n. semaphore w = Some n \<and> 0 < n)))"

section \<open>The invariant\<close>

definition places_ok :: "host_pc \<Rightarrow> thread_pc \<Rightarrow> bool" where
  "places_ok h t = (case h of
     Configuring \<Rightarrow> t = Not_created
   | Discarded \<Rightarrow> t = Not_created
   | Starting \<Rightarrow> 1 \<le> stage t \<and> stage t \<le> 5
   | Posted \<Rightarrow> 6 \<le> stage t
   | Destroyed \<Rightarrow> 6 \<le> stage t
   | _ \<Rightarrow> 6 \<le> stage t \<and> stage t \<le> 12)"

text \<open>Whether the worklet's share of the queue and of the state was given up.\<close>

definition over :: "host_pc \<Rightarrow> thread_pc \<Rightarrow> bool" where
  "over h t \<longleftrightarrow> h = Discarded \<or> t = Finished"

definition struct_inv :: "host_pc \<Rightarrow> thread_pc \<Rightarrow> bare_worklet_t option \<Rightarrow> bool" where
  "struct_inv h t x = (case x of
     None \<Rightarrow> h = Destroyed \<or> h = Discarded
   | Some k \<Rightarrow> h \<noteq> Destroyed \<and> h \<noteq> Discarded \<and> (thread k = NULL \<longleftrightarrow> h = Configuring)
       \<and> (2 \<le> stage t \<longrightarrow> finished_sem k = finished_ptr)
       \<and> (h = Starting \<longrightarrow> (case source k of None \<Rightarrow> True | Some b \<Rightarrow> source_len k \<le> length b)))"

definition state_inv :: "host_pc \<Rightarrow> thread_pc \<Rightarrow> (bare_suspension_t \<Rightarrow> bool) \<Rightarrow> bare_worklet_state_t option \<Rightarrow> bool" where
  "state_inv h t live x = (case x of
     None \<Rightarrow> over h t
   | Some s \<Rightarrow> \<not> over h t \<and> (bare s \<noteq> NULL \<longleftrightarrow> 2 \<le> stage t \<and> stage t \<le> 9) \<and> (finished s \<longleftrightarrow> 9 \<le> stage t)
       \<and> (2 \<le> stage t \<and> stage t \<le> 11 \<longrightarrow> live (suspension s)))"

definition queue_inv :: "host_pc \<Rightarrow> thread_pc \<Rightarrow> bare_queue_t option \<Rightarrow> bool" where
  "queue_inv h t x = (case x of
     None \<Rightarrow> over h t
   | Some q \<Rightarrow> (destroyed q \<longleftrightarrow> over h t) \<and> (over h t \<longrightarrow> bare_queue__listening (thread_state q))
       \<and> (over h t \<or> 9 \<le> stage t \<longrightarrow> uv_state q = bare_queue_state_closed)
       \<and> (3 \<le> stage t \<longrightarrow> port_data (uv_port q) = thread_ipc_ptr \<and> on_recv_uv q = on_ipc_signal_ptr))"

definition stack_inv :: "host_pc \<Rightarrow> thread_pc \<Rightarrow> nat option \<Rightarrow> bare_worklet__ipc_t option \<Rightarrow> bool" where
  "stack_inv h t sem x \<longleftrightarrow>
     sem = (if 2 \<le> stage t \<and> stage t \<le> 12 then Some (if h = Posted \<or> h = Destroyed then 1 else 0) else None)
     \<and> x = (if 3 \<le> stage t \<and> stage t \<le> 12 then Some \<lparr>signal = (4 \<le> stage t \<and> stage t \<le> 10)\<rparr> else None)"

definition running_inv :: "thread_pc \<Rightarrow> nat \<Rightarrow> bool \<Rightarrow> bool \<Rightarrow> int \<Rightarrow> bool \<Rightarrow> bool" where
  "running_inv t others tear dn n torn \<longleftrightarrow>
     n = int others + (if 1 \<le> stage t \<and> stage t \<le> 11 then 1 else 0)
     \<and> (torn \<longleftrightarrow> tear) \<and> (dn \<longrightarrow> tear \<and> n = 0)"

lemmas inv_defs = places_ok_def over_def struct_inv_def state_inv_def queue_inv_def stack_inv_def running_inv_def

text \<open>Between the hooks of the platform that the thread calls first and last.\<close>

definition entered :: "thread_pc \<Rightarrow> bool" where
  "entered t \<longleftrightarrow> 2 \<le> stage t \<and> stage t \<le> 12"

lemma entered_simps [simp]:
  "\<not> entered Not_created" "\<not> entered Born" "entered Set_up" "entered Opened" "entered Referenced"
  "entered Waiting" "entered Released" "entered In_module" "entered Looping" "entered Retired"
  "entered Detached" "entered Shut" "entered Exited" "\<not> entered Finished"
  by (simp_all add: entered_def)

text \<open>The options of the struct are held for as long as the struct is there.\<close>

definition held_inv :: "(bare_worklet_options_t \<Rightarrow> bool) \<Rightarrow> bare_worklet_t option \<Rightarrow> bool" where
  "held_inv keeps x = (case x of None \<Rightarrow> True | Some k \<Rightarrow> keeps (options k))"

definition world_inv :: "(bool \<Rightarrow> 'p \<Rightarrow> bool) \<Rightarrow> (bare_worklet_options_t \<Rightarrow> 'p \<Rightarrow> bool)
    \<Rightarrow> (bare_suspension_t \<Rightarrow> 'p \<Rightarrow> bool) \<Rightarrow> host_pc \<Rightarrow> thread_pc \<Rightarrow> 'p wworld \<Rightarrow> bool" where
  "world_inv ok keeps live h t w \<longleftrightarrow> ipc_ok w \<and> env_ok w \<and> ok (entered t) (native w) \<and> init_guard w \<and> places_ok h t
     \<and> struct_inv h t (worklet w) \<and> held_inv (\<lambda>k. keeps k (native w)) (worklet w)
     \<and> state_inv h t (\<lambda>s. live s (native w)) (wstate w)
     \<and> queue_inv h t (queue w) \<and> stack_inv h t (semaphore w) (thread_ipc w)"

definition cycle_inv :: "(bool \<Rightarrow> 'p \<Rightarrow> bool) \<Rightarrow> (bare_worklet_options_t \<Rightarrow> 'p \<Rightarrow> bool)
    \<Rightarrow> (bare_suspension_t \<Rightarrow> 'p \<Rightarrow> bool) \<Rightarrow> 'p cycle \<Rightarrow> bool" where
  "cycle_inv ok keeps live c \<longleftrightarrow> world_inv ok keeps live (host_at c) (thread_at c) (world_of c)
     \<and> running_inv (thread_at c) (others_running c) (tearing c) (down c) (running (world_of c)) (torn_down (world_of c))"

end
