(* ===== verification/Ipc_Share.thy ===== *)
theory Ipc_Share
  imports Ipc_Frame
begin

text \<open>
  The host's share of a queue that the worklet has given up: nothing that the host does but
  closing its end gives it up, and closing frees the queue.
\<close>

definition thread_kept :: "'z qworld_scheme \<Rightarrow> 'z qworld_scheme \<Rightarrow> bool" where
  "thread_kept w v \<longleftrightarrow> map_option thread_state (queue v) = map_option thread_state (queue w)"

lemma thread_kept_simps [simp]:
  "thread_kept w w" "thread_kept w (emit c v) = thread_kept w v" "thread_kept (emit c w) v = thread_kept w v"
  by (simp_all add: thread_kept_def)

lemma thread_kept_ipcs [simp]: "thread_kept w (v\<lparr>ipcs := x\<rparr>) = thread_kept w v" "thread_kept (w\<lparr>ipcs := x\<rparr>) v = thread_kept w v"
  by (simp_all add: thread_kept_def)

lemma thread_kept_trans: "thread_kept w v \<Longrightarrow> thread_kept v u \<Longrightarrow> thread_kept w u"
  by (simp add: thread_kept_def)

lemma thread_kept_queue_read: "bare_queue_read p w = Some (r, v) \<Longrightarrow> thread_kept w v"
  by (cases "queue w") (auto simp: bare_queue_read_def Let_def thread_kept_def emit_def signal_peer_eq
      split: if_splits prod.splits)

lemma thread_kept_readable: "bare_queue_readable p w = Some (r, v) \<Longrightarrow> thread_kept w v"
  by (auto simp: bare_queue_readable_def bind_eq_Some_conv Let_def)

lemma thread_kept_signal: "bare_ipc__signal i w = Some v \<Longrightarrow> thread_kept w v"
  by (auto simp: bare_ipc__signal_def emit_ok_def bind_eq_Some_conv split: if_splits)

lemma thread_kept_free: "free_block p w = Some v \<Longrightarrow> thread_kept w v"
  by (auto simp: free_block_def thread_kept_def split: if_splits)

lemma thread_kept_copy: "copy_pending ipc n i w = Some (r, v) \<Longrightarrow> thread_kept w v"
  by (auto simp: copy_pending_def bind_eq_Some_conv Let_def split: if_splits
      dest!: thread_kept_free thread_kept_readable thread_kept_signal) (meson thread_kept_trans)+

lemma thread_kept_next: "next_pending i w = Some (r, i', v) \<Longrightarrow> thread_kept w v"
  by (auto simp: next_pending_def bind_eq_Some_conv Let_def dest: thread_kept_queue_read
      split: option.splits if_splits)

lemma thread_kept_ipc_read:
  assumes st: "bare_ipc_read ipc n w = Some (r, v)"
  shows "thread_kept w v"
proof -
  let ?w = "emit (Mutex_lock Ipc_lock) w"
  obtain i result i' w1 w2 where n: "next_pending i ?w = Some (result, i', w1)"
      "(if base (pending i') \<noteq> NULL then copy_pending ipc (min n INT_MAX) i' w1
        else Some ((result, []), w1\<lparr>ipcs := (ipcs w1)(ipc \<mapsto> i')\<rparr>)) = Some (r, w2)"
      "v = emit (Mutex_unlock Ipc_lock) w2"
    using st by (auto simp: bare_ipc_read_def bind_eq_Some_conv Let_def)
  have "thread_kept w w1" using thread_kept_next [OF n(1)] by simp
  moreover have "thread_kept w1 w2" using n(2) by (auto split: if_splits intro: thread_kept_copy)
  ultimately show ?thesis using n(3) thread_kept_trans by simp
qed

lemma thread_of_abs:
  assumes "ipc_ok w" and "queue w = Some q"
  shows "thread_state q = phase (abs_queue w q) Thread_port"
proof -
  have "ports_ok q" using ipc_okD(1) [OF assms(1)] assms(2) by (auto simp: world_ok_def intro: queue_ok_ports)
  then show ?thesis by (simp add: bare_queue__state_def is_uv_port_at)
qed

text \<open>
  The host uses what it has of a queue that the worklet has given up, until it closes its end
  and so frees the queue.
\<close>

lemma host_keeps_share:
  assumes ok: "ipc_ok w" and env: "env_ok w" and al: "allowed w op" and op: "by_host op"
    and st: "ipc_step op w = Some (ob, v)" and q: "queue w = Some q" "destroyed q" "bare_queue__listening (thread_state q)"
    and q': "queue v = Some q'"
  shows "bare_queue__listening (thread_state q')"
proof -
  have okv: "ipc_ok v" using ipc_step_total [OF ok env al] st by auto
  note t = thread_of_abs [OF ok q(1)] thread_of_abs [OF okv q']
  have av: "abs_world v = Some (abs_queue v q')" using q' by (simp add: abs_world_def)
  have kept: ?thesis if "thread_kept w v" using that q q' by (simp add: thread_kept_def)
  have same: ?thesis if "abs_world v = abs_world w" using that q q' t by (simp add: abs_world_def)
  have same_queue: ?thesis if "queue v = queue w" using that q q' by simp
  have poll: ?thesis if "of_poll op"
    by (rule same_queue) (use poll_op_kept [OF env that st] in \<open>simp add: stream_kept_def\<close>)
  have gone: ?thesis if "abs_world v = reclaim (raise_phase Thread_port bare_queue_state_closed (abs_queue w q))"
  proof -
    have "max s bare_queue_state_closed = bare_queue_state_closed" for s by (cases s) (simp_all add: max_def state_order)
    then have "reclaim (raise_phase Thread_port bare_queue_state_closed (abs_queue w q)) = None"
      using q(2) by (simp add: reclaim_def raise_phase_def)
    then show ?thesis using that av by simp
  qed
  show ?thesis
  proof (cases op)
    case Ipc_create
    have idle: "thread_state q \<noteq> bare_queue_state_idle" using q(3) by (auto simp: bare_queue__listening_def)
    have r: "\<And>c. ret w c = 0" "\<not> oom w (brk w)" "\<not> oom w (Suc (brk w))" using env by (auto simp: env_ok_def)
    show ?thesis using create_refused [OF r(1) ok r(2,3) q(1) idle] st Ipc_create by (intro same_queue) auto
  next
    case (Ipc_close ipc)
    then obtain i where i: "ipcs w ipc = Some i" using al by (auto simp: allowed_def)
    show ?thesis using ipc_close_spec [OF ok env i] st Ipc_close q(1) same gone by (auto split: option.splits)
  next
    case (Ipc_destroy ipc)
    then obtain i where i: "ipcs w ipc = Some i" using al by (auto simp: allowed_def)
    show ?thesis using ipc_destroy_spec [OF ok env i] st Ipc_destroy q(1) same gone by (auto split: option.splits)
  next
    case (Ipc_end ipc)
    then obtain i where i: "ipcs w ipc = Some i" using al by (auto simp: allowed_def)
    have "bare_queue__listening (max (thread_state q) bare_queue_state_ended)"
      using q(3) by (auto simp: bare_queue__listening_def max_def)
    then have ?thesis if "abs_world v = Some (raise_phase Thread_port bare_queue_state_ended (abs_queue w q))"
      using that av t by (auto simp: raise_phase_def)
    then show ?thesis using ipc_end_spec [OF ok env i] st Ipc_end q(1) same by (auto split: option.splits)
  next
    case (Ipc_read ipc n)
    then obtain r where "bare_ipc_read ipc n w = Some (r, v)" using st by auto
    then show ?thesis by (intro kept thread_kept_ipc_read)
  next
    case (Ipc_write ipc data)
    then obtain i where i: "ipcs w ipc = Some i" using al by (auto simp: allowed_def)
    have ?thesis if "(Sent n, abs_world v) = spec_step (Write Thread_port data) (abs_queue w q)" for n
    proof -
      have "phase (abs_queue v q') Thread_port = phase (abs_queue w q) Thread_port"
        using that av by (auto simp del: abs_phase split: if_splits)
      then show ?thesis using t q(3) by simp
    qed
    then show ?thesis using ipc_write_spec [OF ok env i, of data] st Ipc_write q(1) same by (auto split: option.splits)
  qed (use op poll in \<open>simp_all add: by_host_def of_poll_def\<close>)
qed

end
