(* ===== verification/Worklet_Cycle_Inv.thy ===== *)
theory Worklet_Cycle_Inv
  imports Worklet_Cycle Ipc_Share
begin

text \<open>
  Every event that may come runs without a fault and keeps the invariant of the life of a
  worklet, on every platform that keeps the laws of \<open>worklet_platform\<close>.
\<close>

section \<open>Frames\<close>

lemma world_inv_calls [simp]:
  "world_inv ok keeps live h t (w\<lparr>calls := cs\<rparr>) = world_inv ok keeps live h t w"
  "world_inv ok keeps live h t (emit c w) = world_inv ok keeps live h t w"
  "world_inv ok keeps live h t (w\<lparr>running := n\<rparr>) = world_inv ok keeps live h t w"
  "world_inv ok keeps live h t (w\<lparr>torn_down := b\<rparr>) = world_inv ok keeps live h t w"
  by (simp_all add: world_inv_def)

text \<open>The counters of the process are as they were.\<close>

definition same_count :: "'p wworld \<Rightarrow> 'p wworld \<Rightarrow> bool" where
  "same_count w w' \<longleftrightarrow> running w' = running w \<and> torn_down w' = torn_down w"

lemma same_count_refl [simp]: "same_count w w"
  by (simp add: same_count_def)

lemma same_count_simps [simp]:
  "same_count w (emit c v) = same_count w v" "same_count (emit c w) v = same_count w v"
  "same_count (w\<lparr>wstate := s\<rparr>) v = same_count w v"
  "same_count w (v\<lparr>calls := cs\<rparr>) = same_count w v" "same_count w (v\<lparr>wstate := s\<rparr>) = same_count w v"
  "same_count w (v\<lparr>worklet := k\<rparr>) = same_count w v" "same_count w (v\<lparr>native := n\<rparr>) = same_count w v"
  "same_count w (v\<lparr>semaphore := x\<rparr>) = same_count w v" "same_count w (v\<lparr>thread_ipc := y\<rparr>) = same_count w v"
  by (simp_all add: same_count_def)

lemma same_count_native: "native_only w v \<Longrightarrow> same_count w v"
  by (auto elim!: native_onlyE simp: same_count_def)

lemma same_count_more: "ipc_world.more v = ipc_world.more w \<Longrightarrow> same_count w v"
  using same_rest [of v w] by (simp add: same_count_def)

lemma world_inv_native:
  assumes inv: "world_inv ok keeps live h t w" and n: "native_only w v" and ok: "ok (entered t) (native v)"
    and k: "carried keeps (native w) (native v)"
    and s: "\<And>s. wstate w = Some s \<Longrightarrow> 2 \<le> stage t \<Longrightarrow> stage t \<le> 11 \<Longrightarrow> live (suspension s) (native v)"
  shows "world_inv ok keeps live h t v"
proof -
  obtain cs x where v: "v = w\<lparr>calls := calls w @ cs, native := x\<rparr>" using n by (auto elim: native_onlyE)
  then show ?thesis
    using inv ok s carriedD [OF k] by (auto simp: world_inv_def state_inv_def held_inv_def split: option.splits)
qed

lemma world_inv_more:
  assumes "world_inv ok keeps live h t w" and "ipc_ok v" and "env_ok v" and "ipc_world.more v = ipc_world.more w"
    and "queue_inv h t (queue v)"
  shows "world_inv ok keeps live h t v"
  using assms same_rest [OF assms(4)] by (simp add: world_inv_def)

lemma world_inv_state:
  assumes "world_inv ok keeps live h t w" and "wstate w = Some s" and "bare s' = bare s"
    and "finished s' = finished s" and "suspension s' = suspension s"
  shows "world_inv ok keeps live h t (w\<lparr>wstate := Some s'\<rparr>)"
  using assms by (simp add: world_inv_def state_inv_def)

lemma world_invD:
  assumes "world_inv ok keeps live h t w"
  shows "ipc_ok w" "env_ok w" "calls_ok w" "ok (entered t) (native w)" "places_ok h t"
    "struct_inv h t (worklet w)" "state_inv h t (\<lambda>s. live s (native w)) (wstate w)"
    "queue_inv h t (queue w)" "stack_inv h t (semaphore w) (thread_ipc w)" "init_guard w"
  using assms calls_ok_env by (auto simp: world_inv_def)

lemma held_there: "world_inv ok keeps live h t w \<Longrightarrow> worklet w = Some k \<Longrightarrow> keeps (options k) (native w)"
  by (simp add: world_inv_def held_inv_def)

text \<open>What is there at which point.\<close>

lemma state_there:
  assumes "world_inv ok keeps live h t w" and "\<not> over h t"
  obtains s where "wstate w = Some s" "bare s \<noteq> NULL \<longleftrightarrow> 2 \<le> stage t \<and> stage t \<le> 9" "finished s \<longleftrightarrow> 9 \<le> stage t"
    "2 \<le> stage t \<and> stage t \<le> 11 \<longrightarrow> live (suspension s) (native w)"
  using world_invD(7) [OF assms(1)] assms(2) by (auto simp: state_inv_def split: option.splits)

lemma struct_there:
  assumes "world_inv ok keeps live h t w" and "h \<noteq> Destroyed" and "h \<noteq> Discarded"
  obtains k where "worklet w = Some k" "thread k = NULL \<longleftrightarrow> h = Configuring"
    "2 \<le> stage t \<longrightarrow> finished_sem k = finished_ptr"
    "h = Starting \<longrightarrow> (case source k of None \<Rightarrow> True | Some b \<Rightarrow> source_len k \<le> length b)"
  using world_invD(6) [OF assms(1)] assms(2,3) by (auto simp: struct_inv_def split: option.splits)

lemma queue_there:
  assumes "world_inv ok keeps live h t w" and "\<not> over h t"
  obtains q where "queue w = Some q" "\<not> destroyed q" "9 \<le> stage t \<longrightarrow> uv_state q = bare_queue_state_closed"
    "3 \<le> stage t \<longrightarrow> port_data (uv_port q) = thread_ipc_ptr \<and> on_recv_uv q = on_ipc_signal_ptr"
  using world_invD(8) [OF assms(1)] assms(2) by (auto simp: queue_inv_def split: option.splits)

lemma in_use: "places_ok h t \<Longrightarrow> h \<in> {Configuring, Starting, Started, Terminated} \<Longrightarrow> \<not> over h t"
  by (auto simp: places_ok_def over_def)

lemma running_thread: "places_ok h t \<Longrightarrow> 1 \<le> stage t \<Longrightarrow> stage t \<le> 12 \<Longrightarrow> \<not> over h t"
  by (auto simp: places_ok_def over_def)

text \<open>The queue's part looks at the worklet's end only.\<close>

lemma queue_inv_kept:
  assumes "queue_inv h t (queue w)" and "uv_kept w v"
    and "\<And>q q'. queue w = Some q \<Longrightarrow> queue v = Some q' \<Longrightarrow> destroyed q \<Longrightarrow>
      bare_queue__listening (thread_state q) \<Longrightarrow> bare_queue__listening (thread_state q')"
  shows "queue_inv h t (queue v)"
proof (cases "queue v")
  case None
  then show ?thesis using assms by (cases "queue w") (auto simp: uv_kept_def queue_inv_def)
next
  case (Some q')
  then obtain q where "queue w = Some q" "uv_view q' = uv_view q"
    using assms(2) by (cases "queue w") (auto simp: uv_kept_def)
  then show ?thesis using assms(1,3) Some by (auto simp: queue_inv_def uv_view_def)
qed

text \<open>A queue that is still there though the worklet gave it up has its host listening.\<close>

lemma reclaim_listening:
  assumes "ipc_ok w" and "queue w = Some q" and "abs_world w = reclaim ch" and "released ch"
  shows "bare_queue__listening (thread_state q)"
proof -
  have "reclaim ch = Some (abs_queue w q)" using assms(2,3) by (simp add: abs_world_def)
  then have "phase (abs_queue w q) Thread_port \<notin> {bare_queue_state_idle, bare_queue_state_closed}"
    using assms(4) by (auto simp: reclaim_def split: if_splits)
  then show ?thesis
    using thread_of_abs [OF assms(1,2)] by (cases "thread_state q") (auto simp: bare_queue__listening_def)
qed

text \<open>What the abstract channel says of the worklet's end.\<close>

lemma uv_of_abs:
  assumes "ipc_ok w" and "queue w = Some q"
  shows "uv_state q = phase (abs_queue w q) Uv_port" "destroyed q = released (abs_queue w q)"
proof -
  have "ports_ok q" using ipc_okD(1) [OF assms(1)] assms(2) by (auto simp: world_ok_def intro: queue_ok_ports)
  then show "uv_state q = phase (abs_queue w q) Uv_port" by (simp add: bare_queue__state_def is_uv_port_at)
qed simp

section \<open>The host\<close>

context worklet_platform
begin

abbreviation inv where "inv \<equiv> world_inv ready held initialised"

lemma configure_inv:
  assumes "inv h t w" and "h = Configuring"
  shows "\<exists>w'. set_callbacks f w = Some (0, w') \<and> inv h t w' \<and> same_count w w'"
proof -
  have n: "\<not> over h t" using world_invD(5) [OF assms(1)] assms(2) by (intro in_use) auto
  obtain s where s: "wstate w = Some s" by (rule state_there [OF assms(1) n])
  obtain k where k: "worklet w = Some k" using assms by (auto elim: struct_there)
  then show ?thesis
    using s world_inv_state [OF assms(1) s] by (simp add: set_callbacks_def)
qed

lemma set_data_inv:
  assumes "inv h t w" and "h \<in> {Configuring, Starting, Started}"
  shows "\<exists>w'. bare_worklet_set_data d w = Some w' \<and> inv h t w' \<and> same_count w w'"
proof -
  obtain k where k: "worklet w = Some k" using assms by (auto elim: struct_there)
  then show ?thesis
    using assms(1) by (cases "source k") (auto simp: bare_worklet_set_data_def world_inv_def struct_inv_def held_inv_def)
qed

lemma control_inv:
  assumes i: "inv h t w" and h: "h \<in> {Configuring, Starting, Started}"
  shows "\<exists>r w'. bare_worklet_suspend P n w = Some (r, w') \<and> inv h t w' \<and> same_count w w'"
    and "\<exists>r w'. bare_worklet_resume P w = Some (r, w') \<and> inv h t w' \<and> same_count w w'"
    and "\<exists>r w'. bare_worklet_wakeup P n w = Some (r, w') \<and> inv h t w' \<and> same_count w w'"
    and "\<exists>r w'. bare_worklet_terminate w = Some (r, w') \<and> inv h t w' \<and> same_count w w'"
proof -
  have no: "\<not> over h t" using world_invD(5) [OF i] h by (intro in_use) auto
  obtain s where s: "wstate w = Some s" "bare s \<noteq> NULL \<longleftrightarrow> 2 \<le> stage t \<and> stage t \<le> 9"
      "2 \<le> stage t \<and> stage t \<le> 11 \<longrightarrow> initialised (suspension s) (native w)"
    by (rule state_there [OF i no])
  obtain k where k: "worklet w = Some k" using i h by (auto elim: struct_there)
  have all: "(\<exists>r w'. bare_worklet_suspend P n w = Some (r, w') \<and> inv h t w' \<and> same_count w w')
    \<and> (\<exists>r w'. bare_worklet_resume P w = Some (r, w') \<and> inv h t w' \<and> same_count w w')
    \<and> (\<exists>r w'. bare_worklet_wakeup P n w = Some (r, w') \<and> inv h t w' \<and> same_count w w')
    \<and> (\<exists>r w'. bare_worklet_terminate w = Some (r, w') \<and> inv h t w' \<and> same_count w w')"
  proof (cases "bare s = NULL")
    case True
    have "worklet w \<noteq> None" using k by simp
    then show ?thesis using control_null [OF _ s(1) True] i by simp
  next
    case False
    then have st: "2 \<le> stage t" "stage t \<le> 9" using s(2) by auto
    have live: "initialised (suspension s) (native w)" using s(3) st by simp
    have at: "attached (ready (entered t)) initialised w"
      using k s(1) False world_invD [OF i] live by (simp add: attached_def)
    obtain m v where v: "native_only w v" "ready (entered t) (native v)" "initialised (suspension s) (native v)"
        "bare_worklet_suspend P n w = Some (0, emit (Mutex_unlock State_lock)
          (emit (Bare (Bare_suspend m)) (v\<lparr>wstate := Some (s\<lparr>suspended := True\<rparr>)\<rparr>)))"
        "bare_worklet_wakeup P n w = Some (0, emit (Mutex_unlock State_lock) (emit (Bare (Bare_wakeup m)) v))"
      "carried held (native w) (native v)"
      using suspend_spec [OF at s(1), of n] by blast
    obtain u where u: "native_only w u" "ready (entered t) (native u)" "initialised (suspension s) (native u)"
        "bare_worklet_resume P w = Some (0, emit (Mutex_unlock State_lock) (emit (Bare Bare_resume)
        (u\<lparr>wstate := Some (if suspended s then s\<lparr>suspended := False, resuming := True\<rparr> else s)\<rparr>)))"
      "carried held (native w) (native u)"
      using resume_spec [OF at s(1)] by blast
    have iv: "inv h t v" "inv h t u" "wstate v = Some s" "wstate u = Some s"
      using world_inv_native [OF i v(1,2,6)] world_inv_native [OF i u(1,2,5)] v(1,3) u(1,3) s(1)
      by (auto elim!: native_onlyE)
    have "inv h t (v\<lparr>wstate := Some (s\<lparr>suspended := True\<rparr>)\<rparr>)"
      by (rule world_inv_state [OF iv(1,3)]) simp_all
    moreover have "inv h t (u\<lparr>wstate := Some (if suspended s then s\<lparr>suspended := False, resuming := True\<rparr> else s)\<rparr>)"
      by (rule world_inv_state [OF iv(2,4)]) simp_all
    moreover have "same_count w v" "same_count w u" by (rule same_count_native, fact)+
    ultimately show ?thesis
      using v(4,5) u(4) iv(1) i k s(1) False by (simp add: bare_worklet_terminate_def)
  qed
  then show "\<exists>r w'. bare_worklet_suspend P n w = Some (r, w') \<and> inv h t w' \<and> same_count w w'"
    and "\<exists>r w'. bare_worklet_resume P w = Some (r, w') \<and> inv h t w' \<and> same_count w w'"
    and "\<exists>r w'. bare_worklet_wakeup P n w = Some (r, w') \<and> inv h t w' \<and> same_count w w'"
    and "\<exists>r w'. bare_worklet_terminate w = Some (r, w') \<and> inv h t w' \<and> same_count w w'"
    by blast+
qed

lemma start_inv:
  assumes i: "inv Configuring t w" and tid: "tid \<noteq> NULL"
    and src: "case src of None \<Rightarrow> True | Some b \<Rightarrow> n \<le> length b"
  shows "\<exists>r w'. start_thread tid path src n args w = Some (r, w')
    \<and> (if torn_down w then r = Inl (-1) \<and> inv Configuring t w' \<and> same_count w w'
       else r = Inr () \<and> inv Starting Born w' \<and> running w' = running w + 1 \<and> torn_down w' = torn_down w)"
proof -
  have t: "t = Not_created" using world_invD(5) [OF i] by (simp add: places_ok_def)
  obtain k where k: "worklet w = Some k" "thread k = NULL" using i by (auto elim: struct_there)
  have r: "ret w c = 0" for c using world_invD(3) [OF i] by (simp add: calls_ok_def)
  note eq = start_thread_eq [OF k(1) r r, where tid = tid and path = path and src = src and n = n and args = args]
  show ?thesis
    using i t k(2) tid src r held_there [OF i k(1)]
    by (simp add: eq Let_def) (auto simp: world_inv_def inv_defs held_inv_def same_count_def split: option.splits)
qed

lemma pass_barrier_inv:
  assumes i: "inv Starting Waiting w"
  shows "\<exists>w'. start_ready Some w = Some w' \<and> inv Started Released w' \<and> same_count w w'"
proof -
  obtain k where k: "worklet w = Some k" using i by (auto elim: struct_there)
  have "inv Started Released w" using i by (auto simp: world_inv_def inv_defs split: option.splits)
  then show ?thesis using k by (simp add: start_ready_def barrier_wait_def)
qed

lemma discard_inv:
  assumes i: "inv Configuring t w"
  shows "\<exists>w'. bare_worklet_destroy P w = Some w' \<and> inv Discarded t w' \<and> same_count w w'"
proof -
  have t: "t = Not_created" using world_invD(5) [OF i] by (simp add: places_ok_def)
  have no: "\<not> over Configuring t" using t by (simp add: over_def)
  obtain k where k: "worklet w = Some k" "thread k = NULL" using i by (auto elim: struct_there)
  obtain s where s: "wstate w = Some s" by (rule state_there [OF i no])
  obtain q where q: "queue w = Some q" "\<not> destroyed q" by (rule queue_there [OF i no])
  obtain w1 where w1: "destroy_unstarted w = Some w1" "ipc_ok w1" "env_ok w1"
      "abs_world w1 = reclaim ((raise_phase Uv_port bare_queue_state_closed (abs_queue w q))\<lparr>released := True\<rparr>)"
      "ipc_world.more w1 = ipc_world.more (w\<lparr>wstate := None\<rparr>)"
    using destroy_unstarted_spec [OF world_invD(1,2) [OF i] q s] by blast
  note f = same_rest [OF w1(5)]
  have wk: "worklet w1 = Some k" "ready (entered t) (native w1)" "held (options k) (native w1)"
    using f k(1) world_invD(4) [OF i] held_there [OF i k(1)] by simp_all
  obtain cs n where fr: "free_worklet P w1 = Some (w1\<lparr>calls := calls w1 @ cs, native := n, worklet := None\<rparr>)"
      "ready (entered t) n" using free_worklet_spec [OF wk(2) calls_ok_env [OF w1(3)] wk(1,3)] by blast
  have "queue_inv Discarded t (queue w1)"
  proof (cases "queue w1")
    case (Some q1)
    then have "abs_queue w1 q1 = (raise_phase Uv_port bare_queue_state_closed (abs_queue w q))\<lparr>released := True\<rparr>"
      using w1(4) by (simp add: abs_world_def reclaim_def split: if_splits)
    then have "uv_state q1 = max (bare_queue__state q Uv_port) bare_queue_state_closed" "destroyed q1"
      using uv_of_abs [OF w1(2) Some] by (simp_all add: raise_phase_def)
    moreover have "bare_queue__listening (thread_state q1)"
      by (rule reclaim_listening [OF w1(2) Some w1(4)]) simp
    ultimately show ?thesis
      using Some t by (cases "bare_queue__state q Uv_port")
        (simp_all add: queue_inv_def over_def max_def state_order)
  qed (simp add: queue_inv_def over_def)
  moreover have "same_count w w1" using f by (simp add: same_count_def)
  ultimately show ?thesis
    using k(1,2) w1(1-3) fr i f t
    by (simp add: bare_worklet_destroy_def world_inv_def places_ok_def struct_inv_def state_inv_def over_def stack_inv_def
        held_inv_def)
qed

lemma destroy_terminate_inv:
  assumes i: "inv Started t w"
  shows "\<exists>r w'. bare_worklet_terminate w = Some (r, w') \<and> inv Terminated t w' \<and> same_count w w'"
proof -
  obtain r w' where w': "bare_worklet_terminate w = Some (r, w')" "inv Started t w'" "same_count w w'"
    using control_inv(4) [OF i] by blast
  have "inv Terminated t w'"
    using w'(2) by (auto simp: world_inv_def inv_defs split: option.splits)
  then show ?thesis using w'(1,3) by blast
qed

lemma destroy_post_inv:
  assumes i: "inv Terminated t w"
  shows "\<exists>k w'. worklet w = Some k \<and> sem_post (finished_sem k) w = Some w' \<and> inv Posted t w' \<and> same_count w w'"
proof -
  have t: "6 \<le> stage t" "stage t \<le> 12" using world_invD(5) [OF i] by (simp_all add: places_ok_def)
  obtain k where k: "worklet w = Some k" "finished_sem k = finished_ptr"
    using i t(1) by (auto elim: struct_there)
  have "semaphore w = Some 0" using world_invD(9) [OF i] t by (simp add: stack_inv_def)
  then show ?thesis
    using i k t by (auto simp: sem_post_def world_inv_def inv_defs split: option.splits)
qed

lemma destroy_free_inv:
  assumes i: "inv Posted t w"
  shows "\<exists>w'. free_worklet P w = Some w' \<and> inv Destroyed t w' \<and> same_count w w'"
proof -
  obtain k where k: "worklet w = Some k" using i by (auto elim: struct_there)
  obtain cs n where fr: "free_worklet P w = Some (w\<lparr>calls := calls w @ cs, native := n, worklet := None\<rparr>)"
      "ready (entered t) n" "carried initialised (native w) n"
    using free_worklet_spec [OF world_invD(4,3) [OF i] k held_there [OF i k]] by blast
  then show ?thesis using i by (auto simp: world_inv_def inv_defs held_inv_def carried_def split: option.splits)
qed

lemma host_ipc_inv:
  assumes i: "inv h t w" and op: "by_host op"
    and al: "if op = Ipc_create then h \<in> {Configuring, Starting, Started} else allowed w op"
  shows "\<exists>ob w'. ipc_step op w = Some (ob, w') \<and> inv h t w' \<and> same_count w w'"
proof -
  have al': "allowed w op"
  proof (cases "op = Ipc_create")
    case True
    then have h: "h \<in> {Configuring, Starting, Started}" using al by simp
    have no: "\<not> over h t" using world_invD(5) [OF i] h by (intro in_use) auto
    obtain q where "queue w = Some q" by (rule queue_there [OF i no])
    then show ?thesis using True by (simp add: allowed_def)
  qed (use al in simp)
  obtain ob w' where s: "ipc_step op w = Some (ob, w')" "ipc_ok w'" "env_ok w'"
    using ipc_step_total [OF world_invD(1,2) [OF i] al'] by blast
  have ho: "host_only w w'" by (rule ipc_step_host_only [OF world_invD(1) [OF i] s(1) op])
  then have m: "ipc_world.more w' = ipc_world.more w" by (simp add: host_only_def)
  have "queue_inv h t (queue w')"
    using queue_inv_kept [OF world_invD(8) [OF i]] ho host_keeps_share [OF world_invD(1,2) [OF i] al' op s(1)]
    unfolding host_only_def by blast
  then have "inv h t w'" by (rule world_inv_more [OF i s(2,3) m])
  then show ?thesis using s(1) same_count_more [OF m] by blast
qed

section \<open>The process\<close>

lemma teardown_begin_inv:
  assumes i: "inv h t w"
  shows "\<exists>w'. teardown_begin P w = Some w' \<and> inv h t w' \<and> running w' = running w \<and> torn_down w'"
  using i world_invD(10) [OF i] by (simp add: teardown_begin_def once_init_def)

lemma teardown_end_inv:
  assumes i: "inv h t w"
  shows "\<exists>w'. teardown_end w = Some w' \<and> inv h t w' \<and> same_count w w'"
  using i world_invD(3) [OF i] by (simp add: teardown_end_def emit_ok_calls Let_def)

end

end
