(* ===== verification/Worklet_Cycle_Thread.thy ===== *)
theory Worklet_Cycle_Thread
  imports Worklet_Cycle_Inv
begin

text \<open>
  The events of the worklet's thread keep the invariant, from the setup of its Bare instance to
  the end of its stack frame.
\<close>

lemma world_inv_platform [simp]:
  "world_inv ok keeps live h t (w\<lparr>platform := p\<rparr>) = world_inv ok keeps live h t w"
  "world_inv ok keeps live h t (w\<lparr>platform_guard := b\<rparr>) = world_inv ok keeps live h t w"
  by (simp_all add: world_inv_def)

lemma same_count_platform [simp]:
  "same_count w (v\<lparr>platform := p\<rparr>) = same_count w v" "same_count w (v\<lparr>platform_guard := b\<rparr>) = same_count w v"
  by (simp_all add: same_count_def)

lemma once_platform_spec:
  assumes "calls_ok w"
  shows "\<exists>cs p. once_platform js w = Some (w\<lparr>platform := p, calls := calls w @ cs, platform_guard := True\<rparr>)"
proof (cases "platform_guard w")
  case True
  then have "w = w\<lparr>platform := platform w, calls := calls w @ [], platform_guard := True\<rparr>" by simp
  then show ?thesis using True by (metis once_platform_def)
next
  case False
  then show ?thesis
    using assms by (auto simp: once_platform_def bare_worklet__on_platform_init_def platform_thread_begin_def
        emit_ok_def calls_ok_def emit_def Let_def)
qed

text \<open>A step of the worklet on its end of the queue.\<close>

lemma uv_step_spec:
  assumes ok: "ipc_ok w" and env: "env_ok w" and q: "queue w = Some q"
    and op: "actor op = Uv_port" "\<not> releases op"
  shows "\<exists>ob w'. queue_step op w = Some (ob, w') \<and> ipc_ok w' \<and> env_ok w' \<and> ipc_world.more w' = ipc_world.more w
    \<and> (ob, abs_world w') = spec_step op (abs_queue w q)
    \<and> (\<forall>q'. queue w' = Some q' \<longrightarrow> (\<forall>cb d. op \<noteq> Open_uv cb d) \<longrightarrow> recv_view q' = recv_view q)"
proof -
  obtain ob w' where s: "queue_step op w = Some (ob, w')" "env_ok w'"
      "(ob, abs_world w') = spec_step op (abs_queue w q)"
    using env_step [OF ok env q op(2)] by blast
  note w = ipc_okD(1) [OF ok]
  have "ipc_ok w'" using step_ipc_ok [OF ok q s(1)] uv_keeps_host [OF op] by blast
  then show ?thesis
    using s rest_of_ipc [OF step_rest [OF w q s(1)]] step_recv_view [OF w q s(1)]
    by (intro exI [of _ ob] exI [of _ w']) auto
qed

section \<open>Starting up\<close>

context worklet_platform
begin

lemma setup_inv:
  assumes i: "inv h Born w" and inst: "inst \<noteq> NULL"
  shows "\<exists>w'. thread_setup P js inst w = Some w' \<and> inv h Set_up w' \<and> same_count w w'"
proof -
  have h: "h = Starting" using world_invD(5) [OF i] by (cases h) (simp_all add: places_ok_def)
  have no: "\<not> over h Born" using h by (simp add: over_def)
  obtain k where k: "worklet w = Some k" using i h by (auto elim: struct_there)
  obtain s where s: "wstate w = Some s" "\<not> finished s" by (rule state_there [OF i no]) simp
  have c: "ret w x = 0" for x using world_invD(3) [OF i] by (simp add: calls_ok_def)
  obtain cs1 p where w1: "once_platform js w = Some (w\<lparr>platform := p, calls := calls w @ cs1, platform_guard := True\<rparr>)"
    using once_platform_spec [OF world_invD(3) [OF i]] by blast
  let ?w1 = "w\<lparr>platform := p, calls := calls w @ cs1, platform_guard := True\<rparr>"
  obtain w2 where w2: "on_thread_enter P ?w1 = Some w2" "native_only ?w1 w2" "ready True (native w2)"
      "carried held (native w) (native w2)"
    using thread_enter [of ?w1] world_invD(3,4) [OF i] by auto
  obtain cs2 n2 where e2: "w2 = ?w1\<lparr>calls := calls ?w1 @ cs2, native := n2\<rparr>" using w2(2) by (rule native_onlyE)
  let ?k = "k\<lparr>finished_sem := finished_ptr\<rparr>"
  let ?w3 = "(emit Sem_init w2)\<lparr>semaphore := Some 0, worklet := Some ?k\<rparr>"
  have "ready True (native ?w3)" "calls_ok ?w3" using w2(3) e2 c by (simp_all add: calls_ok_def)
  then obtain s' w4 where w4: "suspension_init P (suspension s) ?w3 = Some (0, s', w4)" "native_only ?w3 w4"
      "ready True (native w4)" "initialised s' (native w4)" "carried held (native ?w3) (native w4)"
    using init [of True ?w3 "suspension s"] by blast
  obtain cs4 n4 where e4: "w4 = ?w3\<lparr>calls := calls ?w3 @ cs4, native := n4\<rparr>" using w4(2) by (rule native_onlyE)
  let ?w5 = "emit (Bare (Bare_setup (memory_limit (options k)))) (emit Loop_init (w4\<lparr>wstate := Some (s\<lparr>suspension := s'\<rparr>)\<rparr>))"
  have "held (options k) (native w2)" using carriedD [OF w2(4)] held_there [OF i k] by blast
  then have "held (options k) (native ?w5)" using carriedD [OF w4(5)] e2 e4 by simp
  moreover have "ready True (native ?w5)" "calls_ok ?w5" using w4(3) e2 e4 c by (simp_all add: calls_ok_def)
  ultimately obtain w6 where w6: "publish_context P inst (options k) ?w5 = Some w6" "native_only ?w5 w6"
      "ready True (native w6)" "held (options k) (native w6)" "carried initialised (native ?w5) (native w6)"
    using publish [of ?w5 "options k" inst] carriedD [of held] by blast
  obtain cs6 n6 where e6: "w6 = ?w5\<lparr>calls := calls ?w5 @ cs6, native := n6\<rparr>" using w6(2) by (rule native_onlyE)
  have live: "initialised s' n6" "ready True n6" "held (options k) n6"
    using w6(3,4) carriedD [OF w6(5)] w4(4) e6 by simp_all
  let ?w7 = "emit (Bare (Bare_on Resume_event)) (emit (Bare (Bare_on Idle_event))
    (emit (Bare (Bare_on Wakeup_event)) (emit (Bare (Bare_on Suspend_event)) w6)))"
  let ?v = "emit (Mutex_unlock State_lock)
    ((emit (Mutex_lock State_lock) ?w7)\<lparr>wstate := Some (s\<lparr>suspension := s', bare := inst\<rparr>)\<rparr>)"
  have r: "calls_ok ?w1" "calls_ok w2" "calls_ok ?w3" "calls_ok w4" "calls_ok ?w5" "calls_ok w6"
    using c e2 e4 e6 by (simp_all add: calls_ok_def)
  have "wstate w2 = Some s" "worklet w2 = Some k" using k s(1) e2 by simp_all
  moreover have "wstate w6 = Some (s\<lparr>suspension := s'\<rparr>)" using e6 by simp
  ultimately have v: "thread_setup P js inst w = Some ?v"
    using w1 w2(1) w4(1) w6(1) k s(1) r by (simp add: thread_setup_def emit_ok_calls Let_def)
  have "inv h Set_up ?v"
    unfolding world_inv_def using i h live inst s k e2 e4 e6
    by (simp add: world_inv_def) (auto simp: inv_defs held_inv_def split: option.splits)
  moreover have "same_count w ?v" using e2 e4 e6 by (simp add: same_count_def)
  ultimately show ?thesis using v by blast
qed

lemma open_inv:
  assumes i: "inv h Set_up w"
  shows "\<exists>p w'. thread_open w = Some (p, w') \<and> inv h Opened w' \<and> same_count w w'"
proof -
  have h: "h = Starting" using world_invD(5) [OF i] by (cases h) (simp_all add: places_ok_def)
  have no: "\<not> over h Set_up" using h by (simp add: over_def)
  obtain k where k: "worklet w = Some k" using i h by (auto elim: struct_there)
  obtain q where q: "queue w = Some q" "\<not> destroyed q" by (rule queue_there [OF i no])
  let ?w1 = "(emit (Js (Js_get_named_property ''exports'')) (emit (Bare Bare_load) (emit (Js Js_open_handle_scope) w)))
    \<lparr>thread_ipc := Some \<lparr>signal = False\<rparr>\<rparr>"
  have ok1: "ipc_ok ?w1" "env_ok ?w1" "queue ?w1 = Some q" using world_invD(1,2) [OF i] q by simp_all
  obtain ob v where v: "queue_step (Open_uv on_ipc_signal_ptr thread_ipc_ptr) ?w1 = Some (ob, v)" "ipc_ok v" "env_ok v"
      "ipc_world.more v = ipc_world.more ?w1"
    using uv_step_spec [OF ok1, of "Open_uv on_ipc_signal_ptr thread_ipc_ptr"] by (auto simp: releases_def simp del: queue_step.simps)
  have ret: "ret ?w1 (Async_init Queue_async) = 0" using ok1(2) by (simp add: env_ok_def)
  have b: "bare_queue_open_uv on_ipc_signal_ptr thread_ipc_ptr ?w1 = Some (Uv_port, v)"
      and vq: "queue v = Some (q\<lparr>uv_port := (uv_port q)\<lparr>port_data := thread_ipc_ptr\<rparr>, on_recv_uv := on_ipc_signal_ptr,
        uv_state := bare_queue_state_open\<rparr>)"
    using v(1) open_uv_eq [OF ok1(3) ret] by auto
  note f = same_rest [OF v(4)]
  have "inv h Opened v"
    using i h f v(2,3) vq q(2) by (simp add: world_inv_def) (auto simp: inv_defs split: option.splits)
  moreover have "same_count w v" using f by (simp add: same_count_def)
  ultimately show ?thesis
    using world_invD(3) [OF i] calls_ok_env [OF v(3)] k b
    by (simp add: thread_open_def create_native_def emit_ok_calls)
qed

lemma reference_inv:
  assumes i: "inv h Opened w"
  shows "\<exists>w'. thread_reference w = Some w' \<and> inv h Referenced w' \<and> same_count w w'"
proof -
  have "thread_ipc w = Some \<lparr>signal = False\<rparr>" using world_invD(9) [OF i] by (simp add: stack_inv_def)
  then show ?thesis
    using i world_invD(3) [OF i]
    by (auto simp: thread_reference_def emit_ok_calls world_inv_def inv_defs split: option.splits host_pc.splits)
qed

lemma ready_inv:
  assumes i: "inv h Referenced w"
  shows "\<exists>args w'. thread_ready P w = Some (args, w') \<and> inv h Waiting w' \<and> same_count w w'"
proof -
  have h: "h = Starting" using world_invD(5) [OF i] by (cases h) (simp_all add: places_ok_def)
  have no: "\<not> over h Referenced" using h by (simp add: over_def)
  obtain k where k: "worklet w = Some k" "case source k of None \<Rightarrow> True | Some b \<Rightarrow> source_len k \<le> length b"
    using i h by (auto elim: struct_there)
  obtain s where s: "wstate w = Some s" "initialised (suspension s) (native w)"
    by (rule state_there [OF i no]) simp
  let ?src = "case source k of None \<Rightarrow> Js_null | Some src \<Rightarrow> Js_arraybuffer (take (source_len k) src)"
  let ?w1 = "emit (Js (Js_create_value ?src)) (emit (Js (Js_create_value (Js_string (filename k))))
    (emit (Js (Js_get_named_property ''start'')) w))"
  obtain r v where v: "create_resources P (options k) ?w1 = Some (r, v)" "native_only ?w1 v" "ready True (native v)"
      "carried held (native w) (native v)" "carried initialised (native w) (native v)"
    using resources [of ?w1 "options k"] world_invD(3,4) [OF i] held_there [OF i k(1)] by auto
  have "inv h Referenced ?w1" using i by simp
  then have "inv h Referenced v" by (rule world_inv_native [OF _ v(2)]) (use v(3,4) carriedD [OF v(5)] s in simp_all)
  then have "inv h Waiting v" using h by (simp add: world_inv_def) (auto simp: inv_defs split: option.splits)
  moreover have "same_count w v" using same_count_native [OF v(2)] by simp
  moreover have "\<exists>args. thread_ready P w = Some (args, emit (Barrier_wait Ready_barrier) v)"
    using k v(1) world_invD(3) [OF i]
    by (cases r; cases "source k") (auto simp: thread_ready_def js_create_def emit_ok_calls c_assert_def)
  ultimately show ?thesis by auto
qed

lemma call_start_inv: "inv h Released w \<Longrightarrow> inv h In_module (thread_call_start args w)"
  by (auto simp: thread_call_start_def world_inv_def inv_defs split: option.splits host_pc.splits)

lemma loop_inv:
  assumes i: "inv h In_module w"
  shows "\<exists>w'. thread_loop w = Some w' \<and> inv h Looping w' \<and> same_count w w'"
proof -
  have "inv h Looping w" using i by (auto simp: world_inv_def inv_defs split: option.splits host_pc.splits)
  then show ?thesis using world_invD(3) [OF i] by (simp add: thread_loop_def emit_ok_calls)
qed

end

section \<open>Running\<close>

text \<open>The worklet's end stays closed whatever JavaScript still calls.\<close>

lemma native_op_closed:
  assumes "spec_step (native_op c) ch = (ob, Some ch')" and "phase ch Uv_port = bare_queue_state_closed"
  shows "phase ch' Uv_port = bare_queue_state_closed"
  using assms
  by (cases c) (auto simp: reclaim_def raise_phase_def max_def state_order split: if_splits list.splits)

context worklet_platform
begin

lemma native_inv:
  assumes i: "inv h t w" and t: "3 \<le> stage t" "stage t \<le> 11"
  shows "\<exists>v w'. native_step c w = Some (v, w') \<and> inv h t w' \<and> same_count w w'"
proof -
  have no: "\<not> over h t" using world_invD(5) [OF i] t by (intro running_thread) auto
  obtain q where q: "queue w = Some q" "\<not> destroyed q" "9 \<le> stage t \<longrightarrow> uv_state q = bare_queue_state_closed"
      "3 \<le> stage t \<longrightarrow> port_data (uv_port q) = thread_ipc_ptr \<and> on_recv_uv q = on_ipc_signal_ptr"
    by (rule queue_there [OF i no])
  obtain v w' q' where s: "native_step c w = Some (v, w')" "ipc_ok w'" "env_ok w'" "queue w' = Some q'" "\<not> destroyed q'"
      "ipc_world.more w' = ipc_world.more w" "recv_view q' = recv_view q"
      "\<exists>ob. spec_step (native_op c) (abs_queue w q) = (ob, abs_world w') \<and> value_for ob w' v"
    using native_spec [OF world_invD(1,2) [OF i] q(1,2), of c] by blast
  have "uv_state q' = bare_queue_state_closed" if nine: "9 \<le> stage t"
  proof -
    have "abs_world w' = Some (abs_queue w' q')" using s(4) by (simp add: abs_world_def)
    then have "phase (abs_queue w' q') Uv_port = bare_queue_state_closed"
      using s(8) native_op_closed [of c "abs_queue w q" _ "abs_queue w' q'"] q(3) nine
        uv_of_abs(1) [OF world_invD(1) [OF i] q(1)] by auto
    then show ?thesis using uv_of_abs(1) [OF s(2,4)] by simp
  qed
  then have "queue_inv h t (queue w')"
    using s(4,5,7) q(4) no by (simp add: queue_inv_def recv_view_def)
  then have "inv h t w'" by (rule world_inv_more [OF i s(2,3,6)])
  then show ?thesis using s(1) same_count_more [OF s(6)] by blast
qed

lemma lifecycle_inv:
  assumes i: "inv h t w" and t: "2 \<le> stage t" "stage t \<le> 11"
  shows "\<exists>w'. run_lifecycle P l w = Some w' \<and> inv h t w' \<and> same_count w w'"
proof -
  have no: "\<not> over h t" using world_invD(5) [OF i] t by (intro running_thread) auto
  obtain s where s: "wstate w = Some s" "2 \<le> stage t \<and> stage t \<le> 11 \<longrightarrow> initialised (suspension s) (native w)"
    by (rule state_there [OF i no])
  have live: "initialised (suspension s) (native w)" using s(2) t by simp
  show ?thesis
  proof (cases l)
    case Idle_ev
    let ?w = "emit (Mutex_lock State_lock) w"
    have pre: "ready (entered t) (native ?w)" "initialised (suspension s) (native ?w)" "calls_ok ?w"
      using world_invD(3,4) [OF i] live by simp_all
    obtain v where v: "suspension_end P (suspension s) ?w = Some (0, v)" "native_only ?w v" "ready (entered t) (native v)"
        "initialised (suspension s) (native v)" "carried held (native ?w) (native v)"
      using end_ok [OF pre] by blast
    have i': "inv h t ?w" using i by simp
    have "inv h t v" by (rule world_inv_native [OF i' v(2,3,5)]) (use v(4) s(1) in simp)
    moreover have "same_count w v" using same_count_native [OF v(2)] by simp
    ultimately show ?thesis
      using Idle_ev s(1) v(1) i by (auto simp: run_lifecycle_def bare_worklet__on_idle_def Let_def)
  next
    case Resume_ev
    have "inv h t (w\<lparr>wstate := Some (s\<lparr>resuming := False\<rparr>)\<rparr>)" by (rule world_inv_state [OF i s(1)]) simp_all
    then have "inv h t ((emit (Mutex_lock State_lock) w)\<lparr>wstate := Some (s\<lparr>resuming := False\<rparr>)\<rparr>)"
      by (simp add: world_inv_def)
    then show ?thesis
      using Resume_ev s(1) by (auto simp: run_lifecycle_def bare_worklet__on_resume_def Let_def)
  qed (use s(1) i in \<open>auto simp: run_lifecycle_def bare_worklet__on_suspend_def bare_worklet__on_wakeup_def\<close>)
qed

text \<open>The queue calls back the function that the thread gave it, with the struct of its stack.\<close>

lemma signal_inv:
  assumes i: "inv h Looping w"
  shows "\<exists>w1 w'. bare_queue__on_wakeup_uv w = Some w1
    \<and> last (calls w1) = Callback on_ipc_signal_ptr thread_ipc_ptr
    \<and> bare_worklet__on_ipc_signal Some Uv_port w1 = Some w' \<and> inv h Looping w' \<and> same_count w w'"
proof -
  have no: "\<not> over h Looping" using world_invD(5) [OF i] by (intro running_thread) auto
  obtain q where q: "queue w = Some q"
      "3 \<le> stage Looping \<longrightarrow> port_data (uv_port q) = thread_ipc_ptr \<and> on_recv_uv q = on_ipc_signal_ptr"
    by (rule queue_there [OF i no])
  have "thread_ipc w = Some \<lparr>signal = True\<rparr>" using world_invD(9) [OF i] by (simp add: stack_inv_def)
  then show ?thesis
    using q i world_invD(3) [OF i]
    by (simp add: bare_queue__on_wakeup_uv_def bare_worklet__on_ipc_signal_def port_at_def on_ipc_signal_ptr_def NULL_def
        emit_ok_calls)
qed

section \<open>Winding down\<close>

lemma retire_inv:
  assumes i: "inv h Looping w"
  shows "\<exists>w'. thread_retire Uv_port w = Some w' \<and> inv h Retired w' \<and> same_count w w'"
proof -
  have no: "\<not> over h Looping" using world_invD(5) [OF i] by (intro running_thread) auto
  obtain s where s: "wstate w = Some s" by (rule state_there [OF i no])
  obtain q where q: "queue w = Some q" "\<not> destroyed q"
      "3 \<le> stage Looping \<longrightarrow> port_data (uv_port q) = thread_ipc_ptr \<and> on_recv_uv q = on_ipc_signal_ptr"
    by (rule queue_there [OF i no])
  let ?w = "w\<lparr>wstate := Some (s\<lparr>finished := True\<rparr>)\<rparr>"
  have ok: "ipc_ok ?w" "env_ok ?w" "queue ?w = Some q" using world_invD(1,2) [OF i] q by simp_all
  obtain ob v where v: "queue_step (Close Uv_port) ?w = Some (ob, v)" "ipc_ok v" "env_ok v"
      "ipc_world.more v = ipc_world.more ?w" "(ob, abs_world v) = spec_step (Close Uv_port) (abs_queue ?w q)"
      "\<forall>q'. queue v = Some q' \<longrightarrow> recv_view q' = recv_view q"
    using uv_step_spec [OF ok, of "Close Uv_port"] by (auto simp: releases_def simp del: queue_step.simps spec_step.simps)
  have "abs_world v = Some (raise_phase Uv_port bare_queue_state_closed (abs_queue w q))"
    using v(5) q(2) by (simp add: reclaim_def raise_phase_def)
  then obtain q' where q': "queue v = Some q'" "abs_queue v q' = raise_phase Uv_port bare_queue_state_closed (abs_queue w q)"
    by (auto simp: abs_world_def)
  have uv: "uv_state q' = bare_queue_state_closed" "\<not> destroyed q'"
    using uv_of_abs [OF v(2) q'(1)] q(2) unfolding q'(2)
    by (cases "bare_queue__state q Uv_port"; simp add: raise_phase_def max_def state_order)+
  note f = same_rest [OF v(4)]
  have "recv_view q' = recv_view q" using v(6) q'(1) by blast
  then have "inv h Retired v"
    using i f v(2,3) q' uv q(3) s no
    by (simp add: world_inv_def) (auto simp: inv_defs recv_view_def split: option.splits host_pc.splits)
  moreover have "thread_retire Uv_port w = Some v" using v(1) s by (auto simp: thread_retire_def)
  ultimately show ?thesis using f by (simp add: same_count_def)
qed

lemma detach_inv:
  assumes i: "inv h Retired w"
  shows "\<exists>w'. thread_detach_bare P w = Some w' \<and> inv h Detached w' \<and> same_count w w'"
proof -
  have no: "\<not> over h Retired" using world_invD(5) [OF i] by (intro running_thread) auto
  obtain s where s: "wstate w = Some s" "initialised (suspension s) (native w)"
    by (rule state_there [OF i no]) simp
  let ?w = "(emit (Mutex_lock State_lock) w)\<lparr>wstate := Some (s\<lparr>bare := NULL\<rparr>)\<rparr>"
  have pre: "ready True (native ?w)" "initialised (suspension s) (native ?w)" "calls_ok ?w"
    using world_invD(3,4) [OF i] s(2) by simp_all
  obtain v where v: "suspension_end P (suspension s) ?w = Some (0, v)" "native_only ?w v" "ready True (native v)"
      "initialised (suspension s) (native v)" "carried held (native ?w) (native v)"
    using end_ok [OF pre] by blast
  have "inv h Detached ?w"
    using i s by (simp add: world_inv_def) (auto simp: inv_defs split: option.splits host_pc.splits)
  then have "inv h Detached v" by (rule world_inv_native [OF _ v(2)]) (use v(3-5) in simp_all)
  moreover have "same_count w v" using same_count_native [OF v(2)] by simp
  ultimately show ?thesis using s(1) v(1) by (simp add: thread_detach_bare_def Let_def)
qed

lemma shutdown_inv:
  assumes i: "inv h Detached w"
  shows "\<exists>w'. thread_shutdown w = Some w' \<and> inv h Shut w' \<and> same_count w w'"
proof -
  have no: "\<not> over h Detached" using world_invD(5) [OF i] by (intro running_thread) auto
  obtain q where q: "queue w = Some q" by (rule queue_there [OF i no])
  have x: "thread_ipc w = Some \<lparr>signal = True\<rparr>" using world_invD(9) [OF i] by (simp add: stack_inv_def)
  have "inv h Shut (w\<lparr>thread_ipc := Some \<lparr>signal = False\<rparr>\<rparr>)"
    using i by (simp add: world_inv_def) (auto simp: inv_defs split: option.splits host_pc.splits)
  then have "inv h Shut ((emit c (emit d w))\<lparr>thread_ipc := Some \<lparr>signal = False\<rparr>\<rparr>)" for c d
    by (simp add: world_inv_def)
  then show ?thesis
    using q x world_invD(3) [OF i]
    by (simp add: thread_shutdown_def bare_queue_shutdown_uv_def emit_ok_calls)
qed

lemma exit_inv:
  assumes i: "inv h Shut w"
  shows "\<exists>w'. thread_exit P code w = Some w' \<and> inv h Exited w' \<and> running w' = running w - 1 \<and> torn_down w' = torn_down w"
proof -
  have no: "\<not> over h Shut" using world_invD(5) [OF i] by (intro running_thread) auto
  obtain s where s: "wstate w = Some s" "initialised (suspension s) (native w)"
    by (rule state_there [OF i no]) simp
  let ?w = "emit Loop_close (emit (Bare Bare_teardown) w)"
  have pre: "ready True (native ?w)" "initialised (suspension s) (native ?w)" "calls_ok ?w"
    using world_invD(3,4) [OF i] s(2) by simp_all
  obtain v where v: "suspension_destroy P (suspension s) ?w = Some v" "native_only ?w v" "ready True (native v)" "carried held (native ?w) (native v)"
    using destroy [OF pre] by blast
  have "inv h Exited ?w"
    using i by (simp add: world_inv_def) (auto simp: inv_defs split: option.splits host_pc.splits)
  then have "inv h Exited v" by (rule world_inv_native [OF _ v(2)]) (use v(3,4) in simp_all)
  moreover have "same_count w v" using same_count_native [OF v(2)] by simp
  ultimately show ?thesis
    using s(1) v(1) world_invD(3) [OF i]
    by (simp add: thread_exit_def emit_ok_calls bare_worklet__on_stopped_def Let_def same_count_def)
qed

lemma free_inv:
  assumes i: "inv h Exited w" and n: "semaphore w = Some n" "0 < n"
  shows "\<exists>w'. thread_free P w = Some w' \<and> inv h Finished w' \<and> same_count w w'"
proof -
  have no: "\<not> over h Exited" using world_invD(5) [OF i] by (intro running_thread) auto
  have h: "h = Posted \<or> h = Destroyed" using world_invD(9) [OF i] n by (auto simp: stack_inv_def split: if_splits)
  obtain s where s: "wstate w = Some s" by (rule state_there [OF i no])
  obtain q where q: "queue w = Some q" "9 \<le> stage Exited \<longrightarrow> uv_state q = bare_queue_state_closed"
      "3 \<le> stage Exited \<longrightarrow> port_data (uv_port q) = thread_ipc_ptr \<and> on_recv_uv q = on_ipc_signal_ptr"
    by (rule queue_there [OF i no])
  let ?w = "(emit Sem_destroy (emit Sem_wait w))\<lparr>semaphore := None\<rparr>"
  have ok: "ipc_ok ?w" "env_ok ?w" "queue ?w = Some q" using world_invD(1,2) [OF i] q by simp_all
  obtain ob v where v: "queue_step Destroy ?w = Some (ob, v)" "ipc_ok v" "env_ok v"
      "ipc_world.more v = ipc_world.more ?w" "(ob, abs_world v) = spec_step Destroy (abs_queue ?w q)"
      "\<forall>q'. queue v = Some q' \<longrightarrow> recv_view q' = recv_view q"
    using uv_step_spec [OF ok, of Destroy] by (auto simp: releases_def simp del: queue_step.simps spec_step.simps)
  note f = same_rest [OF v(4)]
  have qv: "uv_state q' = bare_queue_state_closed \<and> destroyed q' \<and> port_data (uv_port q') = thread_ipc_ptr
      \<and> on_recv_uv q' = on_ipc_signal_ptr \<and> bare_queue__listening (thread_state q')"
    if q': "queue v = Some q'" for q'
  proof -
    have "abs_queue v q' = (abs_queue w q)\<lparr>released := True\<rparr>"
      using v(5) q' by (simp add: abs_world_def reclaim_def split: if_splits)
    then have "uv_state q' = uv_state q" "destroyed q'"
      using uv_of_abs [OF v(2) q'] uv_of_abs(1) [OF world_invD(1) [OF i] q(1)] by simp_all
    moreover have "bare_queue__listening (thread_state q')"
      by (rule reclaim_listening [OF v(2) q', of "(abs_queue w q)\<lparr>released := True\<rparr>"]) (use v(5) in simp_all)
    ultimately show ?thesis using v(6) q' q(2,3) by (simp add: recv_view_def)
  qed
  have r: "ready True (native v)" using f world_invD(4) [OF i] by simp
  obtain u where u: "on_thread_exit P v = Some u" "native_only v u" "ready False (native u)" "carried held (native v) (native u)"
    using thread_exit [OF r calls_ok_env [OF v(3)]] by blast
  obtain cs m where e: "u = v\<lparr>calls := calls v @ cs, native := m\<rparr>" using u(2) by (rule native_onlyE)
  let ?u = "(emit (Mutex_destroy State_lock) u)\<lparr>wstate := None, thread_ipc := None\<rparr>"
  have "wstate u = Some s" using s f e by simp
  moreover have "bare_queue_destroy ?w = Some v" using v(1) by auto
  ultimately have "thread_free P w = Some ?u" using n u(1) by (simp add: thread_free_def)
  moreover have "inv h Finished ?u"
    using i h f e v(2,3) qv u(3) carriedD [OF u(4)]
    by (simp add: world_inv_def) (auto simp: inv_defs held_inv_def split: option.splits)
  moreover have "same_count w ?u" using f e by (simp add: same_count_def)
  ultimately show ?thesis by blast
qed

end

end
