(* ===== verification/Worklet_Safety.thy ===== *)
theory Worklet_Safety
  imports Worklet_Cycle_Thread
begin

text \<open>
  What holds of a worklet over its whole life, in every order of events: no fault, the end of
  its ipc seen before its exit is, the teardown of the process outlasting it, nothing left once
  it is gone, and no way for its thread or its host to get stuck.
\<close>

section \<open>The states that are reached\<close>

text \<open>
  A worklet's life begins with \<open>bare_worklet_create\<close> in a process that has other worklets and
  is not torn down.
\<close>

definition new_life :: "'p wworld \<Rightarrow> nat \<Rightarrow> 'p cycle" where
  "new_life w n = \<lparr>world_of = w, host_at = Configuring, thread_at = Not_created, start_args = [],
     others_running = n, tearing = False, down = False\<rparr>"

definition before_life :: "('p \<Rightarrow> bool) \<Rightarrow> 'p wworld \<Rightarrow> nat \<Rightarrow> bool" where
  "before_life ok w n \<longleftrightarrow> ipc_ok w \<and> env_ok w \<and> ok (native w) \<and> worklet w = None \<and> wstate w = None
     \<and> queue w = None \<and> semaphore w = None \<and> thread_ipc w = None \<and> running w = int n \<and> \<not> torn_down w"

inductive reached :: "'p platform_ops \<Rightarrow> (bare_worklet_options_t option \<Rightarrow> 'p \<Rightarrow> bool) \<Rightarrow> ptr \<Rightarrow> ptr \<Rightarrow> 'p cycle \<Rightarrow> bool"
  for P :: "'p platform_ops" and ok :: "bare_worklet_options_t option \<Rightarrow> 'p \<Rightarrow> bool" and js inst :: ptr where
  created: "before_life (ok opts) w n \<Longrightarrow> bare_worklet_create P g1 g2 opts w = Some ((0, p), w')
    \<Longrightarrow> reached P ok js inst (new_life w' n)"
| step: "reached P ok js inst c \<Longrightarrow> may e c \<Longrightarrow> cycle_step P js inst e c = Some c'
    \<Longrightarrow> reached P ok js inst c'"

fun cycle_run :: "'p platform_ops \<Rightarrow> ptr \<Rightarrow> ptr \<Rightarrow> event list \<Rightarrow> 'p cycle \<Rightarrow> 'p cycle option" where
  "cycle_run P js inst [] c = Some c"
| "cycle_run P js inst (e # es) c =
     (if may e c then Option.bind (cycle_step P js inst e c) (cycle_run P js inst es) else None)"

text \<open>An ipc from before has no port on a queue that is new.\<close>

lemma ipc_ok_new_queue:
  assumes ok: "ipc_ok w" and none: "queue w = None"
    and same: "ipcs v = ipcs w" "polls v = polls w" "signals v = signals w" "self v = self w" "blocks v = blocks w"
      "brk w \<le> brk v" and q: "queue v = Some (initial_queue g1 g2)"
  shows "ipc_ok v"
proof -
  have "heap_ok v" using ipc_okD(1) [OF ok] same(5,6) by (auto simp: world_ok_def heap_ok_def intro: order_less_le_trans)
  then have "world_ok v" using q by (simp add: world_ok_def initial_queue_ok)
  moreover have "addresses_ok v"
    using ipc_okD(2) [OF ok] same by (auto simp: addresses_ok_def intro: order_less_le_trans)
  moreover have "served v" using q by (simp add: served_def initial_queue_def bare_queue__listening_def)
  moreover have "ipc_good v p i" if i: "ipcs v p = Some i" for p i
  proof -
    have g: "ipc_good w p i" using ipc_okD(4) [OF ok] i same(1) by simp
    then have "ipc_port i = None" using none by (auto simp: ipc_good_def port_ok_def split: option.splits)
    then show ?thesis by (rule ipc_good_closed [OF g _ same(3,2)])
  qed
  ultimately show ?thesis by (simp add: ipc_ok_def)
qed

context worklet_platform
begin

text \<open>What a platform and the options that the host hands over have to be for a worklet to be created.\<close>

abbreviation may_create :: "bare_worklet_options_t option \<Rightarrow> 'p \<Rightarrow> bool" where
  "may_create opts n \<equiv> ready False n \<and> (\<forall>opts0. opts = Some opts0 \<longrightarrow> offered opts0 n)"

lemma created_inv:
  assumes b: "before_life (may_create opts) w n" and c: "bare_worklet_create P g1 g2 opts w = Some ((0, p), w')"
  shows "cycle_inv ready held initialised (new_life w' n)"
proof -
  have w: "ipc_ok w" "env_ok w" "ready False (native w)" "\<forall>opts0. opts = Some opts0 \<longrightarrow> offered opts0 (native w)"
      "worklet w = None" "wstate w = None" "queue w = None"
      "semaphore w = None" "thread_ipc w = None" "running w = int n" "\<not> torn_down w"
    using b by (simp_all add: before_life_def)
  obtain v where v: "bare_worklet_create P g1 g2 opts w = Some (if memory_for_worklet w then (0, brk w) else (-1, NULL), v)"
      "ready False (native v)" "blocks v = blocks w" "brk v = Suc (Suc (Suc (brk w)))" "ipcs v = ipcs w" "polls v = polls w"
      "signals v = signals w" "self v = self w" "ret v = ret w" "oom v = oom w" "semaphore v = semaphore w"
      "thread_ipc v = thread_ipc w" "running v = running w" "torn_down v = torn_down w" "init_guard v"
      "if memory_for_worklet w
       then (\<exists>kept. worklet v = Some (new_worklet kept (Suc (brk w)) (Suc (Suc (brk w)))) \<and> held kept (native v))
           \<and> wstate v = Some zero_state \<and> queue v = Some (initial_queue g1 g2)
       else worklet v = None \<and> wstate v = None \<and> queue v = None"
    using create_spec [OF w(3) calls_ok_env [OF w(2)] ipc_okD(1) [OF w(1)] w(5-7,4), of g1 g2]
    by (elim exE conjE) (rule that, auto split: if_splits)
  have m: "memory_for_worklet w" using w(2) by (simp add: memory_for_worklet_def env_ok_def)
  then obtain kept where k: "worklet v = Some (new_worklet kept (Suc (brk w)) (Suc (Suc (brk w))))"
      "wstate v = Some zero_state" "queue v = Some (initial_queue g1 g2)" "held kept (native v)" using v(16) by auto
  have e: "w' = v" using c v(1) by simp
  have ok: "ipc_ok v" by (rule ipc_ok_new_queue [OF w(1,7)]) (use v k(3) in simp_all)
  have env: "env_ok v" using w(2) v(9,10) by (simp add: env_ok_def)
  show ?thesis
    using ok env v k w
    by (simp add: e cycle_inv_def new_life_def world_inv_def inv_defs new_worklet_def zero_worklet_def zero_state_def
        initial_queue_def held_inv_def)
qed

end

text \<open>How an event that leaves the counts alone keeps the invariant.\<close>

lemma cycle_inv_moved:
  assumes "cycle_inv ok keeps live c" and "world_inv ok keeps live (host_at c') (thread_at c') (world_of c')"
    and "same_count (world_of c) (world_of c')" and "others_running c' = others_running c"
    and "tearing c' = tearing c" and "down c' = down c"
    and "(1 \<le> stage (thread_at c') \<and> stage (thread_at c') \<le> 11) = (1 \<le> stage (thread_at c) \<and> stage (thread_at c) \<le> 11)"
  shows "cycle_inv ok keeps live c'"
  using assms by (auto simp: cycle_inv_def running_inv_def same_count_def)

context worklet_platform
begin

abbreviation cinv where "cinv \<equiv> cycle_inv ready held initialised"

lemma host_event_inv:
  assumes c: "cinv c" and e: "may e c"
    and host: "(\<exists>f. e = Set_callbacks f) \<or> (\<exists>d. e = Set_data d) \<or> (\<exists>n. e = Suspend n) \<or> e = Resume \<or> (\<exists>n. e = Wake_up n)
      \<or> e = Terminate \<or> e = Discard \<or> e = Destroy_terminate \<or> e = Destroy_post \<or> e = Destroy_free \<or> (\<exists>op. e = Host_ipc op)"
  shows "\<exists>c'. cycle_step P js inst e c = Some c' \<and> cinv c'"
proof -
  let ?w = "world_of c" and ?h = "host_at c" and ?t = "thread_at c"
  have i: "inv ?h ?t ?w" using c by (simp add: cycle_inv_def)
  have moved: "cinv (at_world c v)" if "inv ?h ?t v" "same_count ?w v" for v
    by (rule cycle_inv_moved [OF c]) (use that in \<open>simp_all add: to_defs\<close>)
  have hosted: "cinv (host_to h c v)" if "inv h ?t v" "same_count ?w v" for h v
    by (rule cycle_inv_moved [OF c]) (use that in \<open>simp_all add: to_defs\<close>)
  have at: "inv h ?t ?w" if "?h = h" for h using i that by simp
  show ?thesis
    using host
  proof (elim disjE exE)
    fix f assume "e = Set_callbacks f"
    then show ?thesis using configure_inv [OF i, of f] e moved by (fastforce simp: may_def)
  next
    fix d assume "e = Set_data d"
    then show ?thesis using set_data_inv [OF i, of d] e moved by (fastforce simp: may_def)
  next
    fix n assume "e = Suspend n"
    then show ?thesis using control_inv(1) [OF i, of n] e moved by (fastforce simp: may_def)
  next
    assume "e = Resume"
    then show ?thesis using control_inv(2) [OF i] e moved by (fastforce simp: may_def)
  next
    fix n assume "e = Wake_up n"
    then show ?thesis using control_inv(3) [OF i, of n] e moved by (fastforce simp: may_def)
  next
    assume "e = Terminate"
    then show ?thesis using control_inv(4) [OF i] e moved by (fastforce simp: may_def)
  next
    assume "e = Discard"
    then show ?thesis using discard_inv [OF at] e hosted by (fastforce simp: may_def)
  next
    assume "e = Destroy_terminate"
    then show ?thesis using destroy_terminate_inv [OF at] e hosted by (fastforce simp: may_def)
  next
    assume "e = Destroy_post"
    then show ?thesis using destroy_post_inv [OF at] e hosted by (fastforce simp: may_def)
  next
    assume "e = Destroy_free"
    then show ?thesis using destroy_free_inv [OF at] e hosted by (fastforce simp: may_def)
  next
    fix op assume o: "e = Host_ipc op"
    have "by_host op \<and> (if op = Ipc_create then ?h \<in> {Configuring, Starting, Started} else allowed ?w op)"
      using e unfolding o may_def Let_def event.case .
    then obtain ob v where "ipc_step op ?w = Some (ob, v)" "inv ?h ?t v" "same_count ?w v"
      using host_ipc_inv [OF i, of op] by blast
    then show ?thesis using o moved by (simp del: ipc_step.simps)
  qed
qed

lemma start_event_inv:
  assumes c: "cinv c" and e: "may e c" and x: "(\<exists>tid path src n args. e = Start tid path src n args) \<or> e = Pass_barrier"
  shows "\<exists>c'. cycle_step P js inst e c = Some c' \<and> cinv c'"
proof -
  let ?w = "world_of c" and ?h = "host_at c" and ?t = "thread_at c"
  have i: "inv ?h ?t ?w"
      and r: "running_inv ?t (others_running c) (tearing c) (down c) (running ?w) (torn_down ?w)"
    using c by (simp_all add: cycle_inv_def)
  show ?thesis
    using x
  proof (elim disjE exE)
    fix tid path src n args assume s: "e = Start tid path src n args"
    then have h: "?h = Configuring" "tid \<noteq> NULL" "case src of None \<Rightarrow> True | Some b \<Rightarrow> n \<le> length b"
      using e by (simp_all add: may_def)
    have t: "?t = Not_created" using world_invD(5) [OF i] h(1) by (simp add: places_ok_def)
    obtain res v where v: "start_thread tid path src n args ?w = Some (res, v)"
        "if torn_down ?w then res = Inl (-1) \<and> inv Configuring ?t v \<and> same_count ?w v
         else res = Inr () \<and> inv Starting Born v \<and> running v = running ?w + 1 \<and> torn_down v = torn_down ?w"
      using start_inv [OF _ h(2,3), of ?t ?w path args] i h(1) by auto
    show ?thesis
      using s v h(1) t r
      by (cases "torn_down ?w") (auto simp: cycle_inv_def running_inv_def same_count_def to_defs)
  next
    assume s: "e = Pass_barrier"
    then have h: "?h = Starting" "?t = Waiting" using e by (simp_all add: may_def)
    then obtain v where v: "start_ready Some ?w = Some v" "inv Started Released v" "same_count ?w v"
      using pass_barrier_inv [of ?w] i by auto
    have "cinv (c\<lparr>world_of := v, host_at := Started, thread_at := Released\<rparr>)"
      by (rule cycle_inv_moved [OF c]) (use v h in simp_all)
    then show ?thesis using s v(1) by simp
  qed
qed

lemma process_event_inv:
  assumes c: "cinv c" and e: "may e c" and x: "e \<in> {Other_starts, Other_stops, Begin_teardown, End_teardown}"
  shows "\<exists>c'. cycle_step P js inst e c = Some c' \<and> cinv c'"
proof -
  let ?w = "world_of c" and ?h = "host_at c" and ?t = "thread_at c"
  have i: "inv ?h ?t ?w"
      and r: "running_inv ?t (others_running c) (tearing c) (down c) (running ?w) (torn_down ?w)"
    using c by (simp_all add: cycle_inv_def)
  obtain v where v: "teardown_begin P ?w = Some v" "inv ?h ?t v" "running v = running ?w" "torn_down v"
    using teardown_begin_inv [OF i] by blast
  obtain u where u: "teardown_end ?w = Some u" "inv ?h ?t u" "same_count ?w u"
    using teardown_end_inv [OF i] by blast
  show ?thesis
    using x
  proof (elim insertE)
    assume "e = Other_starts"
    then show ?thesis using i r by (auto simp: cycle_inv_def running_inv_def other_starts_def Let_def)
  next
    assume s: "e = Other_stops"
    then have "0 < others_running c" using e by (simp add: may_def)
    then show ?thesis
      using s i r by (auto simp: cycle_inv_def running_inv_def bare_worklet__on_stopped_def Let_def)
  next
    assume s: "e = Begin_teardown"
    then have "\<not> tearing c" using e by (simp add: may_def)
    then show ?thesis using s v r by (auto simp: cycle_inv_def running_inv_def)
  next
    assume s: "e = End_teardown"
    then have "tearing c" "running ?w \<le> 0" using e by (simp_all add: may_def)
    then show ?thesis using s u r by (auto simp: cycle_inv_def running_inv_def same_count_def split: if_splits)
  qed simp
qed

lemma thread_event_inv:
  assumes c: "cinv c" and e: "may e c" and inst: "inst \<noteq> NULL"
    and x: "e \<in> {Setup, Open_bundle, Reference, Ready, Call_start, Loop, Signal, Retire, Detach, Shutdown, Free}
      \<or> (\<exists>n. e = Native n) \<or> (\<exists>l. e = Lifecycle l) \<or> (\<exists>code. e = Exit code)"
  shows "\<exists>c'. cycle_step P js inst e c = Some c' \<and> cinv c'"
proof -
  let ?w = "world_of c" and ?h = "host_at c" and ?t = "thread_at c"
  have i: "inv ?h ?t ?w"
      and r: "running_inv ?t (others_running c) (tearing c) (down c) (running ?w) (torn_down ?w)"
    using c by (simp_all add: cycle_inv_def)
  have at: "inv ?h t ?w" if "?t = t" for t using i that by simp
  have moved: "cinv (at_world c v)" if "inv ?h ?t v" "same_count ?w v" for v
    by (rule cycle_inv_moved [OF c]) (use that in \<open>simp_all add: to_defs\<close>)
  have threaded: "cinv (thread_to t c v)"
    if "inv ?h t v" "same_count ?w v" "(1 \<le> stage t \<and> stage t \<le> 11) = (1 \<le> stage ?t \<and> stage ?t \<le> 11)" for t v
    by (rule cycle_inv_moved [OF c]) (use that in \<open>simp_all add: to_defs\<close>)
  show ?thesis
    using x
  proof (elim insertE disjE exE)
    assume "e = Setup"
    then show ?thesis using setup_inv [OF at inst, of js] e threaded [of Set_up] by (fastforce simp: may_def)
  next
    assume "e = Open_bundle"
    then show ?thesis using open_inv [OF at] e threaded [of Opened] by (fastforce simp: may_def)
  next
    assume "e = Reference"
    then show ?thesis using reference_inv [OF at] e threaded [of Referenced] by (fastforce simp: may_def)
  next
    assume s: "e = Ready"
    then have t: "?t = Referenced" using e by (simp add: may_def)
    obtain args v where v: "thread_ready P ?w = Some (args, v)" "inv ?h Waiting v" "same_count ?w v"
      using ready_inv [OF at [OF t]] by blast
    have "cinv (c\<lparr>world_of := v, thread_at := Waiting, start_args := args\<rparr>)"
      by (rule cycle_inv_moved [OF c]) (use v t in simp_all)
    then show ?thesis using s v(1) by simp
  next
    assume s: "e = Call_start"
    then have t: "?t = Released" using e by (simp add: may_def)
    have "inv ?h In_module (thread_call_start (start_args c) ?w)" by (rule call_start_inv [OF at [OF t]])
    then have "cinv (thread_to In_module c (thread_call_start (start_args c) ?w))"
      by (rule threaded) (simp_all add: t thread_call_start_def)
    then show ?thesis using s by simp
  next
    assume "e = Loop"
    then show ?thesis using loop_inv [OF at] e threaded [of Looping] by (fastforce simp: may_def)
  next
    assume s: "e = Signal"
    then have t: "?t = Looping" using e by (simp add: may_def)
    obtain w1 v where v: "bare_queue__on_wakeup_uv ?w = Some w1" "bare_worklet__on_ipc_signal Some Uv_port w1 = Some v"
        "inv ?h Looping v" "same_count ?w v"
      using signal_inv [OF at [OF t]] by blast
    then show ?thesis using s moved [of v] t by simp
  next
    assume "e = Retire"
    then show ?thesis using retire_inv [OF at] e threaded [of Retired] by (fastforce simp: may_def)
  next
    assume "e = Detach"
    then show ?thesis using detach_inv [OF at] e threaded [of Detached] by (fastforce simp: may_def)
  next
    assume "e = Shutdown"
    then show ?thesis using shutdown_inv [OF at] e threaded [of Shut] by (fastforce simp: may_def)
  next
    assume s: "e = Free"
    then obtain n where t: "?t = Exited" and n: "semaphore ?w = Some n" "0 < n" using e by (auto simp: may_def)
    obtain v where v: "thread_free P ?w = Some v" "inv ?h Finished v" "same_count ?w v"
      using free_inv [OF at [OF t] n] by blast
    then show ?thesis using s threaded [of Finished v] t by simp
  next
    fix n assume s: "e = Native n"
    then have "3 \<le> stage ?t" "stage ?t \<le> 11" using e by (auto simp: may_def Let_def)
    then obtain v v' where "native_step n ?w = Some (v, v')" "inv ?h ?t v'" "same_count ?w v'"
      using native_inv [OF i, of n] by blast
    then show ?thesis using s moved by simp
  next
    fix l assume s: "e = Lifecycle l"
    then have "2 \<le> stage ?t" "stage ?t \<le> 11" using e by (auto simp: may_def Let_def)
    then obtain v where "run_lifecycle P l ?w = Some v" "inv ?h ?t v" "same_count ?w v"
      using lifecycle_inv [OF i, of l] by blast
    then show ?thesis using s moved by simp
  next
    fix code assume s: "e = Exit code"
    then have t: "?t = Shut" using e by (simp add: may_def)
    obtain v where v: "thread_exit P code ?w = Some v" "inv ?h Exited v" "running v = running ?w - 1"
        "torn_down v = torn_down ?w"
      using exit_inv [OF at [OF t], of code] by blast
    then show ?thesis using s r t by (auto simp: cycle_inv_def running_inv_def to_defs)
  qed simp
qed

text \<open>Every event that may come runs, and keeps the invariant.\<close>

lemma event_inv:
  assumes "cinv c" and "may e c" and "inst \<noteq> NULL"
  shows "\<exists>c'. cycle_step P js inst e c = Some c' \<and> cinv c'"
proof -
  consider "(\<exists>f. e = Set_callbacks f) \<or> (\<exists>d. e = Set_data d) \<or> (\<exists>n. e = Suspend n) \<or> e = Resume \<or> (\<exists>n. e = Wake_up n)
      \<or> e = Terminate \<or> e = Discard \<or> e = Destroy_terminate \<or> e = Destroy_post \<or> e = Destroy_free \<or> (\<exists>op. e = Host_ipc op)"
    | "(\<exists>tid path src n args. e = Start tid path src n args) \<or> e = Pass_barrier"
    | "e \<in> {Other_starts, Other_stops, Begin_teardown, End_teardown}"
    | "e \<in> {Setup, Open_bundle, Reference, Ready, Call_start, Loop, Signal, Retire, Detach, Shutdown, Free}
      \<or> (\<exists>n. e = Native n) \<or> (\<exists>l. e = Lifecycle l) \<or> (\<exists>code. e = Exit code)"
    by (cases e) simp_all
  then show ?thesis
    using host_event_inv [OF assms(1,2)] start_event_inv [OF assms(1,2)] process_event_inv [OF assms(1,2)]
      thread_event_inv [OF assms] by cases blast+
qed

lemma reached_inv:
  assumes "reached P may_create js inst c" and "inst \<noteq> NULL"
  shows "cinv c"
  using assms
proof (induction rule: reached.induct)
  case (created w n g1 g2 opts p w')
  then show ?case using created_inv by blast
next
  case (step c e c')
  then show ?case using event_inv [of c e inst js] by auto
qed

text \<open>What the host sees of the ipc once the worklet has retired.\<close>

lemma retired_ipc:
  assumes c: "cinv c" and t: "9 \<le> stage (thread_at c)" and o: "is_open (world_of c) ipc"
  shows "inbound_over (world_of c) ipc
    \<and> (inbound (world_of c) ipc = [] \<longrightarrow> (\<exists>w'. bare_ipc_read ipc 1 (world_of c) = Some ((0, []), w')))
    \<and> (data \<noteq> [] \<longrightarrow> (\<exists>w'. bare_ipc_write ipc data (world_of c) = Some (bare_ipc_error, w')))"
proof -
  let ?w = "world_of c"
  have i: "inv (host_at c) (thread_at c) ?w" using c by (simp add: cycle_inv_def)
  note ok = world_invD(1,2) [OF i]
  obtain i0 q where i0: "ipcs ?w ipc = Some i0" "ipc_port i0 = Some Thread_port" and q: "queue ?w = Some q"
    using listening_open [OF ok(1) o] by blast
  have "uv_state q = bare_queue_state_closed"
    using world_invD(8) [OF i] q t by (simp add: queue_inv_def)
  then have u: "bare_queue__state q Uv_port = bare_queue_state_closed" using uv_of_abs(1) [OF ok(1) q] by simp
  then have over: "inbound_over ?w ipc"
    using inbound_open(2) [OF i0 q] by (simp add: peer_ended_def state_order)
  obtain r bs w' where rd: "bare_ipc_read ipc 1 ?w = Some ((r, bs), w')"
      "if inbound ?w ipc = []
       then bs = [] \<and> r = (if inbound_over ?w ipc then 0 else bare_ipc_would_block)
       else bs \<noteq> [] \<and> r = int (length bs)"
    using ipc_read_spec [OF ok i0(1), of 1] by auto
  obtain n v where wr: "bare_ipc_write ipc data ?w = Some (ipc_status n, v)"
      "(Sent n, abs_world v) = spec_step (Write Thread_port data) (abs_queue ?w q)"
    using ipc_write_spec [OF ok i0(1), of data] i0(2) q by auto
  have "shut (abs_queue ?w q) Thread_port" using u by (simp add: shut_def)
  then have "data \<noteq> [] \<Longrightarrow> ipc_status n = bare_ipc_error"
    using wr(2) by (simp add: ipc_status_def queue_codes)
  then show ?thesis using over rd wr(1) by auto
qed

end

section \<open>Safety\<close>

lemma default_reached_inv:
  assumes "reached default_platform (\<lambda>_ _. True) js inst c" and "inst \<noteq> NULL"
  shows "default.cinv c"
  using default.reached_inv [of js inst c] assms by simp

text \<open>
  C3: A worklet is never at fault. From its creation on, in every order of what its host, its
  thread, the JavaScript it runs, the other worklets and the teardown of the process do, each
  operation that may come returns: none uses the struct, the state, the queue, the semaphore or
  the struct of the ipc before it is there or once it is freed, none fails an assertion, and
  none frees anything twice. The host has to keep to the interface: it uses the worklet up to
  \<open>bare_worklet_destroy\<close> only, and the source that it starts is as long as it says.
\<close>

theorem worklet_never_faults:
  assumes "reached default_platform (\<lambda>_ _. True) js inst c" and "inst \<noteq> NULL" and "may e c"
  shows "\<exists>c'. cycle_step default_platform js inst e c = Some c'"
  using default.event_inv [OF default_reached_inv [OF assms(1,2)] assms(3,2)] by blast

lemma empty_before_life: "before_life (\<lambda>_. True) empty_world 0"
proof -
  have "ipc_ok empty_world"
    using empty_world_ok(2) by (simp add: ipc_ok_def addresses_ok_def served_def) (simp add: empty_world_def NULL_def)
  moreover have "env_ok empty_world" by (simp add: env_ok_def empty_world_def)
  ultimately show ?thesis by (simp add: before_life_def) (simp add: empty_world_def)
qed

text \<open>A worklet that was just created.\<close>

lemma some_life:
  "\<exists>w'. reached default_platform (\<lambda>_ _. True) js inst (new_life w' 0) \<and> worklet (w' :: unit wworld) \<noteq> None
    \<and> torn_down w' = False \<and> running w' = 0 \<and> queue w' = Some (initial_queue no_garbage no_garbage)"
proof -
  have m: "memory_for_worklet empty_world" by (simp add: memory_for_worklet_def)
  obtain p w' where c: "bare_worklet_create default_platform no_garbage no_garbage None empty_world = Some ((0, p), w')"
      "worklet w' \<noteq> None" "torn_down w' = False" "running w' = 0"
      "queue w' = Some (initial_queue no_garbage no_garbage)"
    using default.create_spec [OF TrueI empty_world_ok, of None no_garbage no_garbage] m by auto
  show ?thesis using reached.created [OF empty_before_life c(1)] c(2-5) by blast
qed

theorem worklet_never_faults_witness:
  "\<exists>(w :: unit wworld) c'. cycle_step default_platform 11 10 (Start 9 ''/app.js'' (Some [1, 2]) 2 []) (new_life w 0) = Some c'"
proof -
  obtain w :: "unit wworld" where w: "reached default_platform (\<lambda>_ _. True) 11 10 (new_life w 0)"
    using some_life by blast
  have "\<exists>c'. cycle_step default_platform 11 10 (Start 9 ''/app.js'' (Some [1, 2]) 2 []) (new_life w 0) = Some c'"
    by (rule worklet_never_faults [OF w]) (simp_all add: NULL_def may_def new_life_def)
  then show ?thesis by blast
qed

text \<open>
  C7: By the time that the exit callback is called, and for as long as an ipc is open after
  that, the worklet's end of it is over: nothing more comes in than was written before, a read
  that finds nothing returns 0, and a write fails. The worklet's thread sees to it on every way
  out, before it tears down Bare, and whether or not the script ended its stream.
\<close>

theorem ipc_over_before_exit:
  assumes "reached default_platform (\<lambda>_ _. True) js inst c" and "inst \<noteq> NULL"
    and "thread_at c \<in> {Retired, Detached, Shut, Exited, Finished}" and "is_open (world_of c) ipc"
  shows "inbound_over (world_of c) ipc
    \<and> (inbound (world_of c) ipc = [] \<longrightarrow> (\<exists>w'. bare_ipc_read ipc 1 (world_of c) = Some ((0, []), w')))
    \<and> (data \<noteq> [] \<longrightarrow> (\<exists>w'. bare_ipc_write ipc data (world_of c) = Some (bare_ipc_error, w')))"
  by (rule default.retired_ipc [OF default_reached_inv [OF assms(1,2)] _ assms(4)]) (use assms(3) in auto)

text \<open>
  C9: The teardown of the process outlasts every worklet. Once it has passed its wait, no
  worklet runs, so no thread uses the JavaScript platform that it goes on to destroy: that of
  this worklet has not been created or has torn down its Bare instance. It stays so, as from
  then on a start is refused.
\<close>

theorem teardown_outlasts_worklets:
  assumes "reached default_platform (\<lambda>_ _. True) js inst c" and "inst \<noteq> NULL" and "down c"
  shows "running (world_of c) = 0 \<and> thread_at c \<in> {Not_created, Exited, Finished}
    \<and> (host_at c = Configuring \<longrightarrow> (\<exists>w'. start_thread tid path src n args (world_of c) = Some (Inl (-1), w')))"
proof -
  let ?w = "world_of c"
  have c: "cycle_inv (\<lambda>_ _. True) (\<lambda>_ _. True) (\<lambda>_ _. True) c" by (rule default_reached_inv [OF assms(1,2)])
  then have i: "world_inv (\<lambda>_ _. True) (\<lambda>_ _. True) (\<lambda>_ _. True) (host_at c) (thread_at c) ?w"
      and r: "running_inv (thread_at c) (others_running c) (tearing c) (down c) (running ?w) (torn_down ?w)"
    by (simp_all add: cycle_inv_def)
  have d: "running ?w = 0" "torn_down ?w" "\<not> (1 \<le> stage (thread_at c) \<and> stage (thread_at c) \<le> 11)"
    using r assms(3) by (auto simp: running_inv_def split: if_splits)
  have t: "thread_at c \<in> {Not_created, Exited, Finished}" using d(3) by (cases "thread_at c") simp_all
  have "\<exists>w'. start_thread tid path src n args ?w = Some (Inl (-1), w')" if h: "host_at c = Configuring"
  proof -
    obtain k where k: "worklet ?w = Some k" using i h by (auto elim: struct_there)
    have "ret ?w (Barrier_init Ready_barrier) = 0" "ret ?w Thread_detach = 0"
      using world_invD(3) [OF i] by (simp_all add: calls_ok_def)
    note st = start_thread_eq [OF k this, where tid = tid and path = path and src = src and n = n and args = args]
    show ?thesis using st d(2) by (simp add: Let_def)
  qed
  then show ?thesis using d(1) t by blast
qed

text \<open>
  C8: A worklet leaves nothing behind. Once the host has destroyed it, and its thread, if there
  was one, has come to its end, its struct, its state, its semaphore and the struct of its ipc
  are gone. Its queue is gone too unless the host still has an ipc open, and then closing the
  ipc frees it.
\<close>

theorem worklet_leaves_nothing:
  assumes "reached default_platform (\<lambda>_ _. True) js inst c" and "inst \<noteq> NULL"
    and "host_at c = Discarded \<or> host_at c = Destroyed \<and> thread_at c = Finished"
  shows "worklet (world_of c) = None \<and> wstate (world_of c) = None \<and> semaphore (world_of c) = None
    \<and> thread_ipc (world_of c) = None
    \<and> (queue (world_of c) = None \<longleftrightarrow> \<not> (\<exists>ipc. is_open (world_of c) ipc))
    \<and> (\<forall>ipc. is_open (world_of c) ipc \<longrightarrow> (\<exists>w'. bare_ipc_close ipc (world_of c) = Some w' \<and> queue w' = None))"
proof -
  let ?w = "world_of c"
  have c: "cycle_inv (\<lambda>_ _. True) (\<lambda>_ _. True) (\<lambda>_ _. True) c" by (rule default_reached_inv [OF assms(1,2)])
  then have i: "world_inv (\<lambda>_ _. True) (\<lambda>_ _. True) (\<lambda>_ _. True) (host_at c) (thread_at c) ?w" by (simp add: cycle_inv_def)
  note ok = world_invD(1,2) [OF i]
  have o: "over (host_at c) (thread_at c)" using assms(3) by (auto simp: over_def)
  have t: "stage (thread_at c) = 0 \<or> stage (thread_at c) = 13"
    using world_invD(5) [OF i] assms(3) by (auto simp: places_ok_def)
  have gone: "worklet ?w = None" "wstate ?w = None" "semaphore ?w = None" "thread_ipc ?w = None"
    using world_invD(6,7,9) [OF i] o t assms(3)
    by (auto simp: struct_inv_def state_inv_def stack_inv_def split: option.splits)
  have "\<exists>ipc. is_open ?w ipc" if q: "queue ?w = Some q" for q
  proof -
    have "bare_queue__listening (thread_state q)" using world_invD(8) [OF i] q o by (simp add: queue_inv_def)
    then show ?thesis using ipc_okD(3) [OF ok(1)] q by (fastforce simp: served_def is_open_def)
  qed
  moreover have "queue ?w \<noteq> None \<and> (\<exists>w'. bare_ipc_close ipc ?w = Some w' \<and> queue w' = None)"
    if op: "is_open ?w ipc" for ipc
  proof -
    obtain i0 q where i0: "ipcs ?w ipc = Some i0" "ipc_port i0 = Some Thread_port" and q: "queue ?w = Some q"
      using listening_open [OF ok(1) op] by blast
    obtain w' where w': "bare_ipc_close ipc ?w = Some w'"
        "abs_world w' = reclaim (raise_phase Thread_port bare_queue_state_closed (abs_queue ?w q))"
      using ipc_close_spec [OF ok i0(1)] i0(2) q by auto
    have "max s bare_queue_state_closed = bare_queue_state_closed" for s by (cases s) (simp_all add: max_def state_order)
    moreover have "destroyed q" using world_invD(8) [OF i] q o by (simp add: queue_inv_def)
    ultimately have "abs_world w' = None" using w'(2) by (simp add: reclaim_def raise_phase_def)
    then show ?thesis using w'(1) q by (simp add: abs_world_def)
  qed
  ultimately show ?thesis using gone by (cases "queue ?w") blast+
qed

end
