(* ===== verification/Worklet_Progress.thy ===== *)
theory Worklet_Progress
  imports Worklet_Safety
begin

text \<open>
  No worklet gets stuck: from every state that is reached, its host and its thread can be
  brought to their end by events that may come, within a fixed number of them. And on iOS the
  task of a suspension is there whenever it is used.
\<close>

section \<open>The way to the end\<close>

definition ended :: "'p cycle \<Rightarrow> bool" where
  "ended c \<longleftrightarrow> host_at c = Discarded \<or> host_at c = Destroyed \<and> thread_at c = Finished"

primrec thread_next :: "thread_pc \<Rightarrow> event" where
  "thread_next Not_created = Setup"
| "thread_next Born = Setup"
| "thread_next Set_up = Open_bundle"
| "thread_next Opened = Reference"
| "thread_next Referenced = Ready"
| "thread_next Waiting = Pass_barrier"
| "thread_next Released = Call_start"
| "thread_next In_module = Loop"
| "thread_next Looping = Retire"
| "thread_next Retired = Detach"
| "thread_next Detached = Shutdown"
| "thread_next Shut = Exit 0"
| "thread_next Exited = Free"
| "thread_next Finished = Free"

text \<open>The host destroys the worklet as soon as it can, then the thread runs on by itself.\<close>

definition next_event :: "'p cycle \<Rightarrow> event" where
  "next_event c = (case host_at c of
     Configuring \<Rightarrow> Discard
   | Started \<Rightarrow> Destroy_terminate
   | Terminated \<Rightarrow> Destroy_post
   | Posted \<Rightarrow> Destroy_free
   | _ \<Rightarrow> thread_next (thread_at c))"

definition rank :: "'p cycle \<Rightarrow> nat" where
  "rank c = (case host_at c of
     Configuring \<Rightarrow> 1
   | Starting \<Rightarrow> 16 - stage (thread_at c)
   | Started \<Rightarrow> 16 - stage (thread_at c)
   | Terminated \<Rightarrow> 15 - stage (thread_at c)
   | Posted \<Rightarrow> 14 - stage (thread_at c)
   | Destroyed \<Rightarrow> 13 - stage (thread_at c)
   | Discarded \<Rightarrow> 0)"

lemma stage_le: "stage t \<le> 13"
  by (cases t) simp_all

lemma thread_next_step:
  assumes "cycle_step P js inst (thread_next (thread_at c)) c = Some c'" and "thread_at c \<noteq> Not_created"
    and "thread_at c \<noteq> Finished"
  shows "stage (thread_at c') = Suc (stage (thread_at c))
    \<and> host_at c' = (if thread_at c = Waiting then Started else host_at c)"
  using assms by (cases "thread_at c") (auto simp: to_defs)

context worklet_platform
begin

lemma next_step:
  assumes c: "cinv c" and ne: "\<not> ended c" and inst: "inst \<noteq> NULL"
  shows "\<exists>c'. may (next_event c) c \<and> cycle_step P js inst (next_event c) c = Some c' \<and> cinv c' \<and> rank c' < rank c"
proof -
  let ?w = "world_of c" and ?h = "host_at c" and ?t = "thread_at c"
  have i: "inv ?h ?t ?w" using c by (simp add: cycle_inv_def)
  note places = world_invD(5) [OF i]
  have sem: "?h = Destroyed \<Longrightarrow> ?t = Exited \<Longrightarrow> semaphore ?w = Some 1"
    using world_invD(9) [OF i] by (simp add: stack_inv_def)
  have may: "may (next_event c) c"
    using places ne sem
    by (cases ?h; cases ?t) (simp_all add: places_ok_def next_event_def may_def ended_def)
  obtain c' where c': "cycle_step P js inst (next_event c) c = Some c'" "cinv c'"
    using event_inv [OF c may inst] by blast
  have "rank c' < rank c"
  proof (cases "?h = Starting \<or> ?h = Destroyed")
    case True
    then have t: "?t \<noteq> Not_created" "?t \<noteq> Finished" "?h = Starting \<longrightarrow> stage ?t \<le> 5" "?h = Destroyed \<longrightarrow> 6 \<le> stage ?t"
      using places ne by (auto simp: places_ok_def ended_def)
    have "next_event c = thread_next ?t" using True by (auto simp: next_event_def)
    then have "stage (thread_at c') = Suc (stage ?t)" "host_at c' = (if ?t = Waiting then Started else ?h)"
      using thread_next_step [OF _ t(1,2)] c'(1) by (simp_all split: if_splits)
    then show ?thesis using True t by (cases ?t) (auto simp: rank_def)
  next
    case False
    then show ?thesis
      using c'(1) ne places stage_le [of ?t]
      by (cases ?h) (auto simp: next_event_def rank_def ended_def to_defs places_ok_def bind_eq_Some_conv)
  qed
  then show ?thesis using may c' by blast
qed

text \<open>\<open>Q\<close> is what the events on the way keep.\<close>

lemma ends:
  assumes "cinv c" and "inst \<noteq> NULL" and "Q c"
    and "\<And>c c'. cinv c \<Longrightarrow> \<not> ended c \<Longrightarrow> Q c \<Longrightarrow> cycle_step P js inst (next_event c) c = Some c' \<Longrightarrow> Q c'"
  shows "\<exists>es c'. length es \<le> rank c \<and> cycle_run P js inst es c = Some c' \<and> ended c' \<and> Q c'"
  using assms(1,3)
proof (induction "rank c" arbitrary: c rule: less_induct)
  case less
  show ?case
  proof (cases "ended c")
    case True
    then have "length ([] :: event list) \<le> rank c \<and> cycle_run P js inst [] c = Some c \<and> ended c \<and> Q c"
      using less.prems(2) by simp
    then show ?thesis by blast
  next
    case False
    obtain c1 where c1: "may (next_event c) c" "cycle_step P js inst (next_event c) c = Some c1" "cinv c1"
        "rank c1 < rank c"
      using next_step [OF less.prems(1) False assms(2)] by blast
    have "Q c1" by (rule assms(4) [OF less.prems(1) False less.prems(2) c1(2)])
    then obtain es c' where "length es \<le> rank c1" "cycle_run P js inst es c1 = Some c'" "ended c'" "Q c'"
      using less.hyps [OF c1(4,3)] by blast
    then have "length (next_event c # es) \<le> rank c \<and> cycle_run P js inst (next_event c # es) c = Some c' \<and> ended c' \<and> Q c'"
      using c1 by simp
    then show ?thesis by blast
  qed
qed

end

lemma reached_run:
  assumes "reached P ok js inst c" and "cycle_run P js inst es c = Some c'"
  shows "reached P ok js inst c'"
  using assms
proof (induction es arbitrary: c)
  case Nil
  then show ?case by simp
next
  case (Cons e es)
  then obtain c1 where "may e c" "cycle_step P js inst e c = Some c1" "cycle_run P js inst es c1 = Some c'"
    by (auto simp: bind_eq_Some_conv split: if_splits simp del: cycle_step.simps)
  then show ?case using Cons.IH reached.step [OF Cons.prems(1)] by blast
qed

lemma rank_bound: "rank c \<le> 16"
  by (auto simp: rank_def split: host_pc.split)

text \<open>
  C6: A worklet can always be brought to its end. From every state that is reached, at most 16
  events that may come, in which the host destroys the worklet and the thread does what is left
  to it, lead to the state in which both are through: no wait for the barrier or the semaphore
  is for ever, whatever happened before.
\<close>

theorem worklet_always_ends:
  assumes "reached default_platform (\<lambda>_ _. True) js inst c" and "inst \<noteq> NULL"
  shows "\<exists>es c'. length es \<le> 16 \<and> cycle_run default_platform js inst es c = Some c'
    \<and> (host_at c' = Discarded \<or> host_at c' = Destroyed \<and> thread_at c' = Finished)"
  using default.ends [OF default_reached_inv [OF assms] assms(2), of "\<lambda>_. True" js] rank_bound [of c]
  unfolding ended_def by (meson order.trans)

section \<open>A whole life\<close>

text \<open>The ipcs of the host over the way to the end, on the default platform.\<close>

lemma uv_ops_ipcs:
  assumes "ipc_ok w" and "queue w = Some q"
  shows "bare_queue_close Uv_port w = Some v \<Longrightarrow> ipcs v = ipcs w"
    and "bare_queue_destroy w = Some v \<Longrightarrow> ipcs v = ipcs w"
proof -
  note w = ipc_okD(1) [OF assms(1)]
  show "ipcs v = ipcs w" if "bare_queue_close Uv_port w = Some v"
    using step_same_host [OF w assms(2), of "Close Uv_port" Done v] that by (simp add: same_host_def)
  show "ipcs v = ipcs w" if "bare_queue_destroy w = Some v"
    using step_same_host [OF w assms(2), of Destroy Done v] that by (simp add: same_host_def)
qed

lemma start_thread_ipcs: "start_thread tid path src n args w = Some (r, v) \<Longrightarrow> ipcs v = ipcs w"
  by (auto simp: start_thread_def bare_worklet__on_stopped_def emit_ok_def bind_eq_Some_conv Let_def split: if_splits)

lemma setup_ipcs: "thread_setup default_platform js inst w = Some v \<Longrightarrow> ipcs v = ipcs w"
  by (auto simp: thread_setup_def default_platform_def default_defs once_platform_def
      bare_worklet__on_platform_init_def platform_thread_begin_def emit_ok_def bind_eq_Some_conv Let_def
      split: if_splits)

lemma open_ipcs: "thread_open w = Some (p, v) \<Longrightarrow> ipcs v = ipcs w"
  by (auto simp: thread_open_def bare_queue_open_uv_def create_native_def emit_ok_def bind_eq_Some_conv Let_def
      split: if_splits)

lemma ready_ipcs: "thread_ready default_platform w = Some (args, v) \<Longrightarrow> ipcs v = ipcs w"
  by (auto simp: thread_ready_def js_create_def default_platform_def default_defs emit_ok_def bind_eq_Some_conv
      split: if_splits option.splits)

lemma start_up_ipcs:
  "thread_reference w = Some v \<Longrightarrow> ipcs v = ipcs w" "start_ready Some w = Some v \<Longrightarrow> ipcs v = ipcs w"
  "ipcs (thread_call_start args w) = ipcs w" "thread_loop w = Some v \<Longrightarrow> ipcs v = ipcs w"
  by (auto simp: thread_reference_def start_ready_def barrier_wait_def thread_call_start_def thread_loop_def emit_ok_def
      bind_eq_Some_conv split: if_splits)

lemma wind_down_ipcs:
  "thread_detach_bare default_platform w = Some v \<Longrightarrow> ipcs v = ipcs w"
  "thread_shutdown w = Some v \<Longrightarrow> ipcs v = ipcs w"
  "thread_exit default_platform code w = Some v \<Longrightarrow> ipcs v = ipcs w"
  "bare_worklet_terminate w = Some (r, v) \<Longrightarrow> ipcs v = ipcs w"
  "sem_post p w = Some v \<Longrightarrow> ipcs v = ipcs w"
  "free_worklet default_platform w = Some v \<Longrightarrow> ipcs v = ipcs w"
  by (auto simp: thread_detach_bare_def thread_shutdown_def bare_queue_shutdown_uv_def thread_exit_def
      bare_worklet__on_stopped_def bare_worklet_terminate_def sem_post_def free_worklet_def
      default_platform_def default_defs emit_ok_def bind_eq_Some_conv Let_def split: if_splits)

lemma retire_ipcs:
  assumes "ipc_ok w" and "queue w = Some q" and "thread_retire Uv_port w = Some v"
  shows "ipcs v = ipcs w"
  using assms uv_ops_ipcs(1) [of "w\<lparr>wstate := x\<rparr>" q v for x]
  by (auto simp: thread_retire_def bind_eq_Some_conv)

lemma free_ipcs:
  assumes "ipc_ok w" and "queue w = Some q" and "thread_free default_platform w = Some v"
  shows "ipcs v = ipcs w"
proof -
  let ?w = "(emit Sem_destroy (emit Sem_wait w))\<lparr>semaphore := None\<rparr>"
  obtain u where u: "bare_queue_destroy ?w = Some u" "ipcs v = ipcs u"
    using assms(3) by (auto simp: thread_free_def default_platform_def default_defs bind_eq_Some_conv)
  have "ipcs u = ipcs ?w" by (rule uv_ops_ipcs(2) [OF _ _ u(1)]) (use assms(1,2) in simp_all)
  then show ?thesis using u(2) by simp
qed

text \<open>The thread's part of the way, but for the two events that use the queue.\<close>

lemma thread_next_ipcs:
  assumes "cycle_step default_platform js inst (thread_next t) c = Some c'" and "t \<notin> {Looping, Exited, Finished}"
  shows "ipcs (world_of c') = ipcs (world_of c)"
  using assms
  by (cases t) (auto simp: to_defs start_up_ipcs(3)
      dest: setup_ipcs open_ipcs ready_ipcs start_up_ipcs(1,2,4) wind_down_ipcs(1-3))

lemma host_next_ipcs:
  assumes "cycle_step default_platform js inst e c = Some c'" and "e \<in> {Destroy_terminate, Destroy_post, Destroy_free}"
  shows "ipcs (world_of c') = ipcs (world_of c)"
  using assms wind_down_ipcs(4) [of "world_of c"] wind_down_ipcs(5) [of _ "world_of c"]
    wind_down_ipcs(6) [of "world_of c"]
  by (elim insertE) (auto simp: to_defs bind_eq_Some_conv)

lemma next_ipcs:
  assumes c: "cycle_inv (\<lambda>_ _. True) (\<lambda>_ _. True) (\<lambda>_ _. True) c" and ne: "\<not> ended c" and conf: "host_at c \<noteq> Configuring"
    and st: "cycle_step default_platform js inst (next_event c) c = Some c'"
  shows "ipcs (world_of c') = ipcs (world_of c)"
proof -
  let ?w = "world_of c" and ?h = "host_at c" and ?t = "thread_at c"
  have i: "world_inv (\<lambda>_ _. True) (\<lambda>_ _. True) (\<lambda>_ _. True) ?h ?t ?w" using c by (simp add: cycle_inv_def)
  note places = world_invD(5) [OF i]
  show ?thesis
  proof (cases "?h \<in> {Started, Terminated, Posted}")
    case True
    then have "next_event c \<in> {Destroy_terminate, Destroy_post, Destroy_free}" by (auto simp: next_event_def)
    then show ?thesis by (rule host_next_ipcs [OF st])
  next
    case False
    then have h: "?h = Starting \<or> ?h = Destroyed" using conf ne by (cases ?h) (simp_all add: ended_def)
    then have n: "next_event c = thread_next ?t" by (auto simp: next_event_def)
    have fin: "?t \<noteq> Finished" using h ne places by (auto simp: ended_def places_ok_def)
    show ?thesis
    proof (cases "?t = Looping \<or> ?t = Exited")
      case True
      then have no: "\<not> over ?h ?t" using places by (intro running_thread) auto
      obtain q where q: "queue ?w = Some q" by (rule queue_there [OF i no])
      show ?thesis
        using True st n retire_ipcs [OF world_invD(1) [OF i] q] free_ipcs [OF world_invD(1) [OF i] q]
        by (auto simp: to_defs)
    next
      case False
      then show ?thesis using thread_next_ipcs [of js inst ?t c c'] st n fin by simp
    qed
  qed
qed

lemma next_host:
  assumes "cycle_step P js inst (next_event c) c = Some c'" and "host_at c \<notin> {Configuring, Discarded}"
  shows "host_at c' \<notin> {Configuring, Discarded}"
  using assms by (cases "host_at c"; cases "thread_at c") (auto simp: to_defs next_event_def bind_eq_Some_conv)

text \<open>One that ran to its end, with an ipc that the host still has open.\<close>

lemma some_whole_life:
  "\<exists>c :: unit cycle. reached default_platform (\<lambda>_ _. True) 11 10 c \<and> host_at c = Destroyed \<and> thread_at c = Finished
     \<and> (\<exists>ipc. is_open (world_of c) ipc)"
proof -
  obtain w :: "unit wworld" where w: "reached default_platform (\<lambda>_ _. True) 11 10 (new_life w 0)" "torn_down w = False"
      "queue w = Some (initial_queue no_garbage no_garbage)"
    using some_life by blast
  have inst: "(10::nat) \<noteq> NULL" by (simp add: NULL_def)
  note inv = default_reached_inv [OF _ inst]
  let ?c0 = "new_life w 0"
  have wi: "ipc_ok w" "env_ok w" using inv [OF w(1)] by (simp_all add: cycle_inv_def new_life_def world_inv_def)
  have idle: "thread_state (initial_queue no_garbage no_garbage) = bare_queue_state_idle" by (simp add: initial_queue_def)
  obtain w1 where w1: "bare_ipc_create w = Some ((0, brk w), w1)"
      "ipcs w1 = (ipcs w)(brk w \<mapsto> (new_ipc w)\<lparr>ipc_port := Some Thread_port\<rparr>)"
    using create_accepted [OF _ wi(1) _ _ w(3) idle] wi(2) unfolding env_ok_def by blast
  have may1: "may (Host_ipc Ipc_create) ?c0" by (simp add: may_def new_life_def by_host_def)
  let ?c1 = "?c0\<lparr>world_of := w1\<rparr>"
  have st1: "cycle_step default_platform 11 10 (Host_ipc Ipc_create) ?c0 = Some ?c1"
    using w1(1) by (simp add: new_life_def to_defs)
  have r1: "reached default_platform (\<lambda>_ _. True) 11 10 ?c1" by (rule reached.step [OF w(1) may1 st1])
  let ?e = "Start 9 ''/app.js'' None 0 []"
  have may2: "may ?e ?c1" by (simp add: may_def new_life_def NULL_def)
  obtain c2 where st2: "cycle_step default_platform 11 10 ?e ?c1 = Some c2"
    using default.event_inv [OF inv [OF r1] may2 inst] by blast
  have r2: "reached default_platform (\<lambda>_ _. True) 11 10 c2" by (rule reached.step [OF r1 may2 st2])
  obtain s where "start_thread 9 ''/app.js'' None 0 [] w1 = Some s" by (cases "start_thread 9 ''/app.js'' None 0 [] w1") (use st2 in simp_all)
  then obtain r v where st: "start_thread 9 ''/app.js'' None 0 [] w1 = Some (r, v)" by (cases s) simp
  have "world_inv (\<lambda>_ _. True) (\<lambda>_ _. True) (\<lambda>_ _. True) Configuring Not_created w1"
    using inv [OF r1] by (simp add: cycle_inv_def new_life_def)
  moreover have "\<not> torn_down w1"
    using inv [OF r1] by (simp add: cycle_inv_def running_inv_def new_life_def)
  ultimately have "r = Inr ()"
    using default.start_inv [where t = Not_created and w = w1 and tid = 9 and src = None and n = 0 and path = "''/app.js''"
        and args = "[]"] st by (simp add: NULL_def)
  then have c2: "c2 = ?c1\<lparr>world_of := v, host_at := Starting, thread_at := Born\<rparr>"
    using st2 st by (simp add: new_life_def)
  let ?Q = "\<lambda>c :: unit cycle. host_at c \<notin> {Configuring, Discarded} \<and> ipcs (world_of c) = ipcs w1"
  have q2: "?Q c2" using c2 start_thread_ipcs [OF st] by simp
  have keep: "?Q c'" if "cycle_inv (\<lambda>_ _. True) (\<lambda>_ _. True) (\<lambda>_ _. True) c" "\<not> ended c" "?Q c"
      "cycle_step default_platform 11 10 (next_event c) c = Some c'" for c c'
    using that next_ipcs [OF that(1,2) _ that(4)] next_host [OF that(4)] by simp
  have "\<exists>es c'. length es \<le> rank c2 \<and> cycle_run default_platform 11 10 es c2 = Some c' \<and> ended c' \<and> ?Q c'"
    by (rule default.ends [OF inv [OF r2] inst]) (fact q2, rule keep)
  then obtain es c3 where c3: "cycle_run default_platform 11 10 es c2 = Some c3" "ended c3" "?Q c3"
    by blast
  have "is_open (world_of c3) (brk w)" using c3(3) w1(2) by (simp add: is_open_def)
  then show ?thesis using reached_run [OF r2 c3(1)] c3(2,3) by (auto simp: ended_def)
qed

theorem worklet_always_ends_witness:
  "\<exists>(w :: unit wworld) es c'. length es \<le> 16 \<and> cycle_run default_platform 11 10 es (new_life w 0) = Some c'
    \<and> (host_at c' = Discarded \<or> host_at c' = Destroyed \<and> thread_at c' = Finished)"
proof -
  obtain w :: "unit wworld" where w: "reached default_platform (\<lambda>_ _. True) 11 10 (new_life w 0)"
    using some_life by blast
  show ?thesis using worklet_always_ends [OF w] by (auto simp: NULL_def)
qed

section \<open>Its theorems at that life\<close>

theorem ipc_over_before_exit_witness:
  "\<exists>(c :: unit cycle) ipc. thread_at c = Finished \<and> is_open (world_of c) ipc \<and> inbound_over (world_of c) ipc
    \<and> (\<exists>w'. bare_ipc_write ipc [7] (world_of c) = Some (bare_ipc_error, w'))"
proof -
  obtain c :: "unit cycle" and ipc where c: "reached default_platform (\<lambda>_ _. True) 11 10 c"
      "thread_at c = Finished" "is_open (world_of c) ipc"
    using some_whole_life by blast
  show ?thesis using ipc_over_before_exit [OF c(1) _ _ c(3), of "[7]"] c(2,3) by (auto simp: NULL_def)
qed

theorem worklet_leaves_nothing_witness:
  "\<exists>(c :: unit cycle) ipc. worklet (world_of c) = None \<and> wstate (world_of c) = None
    \<and> queue (world_of c) \<noteq> None \<and> (\<exists>w'. bare_ipc_close ipc (world_of c) = Some w' \<and> queue w' = None)"
proof -
  obtain c :: "unit cycle" and ipc where c: "reached default_platform (\<lambda>_ _. True) 11 10 c"
      "host_at c = Destroyed" "thread_at c = Finished" "is_open (world_of c) ipc"
    using some_whole_life by blast
  show ?thesis using worklet_leaves_nothing [OF c(1)] c(2-4) by (auto simp: NULL_def)
qed

theorem teardown_outlasts_worklets_witness:
  "\<exists>c :: unit cycle. down c \<and> host_at c = Configuring \<and> running (world_of c) = 0
    \<and> (\<exists>w'. start_thread 9 ''/app.js'' None 0 [] (world_of c) = Some (Inl (-1), w'))"
proof -
  obtain w :: "unit wworld" where w: "reached default_platform (\<lambda>_ _. True) 11 10 (new_life w 0)" "running w = 0"
    using some_life by blast
  have inst: "(10::nat) \<noteq> NULL" by (simp add: NULL_def)
  note inv = default_reached_inv [OF _ inst]
  have may: "may Begin_teardown (new_life w 0)"
    using inv [OF w(1)] by (simp add: may_def new_life_def cycle_inv_def running_inv_def)
  obtain c1 where c1: "cycle_step default_platform 11 10 Begin_teardown (new_life w 0) = Some c1"
    using default.event_inv [OF inv [OF w(1)] may inst] by blast
  have r1: "reached default_platform (\<lambda>_ _. True) 11 10 c1" by (rule reached.step [OF w(1) may c1])
  have at1: "host_at c1 = Configuring" "thread_at c1 = Not_created" "tearing c1" "\<not> down c1" "others_running c1 = 0"
    using c1 by (auto simp: new_life_def)
  have may1: "may End_teardown c1"
    using inv [OF r1] at1 by (simp add: may_def cycle_inv_def running_inv_def)
  obtain c2 where c2: "cycle_step default_platform 11 10 End_teardown c1 = Some c2"
    using default.event_inv [OF inv [OF r1] may1 inst] by blast
  have at2: "host_at c2 = Configuring" "down c2" using c2 at1 by auto
  show ?thesis
    using teardown_outlasts_worklets [OF reached.step [OF r1 may1 c2], of 9 "''/app.js''" None 0 "[]"] at2
    by (auto simp: NULL_def)
qed

end
