(* ===== verification/Jvm.thy ===== *)
theory Jvm
  imports Platform
begin

text \<open>
  What \<open>src/android\<close> uses of its surroundings: the Java virtual machine through JNI, and the
  asset manager of the NDK.

  None of it is part of the program. What classes, methods, objects and assets there are is
  the environment's, in a record \<open>java\<close> that no code changes; an object is a number, of which
  0 is the null object. What JNI documents of references is a state: a reference is local,
  global or of the host, it is live until it is deleted, and an address is never handed out
  twice. A use of a reference that is not live, a second deletion, a call on a thread that is
  not attached or with an exception pending is a fault.
\<close>

section \<open>The environment\<close>

type_synonym java_object = nat

text \<open>The threads that matter: two of the host, which may be the same in fact, and the worklet's.\<close>

datatype jvm_thread = Creating_thread | Destroying_thread | Worklet_thread

datatype ref_kind = Host_ref | Local_ref | Global_ref

record java_env =
  find_class :: "string \<Rightarrow> java_object"
  class_of :: "java_object \<Rightarrow> java_object"
  method_id :: "java_object \<Rightarrow> string \<Rightarrow> string \<Rightarrow> ptr" \<comment> \<open>class, name, signature\<close>
  static_method_id :: "java_object \<Rightarrow> string \<Rightarrow> string \<Rightarrow> ptr"
  call_static :: "java_object \<Rightarrow> ptr \<Rightarrow> java_object"
  call_method :: "java_object \<Rightarrow> ptr \<Rightarrow> java_object"
  throws :: "java_object \<Rightarrow> ptr \<Rightarrow> bool"
  utf_chars :: "java_object \<Rightarrow> string"
  asset_manager :: "java_object \<Rightarrow> ptr" \<comment> \<open>\<open>AAssetManager_fromJava\<close>\<close>
  asset_bytes :: "ptr \<Rightarrow> string \<Rightarrow> byte list option" \<comment> \<open>\<open>None\<close> if there is no such asset\<close>
  asset_chunk :: "nat \<Rightarrow> nat \<Rightarrow> int" \<comment> \<open>\<open>AAsset_read\<close> at an offset with so many bytes left\<close>
  attach_code :: int
  detach_code :: int
  ref_fails :: "ptr \<Rightarrow> bool" \<comment> \<open>\<open>NewGlobalRef\<close> has no memory\<close>
  struct_fails :: "ptr \<Rightarrow> bool" \<comment> \<open>\<open>malloc\<close> of a struct has no memory\<close>

record bare_kit__resources_t =
  assets :: ptr
  manager :: ptr

record jvm_state =
  java :: java_env
  jvm :: ptr \<comment> \<open>\<open>bare_kit__jvm\<close>\<close>
  on_jvm :: "jvm_thread \<Rightarrow> bool" \<comment> \<open>the threads that are attached\<close>
  refs :: "ptr \<rightharpoonup> ref_kind \<times> java_object"
  next_ref :: ptr
  pending :: bool \<comment> \<open>an exception\<close>
  void_calls :: "(java_object \<times> ptr \<times> java_object) list" \<comment> \<open>object, method, argument\<close>
  chars_held :: nat \<comment> \<open>strings that are not released\<close>
  open_assets :: nat
  resources_at :: "ptr \<rightharpoonup> bare_kit__resources_t"
  published :: "string \<rightharpoonup> ptr" \<comment> \<open>what \<open>bare_context_set\<close> was given\<close>

definition JNI_OK :: int where
  "JNI_OK = 0"

definition JNI_EDETACHED :: int where
  "JNI_EDETACHED = -2"

definition JNI_VERSION_1_6 :: int where
  "JNI_VERSION_1_6 = 65542"

section \<open>The invocation interface\<close>

definition GetEnv :: "jvm_thread \<Rightarrow> jvm_state \<Rightarrow> int" where
  "GetEnv t a = (if on_jvm a t then JNI_OK else JNI_EDETACHED)"

definition AttachCurrentThread :: "jvm_thread \<Rightarrow> jvm_state \<Rightarrow> int \<times> jvm_state" where
  "AttachCurrentThread t a =
     (let err = attach_code (java a)
      in (err, if err = JNI_OK then a\<lparr>on_jvm := (on_jvm a)(t := True)\<rparr> else a))"

definition DetachCurrentThread :: "jvm_thread \<Rightarrow> jvm_state \<Rightarrow> int \<times> jvm_state" where
  "DetachCurrentThread t a =
     (let err = detach_code (java a)
      in (err, if err = JNI_OK then a\<lparr>on_jvm := (on_jvm a)(t := False)\<rparr> else a))"

section \<open>The native interface\<close>

text \<open>Only \<open>ExceptionCheck\<close> and the deletion of references may be called with an exception pending.\<close>

definition may_call :: "jvm_thread \<Rightarrow> jvm_state \<Rightarrow> unit option" where
  "may_call t a = c_assert (on_jvm a t \<and> \<not> pending a)"

definition object_at :: "ptr \<Rightarrow> jvm_state \<Rightarrow> java_object option" where
  "object_at r a = map_option snd (refs a r)"

definition new_local :: "java_object \<Rightarrow> jvm_state \<Rightarrow> ptr \<times> jvm_state" where
  "new_local x a =
     (if x = NULL then (NULL, a)
      else (next_ref a, a\<lparr>next_ref := Suc (next_ref a), refs := (refs a)(next_ref a \<mapsto> (Local_ref, x))\<rparr>))"

definition FindClass :: "jvm_thread \<Rightarrow> string \<Rightarrow> jvm_state \<Rightarrow> (ptr \<times> jvm_state) option" where
  "FindClass t name a = do {
     _ \<leftarrow> may_call t a;
     Some (new_local (find_class (java a) name) a)
   }"

definition GetObjectClass :: "jvm_thread \<Rightarrow> ptr \<Rightarrow> jvm_state \<Rightarrow> (ptr \<times> jvm_state) option" where
  "GetObjectClass t r a = do {
     _ \<leftarrow> may_call t a;
     x \<leftarrow> object_at r a;
     Some (new_local (class_of (java a) x) a)
   }"

definition GetMethodID :: "jvm_thread \<Rightarrow> ptr \<Rightarrow> string \<Rightarrow> string \<Rightarrow> jvm_state \<Rightarrow> ptr option" where
  "GetMethodID t cls name sig a = do {
     _ \<leftarrow> may_call t a;
     x \<leftarrow> object_at cls a;
     Some (method_id (java a) x name sig)
   }"

definition GetStaticMethodID :: "jvm_thread \<Rightarrow> ptr \<Rightarrow> string \<Rightarrow> string \<Rightarrow> jvm_state \<Rightarrow> ptr option" where
  "GetStaticMethodID t cls name sig a = do {
     _ \<leftarrow> may_call t a;
     x \<leftarrow> object_at cls a;
     Some (static_method_id (java a) x name sig)
   }"

definition thrown_in :: "bool \<Rightarrow> jvm_state \<Rightarrow> jvm_state" where
  "thrown_in b a = (if b then a\<lparr>pending := True\<rparr> else a)"

text \<open>The result of a method that throws is the null object.\<close>

definition CallStaticObjectMethod :: "jvm_thread \<Rightarrow> ptr \<Rightarrow> ptr \<Rightarrow> jvm_state \<Rightarrow> (ptr \<times> jvm_state) option" where
  "CallStaticObjectMethod t cls m a = do {
     _ \<leftarrow> may_call t a;
     x \<leftarrow> object_at cls a;
     let thrown = throws (java a) x m;
     Some (new_local (if thrown then NULL else call_static (java a) x m) (thrown_in thrown a))
   }"

definition CallObjectMethod :: "jvm_thread \<Rightarrow> ptr \<Rightarrow> ptr \<Rightarrow> jvm_state \<Rightarrow> (ptr \<times> jvm_state) option" where
  "CallObjectMethod t r m a = do {
     _ \<leftarrow> may_call t a;
     x \<leftarrow> object_at r a;
     let thrown = throws (java a) x m;
     Some (new_local (if thrown then NULL else call_method (java a) x m) (thrown_in thrown a))
   }"

definition CallVoidMethod :: "jvm_thread \<Rightarrow> ptr \<Rightarrow> ptr \<Rightarrow> ptr \<Rightarrow> jvm_state \<Rightarrow> jvm_state option" where
  "CallVoidMethod t r m arg a = do {
     _ \<leftarrow> may_call t a;
     x \<leftarrow> object_at r a;
     y \<leftarrow> object_at arg a;
     Some (thrown_in (throws (java a) x m) (a\<lparr>void_calls := void_calls a @ [(x, m, y)]\<rparr>))
   }"

definition DeleteLocalRef :: "jvm_thread \<Rightarrow> ptr \<Rightarrow> jvm_state \<Rightarrow> jvm_state option" where
  "DeleteLocalRef t r a = do {
     _ \<leftarrow> c_assert (on_jvm a t);
     (k, x) \<leftarrow> refs a r;
     _ \<leftarrow> c_assert (k = Local_ref);
     Some (a\<lparr>refs := (refs a)(r := None)\<rparr>)
   }"

definition NewGlobalRef :: "jvm_thread \<Rightarrow> ptr \<Rightarrow> jvm_state \<Rightarrow> (ptr \<times> jvm_state) option" where
  "NewGlobalRef t r a = do {
     _ \<leftarrow> may_call t a;
     x \<leftarrow> object_at r a;
     let g = next_ref a;
     Some (if ref_fails (java a) g then (NULL, a\<lparr>next_ref := Suc g\<rparr>)
       else (g, a\<lparr>next_ref := Suc g, refs := (refs a)(g \<mapsto> (Global_ref, x))\<rparr>))
   }"

definition DeleteGlobalRef :: "jvm_thread \<Rightarrow> ptr \<Rightarrow> jvm_state \<Rightarrow> jvm_state option" where
  "DeleteGlobalRef t r a = do {
     _ \<leftarrow> c_assert (on_jvm a t);
     if r = NULL then Some a
     else do {
       (k, x) \<leftarrow> refs a r;
       _ \<leftarrow> c_assert (k = Global_ref);
       Some (a\<lparr>refs := (refs a)(r := None)\<rparr>)
     }
   }"

definition GetStringUTFChars :: "jvm_thread \<Rightarrow> ptr \<Rightarrow> jvm_state \<Rightarrow> (string \<times> jvm_state) option" where
  "GetStringUTFChars t r a = do {
     _ \<leftarrow> may_call t a;
     x \<leftarrow> object_at r a;
     Some (utf_chars (java a) x, a\<lparr>chars_held := Suc (chars_held a)\<rparr>)
   }"

definition ReleaseStringUTFChars :: "jvm_thread \<Rightarrow> ptr \<Rightarrow> jvm_state \<Rightarrow> jvm_state option" where
  "ReleaseStringUTFChars t r a = do {
     _ \<leftarrow> c_assert (on_jvm a t \<and> 0 < chars_held a);
     _ \<leftarrow> object_at r a;
     Some (a\<lparr>chars_held := chars_held a - 1\<rparr>)
   }"

lemmas jni_defs = may_call_def thrown_in_def object_at_def new_local_def FindClass_def GetObjectClass_def
  GetMethodID_def GetStaticMethodID_def CallStaticObjectMethod_def CallObjectMethod_def
  CallVoidMethod_def DeleteLocalRef_def NewGlobalRef_def DeleteGlobalRef_def
  GetStringUTFChars_def ReleaseStringUTFChars_def

lemmas invocation_defs = GetEnv_def AttachCurrentThread_def DetachCurrentThread_def JNI_OK_def JNI_EDETACHED_def

section \<open>References\<close>

text \<open>No live reference is null or yet to be handed out.\<close>

definition refs_ok :: "jvm_state \<Rightarrow> bool" where
  "refs_ok a \<longleftrightarrow> 0 < next_ref a \<and> (\<forall>r. 0 < r \<and> r < next_ref a
     \<or> refs a r = None \<and> resources_at a r = None)"

lemma refs_ok_fresh:
  assumes "refs_ok a" and "next_ref a \<le> r"
  shows "refs a r = None" and "resources_at a r = None"
  using assms unfolding refs_ok_def by (meson leD)+

lemma refs_ok_NULL:
  assumes "refs_ok a"
  shows "refs a NULL = None" and "resources_at a NULL = None"
  using assms unfolding refs_ok_def NULL_def by (meson less_irrefl)+

text \<open>Runs a program from its head: what follows a step is not looked at before the step is done.\<close>

lemma bind_step_cong: "x = y \<Longrightarrow> Option.bind x f = Option.bind y f"
  by simp

lemma fun_upd_idle: "f x = y \<Longrightarrow> f(x := y) = f"
  by (rule ext) auto

end
