(* ===== verification/Platform_Android.thy ===== *)
theory Platform_Android
  imports Jvm
begin

text \<open>
  The platform on Android (\<open>src/android/platform.c\<close>): the thread of a worklet is attached to
  the virtual machine for as long as it runs, and the application context that the host gives
  is held by global references. The resources of the application (\<open>src/android/resources.c\<close>)
  are read through its asset manager.
\<close>

section \<open>Threads\<close>

definition JNI_OnLoad :: "ptr \<Rightarrow> jvm_state \<Rightarrow> int \<times> jvm_state" where
  "JNI_OnLoad vm a = (JNI_VERSION_1_6, a\<lparr>jvm := vm\<rparr>)"

definition bare_kit__set_context_class_loader :: "jvm_thread \<Rightarrow> jvm_state \<Rightarrow> jvm_state option" where
  "bare_kit__set_context_class_loader t a = do {
     (thread_class, a) \<leftarrow> FindClass t ''java/lang/Thread'' a;
     _ \<leftarrow> c_assert (thread_class \<noteq> NULL);
     current_thread \<leftarrow> GetStaticMethodID t thread_class ''currentThread'' ''()Ljava/lang/Thread;'' a;
     _ \<leftarrow> c_assert (current_thread \<noteq> NULL);
     (thread, a) \<leftarrow> CallStaticObjectMethod t thread_class current_thread a;
     _ \<leftarrow> c_assert (thread \<noteq> NULL);
     _ \<leftarrow> c_assert (\<not> pending a);
     (activity_thread_class, a) \<leftarrow> FindClass t ''android/app/ActivityThread'' a;
     _ \<leftarrow> c_assert (activity_thread_class \<noteq> NULL);
     current_application \<leftarrow> GetStaticMethodID t activity_thread_class ''currentApplication''
       ''()Landroid/app/Application;'' a;
     _ \<leftarrow> c_assert (current_application \<noteq> NULL);
     (app, a) \<leftarrow> CallStaticObjectMethod t activity_thread_class current_application a;
     _ \<leftarrow> c_assert (app \<noteq> NULL);
     _ \<leftarrow> c_assert (\<not> pending a);
     (application_class, a) \<leftarrow> GetObjectClass t app a;
     _ \<leftarrow> c_assert (application_class \<noteq> NULL);
     get_class_loader \<leftarrow> GetMethodID t application_class ''getClassLoader'' ''()Ljava/lang/ClassLoader;'' a;
     _ \<leftarrow> c_assert (get_class_loader \<noteq> NULL);
     (class_loader, a) \<leftarrow> CallObjectMethod t app get_class_loader a;
     _ \<leftarrow> c_assert (class_loader \<noteq> NULL);
     _ \<leftarrow> c_assert (\<not> pending a);
     set_context_class_loader \<leftarrow> GetMethodID t thread_class ''setContextClassLoader''
       ''(Ljava/lang/ClassLoader;)V'' a;
     _ \<leftarrow> c_assert (set_context_class_loader \<noteq> NULL);
     a \<leftarrow> CallVoidMethod t thread set_context_class_loader class_loader a;
     _ \<leftarrow> c_assert (\<not> pending a);
     a \<leftarrow> DeleteLocalRef t class_loader a;
     a \<leftarrow> DeleteLocalRef t application_class a;
     a \<leftarrow> DeleteLocalRef t app a;
     a \<leftarrow> DeleteLocalRef t activity_thread_class a;
     a \<leftarrow> DeleteLocalRef t thread a;
     DeleteLocalRef t thread_class a
   }"

definition android_thread_enter :: "jvm_state \<Rightarrow> jvm_state option" where
  "android_thread_enter a = do {
     _ \<leftarrow> c_assert (jvm a \<noteq> NULL);
     _ \<leftarrow> c_assert (GetEnv Worklet_thread a = JNI_EDETACHED);
     let (err, a) = AttachCurrentThread Worklet_thread a;
     _ \<leftarrow> c_assert (err = JNI_OK);
     bare_kit__set_context_class_loader Worklet_thread a
   }"

definition android_thread_exit :: "jvm_state \<Rightarrow> jvm_state option" where
  "android_thread_exit a = do {
     _ \<leftarrow> c_assert (jvm a \<noteq> NULL);
     _ \<leftarrow> c_assert (GetEnv Worklet_thread a = JNI_OK);
     let (err, a) = DetachCurrentThread Worklet_thread a;
     _ \<leftarrow> c_assert (err = JNI_OK);
     Some a
   }"

text \<open>The environment of a thread, for which it has to be attached.\<close>

definition bare_kit__get_env :: "jvm_thread \<Rightarrow> jvm_state \<Rightarrow> unit option" where
  "bare_kit__get_env t a = do {
     _ \<leftarrow> c_assert (jvm a \<noteq> NULL);
     c_assert (GetEnv t a = JNI_OK)
   }"

section \<open>The context\<close>

definition android_retain_context :: "bare_worklet_options_t \<Rightarrow> bare_worklet_options_t \<Rightarrow> jvm_state
    \<Rightarrow> (bare_worklet_options_t \<times> jvm_state) option" where
  "android_retain_context result opts a = do {
     let a = (if android_jvm opts \<noteq> NULL then a\<lparr>jvm := android_jvm opts\<rparr> else a);
     if android_context opts = NULL then Some (result, a)
     else do {
       _ \<leftarrow> c_assert (jvm a \<noteq> NULL);
       _ \<leftarrow> c_assert (GetEnv Creating_thread a = JNI_OK);
       (ref, a) \<leftarrow> NewGlobalRef Creating_thread (android_context opts) a;
       Some (result\<lparr>android_context := ref\<rparr>, a)
     }
   }"

definition android_release_context :: "bare_worklet_options_t \<Rightarrow> jvm_state \<Rightarrow> jvm_state option" where
  "android_release_context opts a =
     (if android_context opts = NULL then Some a
      else do {
        _ \<leftarrow> c_assert (jvm a \<noteq> NULL);
        let err = GetEnv Destroying_thread a;
        let attached = (err = JNI_EDETACHED);
        let (err, a) = (if attached then AttachCurrentThread Destroying_thread a else (err, a));
        _ \<leftarrow> c_assert (err = JNI_OK);
        a \<leftarrow> DeleteGlobalRef Destroying_thread (android_context opts) a;
        if attached then do {
          let (err, a) = DetachCurrentThread Destroying_thread a;
          _ \<leftarrow> c_assert (err = JNI_OK);
          Some a
        } else Some a
      })"

text \<open>Bare calls it with the value that was published, when the Bare instance is torn down.\<close>

definition bare_kit__on_context_destroy :: "ptr \<Rightarrow> jvm_state \<Rightarrow> jvm_state option" where
  "bare_kit__on_context_destroy value a = do {
     _ \<leftarrow> c_assert (jvm a \<noteq> NULL);
     _ \<leftarrow> c_assert (GetEnv Worklet_thread a = JNI_OK);
     DeleteGlobalRef Worklet_thread value a
   }"

definition bare_context_set :: "string \<Rightarrow> ptr \<Rightarrow> jvm_state wworld \<Rightarrow> jvm_state wworld option" where
  "bare_context_set key value w = do {
     w \<leftarrow> emit_ok (Bare (Bare_context_set key)) w;
     Some (w\<lparr>native := (native w)\<lparr>published := (published (native w))(key \<mapsto> value)\<rparr>\<rparr>)
   }"

definition android_publish_context ::
  "ptr \<Rightarrow> bare_worklet_options_t \<Rightarrow> jvm_state wworld \<Rightarrow> jvm_state wworld option" where
  "android_publish_context b opts w = do {
     _ \<leftarrow> c_assert (jvm (native w) \<noteq> NULL);
     w \<leftarrow> bare_context_set ''bare.android.jvm.v1'' (jvm (native w)) w;
     if android_context opts \<noteq> NULL then do {
       _ \<leftarrow> c_assert (GetEnv Worklet_thread (native w) = JNI_OK);
       (ref, a) \<leftarrow> NewGlobalRef Worklet_thread (android_context opts) (native w);
       bare_context_set ''bare.android.context.v1'' ref (w\<lparr>native := a\<rparr>)
     } else Some w
   }"

section \<open>What they come to\<close>

text \<open>The classes and methods that the class loader of a thread is set with are there, and work.\<close>

definition has_loader :: "java_env \<Rightarrow> bool" where
  "has_loader j \<longleftrightarrow> (let tc = find_class j ''java/lang/Thread'';
       ct = static_method_id j tc ''currentThread'' ''()Ljava/lang/Thread;'';
       th = call_static j tc ct;
       ac = find_class j ''android/app/ActivityThread'';
       ca = static_method_id j ac ''currentApplication'' ''()Landroid/app/Application;'';
       app = call_static j ac ca;
       apc = class_of j app;
       gl = method_id j apc ''getClassLoader'' ''()Ljava/lang/ClassLoader;'';
       cl = call_method j app gl;
       sl = method_id j tc ''setContextClassLoader'' ''(Ljava/lang/ClassLoader;)V''
     in NULL \<notin> {tc, ct, th, ac, ca, app, apc, gl, cl, sl}
       \<and> \<not> throws j tc ct \<and> \<not> throws j ac ca \<and> \<not> throws j app gl \<and> \<not> throws j th sl)"

text \<open>The call that sets the class loader: the thread, the method, the loader of the application.\<close>

definition loader_call :: "java_env \<Rightarrow> java_object \<times> ptr \<times> java_object" where
  "loader_call j = (let tc = find_class j ''java/lang/Thread'';
       ac = find_class j ''android/app/ActivityThread'';
       app = call_static j ac (static_method_id j ac ''currentApplication'' ''()Landroid/app/Application;'')
     in (call_static j tc (static_method_id j tc ''currentThread'' ''()Ljava/lang/Thread;''),
         method_id j tc ''setContextClassLoader'' ''(Ljava/lang/ClassLoader;)V'',
         call_method j app (method_id j (class_of j app) ''getClassLoader'' ''()Ljava/lang/ClassLoader;'')))"

lemma set_loader_eq:
  assumes "has_loader (java a)" and "on_jvm a t" and "\<not> pending a" and "refs_ok a"
  shows "bare_kit__set_context_class_loader t a = Some (a\<lparr>next_ref := Suc (Suc (Suc (Suc (Suc (Suc (next_ref a)))))),
    void_calls := void_calls a @ [loader_call (java a)]\<rparr>)"
proof -
  define j where "j = java a"
  define tc where "tc = find_class j ''java/lang/Thread''"
  define ct where "ct = static_method_id j tc ''currentThread'' ''()Ljava/lang/Thread;''"
  define th where "th = call_static j tc ct"
  define ac where "ac = find_class j ''android/app/ActivityThread''"
  define ca where "ca = static_method_id j ac ''currentApplication'' ''()Landroid/app/Application;''"
  define app where "app = call_static j ac ca"
  define apc where "apc = class_of j app"
  define gl where "gl = method_id j apc ''getClassLoader'' ''()Ljava/lang/ClassLoader;''"
  define cl where "cl = call_method j app gl"
  define sl where "sl = method_id j tc ''setContextClassLoader'' ''(Ljava/lang/ClassLoader;)V''"
  note e = tc_def [symmetric] ct_def [symmetric] th_def [symmetric] ac_def [symmetric] ca_def [symmetric]
    app_def [symmetric] apc_def [symmetric] gl_def [symmetric] cl_def [symmetric] sl_def [symmetric]
  have j: "NULL \<notin> {tc, ct, th, ac, ca, app, apc, gl, cl, sl}" "\<not> throws j tc ct" "\<not> throws j ac ca"
      "\<not> throws j app gl" "\<not> throws j th sl"
    using assms(1) unfolding has_loader_def Let_def j_def [symmetric] e by blast+
  have c: "loader_call j = (th, sl, cl)"
    unfolding loader_call_def Let_def e by simp
  have n: "refs a r = None" if "next_ref a \<le> r" for r using refs_ok_fresh [OF assms(4) that] by simp
  have p: "0 < next_ref a" using assms(4) by (simp add: refs_ok_def)
  have "java a = j" "pending a = False" using assms(3) by (simp_all add: j_def)
  then show ?thesis
    using assms(2) p j c
    unfolding bare_kit__set_context_class_loader_def
    by (simp add: jni_defs e n fun_upd_idle NULL_def cong: bind_step_cong)
qed

text \<open>
  What the platform relies on between its operations. The machine attaches and detaches
  threads, there is memory for references, and what the host may hand over as the application
  context is one: it has the methods that the resources are found by, and they work.
\<close>

definition is_context :: "java_env \<Rightarrow> java_object \<Rightarrow> bool" where
  "is_context j x \<longleftrightarrow> (let c = class_of j x;
       gd = method_id j c ''getCodeCacheDir'' ''()Ljava/io/File;'';
       ga = method_id j c ''getAssets'' ''()Landroid/content/res/AssetManager;'';
       dir = call_method j x gd;
       fc = class_of j dir;
       gp = method_id j fc ''getPath'' ''()Ljava/lang/String;'';
       path = call_method j dir gp;
       as = call_method j x ga
     in NULL \<notin> {c, gd, ga, dir, fc, gp, path, as}
       \<and> \<not> throws j x gd \<and> \<not> throws j dir gp \<and> \<not> throws j x ga)"

definition java_ok :: "java_env \<Rightarrow> bool" where
  "java_ok j \<longleftrightarrow> has_loader j \<and> attach_code j = JNI_OK \<and> detach_code j = JNI_OK
     \<and> (\<forall>r. \<not> ref_fails j r \<and> \<not> struct_fails j r)"

definition jvm_ready :: "bool \<Rightarrow> jvm_state \<Rightarrow> bool" where
  "jvm_ready b a \<longleftrightarrow> jvm a \<noteq> NULL \<and> on_jvm a Worklet_thread = b \<and> \<not> pending a \<and> refs_ok a
     \<and> java_ok (java a) \<and> (\<forall>r x. refs a r = Some (Host_ref, x) \<longrightarrow> is_context (java a) x)
     \<and> (\<forall>r x. refs a r \<noteq> Some (Local_ref, x))"

text \<open>The context of the options, if there is one, is a global reference to one.\<close>

definition context_held :: "bare_worklet_options_t \<Rightarrow> jvm_state \<Rightarrow> bool" where
  "context_held opts a \<longleftrightarrow> (android_context opts \<noteq> NULL \<longrightarrow>
     (\<exists>x. refs a (android_context opts) = Some (Global_ref, x) \<and> is_context (java a) x))"

lemma refs_ok_simps [simp]:
  "refs_ok (a\<lparr>on_jvm := f\<rparr>) = refs_ok a" "refs_ok (a\<lparr>void_calls := vs\<rparr>) = refs_ok a"
  "refs_ok (a\<lparr>jvm := vm\<rparr>) = refs_ok a" "refs_ok (a\<lparr>published := ps\<rparr>) = refs_ok a"
  "refs_ok (a\<lparr>chars_held := n\<rparr>) = refs_ok a"
  by (simp_all add: refs_ok_def)

lemma refs_ok_later: "refs_ok a \<Longrightarrow> next_ref a \<le> n \<Longrightarrow> refs_ok (a\<lparr>next_ref := n\<rparr>)"
  unfolding refs_ok_def by (simp, meson less_le_trans)

lemma refs_ok_new: "refs_ok a \<Longrightarrow> next_ref a \<le> g \<Longrightarrow> g < n \<Longrightarrow> refs_ok (a\<lparr>next_ref := n, refs := (refs a)(g \<mapsto> y)\<rparr>)"
  unfolding refs_ok_def by (simp, meson le_less_trans less_le_trans less_trans)

lemma refs_ok_delete: "refs_ok a \<Longrightarrow> refs_ok (a\<lparr>refs := (refs a)(r := None)\<rparr>)"
  unfolding refs_ok_def by auto

lemma thread_enter_spec:
  assumes "jvm_ready False a"
  shows "\<exists>a'. android_thread_enter a = Some a' \<and> jvm_ready True a' \<and> carried context_held a a'
    \<and> refs a' = refs a \<and> resources_at a' = resources_at a
    \<and> on_jvm a' = (on_jvm a)(Worklet_thread := True)
    \<and> void_calls a' = void_calls a @ [loader_call (java a)]"
proof -
  let ?a = "a\<lparr>on_jvm := (on_jvm a)(Worklet_thread := True)\<rparr>"
  have r: "jvm a \<noteq> NULL" "\<not> on_jvm a Worklet_thread" "attach_code (java a) = JNI_OK" "refs_ok a"
    using assms by (simp_all add: jvm_ready_def java_ok_def)
  have l: "bare_kit__set_context_class_loader Worklet_thread ?a
      = Some (?a\<lparr>next_ref := Suc (Suc (Suc (Suc (Suc (Suc (next_ref ?a)))))),
          void_calls := void_calls ?a @ [loader_call (java ?a)]\<rparr>)"
    by (rule set_loader_eq) (use assms in \<open>simp_all add: jvm_ready_def java_ok_def\<close>)
  have "refs_ok (?a\<lparr>next_ref := Suc (Suc (Suc (Suc (Suc (Suc (next_ref ?a))))))\<rparr>)"
    by (rule refs_ok_later) (use r(4) in simp_all)
  then have ok: "refs_ok (?a\<lparr>next_ref := Suc (Suc (Suc (Suc (Suc (Suc (next_ref a)))))),
      void_calls := vs\<rparr>)" for vs by (simp add: refs_ok_def)
  show ?thesis
    using assms r l ok
    by (simp add: android_thread_enter_def invocation_defs jvm_ready_def carried_def context_held_def)
qed

lemma thread_exit_spec:
  assumes "jvm_ready True a"
  shows "\<exists>a'. android_thread_exit a = Some a' \<and> jvm_ready False a' \<and> carried context_held a a'
    \<and> refs a' = refs a \<and> resources_at a' = resources_at a
    \<and> on_jvm a' = (on_jvm a)(Worklet_thread := False) \<and> void_calls a' = void_calls a"
  using assms
  by (simp add: android_thread_exit_def invocation_defs jvm_ready_def java_ok_def carried_def context_held_def)

text \<open>
  The host hands over a reference of its own, on a thread that is attached. The worklet holds
  the context by a global reference and does not use the host's after that.
\<close>

definition context_offered :: "bare_worklet_options_t \<Rightarrow> jvm_state \<Rightarrow> bool" where
  "context_offered opts a \<longleftrightarrow> (android_context opts \<noteq> NULL \<longrightarrow>
     on_jvm a Creating_thread \<and> (\<exists>x. refs a (android_context opts) = Some (Host_ref, x)))"

definition with_global :: "java_object \<Rightarrow> jvm_state \<Rightarrow> jvm_state" where
  "with_global x a = a\<lparr>next_ref := Suc (next_ref a), refs := (refs a)(next_ref a \<mapsto> (Global_ref, x))\<rparr>"

lemma with_global_simps [simp]:
  "refs (with_global x a) = (refs a)(next_ref a \<mapsto> (Global_ref, x))" "next_ref (with_global x a) = Suc (next_ref a)"
  "java (with_global x a) = java a" "jvm (with_global x a) = jvm a" "on_jvm (with_global x a) = on_jvm a"
  "pending (with_global x a) = pending a" "resources_at (with_global x a) = resources_at a"
  "published (with_global x a) = published a" "void_calls (with_global x a) = void_calls a"
  "chars_held (with_global x a) = chars_held a" "open_assets (with_global x a) = open_assets a"
  by (simp_all add: with_global_def)

lemma NewGlobalRef_eq:
  assumes "java_ok (java a)" and "on_jvm a t" and "\<not> pending a" and "refs a r = Some (k, x)"
  shows "NewGlobalRef t r a = Some (next_ref a, with_global x a)"
  using assms by (simp add: NewGlobalRef_def may_call_def object_at_def java_ok_def with_global_def Let_def)

lemma fresh_ref: "refs_ok a \<Longrightarrow> refs a r = Some y \<Longrightarrow> r \<noteq> NULL \<and> r \<noteq> next_ref a"
  using refs_ok_NULL(1) [of a] refs_ok_fresh(1) [of a "next_ref a"] by auto

lemma ready_with_global:
  assumes "jvm_ready b a"
  shows "jvm_ready b (with_global x a)"
  using assms refs_ok_new [of a "next_ref a" "Suc (next_ref a)"] by (simp add: jvm_ready_def with_global_def)

lemma next_ref_pos: "refs_ok a \<Longrightarrow> next_ref a \<noteq> NULL"
  by (simp add: refs_ok_def NULL_def)

lemma retain_spec:
  assumes r: "jvm_ready b a" and o: "context_offered opts0 a" and h: "context_held opts a"
  shows "\<exists>opts' a'. android_retain_context opts opts0 a = Some (opts', a') \<and> jvm_ready b a' \<and> context_held opts' a'
    \<and> opts' = (if android_context opts0 = NULL then opts else opts\<lparr>android_context := next_ref a\<rparr>)
    \<and> a' = (let a = (if android_jvm opts0 \<noteq> NULL then a\<lparr>jvm := android_jvm opts0\<rparr> else a)
        in if android_context opts0 = NULL then a else with_global (snd (the (refs a (android_context opts0)))) a)"
proof -
  let ?a = "if android_jvm opts0 \<noteq> NULL then a\<lparr>jvm := android_jvm opts0\<rparr> else a"
  have ra: "jvm_ready b ?a" "refs ?a = refs a" "next_ref ?a = next_ref a" "java ?a = java a" "on_jvm ?a = on_jvm a"
    using r by (simp_all add: jvm_ready_def)
  show ?thesis
  proof (cases "android_context opts0 = NULL")
    case True
    have "context_held opts ?a" using h by (simp add: context_held_def)
    then show ?thesis using True ra(1) by (simp add: android_retain_context_def Let_def)
  next
    case False
    then obtain x where x: "on_jvm a Creating_thread" "refs a (android_context opts0) = Some (Host_ref, x)"
      using o by (auto simp: context_offered_def)
    have "NewGlobalRef Creating_thread (android_context opts0) ?a = Some (next_ref ?a, with_global x ?a)"
      by (rule NewGlobalRef_eq) (use ra x in \<open>simp_all add: jvm_ready_def\<close>)
    moreover have "is_context (java a) x" using r x(2) unfolding jvm_ready_def by blast
    moreover have "jvm ?a \<noteq> NULL" using ra(1) by (simp add: jvm_ready_def)
    ultimately show ?thesis
      using False x ra ready_with_global [OF ra(1), of x]
      by (simp add: android_retain_context_def invocation_defs context_held_def Let_def split del: if_split)
  qed
qed

text \<open>
  The release deletes the global reference, on a thread that it attaches for as long as that
  takes if it has to.
\<close>

lemma release_spec:
  assumes r: "jvm_ready b a" and h: "context_held opts a"
  shows "\<exists>a'. android_release_context opts a = Some a' \<and> jvm_ready b a' \<and> on_jvm a' = on_jvm a
    \<and> refs a' = (if android_context opts = NULL then refs a else (refs a)(android_context opts := None))
    \<and> resources_at a' = resources_at a \<and> published a' = published a"
proof (cases "android_context opts = NULL")
  case True
  then show ?thesis using r by (simp add: android_release_context_def)
next
  case False
  then obtain x where x: "refs a (android_context opts) = Some (Global_ref, x)"
    using h by (auto simp: context_held_def)
  have "refs_ok a" using r by (simp add: jvm_ready_def)
  then have "refs_ok (a\<lparr>on_jvm := f, refs := (refs a)(r := None)\<rparr>)" "refs_ok (a\<lparr>refs := (refs a)(r := None)\<rparr>)" for f r
    using refs_ok_delete [of "a\<lparr>on_jvm := f\<rparr>" r] refs_ok_delete [of a r] by simp_all
  then show ?thesis
    using False x r
    by (simp add: android_release_context_def invocation_defs DeleteGlobalRef_def jvm_ready_def java_ok_def Let_def
        fun_upd_idle)
qed

text \<open>What is published of the context is a global reference of its own, which Bare gives back.\<close>

lemma publish_spec:
  assumes r: "jvm_ready True (native w)" and c: "calls_ok w" and h: "context_held opts (native w)"
  shows "\<exists>w'. android_publish_context b opts w = Some w' \<and> native_only w w' \<and> jvm_ready True (native w')
    \<and> carried context_held (native w) (native w') \<and> on_jvm (native w') = on_jvm (native w)
    \<and> resources_at (native w') = resources_at (native w)
    \<and> published (native w') ''bare.android.jvm.v1'' = Some (jvm (native w))
    \<and> (if android_context opts = NULL then refs (native w') = refs (native w)
       else \<exists>g x. published (native w') ''bare.android.context.v1'' = Some g \<and> g \<noteq> NULL \<and> g \<noteq> android_context opts
         \<and> refs (native w) g = None \<and> refs (native w') = (refs (native w))(g \<mapsto> (Global_ref, x)))"
proof -
  let ?a = "native w"
  let ?a1 = "?a\<lparr>published := (published ?a)(''bare.android.jvm.v1'' \<mapsto> jvm ?a)\<rparr>"
  let ?w1 = "(emit (Bare (Bare_context_set ''bare.android.jvm.v1'')) w)\<lparr>native := ?a1\<rparr>"
  have ra: "jvm ?a \<noteq> NULL" "on_jvm ?a Worklet_thread" "refs_ok ?a" using r by (simp_all add: jvm_ready_def)
  have r1: "jvm_ready True ?a1" using r by (simp add: jvm_ready_def)
  have s1: "bare_context_set ''bare.android.jvm.v1'' (jvm ?a) w = Some ?w1"
    using c by (simp add: bare_context_set_def emit_ok_calls)
  have n1: "native_only w ?w1" by (intro native_only_native native_only_emit) simp
  have k1: "carried context_held ?a ?a1" by (simp add: carried_def context_held_def)
  show ?thesis
  proof (cases "android_context opts = NULL")
    case True
    then have "android_publish_context b opts w = Some ?w1"
      using ra s1 by (simp add: android_publish_context_def)
    then show ?thesis using True n1 r1 k1 by (intro exI [of _ ?w1]) simp
  next
    case False
    then obtain x where x: "refs ?a (android_context opts) = Some (Global_ref, x)"
      using h by (auto simp: context_held_def)
    let ?a2 = "with_global x ?a1"
    let ?a3 = "?a2\<lparr>published := (published ?a2)(''bare.android.context.v1'' \<mapsto> next_ref ?a)\<rparr>"
    let ?w2 = "(emit (Bare (Bare_context_set ''bare.android.context.v1'')) (?w1\<lparr>native := ?a2\<rparr>))\<lparr>native := ?a3\<rparr>"
    have "NewGlobalRef Worklet_thread (android_context opts) ?a1 = Some (next_ref ?a1, ?a2)"
      by (rule NewGlobalRef_eq) (use r1 ra x in \<open>simp_all add: jvm_ready_def\<close>)
    moreover have "bare_context_set ''bare.android.context.v1'' (next_ref ?a) (?w1\<lparr>native := ?a2\<rparr>) = Some ?w2"
      using c by (simp add: bare_context_set_def emit_ok_calls)
    ultimately have s2: "android_publish_context b opts w = Some ?w2"
      using False ra s1 by (simp add: android_publish_context_def GetEnv_def)
    have "native_only w ?w2" by (intro native_only_native native_only_emit) (use n1 in simp)
    moreover have "jvm_ready True ?a3" using ready_with_global [OF r1, of x] by (simp add: jvm_ready_def)
    moreover have "carried context_held ?a ?a3"
      using ra(3) by (auto simp: carried_def context_held_def dest: fresh_ref)
    moreover have "next_ref ?a \<noteq> NULL" "next_ref ?a \<noteq> android_context opts" "refs ?a (next_ref ?a) = None"
      using next_ref_pos [OF ra(3)] fresh_ref [OF ra(3) x] refs_ok_fresh(1) [OF ra(3), of "next_ref ?a"] by auto
    ultimately show ?thesis using False s2 by (intro exI [of _ ?w2]) auto
  qed
qed

section \<open>The worlds\<close>

text \<open>Run on the platform's part of a world.\<close>

definition on_native :: "('p \<Rightarrow> 'p option) \<Rightarrow> 'p wworld \<Rightarrow> 'p wworld option" where
  "on_native f w = map_option (\<lambda>n. w\<lparr>native := n\<rparr>) (f (native w))"

end
