(* ===== verification/Resources_Android.thy ===== *)
theory Resources_Android
  imports Platform_Android
begin

text \<open>
  The resources of an application on Android (\<open>src/android/resources.c\<close>): the directory that
  they are extracted to, and a function that reads them from the asset manager. With them the
  platform is complete, and meets the laws of \<open>worklet_platform\<close>.
\<close>

section \<open>Reading a resource\<close>

text \<open>
  The loop that fills the array buffer: \<open>AAsset_read\<close> gives between 1 and \<open>length - read\<close> bytes,
  or the assertion fails; more than was asked for would be a write past the end of the buffer.
\<close>

function read_asset :: "java_env \<Rightarrow> byte list \<Rightarrow> nat \<Rightarrow> byte list \<Rightarrow> byte list option" where
  "read_asset j asset read data =
     (if read < length asset
      then (let n = asset_chunk j read (length asset - read)
            in if 0 < n \<and> n \<le> int (length asset - read)
               then read_asset j asset (read + nat n)
                      (take read data @ take (nat n) (drop read asset) @ drop (read + nat n) data)
               else None)
      else Some data)"
  by pat_completeness auto

termination
  by (relation "measure (\<lambda>(j, asset, read, data). length asset - read)") auto

declare read_asset.simps [simp del]

text \<open>
  The value of a string that JavaScript gives is copied to a buffer of its own, whose allocation
  is not checked. What \<open>AAssetManager_open\<close> reads there ends at the first zero byte.
\<close>

definition c_string :: "string \<Rightarrow> string" where
  "c_string s = takeWhile (\<lambda>c. c \<noteq> CHR 0x00) s"

definition bare_kit__on_read_resource ::
  "ptr \<Rightarrow> js_value_t list \<Rightarrow> jvm_state wworld \<Rightarrow> (js_value_t \<times> jvm_state wworld) option" where
  "bare_kit__on_read_resource resources args w = do {
     w \<leftarrow> emit_ok (Js Js_get_callback_info) w;
     _ \<leftarrow> c_assert (length args = 1);
     string \<leftarrow> (case hd args of Js_string string \<Rightarrow> Some string | _ \<Rightarrow> None);
     w \<leftarrow> emit_ok (Js Js_get_value_string) w;
     let len = length string;
     let (name, w) = malloc (len + 1) w;
     w \<leftarrow> emit_ok (Js Js_get_value_string) w;
     w \<leftarrow> memcpy name (map of_char string @ [0]) w;
     r \<leftarrow> resources_at (native w) resources;
     let asset = asset_bytes (java (native w)) (manager r) (c_string string);
     w \<leftarrow> free_block name w;
     (case asset of
        None \<Rightarrow> do {
          w \<leftarrow> emit_ok (Js (Js_create_value Js_null)) w;
          Some (Js_null, w)
        }
      | Some asset \<Rightarrow> do {
          let w = w\<lparr>native := (native w)\<lparr>open_assets := Suc (open_assets (native w))\<rparr>\<rparr>;
          let result = replicate (length asset) 0;
          w \<leftarrow> emit_ok (Js (Js_create_value (Js_arraybuffer result))) w;
          result \<leftarrow> read_asset (java (native w)) asset 0 result;
          let w = w\<lparr>native := (native w)\<lparr>open_assets := open_assets (native w) - 1\<rparr>\<rparr>;
          Some (Js_arraybuffer result, w)
        })
   }"

definition bare_kit__on_resources_finalize :: "ptr \<Rightarrow> jvm_state \<Rightarrow> jvm_state option" where
  "bare_kit__on_resources_finalize data a = do {
     r \<leftarrow> resources_at a data;
     _ \<leftarrow> bare_kit__get_env Worklet_thread a;
     a \<leftarrow> DeleteGlobalRef Worklet_thread (assets r) a;
     Some (a\<lparr>resources_at := (resources_at a)(data := None)\<rparr>)
   }"

section \<open>Finding them\<close>

text \<open>Up to the path of the code cache directory. The references are given back at the end.\<close>

definition code_cache_path :: "ptr \<Rightarrow> jvm_state
    \<Rightarrow> ((ptr \<times> ptr \<times> ptr \<times> ptr \<times> ptr \<times> string) \<times> jvm_state) option" where
  "code_cache_path context a = do {
     (context_class, a) \<leftarrow> GetObjectClass Worklet_thread context a;
     get_code_cache_dir \<leftarrow> GetMethodID Worklet_thread context_class ''getCodeCacheDir'' ''()Ljava/io/File;'' a;
     _ \<leftarrow> c_assert (get_code_cache_dir \<noteq> NULL);
     get_assets \<leftarrow> GetMethodID Worklet_thread context_class ''getAssets''
       ''()Landroid/content/res/AssetManager;'' a;
     _ \<leftarrow> c_assert (get_assets \<noteq> NULL);
     (dir, a) \<leftarrow> CallObjectMethod Worklet_thread context get_code_cache_dir a;
     _ \<leftarrow> c_assert (dir \<noteq> NULL);
     _ \<leftarrow> c_assert (\<not> pending a);
     (file_class, a) \<leftarrow> GetObjectClass Worklet_thread dir a;
     get_path \<leftarrow> GetMethodID Worklet_thread file_class ''getPath'' ''()Ljava/lang/String;'' a;
     _ \<leftarrow> c_assert (get_path \<noteq> NULL);
     (path, a) \<leftarrow> CallObjectMethod Worklet_thread dir get_path a;
     _ \<leftarrow> c_assert (path \<noteq> NULL);
     _ \<leftarrow> c_assert (\<not> pending a);
     (chars, a) \<leftarrow> GetStringUTFChars Worklet_thread path a;
     Some ((context_class, get_assets, dir, file_class, path, chars), a)
   }"

text \<open>The struct of the function that reads. There is no check that the allocation succeeded.\<close>

definition open_assets_of :: "ptr \<Rightarrow> ptr \<Rightarrow> jvm_state \<Rightarrow> ((ptr \<times> ptr) \<times> jvm_state) option" where
  "open_assets_of context get_assets a = do {
     (as, a) \<leftarrow> CallObjectMethod Worklet_thread context get_assets a;
     _ \<leftarrow> c_assert (as \<noteq> NULL);
     _ \<leftarrow> c_assert (\<not> pending a);
     let resources = (if struct_fails (java a) (next_ref a) then NULL else next_ref a);
     let a = a\<lparr>next_ref := Suc (next_ref a)\<rparr>;
     (g, a) \<leftarrow> NewGlobalRef Worklet_thread as a;
     _ \<leftarrow> c_assert (resources \<noteq> NULL);
     x \<leftarrow> object_at g a;
     let r = \<lparr>assets = g, manager = asset_manager (java a) x\<rparr>;
     Some ((as, resources), a\<lparr>resources_at := (resources_at a)(resources \<mapsto> r)\<rparr>)
   }"

definition android_create_resources :: "bare_worklet_options_t \<Rightarrow> jvm_state wworld
    \<Rightarrow> ((js_value_t \<times> js_value_t) \<times> jvm_state wworld) option" where
  "android_create_resources opts w = do {
     w \<leftarrow> emit_ok (Js (Js_create_value Js_null)) w;
     w \<leftarrow> emit_ok (Js (Js_create_value Js_null)) w;
     let context = android_context opts;
     if context = NULL then Some ((Js_null, Js_null), w)
     else do {
       _ \<leftarrow> bare_kit__get_env Worklet_thread (native w);
       ((context_class, get_assets, dir, file_class, path, chars), a) \<leftarrow> code_cache_path context (native w);
       let w = w\<lparr>native := a\<rparr>;
       w \<leftarrow> emit_ok (Js (Js_create_value (Js_string chars))) w;
       a \<leftarrow> ReleaseStringUTFChars Worklet_thread path (native w);
       ((as, resources), a) \<leftarrow> open_assets_of context get_assets a;
       let w = w\<lparr>native := a\<rparr>;
       w \<leftarrow> emit_ok (Js (Js_create_function ''readResource'')) w;
       w \<leftarrow> emit_ok (Js Js_add_finalizer) w;
       a \<leftarrow> DeleteLocalRef Worklet_thread as (native w);
       a \<leftarrow> DeleteLocalRef Worklet_thread path a;
       a \<leftarrow> DeleteLocalRef Worklet_thread file_class a;
       a \<leftarrow> DeleteLocalRef Worklet_thread dir a;
       a \<leftarrow> DeleteLocalRef Worklet_thread context_class a;
       Some ((Js_string chars, Js_function ''readResource''), w\<lparr>native := a\<rparr>)
     }
   }"

section \<open>What they come to\<close>

text \<open>The objects that the context of an application leads to.\<close>

definition cache_dir_path :: "java_env \<Rightarrow> java_object \<Rightarrow> string" where
  "cache_dir_path j x = (let
       dir = call_method j x (method_id j (class_of j x) ''getCodeCacheDir'' ''()Ljava/io/File;'')
     in utf_chars j (call_method j dir (method_id j (class_of j dir) ''getPath'' ''()Ljava/lang/String;'')))"

definition context_assets :: "java_env \<Rightarrow> java_object \<Rightarrow> java_object" where
  "context_assets j x = call_method j x
     (method_id j (class_of j x) ''getAssets'' ''()Landroid/content/res/AssetManager;'')"

text \<open>The state once the resources are found: one global reference and one struct more.\<close>

definition with_resources :: "java_object \<Rightarrow> jvm_state \<Rightarrow> jvm_state" where
  "with_resources x a = (let p = Suc (Suc (Suc (Suc (Suc (next_ref a))))); g = Suc p; as = context_assets (java a) x
     in a\<lparr>next_ref := Suc g,
          resources_at := (resources_at a)(p \<mapsto> \<lparr>assets = g, manager = asset_manager (java a) as\<rparr>),
          refs := (refs a)(g \<mapsto> (Global_ref, as))\<rparr>)"

lemma create_resources_eq:
  assumes r: "jvm_ready True (native w)" and c: "calls_ok w"
    and x: "refs (native w) (android_context opts) = Some (Global_ref, x)" "is_context (java (native w)) x"
  shows "\<exists>cs. android_create_resources opts w
    = Some ((Js_string (cache_dir_path (java (native w)) x), Js_function ''readResource''),
        w\<lparr>calls := calls w @ cs, native := with_resources x (native w)\<rparr>)"
proof -
  let ?a = "native w" and ?k = "android_context opts"
  define j where "j = java ?a"
  define c1 where "c1 = class_of j x"
  define gd where "gd = method_id j c1 ''getCodeCacheDir'' ''()Ljava/io/File;''"
  define ga where "ga = method_id j c1 ''getAssets'' ''()Landroid/content/res/AssetManager;''"
  define dir where "dir = call_method j x gd"
  define fc where "fc = class_of j dir"
  define gp where "gp = method_id j fc ''getPath'' ''()Ljava/lang/String;''"
  define path where "path = call_method j dir gp"
  define as where "as = call_method j x ga"
  note e = c1_def [symmetric] gd_def [symmetric] ga_def [symmetric] dir_def [symmetric] fc_def [symmetric]
    gp_def [symmetric] path_def [symmetric] as_def [symmetric]
  have j: "NULL \<notin> {c1, gd, ga, dir, fc, gp, path, as}" "\<not> throws j x gd" "\<not> throws j dir gp" "\<not> throws j x ga"
    using x(2) unfolding is_context_def Let_def j_def [symmetric] e by blast+
  have ja: "java ?a = j" by (simp add: j_def)
  have d: "cache_dir_path j x = utf_chars j path" "context_assets j x = as"
    unfolding cache_dir_path_def context_assets_def Let_def e by simp_all
  have ra: "jvm ?a \<noteq> NULL" "on_jvm ?a Worklet_thread" "\<not> pending ?a" "refs_ok ?a" "java_ok j"
    using r by (simp_all add: jvm_ready_def j_def)
  have n: "refs ?a r = None" if "next_ref ?a \<le> r" for r using refs_ok_fresh [OF ra(4) that] by simp
  have k: "?k \<noteq> NULL" "?k < next_ref ?a"
    using fresh_ref [OF ra(4) x(1)] n [of ?k] x(1) by (auto simp: not_le [symmetric])
  have fails: "\<not> ref_fails j r" "\<not> struct_fails j r" for r using ra(5) by (simp_all add: java_ok_def)
  let ?n = "next_ref ?a"
  let ?a1 = "?a\<lparr>next_ref := Suc (Suc (Suc (Suc ?n))), refs := (refs ?a)(?n \<mapsto> (Local_ref, c1),
      Suc ?n \<mapsto> (Local_ref, dir), Suc (Suc ?n) \<mapsto> (Local_ref, fc), Suc (Suc (Suc ?n)) \<mapsto> (Local_ref, path))\<rparr>"
  let ?p = "Suc (Suc (Suc (Suc (Suc ?n))))"
  let ?a2 = "?a1\<lparr>next_ref := Suc (Suc ?p), refs := (refs ?a1)(Suc (Suc (Suc (Suc ?n))) \<mapsto> (Local_ref, as),
      Suc ?p \<mapsto> (Global_ref, as)), resources_at := (resources_at ?a)(?p \<mapsto> \<lparr>assets = Suc ?p, manager = asset_manager j as\<rparr>)\<rparr>"
  have s1: "code_cache_path ?k ?a = Some ((?n, ga, Suc ?n, Suc (Suc ?n), Suc (Suc (Suc ?n)), utf_chars j path),
      ?a1\<lparr>chars_held := Suc (chars_held ?a)\<rparr>)"
    using ra j k x(1) ja n unfolding code_cache_path_def
    by (simp add: jni_defs e NULL_def cong: bind_step_cong)
  have s2: "open_assets_of ?k ga ?a1 = Some ((Suc (Suc (Suc (Suc ?n))), ?p), ?a2)"
    using ra j k x(1) ja n fails unfolding open_assets_of_def
    by (simp add: jni_defs e NULL_def Let_def cong: bind_step_cong)
  have s3: "ReleaseStringUTFChars Worklet_thread (Suc (Suc (Suc ?n))) (?a1\<lparr>chars_held := Suc (chars_held ?a)\<rparr>) = Some ?a1"
    using ra by (simp add: ReleaseStringUTFChars_def object_at_def)
  have s4: "do {
       a \<leftarrow> DeleteLocalRef Worklet_thread (Suc (Suc (Suc (Suc ?n)))) ?a2;
       a \<leftarrow> DeleteLocalRef Worklet_thread (Suc (Suc (Suc ?n))) a;
       a \<leftarrow> DeleteLocalRef Worklet_thread (Suc (Suc ?n)) a;
       a \<leftarrow> DeleteLocalRef Worklet_thread (Suc ?n) a;
       a \<leftarrow> DeleteLocalRef Worklet_thread ?n a;
       f a
     } = f (with_resources x ?a)" for f :: "jvm_state \<Rightarrow> ((js_value_t \<times> js_value_t) \<times> jvm_state wworld) option"
    using ra n unfolding with_resources_def ja d Let_def
    by (simp add: DeleteLocalRef_def fun_upd_twist fun_upd_idle cong: bind_step_cong)
  have "bare_kit__get_env Worklet_thread ?a = Some ()"
    using ra by (simp add: bare_kit__get_env_def GetEnv_def)
  then have "android_create_resources opts w = Some ((Js_string (utf_chars j path), Js_function ''readResource''),
      w\<lparr>calls := calls w @ [Js (Js_create_value Js_null), Js (Js_create_value Js_null),
          Js (Js_create_value (Js_string (utf_chars j path))), Js (Js_create_function ''readResource''),
          Js Js_add_finalizer], native := with_resources x ?a\<rparr>)"
    using c k(1) s1 s2 s3 s4 unfolding android_create_resources_def Let_def
    by (simp add: emit_ok_calls emit_def cong: bind_step_cong)
  then show ?thesis unfolding ja d by blast
qed

lemma with_resources_spec:
  assumes "jvm_ready b a"
  shows "jvm_ready b (with_resources x a)" and "carried context_held a (with_resources x a)"
proof -
  let ?p = "Suc (Suc (Suc (Suc (Suc (next_ref a)))))" and ?as = "context_assets (java a) x"
  have ok: "refs_ok a" using assms by (simp add: jvm_ready_def)
  have "refs_ok (a\<lparr>next_ref := Suc (Suc ?p), resources_at := (resources_at a)(?p \<mapsto> r),
      refs := (refs a)(Suc ?p \<mapsto> (Global_ref, ?as))\<rparr>)" for r
    using ok unfolding refs_ok_def by (simp, metis less_SucI)
  then show "jvm_ready b (with_resources x a)"
    using assms by (auto simp: jvm_ready_def with_resources_def Let_def)
  have "r < next_ref a" if "refs a r = Some y" for r y
    using ok that unfolding refs_ok_def by (metis option.distinct(1))
  then show "carried context_held a (with_resources x a)"
    by (fastforce simp: carried_def context_held_def with_resources_def Let_def)
qed

section \<open>The platform\<close>

text \<open>
  The suspension and the symbols are the default ones: Android builds \<open>src/suspension.c\<close> and
  \<open>src/symbols.c\<close>.
\<close>

definition android_platform :: "jvm_state platform_ops" where
  "android_platform = default_platform\<lparr>
     on_thread_enter := on_native android_thread_enter,
     on_thread_exit := on_native android_thread_exit,
     retain_context := (\<lambda>opts opts0 w. map_option (\<lambda>(k, a). (k, w\<lparr>native := a\<rparr>))
       (android_retain_context opts opts0 (native w))),
     release_context := (\<lambda>opts. on_native (android_release_context opts)),
     publish_context := android_publish_context,
     create_resources := android_create_resources\<rparr>"

lemma android_platform_laws: "worklet_platform android_platform jvm_ready context_offered context_held (\<lambda>_ _. True)"
proof unfold_locales
  fix w :: "jvm_state wworld"
  assume c: "calls_ok w"
  show "\<exists>w'. on_thread_enter android_platform w = Some w' \<and> native_only w w' \<and> jvm_ready True (native w')
      \<and> carried context_held (native w) (native w')" if "jvm_ready False (native w)"
    using thread_enter_spec [OF that] by (auto simp: android_platform_def on_native_def)
  show "\<exists>w'. on_thread_exit android_platform w = Some w' \<and> native_only w w' \<and> jvm_ready False (native w')
      \<and> carried context_held (native w) (native w')" if "jvm_ready True (native w)"
    using thread_exit_spec [OF that] by (auto simp: android_platform_def on_native_def)
  show "\<exists>opts' w'. retain_context android_platform opts opts0 w = Some (opts', w') \<and> native_only w w'
      \<and> jvm_ready b (native w') \<and> memory_limit opts' = memory_limit opts \<and> context_held opts' (native w')"
    if "jvm_ready b (native w)" "context_offered opts0 (native w)" "context_held opts (native w)" for b opts opts0
    using retain_spec [OF that] by (auto simp: android_platform_def)
  show "\<exists>w'. release_context android_platform opts w = Some w' \<and> native_only w w' \<and> jvm_ready b (native w')
      \<and> carried (\<lambda>_ _. True) (native w) (native w')"
    if "jvm_ready b (native w)" "context_held opts (native w)" for b opts
    using release_spec [OF that] by (auto simp: android_platform_def on_native_def)
  show "\<exists>w'. publish_context android_platform ba opts w = Some w' \<and> native_only w w' \<and> jvm_ready True (native w')
      \<and> carried context_held (native w) (native w') \<and> carried (\<lambda>_ _. True) (native w) (native w')"
    if "jvm_ready True (native w)" "context_held opts (native w)" for ba opts
    using publish_spec [OF that(1) c that(2), of ba] by (auto simp: android_platform_def)
  show "\<exists>r w'. create_resources android_platform opts w = Some (r, w') \<and> native_only w w' \<and> jvm_ready True (native w')
      \<and> carried context_held (native w) (native w') \<and> carried (\<lambda>_ _. True) (native w) (native w')"
    if h: "jvm_ready True (native w)" "context_held opts (native w)" for opts
  proof (cases "android_context opts = NULL")
    case True
    then have "android_create_resources opts w = Some ((Js_null, Js_null),
        emit (Js (Js_create_value Js_null)) (emit (Js (Js_create_value Js_null)) w))"
      using c by (simp add: android_create_resources_def emit_ok_calls)
    then show ?thesis using h(1) by (simp add: android_platform_def)
  next
    case False
    then obtain x where x: "refs (native w) (android_context opts) = Some (Global_ref, x)" "is_context (java (native w)) x"
      using h(2) by (auto simp: context_held_def)
    show ?thesis
      using create_resources_eq [OF h(1) c x] with_resources_spec [OF h(1), of x]
      by (auto simp: android_platform_def intro!: native_only_native)
  qed
next
  show "context_held (zero_options\<lparr>memory_limit := m\<rparr>) n" for m n
    by (simp add: context_held_def zero_options_def)
qed (auto simp: android_platform_def default_platform_def default_defs)

section \<open>Whole resources\<close>

text \<open>\<open>AAsset_read\<close> gives some of the bytes that are left, as many as it likes.\<close>

definition reads_on :: "java_env \<Rightarrow> bool" where
  "reads_on j \<longleftrightarrow> (\<forall>i n. 0 < n \<longrightarrow> 0 < asset_chunk j i n \<and> asset_chunk j i n \<le> int n)"

lemma read_asset_whole:
  assumes "reads_on j" and "length data = length asset" and "take read data = take read asset"
  shows "read_asset j asset read data = Some asset"
  using assms(2,3)
proof (induction "length asset - read" arbitrary: read data rule: less_induct)
  case less
  show ?case
  proof (cases "read < length asset")
    case True
    define k where "k = nat (asset_chunk j read (length asset - read))"
    have c: "0 < asset_chunk j read (length asset - read)" "asset_chunk j read (length asset - read) \<le> int (length asset - read)"
      using assms(1) True unfolding reads_on_def by (meson zero_less_diff)+
    then have k: "0 < k" "read + k \<le> length asset" using True by (simp_all add: k_def)
    let ?data = "take read data @ take k (drop read asset) @ drop (read + k) data"
    have len: "length ?data = length asset" using less.prems(1) k by simp
    have "take (read + k) ?data = take read asset @ take k (drop read asset)"
      using less.prems k by (auto simp: min_def)
    then have t: "take (read + k) ?data = take (read + k) asset" by (simp add: take_add)
    have "read_asset j asset (read + k) ?data = Some asset"
      by (rule less.hyps [OF _ len t]) (use True k in simp)
    then show ?thesis using True c by (subst read_asset.simps) (simp add: k_def Let_def)
  next
    case False
    then show ?thesis using less.prems by (simp add: read_asset.simps)
  qed
qed

text \<open>
  C13: A resource is read whole. The function that the script is given returns \<open>null\<close> for a name
  that, up to its first zero byte, is no asset's, and otherwise an \<open>ArrayBuffer\<close> of exactly the asset's bytes, whatever pieces
  the asset manager hands out; no asset stays open, and the copy of the name is freed.
\<close>

theorem android_resource_read_whole:
  assumes "calls_ok w" and "heap_ok w" and "\<not> oom w (brk w)"
    and "resources_at (native w) p = Some r" and "reads_on (java (native w))"
  shows "\<exists>w'. bare_kit__on_read_resource p [Js_string name] w
      = Some (case asset_bytes (java (native w)) (manager r) (c_string name) of
          None \<Rightarrow> Js_null | Some asset \<Rightarrow> Js_arraybuffer asset, w')
    \<and> native w' = native w \<and> blocks w' = blocks w"
proof -
  let ?w1 = "emit (Js Js_get_value_string) (emit (Js Js_get_callback_info) w)"
  let ?name = "map of_char name @ [0] :: byte list"
  let ?w2 = "(emit (Js Js_get_value_string) ?w1)\<lparr>brk := Suc (brk w), blocks := (blocks w)(brk w \<mapsto> ?name)\<rparr>"
  let ?w3 = "?w2\<lparr>blocks := blocks w\<rparr>"
  have fresh: "blocks w (brk w) = None" "brk w \<noteq> NULL"
    using heap_ok_fresh [OF assms(2)] assms(2) by (simp_all add: heap_ok_def NULL_def)
  have m: "malloc (length name + 1) ?w1 = (brk w, ?w1\<lparr>brk := Suc (brk w),
      blocks := (blocks w)(brk w \<mapsto> map (junk w (brk w)) [0..<length name + 1])\<rparr>)"
    using assms(3) by (simp add: malloc_def Let_def)
  have c: "memcpy (brk w) ?name (emit (Js Js_get_value_string) (?w1\<lparr>brk := Suc (brk w),
      blocks := (blocks w)(brk w \<mapsto> map (junk w (brk w)) [0..<length name + 1])\<rparr>)) = Some ?w2"
    by (simp add: memcpy_def emit_def)
  have f: "free_block (brk w) ?w2 = Some ?w3"
    using fresh by (simp add: free_block_def fun_upd_idle)
  show ?thesis
  proof (cases "asset_bytes (java (native w)) (manager r) (c_string name)")
    case None
    then show ?thesis
      using assms(1,4) m c f unfolding bare_kit__on_read_resource_def
      by (simp add: emit_ok_calls Let_def calls_ok_def)
  next
    case (Some asset)
    have "read_asset (java (native w)) asset 0 (replicate (length asset) 0) = Some asset"
      by (rule read_asset_whole [OF assms(5)]) simp_all
    then show ?thesis
      using assms(1,4) m c f Some unfolding bare_kit__on_read_resource_def
      by (simp add: emit_ok_calls Let_def calls_ok_def)
  qed
qed

text \<open>
  The function does not survive a failed allocation for the name: what \<open>malloc\<close> returned is
  not checked, and the name is written to, and then read from, the null pointer.
\<close>

theorem android_read_without_memory_faults:
  assumes "calls_ok w" and "heap_ok w" and "oom w (brk w)"
  shows "bare_kit__on_read_resource p [Js_string name] w = None"
proof -
  let ?w1 = "emit (Js Js_get_value_string) (emit (Js Js_get_callback_info) w)"
  have m: "malloc (length name + 1) ?w1 = (NULL, ?w1\<lparr>brk := Suc (brk w)\<rparr>)"
    using assms(3) by (simp add: malloc_def Let_def)
  have "heap_ok (emit (Js Js_get_value_string) (?w1\<lparr>brk := Suc (brk w)\<rparr>))"
    using assms(2) by (auto simp: heap_ok_def less_SucI)
  then have "memcpy NULL (map of_char name @ [0]) (emit (Js Js_get_value_string) (?w1\<lparr>brk := Suc (brk w)\<rparr>)) = None"
    by (rule memcpy_NULL)
  then show ?thesis
    using assms(1) m unfolding bare_kit__on_read_resource_def
    by (simp add: emit_ok_calls Let_def calls_ok_def)
qed

section \<open>The references\<close>

text \<open>What a worklet does with the virtual machine up to its script.\<close>

definition android_begin :: "bare_worklet_options_t \<Rightarrow> jvm_state wworld
    \<Rightarrow> ((bare_worklet_options_t \<times> js_value_t \<times> js_value_t) \<times> jvm_state wworld) option" where
  "android_begin opts0 w = do {
     (k, w) \<leftarrow> retain_context android_platform zero_options opts0 w;
     w \<leftarrow> on_thread_enter android_platform w;
     w \<leftarrow> publish_context android_platform NULL k w;
     (r, w) \<leftarrow> create_resources android_platform k w;
     Some ((k, r), w)
   }"

text \<open>What gives back, in the order in which it comes: \<open>p\<close> is the struct of the function that reads.\<close>

datatype android_end = Finalize | Context_destroy | Exit_thread | Release

primrec android_ending :: "bare_worklet_options_t \<Rightarrow> ptr \<Rightarrow> android_end \<Rightarrow> jvm_state \<Rightarrow> jvm_state option" where
  "android_ending k p Finalize a = bare_kit__on_resources_finalize p a"
| "android_ending k p Context_destroy a = do {
     value \<leftarrow> published a ''bare.android.context.v1'';
     bare_kit__on_context_destroy value a
   }"
| "android_ending k p Exit_thread a = android_thread_exit a"
| "android_ending k p Release a = android_release_context k a"

fun android_endings :: "bare_worklet_options_t \<Rightarrow> ptr \<Rightarrow> android_end list \<Rightarrow> jvm_state \<Rightarrow> jvm_state option" where
  "android_endings k p [] a = Some a"
| "android_endings k p (e # es) a = Option.bind (android_ending k p e a) (android_endings k p es)"

text \<open>
  The state in between: the references of before, and those that \<open>gs\<close> says are held on top of
  them for the struct, for Bare and for the options.
\<close>

definition begun_from :: "jvm_state \<Rightarrow> bare_worklet_options_t \<Rightarrow> ptr \<Rightarrow> ptr \<Rightarrow> ptr \<Rightarrow> bool \<Rightarrow> bool \<Rightarrow> bool \<Rightarrow> bool
    \<Rightarrow> jvm_state \<Rightarrow> bool" where
  "begun_from a0 k p s g f c e l a \<longleftrightarrow> jvm a \<noteq> NULL \<and> java_ok (java a)
     \<and> on_jvm a = (on_jvm a0)(Worklet_thread := e) \<and> published a ''bare.android.context.v1'' = Some g
     \<and> distinct [s, g, android_context k, NULL] \<and> refs a0 s = None \<and> refs a0 g = None
     \<and> refs a0 (android_context k) = None \<and> resources_at a0 p = None
     \<and> (\<forall>r. r \<notin> {s, g, android_context k} \<longrightarrow> refs a r = refs a0 r)
     \<and> (if f then \<exists>x. refs a s = Some (Global_ref, x) else refs a s = None)
     \<and> (if c then \<exists>x. refs a g = Some (Global_ref, x) else refs a g = None)
     \<and> (if l then \<exists>x. refs a (android_context k) = Some (Global_ref, x) else refs a (android_context k) = None)
     \<and> (\<forall>q. q \<noteq> p \<longrightarrow> resources_at a q = resources_at a0 q)
     \<and> (if f then \<exists>m. resources_at a p = Some \<lparr>assets = s, manager = m\<rparr> else resources_at a p = None)"

lemma ending_finalize:
  assumes "begun_from a0 k p s g True c True l a"
  shows "\<exists>a'. android_ending k p Finalize a = Some a' \<and> begun_from a0 k p s g False c True l a'"
proof -
  obtain x m where x: "refs a s = Some (Global_ref, x)" "resources_at a p = Some \<lparr>assets = s, manager = m\<rparr>"
    using assms by (auto simp: begun_from_def)
  have r: "jvm a \<noteq> NULL" "on_jvm a Worklet_thread" "s \<noteq> NULL" using assms by (auto simp: begun_from_def)
  have "android_ending k p Finalize a = Some (a\<lparr>refs := (refs a)(s := None), resources_at := (resources_at a)(p := None)\<rparr>)"
    using x r by (simp add: bare_kit__on_resources_finalize_def bare_kit__get_env_def GetEnv_def DeleteGlobalRef_def)
  then show ?thesis using assms by (auto simp: begun_from_def)
qed

lemma ending_context:
  assumes "begun_from a0 k p s g f True True l a"
  shows "\<exists>a'. android_ending k p Context_destroy a = Some a' \<and> begun_from a0 k p s g f False True l a'"
proof -
  obtain x where x: "refs a g = Some (Global_ref, x)" using assms by (auto simp: begun_from_def)
  have r: "jvm a \<noteq> NULL" "on_jvm a Worklet_thread" "g \<noteq> NULL" "published a ''bare.android.context.v1'' = Some g"
    using assms by (auto simp: begun_from_def)
  have "android_ending k p Context_destroy a = Some (a\<lparr>refs := (refs a)(g := None)\<rparr>)"
    using x r by (simp add: bare_kit__on_context_destroy_def GetEnv_def DeleteGlobalRef_def)
  then show ?thesis using assms by (auto simp: begun_from_def)
qed

lemma ending_exit:
  assumes "begun_from a0 k p s g f c True l a"
  shows "\<exists>a'. android_ending k p Exit_thread a = Some a' \<and> begun_from a0 k p s g f c False l a'"
  using assms by (auto simp: begun_from_def android_thread_exit_def invocation_defs java_ok_def)

lemma ending_release:
  assumes "begun_from a0 k p s g f c e True a"
  shows "\<exists>a'. android_ending k p Release a = Some a' \<and> begun_from a0 k p s g f c e False a'"
proof -
  obtain x where x: "refs a (android_context k) = Some (Global_ref, x)" using assms by (auto simp: begun_from_def)
  have r: "jvm a \<noteq> NULL" "android_context k \<noteq> NULL" "attach_code (java a) = JNI_OK" "detach_code (java a) = JNI_OK"
    using assms by (auto simp: begun_from_def java_ok_def)
  have "\<exists>a'. android_release_context k a = Some a' \<and> on_jvm a' = on_jvm a
      \<and> refs a' = (refs a)(android_context k := None) \<and> resources_at a' = resources_at a \<and> published a' = published a
      \<and> jvm a' = jvm a \<and> java a' = java a"
    using x r by (simp add: android_release_context_def invocation_defs DeleteGlobalRef_def Let_def fun_upd_idle)
  then obtain a' where a': "android_release_context k a = Some a'" "on_jvm a' = on_jvm a"
      "refs a' = (refs a)(android_context k := None)" "resources_at a' = resources_at a" "published a' = published a"
      "jvm a' = jvm a" "java a' = java a"
    by blast
  have "begun_from a0 k p s g f c e False a'"
    using assms a' unfolding begun_from_def by simp
  then show ?thesis using a' by simp
qed

lemma android_begin_spec:
  assumes "jvm_ready False (native w)" and "calls_ok w" and "context_offered opts0 (native w)"
    and "android_context opts0 \<noteq> NULL"
  shows "\<exists>k path w' p s g. android_begin opts0 w = Some ((k, Js_string path, Js_function ''readResource''), w')
    \<and> begun_from (native w) k p s g True True True True (native w')"
proof -
  let ?a = "native w"
  have ok: "refs_ok ?a" "\<not> on_jvm ?a Worklet_thread" using assms(1) by (simp_all add: jvm_ready_def)
  obtain k a1 where k: "android_retain_context zero_options opts0 ?a = Some (k, a1)" "jvm_ready False a1" "context_held k a1"
      "android_context k = next_ref ?a" "refs a1 = (refs ?a)(next_ref ?a \<mapsto> (Global_ref, snd (the (refs ?a (android_context opts0)))))"
      "on_jvm a1 = on_jvm ?a" "resources_at a1 = resources_at ?a"
    using retain_spec [OF assms(1,3), of zero_options] assms(4)
    by (auto simp: context_held_def zero_options_def Let_def split: if_splits)
  obtain a2 where a2: "android_thread_enter a1 = Some a2" "jvm_ready True a2" "context_held k a2" "refs a2 = refs a1"
      "resources_at a2 = resources_at a1" "on_jvm a2 = (on_jvm a1)(Worklet_thread := True)"
    using thread_enter_spec [OF k(2)] k(3) by (auto simp: carried_def)
  let ?w2 = "w\<lparr>native := a2\<rparr>"
  have c: "android_context k \<noteq> NULL" using k(4) next_ref_pos [OF ok(1)] by simp
  have p2: "jvm_ready True (native ?w2)" "calls_ok ?w2" "context_held k (native ?w2)" using a2 assms(2) by simp_all
  obtain w3 g y where w3: "android_publish_context NULL k ?w2 = Some w3" "native_only ?w2 w3" "jvm_ready True (native w3)"
      "context_held k (native w3)" "on_jvm (native w3) = on_jvm a2" "resources_at (native w3) = resources_at a2"
      "published (native w3) ''bare.android.context.v1'' = Some g" "g \<noteq> NULL" "g \<noteq> android_context k"
      "refs a2 g = None" "refs (native w3) = (refs a2)(g \<mapsto> (Global_ref, y))"
    using publish_spec [OF p2, of NULL] c p2(3) by (auto simp: carried_def)
  have c3: "calls_ok w3" using w3(2) assms(2) by (auto elim!: native_onlyE)
  obtain x where x: "refs (native w3) (android_context k) = Some (Global_ref, x)" "is_context (java (native w3)) x"
    using w3(4) c by (auto simp: context_held_def)
  let ?a4 = "with_resources x (native w3)" and ?n = "next_ref (native w3)"
  obtain cs where cs: "android_create_resources k w3 = Some ((Js_string (cache_dir_path (java (native w3)) x),
      Js_function ''readResource''), w3\<lparr>calls := calls w3 @ cs, native := ?a4\<rparr>)"
    using create_resources_eq [OF w3(3) c3 x] by blast
  let ?w4 = "w3\<lparr>calls := calls w3 @ cs, native := ?a4\<rparr>"
  let ?p = "Suc (Suc (Suc (Suc (Suc ?n))))"
  have b: "android_begin opts0 w = Some ((k, Js_string (cache_dir_path (java (native w3)) x), Js_function ''readResource''), ?w4)"
    using k(1) a2(1) w3(1) cs by (simp add: android_begin_def android_platform_def on_native_def)
  have ok3: "refs_ok (native w3)" using w3(3) by (simp add: jvm_ready_def)
  have n: "refs (native w3) r = None" "resources_at (native w3) r = None" if "?n \<le> r" for r
    using refs_ok_fresh [OF ok3 that] by simp_all
  have sub: "refs ?a r = None" if "refs (native w3) r = None" for r
    using that w3(11) a2(4) k(5) by (auto split: if_splits)
  have f: "refs ?a (Suc ?p) = None" "resources_at ?a ?p = None" "refs (native w3) (Suc ?p) = None"
    using n [of "Suc ?p"] n [of ?p] sub [of "Suc ?p"] w3(6) a2(5) k(7) by simp_all
  have d1: "Suc ?p \<noteq> g" using f(3) w3(11) by (metis fun_upd_same option.distinct(1))
  have d2: "Suc ?p \<noteq> android_context k" using f(3) x(1) by (metis option.distinct(1))
  have d: "Suc ?p \<noteq> g" "Suc ?p \<noteq> android_context k" "Suc ?p \<noteq> NULL"
    using d1 d2 by (simp_all add: NULL_def)
  have "begun_from ?a k ?p (Suc ?p) g True True True True ?a4"
    using k(4-7) a2(4-6) w3 f d c ok refs_ok_fresh(1) [OF ok(1), of "next_ref ?a"]
    by (simp add: begun_from_def jvm_ready_def with_resources_def Let_def)
  then show ?thesis using b by (intro exI [of _ k] exI [of _ "?w4"] exI) auto
qed

lemma ending_all:
  assumes "begun_from a0 k p s g False False False False a" and "\<not> on_jvm a0 Worklet_thread"
  shows "refs a = refs a0" and "resources_at a = resources_at a0" and "on_jvm a = on_jvm a0"
proof -
  have "refs a r = refs a0 r" for r
    using assms(1) unfolding begun_from_def by (cases "r \<in> {s, g, android_context k}") auto
  then show "refs a = refs a0" ..
  have "resources_at a q = resources_at a0 q" for q
    using assms(1) unfolding begun_from_def by (cases "q = p") auto
  then show "resources_at a = resources_at a0" ..
  show "on_jvm a = on_jvm a0"
    using assms by (simp add: begun_from_def fun_upd_idle)
qed

text \<open>
  Whatever the order, as long as the thread is detached after what is done on it: \<open>f\<close>, \<open>c\<close>, \<open>e\<close>
  and \<open>l\<close> say what is left to be given back.
\<close>

inductive ending_order :: "bool \<Rightarrow> bool \<Rightarrow> bool \<Rightarrow> bool \<Rightarrow> android_end list \<Rightarrow> bool" where
  order_done: "ending_order False False False False []"
| order_finalize: "ending_order False c True l es \<Longrightarrow> ending_order True c True l (Finalize # es)"
| order_context: "ending_order f False True l es \<Longrightarrow> ending_order f True True l (Context_destroy # es)"
| order_exit: "ending_order False False False l es \<Longrightarrow> ending_order False False True l (Exit_thread # es)"
| order_release: "ending_order f c e False es \<Longrightarrow> ending_order f c e True (Release # es)"

code_pred ending_order .

lemma ending_order_runs:
  assumes "ending_order f c e l es" and "begun_from a0 k p s g f c e l a"
  shows "\<exists>a'. android_endings k p es a = Some a' \<and> begun_from a0 k p s g False False False False a'"
  using assms
proof (induction arbitrary: a rule: ending_order.induct)
  case (order_finalize c l es)
  then show ?case using ending_finalize [OF order_finalize.prems] by (auto simp del: android_ending.simps)
next
  case (order_context f l es)
  then show ?case using ending_context [OF order_context.prems] by (auto simp del: android_ending.simps)
next
  case (order_exit l es)
  then show ?case using ending_exit [OF order_exit.prems] by (auto simp del: android_ending.simps)
next
  case (order_release f c e es)
  then show ?case using ending_release [OF order_release.prems] by (auto simp del: android_ending.simps)
qed auto

text \<open>
  C12: A worklet on Android gives back what it took of the virtual machine. It starts with the
  context that the host hands over held by three global references: the worklet's, one that is
  published to addons, and one to its assets. In whatever order the function that reads is
  collected, Bare lets go of what was published, the thread is detached after both, and the
  worklet is destroyed, from a thread that is attached or not, none of it faults, and in the
  end every reference and struct is gone, each deleted once, and the threads are attached as
  before.
\<close>

theorem android_references_balanced:
  assumes "jvm_ready False (native w)" and "calls_ok w" and "context_offered opts0 (native w)"
    and "android_context opts0 \<noteq> NULL"
  shows "\<exists>k path w' p. android_begin opts0 w = Some ((k, Js_string path, Js_function ''readResource''), w')
    \<and> resources_at (native w) p = None \<and> resources_at (native w') p \<noteq> None
    \<and> (\<forall>es. ending_order True True True True es \<longrightarrow>
        (\<exists>a. android_endings k p es (native w') = Some a \<and> refs a = refs (native w)
          \<and> resources_at a = resources_at (native w) \<and> on_jvm a = on_jvm (native w)))"
proof -
  obtain k path w' p s g where b: "android_begin opts0 w = Some ((k, Js_string path, Js_function ''readResource''), w')"
      "begun_from (native w) k p s g True True True True (native w')"
    using android_begin_spec [OF assms] by blast
  have f: "resources_at (native w) p = None" "resources_at (native w') p \<noteq> None"
    using b(2) by (auto simp: begun_from_def)
  have d: "\<not> on_jvm (native w) Worklet_thread" using assms(1) by (simp add: jvm_ready_def)
  have "\<exists>a. android_endings k p es (native w') = Some a \<and> refs a = refs (native w)
      \<and> resources_at a = resources_at (native w) \<and> on_jvm a = on_jvm (native w)"
    if "ending_order True True True True es" for es
    using ending_order_runs [OF that b(2)] ending_all [OF _ d] by blast
  then show ?thesis using b(1) f by blast
qed

section \<open>A device\<close>

text \<open>One class, one method and one object for everything, and one asset, read in two pieces.\<close>

definition droid_env :: java_env where
  "droid_env = \<lparr>find_class = (\<lambda>_. 1), class_of = (\<lambda>_. 1), method_id = (\<lambda>_ _ _. 1), static_method_id = (\<lambda>_ _ _. 1),
     call_static = (\<lambda>_ _. 1), call_method = (\<lambda>_ _. 1), throws = (\<lambda>_ _. False), utf_chars = (\<lambda>_. ''/cache''),
     asset_manager = (\<lambda>_. 6), asset_bytes = (\<lambda>_ name. if name = ''app.js'' then Some [7, 8, 9] else None),
     asset_chunk = (\<lambda>read left. if left = 3 then 2 else int left), attach_code = 0, detach_code = 0,
     ref_fails = (\<lambda>_. False), struct_fails = (\<lambda>_. False)\<rparr>"

text \<open>The host has a reference to the context, and a struct of resources is there.\<close>

definition droid :: jvm_state where
  "droid = \<lparr>java = droid_env, jvm = 4, on_jvm = (\<lambda>t. t = Creating_thread), refs = [1 \<mapsto> (Host_ref, 1)], next_ref = 3,
     pending = False, void_calls = [], chars_held = 0, open_assets = 0,
     resources_at = [2 \<mapsto> \<lparr>assets = 1, manager = 6\<rparr>], published = Map.empty\<rparr>"

definition droid_world :: "jvm_state wworld" where
  "droid_world = \<lparr>blocks = Map.empty, brk = 5, oom = (\<lambda>_. False), junk = (\<lambda>_ _. 0), calls = [],
     ret = (\<lambda>_. 0), queue = None, ipcs = Map.empty, polls = Map.empty, signals = Map.empty, self = NULL,
     worklet = None, wstate = None, semaphore = None, thread_ipc = None, init_guard = False,
     running = 0, torn_down = False, platform_guard = False, platform = NULL,
     optimize_for_memory = False, native = droid\<rparr>"

lemma droid_world_ok: "calls_ok droid_world" "heap_ok droid_world"
  by (simp_all add: droid_world_def calls_ok_def heap_ok_def)

lemma droid_ready: "jvm_ready False droid"
  by (auto simp: jvm_ready_def droid_def droid_env_def java_ok_def has_loader_def is_context_def refs_ok_def
      JNI_OK_def NULL_def Let_def)

lemma droid_offered: "context_offered (zero_options\<lparr>android_context := 1\<rparr>) droid"
  by (simp add: context_offered_def droid_def)

theorem android_resource_read_whole_witness:
  "\<exists>w'. bare_kit__on_read_resource 2 [Js_string ''app.js''] droid_world = Some (Js_arraybuffer [7, 8, 9], w')"
proof -
  have "reads_on (java (native droid_world))" by (simp add: reads_on_def droid_world_def droid_def droid_env_def)
  then show ?thesis
    using android_resource_read_whole [OF droid_world_ok, of 2 "\<lparr>assets = 1, manager = 6\<rparr>" "''app.js''"]
    by (auto simp: droid_world_def droid_def droid_env_def c_string_def)
qed

theorem android_read_without_memory_faults_witness:
  "bare_kit__on_read_resource 2 [Js_string ''app.js''] (droid_world\<lparr>oom := (\<lambda>p. p = 5)\<rparr>) = None"
  by (rule android_read_without_memory_faults) (simp_all add: droid_world_def calls_ok_def heap_ok_def)

theorem android_references_balanced_witness:
  "\<exists>k path w' p a. android_begin (zero_options\<lparr>android_context := 1\<rparr>) droid_world
      = Some ((k, Js_string path, Js_function ''readResource''), w')
    \<and> android_endings k p [Finalize, Release, Context_destroy, Exit_thread] (native w') = Some a
    \<and> refs a = [1 \<mapsto> (Host_ref, 1)]"
proof -
  have n: "native droid_world = droid" "refs droid = [1 \<mapsto> (Host_ref, 1)]" by (simp_all add: droid_world_def droid_def)
  have "ending_order True True True True [Finalize, Release, Context_destroy, Exit_thread]"
    by (intro ending_order.intros)
  moreover have "jvm_ready False (native droid_world)" "context_offered (zero_options\<lparr>android_context := 1\<rparr>) (native droid_world)"
      "android_context (zero_options\<lparr>android_context := 1\<rparr>) \<noteq> NULL"
    using droid_ready droid_offered n by (simp_all add: NULL_def)
  ultimately show ?thesis
    using android_references_balanced [of droid_world] droid_world_ok(1) unfolding n by metis
qed

end
