(* ===== verification/Worklet_Android.thy ===== *)
theory Worklet_Android
  imports Worklet_Progress Resources_Android
begin

text \<open>
  A worklet on Android over its whole life. The laws that the lemmas on a worklet rest on were
  shown of the Android platform where it is defined; here they give that no call to the virtual
  machine is out of place, and when the worklet's thread is attached and its context is held.
\<close>

interpretation android: worklet_platform android_platform jvm_ready context_offered context_held "\<lambda>_ _. True"
  by (rule android_platform_laws)

section \<open>Safety\<close>

text \<open>
  What the host has to see to when it creates a worklet: the virtual machine is known, the
  thread that will be the worklet's is not attached, and a context that the options give is a
  live reference of the host, which is itself attached.
\<close>

definition android_may_create :: "bare_worklet_options_t option \<Rightarrow> jvm_state \<Rightarrow> bool" where
  "android_may_create opts a \<longleftrightarrow> jvm_ready False a
     \<and> (case opts of None \<Rightarrow> True | Some opts0 \<Rightarrow> context_offered opts0 a)"

lemma android_may_create_eq:
  "android_may_create = (\<lambda>opts a. jvm_ready False a \<and> (\<forall>opts0. opts = Some opts0 \<longrightarrow> context_offered opts0 a))"
  by (intro ext) (simp add: android_may_create_def split: option.split)

lemma android_reached_inv:
  assumes "reached android_platform android_may_create js inst c" and "inst \<noteq> NULL"
  shows "android.cinv c"
  using android.reached_inv [of js inst c] assms by (simp add: android_may_create_eq)

text \<open>
  C10: A worklet is never at fault on Android either. In every order of events, attaching and
  detaching its thread, holding, publishing and releasing its context and finding its resources
  never call the virtual machine on a thread that is not attached or with an exception pending,
  and never use or delete a reference that is not live.
\<close>

theorem android_worklet_never_faults:
  assumes "reached android_platform android_may_create js inst c" and "inst \<noteq> NULL" and "may e c"
  shows "\<exists>c'. cycle_step android_platform js inst e c = Some c'"
  using android.event_inv [OF android_reached_inv [OF assms(1,2)] assms(3,2)] by blast

text \<open>
  C11: The worklet's thread is attached to the virtual machine from the time it has entered the
  platform to the time it leaves it, and at no other time; between two events no exception is
  pending and no local reference is left, on a thread that never returns to the machine, which
  would free them. For as long as the struct is there, the context in its options is a live
  global reference, whatever the host does with its own.
\<close>

theorem android_thread_and_context:
  assumes "reached android_platform android_may_create js inst c" and "inst \<noteq> NULL"
  shows "on_jvm (native (world_of c)) Worklet_thread
      = (thread_at c \<in> {Set_up, Opened, Referenced, Waiting, Released, In_module, Looping, Retired, Detached, Shut, Exited})
    \<and> \<not> pending (native (world_of c)) \<and> (\<forall>r x. refs (native (world_of c)) r \<noteq> Some (Local_ref, x))
    \<and> (\<forall>k. worklet (world_of c) = Some k \<and> android_context (options k) \<noteq> NULL
        \<longrightarrow> (\<exists>x. refs (native (world_of c)) (android_context (options k)) = Some (Global_ref, x)))"
proof -
  have i: "jvm_ready (entered (thread_at c)) (native (world_of c))"
      "held_inv (\<lambda>k. context_held k (native (world_of c))) (worklet (world_of c))"
    using android_reached_inv [OF assms] by (simp_all add: cycle_inv_def world_inv_def)
  have "entered (thread_at c)
      = (thread_at c \<in> {Set_up, Opened, Referenced, Waiting, Released, In_module, Looping, Retired, Detached, Shut, Exited})"
    by (cases "thread_at c") simp_all
  then show ?thesis using i by (auto simp: jvm_ready_def held_inv_def context_held_def)
qed

section \<open>A life\<close>

text \<open>On a device whose host hands over its context.\<close>

definition droid_options :: bare_worklet_options_t where
  "droid_options = zero_options\<lparr>android_context := 1\<rparr>"

lemma droid_before_life: "before_life (android_may_create (Some droid_options)) droid_world 0"
proof -
  have "world_ok droid_world" by (simp add: world_ok_def heap_ok_def droid_world_def)
  then have "ipc_ok droid_world"
    by (simp add: ipc_ok_def addresses_ok_def served_def) (simp add: droid_world_def NULL_def)
  moreover have "env_ok droid_world" by (simp add: env_ok_def droid_world_def)
  moreover have "native droid_world = droid" by (simp add: droid_world_def)
  ultimately show ?thesis
    using droid_ready droid_offered
    by (simp add: before_life_def android_may_create_def droid_options_def) (simp add: droid_world_def)
qed

lemma some_android_life:
  "\<exists>w' k. reached android_platform android_may_create js inst (new_life w' 0) \<and> worklet w' = Some k
    \<and> android_context (options k) = 3"
proof -
  have ok: "world_ok droid_world" "queue droid_world = None" "brk droid_world = 5"
    using droid_world_ok by (simp_all add: world_ok_def) (simp_all add: droid_world_def)
  have "\<exists>p w' k. bare_worklet_create android_platform no_garbage no_garbage (Some droid_options) droid_world = Some ((0, p), w')
      \<and> worklet w' = Some k \<and> android_context (options k) = 3"
    by (simp add: bare_worklet_create_def calloc_worklet_def calloc_state_def malloc_struct_def create_eq
        once_init_def bare_worklet__on_init_def emit_ok_def emit_def android_platform_def default_platform_def default_defs
        android_retain_context_def invocation_defs NewGlobalRef_def may_call_def object_at_def
        droid_world_def droid_def droid_env_def droid_options_def zero_options_def NULL_def zero_worklet_def Let_def)
  then obtain p w' k where c: "bare_worklet_create android_platform no_garbage no_garbage (Some droid_options) droid_world = Some ((0, p), w')"
      "worklet w' = Some k" "android_context (options k) = 3" by blast
  show ?thesis
    using reached.created [where ok = android_may_create and opts = "Some droid_options", OF droid_before_life c(1)] c(2,3)
    by blast
qed

theorem android_worklet_never_faults_witness:
  "\<exists>(w :: jvm_state wworld) c'. cycle_step android_platform 11 10 (Start 9 ''/app.js'' None 0 []) (new_life w 0) = Some c'"
proof -
  obtain w where w: "reached android_platform android_may_create 11 10 (new_life w 0)"
    using some_android_life by blast
  have "\<exists>c'. cycle_step android_platform 11 10 (Start 9 ''/app.js'' None 0 []) (new_life w 0) = Some c'"
    by (rule android_worklet_never_faults [OF w]) (simp_all add: NULL_def may_def new_life_def)
  then show ?thesis by blast
qed

theorem android_thread_and_context_witness:
  "\<exists>(w :: jvm_state wworld) k x. worklet w = Some k \<and> \<not> on_jvm (native w) Worklet_thread \<and> \<not> pending (native w)
    \<and> android_context (options k) = 3 \<and> refs (native w) 3 = Some (Global_ref, x)"
proof -
  obtain w k where w: "reached android_platform android_may_create 11 10 (new_life w 0)" "worklet w = Some k"
      "android_context (options k) = 3"
    using some_android_life by blast
  have n: "(10::nat) \<noteq> NULL" "(3::nat) \<noteq> NULL" by (simp_all add: NULL_def)
  have "\<not> on_jvm (native w) Worklet_thread \<and> \<not> pending (native w) \<and> (\<exists>x. refs (native w) 3 = Some (Global_ref, x))"
    using android_thread_and_context [OF w(1) n(1)] w(2,3) n(2) by (simp add: new_life_def)
  then show ?thesis using w(2,3) by blast
qed

end
