(* ===== verification/Ipc_Wakes.thy ===== *)
theory Ipc_Wakes
  imports Machine
begin

text \<open>
  What \<open>src/ipc.h\<close> asks of a platform's wakes: \<open>bare_ipc__signal\<close> from any thread makes the poll
  be called back, one callback at a time; \<open>bare_ipc__set_poll\<close> waits for a running callback,
  unless called from it, so that a detached poll may be freed; \<open>bare_ipc__signal_destroy\<close>
  ends all of it, from a callback too.

  \<open>wake_do\<close> is the abstract specification, one step for each thing that can be told from
  outside. The locale \<open>wakes_provider\<close> says what an implementation with threads of its own
  comes to, and the lemmas proved in it hold of each that does.
\<close>

section \<open>The specification\<close>

datatype wake_phase = Alive | Ending | Ended

record wakes =
  wake_phase :: wake_phase
  attached_poll :: ptr
  calling :: "ptr option" \<comment> \<open>the poll whose callback runs\<close>
  due :: bool \<comment> \<open>signalled since the last callback began\<close>

datatype wake_event =
    Signal
  | Set_poll ptr \<comment> \<open>returns, on any other thread\<close>
  | Set_poll_within ptr \<comment> \<open>from a callback\<close>
  | Call
  | Return
  | Destroy_enter \<comment> \<open>on any other thread\<close>
  | Destroy_return
  | Destroy_within

definition new_wakes :: wakes where
  "new_wakes = \<lparr>wake_phase = Alive, attached_poll = NULL, calling = None, due = False\<rparr>"

text \<open>\<open>None\<close>: not at this time.\<close>

definition provided :: "bool \<Rightarrow> 'a \<Rightarrow> 'a option" where
  "provided b x = (if b then Some x else None)"

lemma provided_simps [simp]: "provided True x = Some x" "provided False x = None"
  by (simp_all add: provided_def)

lemma provided_eq [simp]: "provided b x = Some y \<longleftrightarrow> b \<and> x = y"
  by (simp add: provided_def)

primrec wake_do :: "wake_event \<Rightarrow> wakes \<Rightarrow> wakes option" where
  "wake_do Signal s = provided (wake_phase s = Alive) (s\<lparr>due := True\<rparr>)"
| "wake_do (Set_poll p) s = provided (wake_phase s = Alive \<and> calling s = None) (s\<lparr>attached_poll := p\<rparr>)"
| "wake_do (Set_poll_within p) s = provided (wake_phase s \<noteq> Ended \<and> calling s \<noteq> None) (s\<lparr>attached_poll := p\<rparr>)"
| "wake_do Call s = provided (wake_phase s = Alive \<and> due s \<and> calling s = None)
     (s\<lparr>calling := Some (attached_poll s), due := False\<rparr>)"
| "wake_do Return s = provided (calling s \<noteq> None) (s\<lparr>calling := None\<rparr>)"
| "wake_do Destroy_enter s = provided (wake_phase s = Alive) (s\<lparr>wake_phase := Ending, due := False\<rparr>)"
| "wake_do Destroy_return s = provided (wake_phase s = Ending \<and> calling s = None) (s\<lparr>wake_phase := Ended\<rparr>)"
| "wake_do Destroy_within s = provided (wake_phase s = Alive \<and> calling s \<noteq> None) (s\<lparr>wake_phase := Ended, due := False\<rparr>)"

fun wakes_run :: "wake_event list \<Rightarrow> wakes \<Rightarrow> wakes option" where
  "wakes_run [] s = Some s"
| "wakes_run (e # es) s = Option.bind (wake_do e s) (wakes_run es)"

lemma wakes_run_append: "wakes_run (es @ fs) s = Option.bind (wakes_run es s) (wakes_run fs)"
proof (induction es arbitrary: s)
  case (Cons e es)
  then show ?case by (cases "wake_do e s") simp_all
qed simp

text \<open>From the return of \<open>bare_ipc__set_poll\<close> to the next attachment only the new poll is called back.\<close>

definition attaches :: "wake_event \<Rightarrow> bool" where
  "attaches e \<longleftrightarrow> (\<exists>p. e = Set_poll p \<or> e = Set_poll_within p)"

lemma only_attached:
  assumes "wakes_run es s = Some s'" and "\<forall>e \<in> set es. \<not> attaches e"
    and "attached_poll s = p" and "calling s \<in> {None, Some p}"
  shows "attached_poll s' = p \<and> calling s' \<in> {None, Some p}"
  using assms
proof (induction es arbitrary: s)
  case Nil
  then show ?case by simp
next
  case (Cons e es)
  then obtain s1 where s1: "wake_do e s = Some s1" "wakes_run es s1 = Some s'" by (auto simp: bind_eq_Some_conv)
  have "attached_poll s1 = p \<and> calling s1 \<in> {None, Some p}"
    using s1(1) Cons.prems(2-4) by (cases e) (auto simp: attaches_def)
  then show ?case using Cons.IH [OF s1(2)] Cons.prems(2) by simp
qed

lemma detached_silent:
  assumes "wakes_run (es @ Set_poll p # fs) s = Some s'" and "\<forall>e \<in> set fs. \<not> attaches e"
  shows "calling s' \<in> {None, Some p}"
proof -
  obtain u v where u: "wake_do (Set_poll p) u = Some v" "wakes_run fs v = Some s'"
    using assms(1) by (auto simp: wakes_run_append bind_eq_Some_conv)
  then show ?thesis using only_attached [OF u(2) assms(2), of p] by auto
qed

text \<open>Once the signal is destroyed nothing is called back any more.\<close>

lemma ended_silent:
  assumes "wakes_run es s = Some s'" and "wake_phase s = Ended"
  shows "wake_phase s' = Ended \<and> Call \<notin> set es \<and> (calling s' = None \<or> calling s' = calling s)"
  using assms
proof (induction es arbitrary: s)
  case Nil
  then show ?case by simp
next
  case (Cons e es)
  then obtain s1 where s1: "wake_do e s = Some s1" "wakes_run es s1 = Some s'" by (auto simp: bind_eq_Some_conv)
  have "wake_phase s1 = Ended \<and> e \<noteq> Call \<and> (calling s1 = None \<or> calling s1 = calling s)"
    using s1(1) Cons.prems(2) by (cases e) auto
  then show ?case using Cons.IH [OF s1(2)] by auto
qed

lemma destroyed_not_alive:
  assumes "wakes_run es s = Some s'" and "Destroy_enter \<in> set es \<or> Destroy_within \<in> set es"
  shows "wake_phase s' \<noteq> Alive"
proof -
  have stays: "wake_phase v \<noteq> Alive" if "wakes_run fs u = Some v" "wake_phase u \<noteq> Alive" for fs u v
    using that
  proof (induction fs arbitrary: u)
    case (Cons f fs)
    then obtain u1 where u1: "wake_do f u = Some u1" "wakes_run fs u1 = Some v" by (auto simp: bind_eq_Some_conv)
    have "wake_phase u1 \<noteq> Alive" using u1(1) Cons.prems(2) by (cases f) auto
    then show ?case using Cons.IH u1(2) by blast
  qed simp
  obtain d fs gs where "es = fs @ d # gs" "d = Destroy_enter \<or> d = Destroy_within"
    using assms(2) by (metis split_list)
  then obtain u v where u: "wake_do d u = Some v" "wakes_run gs v = Some s'"
    using assms(1) by (auto simp: wakes_run_append bind_eq_Some_conv)
  have "wake_phase v \<noteq> Alive" using u(1) \<open>d = Destroy_enter \<or> d = Destroy_within\<close> by auto
  then show ?thesis by (rule stays [OF u(2)])
qed

section \<open>Implementations\<close>

text \<open>
  An implementation steps through events of its own, some of which are seen from outside. What
  is seen of a run is its trace.
\<close>

inductive traced :: "'s \<Rightarrow> ('e \<Rightarrow> 's \<Rightarrow> bool) \<Rightarrow> ('e \<Rightarrow> 's \<Rightarrow> 's option) \<Rightarrow> ('e \<Rightarrow> 's \<Rightarrow> wake_event list)
    \<Rightarrow> wake_event list \<Rightarrow> 's \<Rightarrow> bool"
  for start :: 's and may :: "'e \<Rightarrow> 's \<Rightarrow> bool" and step :: "'e \<Rightarrow> 's \<Rightarrow> 's option"
    and seen :: "'e \<Rightarrow> 's \<Rightarrow> wake_event list" where
  begun: "traced start may step seen [] start"
| stepped: "traced start may step seen ls c \<Longrightarrow> may e c \<Longrightarrow> step e c = Some c'
    \<Longrightarrow> traced start may step seen (ls @ seen e c) c'"

text \<open>What the platform does by itself.\<close>

fun platform_run :: "('e \<Rightarrow> 's \<Rightarrow> bool) \<Rightarrow> ('e \<Rightarrow> 's \<Rightarrow> 's option) \<Rightarrow> ('e \<Rightarrow> 's \<Rightarrow> wake_event list)
    \<Rightarrow> 'e list \<Rightarrow> 's \<Rightarrow> (wake_event list \<times> 's) option" where
  "platform_run may step seen [] c = Some ([], c)"
| "platform_run may step seen (e # es) c =
     (if may e c \<and> set (seen e c) \<subseteq> {Call, Return, Destroy_return}
      then do {
        c' \<leftarrow> step e c;
        (ls, d) \<leftarrow> platform_run may step seen es c';
        Some (seen e c @ ls, d)
      }
      else None)"

text \<open>
  The laws: every event that may come runs and is what the specification does; and as long as a
  callback is due, or a destroyed signal is not all freed, the platform has something to do,
  of which there is only so much.
\<close>

definition unsettled :: "bool \<Rightarrow> wakes \<Rightarrow> bool" where
  "unsettled freed s \<longleftrightarrow> (if wake_phase s = Alive then due s else \<not> freed)"

locale wakes_provider =
  fixes start :: 's
    and may :: "'e \<Rightarrow> 's \<Rightarrow> bool"
    and step :: "'e \<Rightarrow> 's \<Rightarrow> 's option"
    and seen :: "'e \<Rightarrow> 's \<Rightarrow> wake_event list"
    and abs :: "'s \<Rightarrow> wakes"
    and good :: "'s \<Rightarrow> bool"
    and freed :: "'s \<Rightarrow> bool"
    and work :: "'s \<Rightarrow> nat"
  assumes start: "good start" "abs start = new_wakes"
    and simulates: "good c \<Longrightarrow> may e c \<Longrightarrow>
      \<exists>c'. step e c = Some c' \<and> good c' \<and> wakes_run (seen e c) (abs c) = Some (abs c')"
    and works: "good c \<Longrightarrow> unsettled (freed c) (abs c) \<Longrightarrow>
      \<exists>e. may e c \<and> set (seen e c) \<subseteq> {Call, Return, Destroy_return}
        \<and> (\<forall>c'. step e c = Some c' \<longrightarrow> work c' < work c)"
    and freed: "good c \<Longrightarrow> freed c \<Longrightarrow> wake_phase (abs c) = Ended"
begin

lemma refines:
  assumes "traced start may step seen ls c"
  shows "good c \<and> wakes_run ls new_wakes = Some (abs c)"
  using assms
proof (induction rule: traced.induct)
  case begun
  then show ?case using start by simp
next
  case (stepped ls c e c')
  then show ?case using simulates [of c e] by (auto simp: wakes_run_append)
qed

lemma never_faults: "traced start may step seen ls c \<Longrightarrow> may e c \<Longrightarrow> step e c \<noteq> None"
  using refines [of ls c] simulates [of c e] by auto

lemma settles:
  assumes "good c"
  shows "\<exists>es ls c'. length es \<le> work c \<and> platform_run may step seen es c = Some (ls, c')
    \<and> wakes_run ls (abs c) = Some (abs c') \<and> good c' \<and> \<not> unsettled (freed c') (abs c')"
  using assms
proof (induction "work c" arbitrary: c rule: less_induct)
  case less
  show ?case
  proof (cases "unsettled (freed c) (abs c)")
    case True
    then obtain e where e: "may e c" "set (seen e c) \<subseteq> {Call, Return, Destroy_return}"
        "\<forall>c'. step e c = Some c' \<longrightarrow> work c' < work c"
      using works [OF less.prems] by blast
    obtain c1 where c1: "step e c = Some c1" "good c1" "wakes_run (seen e c) (abs c) = Some (abs c1)"
      using simulates [OF less.prems e(1)] by blast
    have l: "work c1 < work c" using e(3) c1(1) by simp
    obtain es ls d where "length es \<le> work c1" "platform_run may step seen es c1 = Some (ls, d)"
        "wakes_run ls (abs c1) = Some (abs d)" "good d" "\<not> unsettled (freed d) (abs d)"
      using less.hyps [OF l c1(2)] by blast
    then have "length (e # es) \<le> work c \<and> platform_run may step seen (e # es) c = Some (seen e c @ ls, d)
        \<and> wakes_run (seen e c @ ls) (abs c) = Some (abs d) \<and> good d \<and> \<not> unsettled (freed d) (abs d)"
      using e c1 l by (simp add: wakes_run_append)
    then show ?thesis by blast
  next
    case False
    then have "platform_run may step seen [] c = Some ([], c) \<and> wakes_run [] (abs c) = Some (abs c)
        \<and> \<not> unsettled (freed c) (abs c)" by simp
    then show ?thesis using less.prems by (metis le0 list.size(3))
  qed
qed

text \<open>A callback that is due is made, and a destroy returns and leaves nothing.\<close>

lemma platform_alive: "wakes_run ls s = Some s' \<Longrightarrow> set ls \<subseteq> {Call, Return, Destroy_return}
    \<Longrightarrow> (wake_phase s = Alive \<longrightarrow> wake_phase s' = Alive \<and> (due s \<and> \<not> due s' \<longrightarrow> Call \<in> set ls))
      \<and> (wake_phase s \<noteq> Alive \<longrightarrow> wake_phase s' \<noteq> Alive)"
proof (induction ls arbitrary: s)
  case Nil
  then show ?case by simp
next
  case (Cons l ls)
  then obtain s1 where s1: "wake_do l s = Some s1" "wakes_run ls s1 = Some s'" by (auto simp: bind_eq_Some_conv)
  show ?case using Cons.IH [OF s1(2)] Cons.prems(2) s1(1) by (auto split: if_splits)
qed

lemma platform_run_seen: "platform_run may step seen es c = Some (ls, c') \<Longrightarrow> set ls \<subseteq> {Call, Return, Destroy_return}"
proof (induction es arbitrary: c ls)
  case (Cons e es)
  then obtain c1 ms where "set (seen e c) \<subseteq> {Call, Return, Destroy_return}" "ls = seen e c @ ms"
      "platform_run may step seen es c1 = Some (ms, c')"
    by (auto simp: bind_eq_Some_conv split: if_splits)
  then show ?case using Cons.IH [of c1 ms] by simp
qed simp

lemma due_called:
  assumes "traced start may step seen ls c" and "wake_phase (abs c) = Alive" and "due (abs c)"
  shows "\<exists>es ms c'. length es \<le> work c \<and> platform_run may step seen es c = Some (ms, c') \<and> Call \<in> set ms"
proof -
  have g: "good c" using refines [OF assms(1)] by simp
  obtain es ms c' where d: "length es \<le> work c" "platform_run may step seen es c = Some (ms, c')"
      "wakes_run ms (abs c) = Some (abs c')" "\<not> unsettled (freed c') (abs c')"
    using settles [OF g] by blast
  show ?thesis
    using d platform_alive [OF d(3) platform_run_seen [OF d(2)]] assms(2,3) by (auto simp: unsettled_def)
qed

lemma destroy_done:
  assumes "traced start may step seen ls c" and "wake_phase (abs c) \<noteq> Alive"
  shows "\<exists>es ms c'. length es \<le> work c \<and> platform_run may step seen es c = Some (ms, c') \<and> Call \<notin> set ms
    \<and> wake_phase (abs c') = Ended \<and> freed c'"
proof -
  have g: "good c" using refines [OF assms(1)] by simp
  obtain es ms c' where d: "length es \<le> work c" "platform_run may step seen es c = Some (ms, c')"
      "wakes_run ms (abs c) = Some (abs c')" "good c'" "\<not> unsettled (freed c') (abs c')"
    using settles [OF g] by blast
  have n: "wake_phase (abs c') \<noteq> Alive" using platform_alive [OF d(3) platform_run_seen [OF d(2)]] assms(2) by simp
  have "Call \<notin> set ks" if "wakes_run ks s = Some s'" "wake_phase s \<noteq> Alive" "set ks \<subseteq> {Call, Return, Destroy_return}" for ks s s'
    using that
  proof (induction ks arbitrary: s)
    case (Cons k ks)
    then obtain s1 where "wake_do k s = Some s1" "wakes_run ks s1 = Some s'" by (auto simp: bind_eq_Some_conv)
    then show ?case using Cons.IH [of s1] Cons.prems(2,3) by auto
  qed simp
  then have "Call \<notin> set ms" using d(3) assms(2) platform_run_seen [OF d(2)] by blast
  then show ?thesis using d n freed [OF d(4)] by (auto simp: unsettled_def)
qed

end

end
