(* ===== verification/Wakes_Standalone.thy ===== *)
theory Wakes_Standalone
  imports Ipc_Wakes
begin

text \<open>
  The wakes of \<open>src/standalone/ipc.c\<close> with their threads: the signal's thread runs a loop over
  two \<open>uv_async_t\<close>, other threads signal, attach polls and destroy, and all of it interleaves
  except where \<open>running\<close> is held. \<open>Ipc_Signal\<close> has the same functions as a host calls them one
  after the other, with their allocations; here each is cut where a thread may wait.
\<close>

section \<open>The signal and its thread\<close>

text \<open>
  Where the signal's thread is: waiting in the loop, in a callback of a poll with \<open>running\<close>
  held, with both handles closed, or gone.
\<close>

datatype signal_pc = Polling | Calling_back ptr | Handles_closed | Gone

record standalone_signal =
  sa_struct :: bool \<comment> \<open>the signal is allocated\<close>
  sa_ipc :: bool \<comment> \<open>the ipc is allocated\<close>
  sa_poll :: ptr \<comment> \<open>\<open>poll\<close> of the ipc\<close>
  sa_attached :: bool \<comment> \<open>\<open>ipc\<close> of the signal is not \<open>NULL\<close>\<close>
  sa_detached :: bool
  sa_wake :: bool \<comment> \<open>sent and not yet seen by the loop\<close>
  sa_close :: bool
  sa_pc :: signal_pc
  sa_joining :: bool \<comment> \<open>a thread is in \<open>uv_thread_join\<close>\<close>

text \<open>After \<open>bare_ipc__signal_init\<close>.\<close>

definition sa_start :: standalone_signal where
  "sa_start = \<lparr>sa_struct = True, sa_ipc = True, sa_poll = NULL, sa_attached = True, sa_detached = False,
     sa_wake = False, sa_close = False, sa_pc = Polling, sa_joining = False\<rparr>"

text \<open>A send to a handle that is closed is a fault; several that are not yet seen are one.\<close>

definition sa_signal :: "standalone_signal \<Rightarrow> standalone_signal option" where
  "sa_signal s = do {
     _ \<leftarrow> c_assert (sa_struct s);
     _ \<leftarrow> c_assert (sa_pc s \<notin> {Handles_closed, Gone});
     Some (s\<lparr>sa_wake := True\<rparr>)
   }"

text \<open>The start of a wake, up to the callback, with \<open>running\<close> held from here on if there is one.\<close>

definition sa_on_wake :: "standalone_signal \<Rightarrow> standalone_signal option" where
  "sa_on_wake s = do {
     _ \<leftarrow> c_assert (sa_struct s);
     let s = s\<lparr>sa_wake := False\<rparr>;
     if sa_attached s then do {
       _ \<leftarrow> c_assert (sa_ipc s);
       Some (s\<lparr>sa_pc := Calling_back (sa_poll s)\<rparr>)
     } else Some s
   }"

text \<open>The end of a wake: the mutex is still there to be unlocked.\<close>

definition sa_wake_done :: "standalone_signal \<Rightarrow> standalone_signal option" where
  "sa_wake_done s = do {
     _ \<leftarrow> c_assert (sa_struct s);
     Some (s\<lparr>sa_pc := Polling\<rparr>)
   }"

definition sa_on_close :: "standalone_signal \<Rightarrow> standalone_signal option" where
  "sa_on_close s = do {
     _ \<leftarrow> c_assert (sa_struct s);
     Some (s\<lparr>sa_close := False, sa_pc := Handles_closed\<rparr>)
   }"

definition sa_thread_end :: "standalone_signal \<Rightarrow> standalone_signal option" where
  "sa_thread_end s = do {
     _ \<leftarrow> c_assert (sa_struct s);
     let s = (if sa_detached s then s\<lparr>sa_struct := False\<rparr> else s);
     Some (s\<lparr>sa_pc := Gone\<rparr>)
   }"

definition sa_set_poll :: "ptr \<Rightarrow> standalone_signal \<Rightarrow> standalone_signal option" where
  "sa_set_poll poll s = do {
     _ \<leftarrow> c_assert (sa_ipc s \<and> sa_struct s);
     Some (s\<lparr>sa_poll := poll\<rparr>)
   }"

text \<open>
  \<open>bare_ipc__signal_destroy\<close>, up to the wait for the thread. From the signal's own thread there
  is none, and \<open>bare_ipc_destroy\<close> goes on to free the ipc.
\<close>

definition sa_destroy :: "bool \<Rightarrow> standalone_signal \<Rightarrow> standalone_signal option" where
  "sa_destroy own s = do {
     _ \<leftarrow> c_assert (sa_struct s);
     let s = s\<lparr>sa_attached := False\<rparr>;
     _ \<leftarrow> c_assert (sa_pc s \<notin> {Handles_closed, Gone});
     let s = s\<lparr>sa_close := True\<rparr>;
     if own then Some (s\<lparr>sa_detached := True, sa_ipc := False\<rparr>)
     else Some (s\<lparr>sa_joining := True\<rparr>)
   }"

definition sa_joined :: "standalone_signal \<Rightarrow> standalone_signal option" where
  "sa_joined s = do {
     _ \<leftarrow> c_assert (sa_struct s);
     Some (s\<lparr>sa_joining := False, sa_struct := False, sa_ipc := False\<rparr>)
   }"

section \<open>Interleaving\<close>

text \<open>
  \<open>own\<close>: on the signal's thread, that is, from a callback, where \<open>running\<close> is held already; any
  other thread waits for it.
\<close>

datatype sa_event = Sa_signal | Sa_on_wake | Sa_wake_done | Sa_on_close | Sa_thread_end
  | Sa_set_poll bool ptr | Sa_destroy bool | Sa_joined

primrec sa_step :: "sa_event \<Rightarrow> standalone_signal \<Rightarrow> standalone_signal option" where
  "sa_step Sa_signal = sa_signal"
| "sa_step Sa_on_wake = sa_on_wake"
| "sa_step Sa_wake_done = sa_wake_done"
| "sa_step Sa_on_close = sa_on_close"
| "sa_step Sa_thread_end = sa_thread_end"
| "sa_step (Sa_set_poll own poll) = sa_set_poll poll"
| "sa_step (Sa_destroy own) = sa_destroy own"
| "sa_step Sa_joined = sa_joined"

definition sa_calling :: "standalone_signal \<Rightarrow> ptr option" where
  "sa_calling s = (case sa_pc s of Calling_back poll \<Rightarrow> Some poll | _ \<Rightarrow> None)"

text \<open>The interface, libuv and the mutex: an ipc is used up to its destruction.\<close>

primrec sa_may :: "sa_event \<Rightarrow> standalone_signal \<Rightarrow> bool" where
  "sa_may Sa_signal s = sa_attached s"
| "sa_may Sa_on_wake s = (sa_wake s \<and> sa_pc s = Polling)"
| "sa_may Sa_wake_done s = (sa_calling s \<noteq> None)"
| "sa_may Sa_on_close s = (sa_close s \<and> sa_pc s = Polling)"
| "sa_may Sa_thread_end s = (sa_pc s = Handles_closed)"
| "sa_may (Sa_set_poll own poll) s = (sa_attached s \<and> own = (sa_calling s \<noteq> None))"
| "sa_may (Sa_destroy own) s = (sa_attached s \<and> own = (sa_calling s \<noteq> None))"
| "sa_may Sa_joined s = (sa_joining s \<and> sa_pc s = Gone)"

primrec sa_seen :: "sa_event \<Rightarrow> standalone_signal \<Rightarrow> wake_event list" where
  "sa_seen Sa_signal s = [Signal]"
| "sa_seen Sa_on_wake s = (if sa_attached s then [Call] else [])"
| "sa_seen Sa_wake_done s = [Return]"
| "sa_seen Sa_on_close s = []"
| "sa_seen Sa_thread_end s = []"
| "sa_seen (Sa_set_poll own poll) s = [if own then Set_poll_within poll else Set_poll poll]"
| "sa_seen (Sa_destroy own) s = [if own then Destroy_within else Destroy_enter]"
| "sa_seen Sa_joined s = [Destroy_return]"

section \<open>The specification is met\<close>

definition sa_abs :: "standalone_signal \<Rightarrow> wakes" where
  "sa_abs s = \<lparr>wake_phase = (if sa_attached s then Alive else if sa_joining s then Ending else Ended),
     attached_poll = sa_poll s, calling = sa_calling s, due = sa_attached s \<and> sa_wake s\<rparr>"

definition sa_good :: "standalone_signal \<Rightarrow> bool" where
  "sa_good s \<longleftrightarrow>
     (if sa_attached s then sa_struct s \<and> sa_ipc s \<and> \<not> sa_detached s \<and> \<not> sa_close s \<and> \<not> sa_joining s
        \<and> sa_pc s \<notin> {Handles_closed, Gone}
      else if sa_joining s then sa_struct s \<and> sa_ipc s \<and> \<not> sa_detached s \<and> sa_calling s = None
        \<and> (sa_close s \<longleftrightarrow> sa_pc s = Polling)
      else \<not> sa_ipc s \<and> (if sa_detached s then (sa_struct s \<longleftrightarrow> sa_pc s \<noteq> Gone)
            \<and> (sa_close s \<longleftrightarrow> sa_pc s \<notin> {Handles_closed, Gone})
          else \<not> sa_struct s \<and> sa_pc s = Gone \<and> \<not> sa_close s))"

text \<open>Nothing is left: neither struct, nor the thread.\<close>

definition sa_freed :: "standalone_signal \<Rightarrow> bool" where
  "sa_freed s \<longleftrightarrow> \<not> sa_struct s \<and> \<not> sa_ipc s \<and> sa_pc s = Gone"

definition sa_work :: "standalone_signal \<Rightarrow> nat" where
  "sa_work s = (case sa_pc s of Calling_back poll \<Rightarrow> 4 | Polling \<Rightarrow> 3 | Handles_closed \<Rightarrow> 2 | Gone \<Rightarrow> 1)
     + (if sa_attached s \<and> sa_wake s then 2 else 0) - (if sa_joining s then 0 else 1)"

lemmas sa_defs = sa_signal_def sa_on_wake_def sa_wake_done_def sa_on_close_def sa_thread_end_def
  sa_set_poll_def sa_destroy_def sa_joined_def

interpretation standalone: wakes_provider sa_start sa_may sa_step sa_seen sa_abs sa_good sa_freed sa_work
proof unfold_locales
  show "sa_good sa_start" "sa_abs sa_start = new_wakes"
    by (simp_all add: sa_start_def sa_good_def sa_abs_def sa_calling_def new_wakes_def)
next
  fix c e
  assume g: "sa_good c" and m: "sa_may e c"
  show "\<exists>c'. sa_step e c = Some c' \<and> sa_good c' \<and> wakes_run (sa_seen e c) (sa_abs c) = Some (sa_abs c')"
    using g m unfolding sa_good_def
    by (cases "sa_attached c"; cases "sa_joining c"; cases "sa_detached c"; cases "sa_pc c"; cases e)
      (simp_all add: sa_defs sa_abs_def sa_calling_def)
next
  fix c
  assume g: "sa_good c" and u: "unsettled (sa_freed c) (sa_abs c)"
  let ?e = "case sa_pc c of Calling_back poll \<Rightarrow> Sa_wake_done
    | Polling \<Rightarrow> if sa_attached c then Sa_on_wake else Sa_on_close | Handles_closed \<Rightarrow> Sa_thread_end | Gone \<Rightarrow> Sa_joined"
  have "sa_may ?e c \<and> set (sa_seen ?e c) \<subseteq> {Call, Return, Destroy_return}
      \<and> (\<forall>c'. sa_step ?e c = Some c' \<longrightarrow> sa_work c' < sa_work c)"
    using g u unfolding sa_good_def
    by (cases "sa_attached c"; cases "sa_joining c"; cases "sa_detached c"; cases "sa_pc c")
      (auto simp: sa_defs sa_abs_def sa_calling_def unsettled_def sa_freed_def sa_work_def)
  then show "\<exists>e. sa_may e c \<and> set (sa_seen e c) \<subseteq> {Call, Return, Destroy_return}
      \<and> (\<forall>c'. sa_step e c = Some c' \<longrightarrow> sa_work c' < sa_work c)" by blast
next
  show "wake_phase (sa_abs c) = Ended" if "sa_good c" "sa_freed c" for c
    using that by (auto simp: sa_good_def sa_freed_def sa_abs_def split: if_splits)
qed

section \<open>The properties\<close>

text \<open>
  C27: The wakes on a thread of their own are what \<open>src/ipc.h\<close> asks for. Whatever the signal's
  thread, the worklet's and the host's do between each other's critical sections, none uses the
  signal, its handles or the ipc once they are gone, and what they see of it is a run of the
  specification: callbacks one at a time, of the poll attached, none after the end.
\<close>

theorem standalone_refines_wakes:
  assumes "traced sa_start sa_may sa_step sa_seen ls s"
  shows "wakes_run ls new_wakes = Some (sa_abs s) \<and> (\<forall>e. sa_may e s \<longrightarrow> (\<exists>s'. sa_step e s = Some s'))"
  using standalone.refines [OF assms] standalone.never_faults [OF assms] by auto

text \<open>
  A poll that was detached is not called back once \<open>bare_ipc__set_poll\<close> has returned, so that it
  may be freed.
\<close>

theorem standalone_detached_poll:
  assumes "traced sa_start sa_may sa_step sa_seen (ls @ Set_poll p # ms) s" and "\<forall>e \<in> set ms. \<not> attaches e"
  shows "sa_calling s \<in> {None, Some p}"
  using detached_silent [OF conjunct2 [OF standalone.refines [OF assms(1)]] assms(2)] by (simp add: sa_abs_def)

text \<open>No signal is lost: one that came since the last callback began has a callback follow.\<close>

theorem standalone_signal_served:
  assumes "traced sa_start sa_may sa_step sa_seen ls s" and "wake_phase (sa_abs s) = Alive" and "due (sa_abs s)"
  shows "\<exists>es ms s'. length es \<le> 5 \<and> platform_run sa_may sa_step sa_seen es s = Some (ms, s') \<and> Call \<in> set ms"
proof -
  have "sa_good s" using standalone.refines [OF assms(1)] by simp
  then have "sa_work s \<le> 5"
    using assms(2) by (auto simp: sa_good_def sa_work_def sa_abs_def split: signal_pc.splits if_splits)
  then show ?thesis using standalone.due_called [OF assms] by (meson le_trans)
qed

text \<open>
  What is left once a destruction has begun: the callback that runs, a wake that was sent and is not
  yet seen, the close of the handles, the end of the thread, the join.
\<close>

definition sa_left :: "standalone_signal \<Rightarrow> nat" where
  "sa_left s = (case sa_pc s of Calling_back poll \<Rightarrow> 3 | Polling \<Rightarrow> 2 | Handles_closed \<Rightarrow> 1 | Gone \<Rightarrow> 0)
     + (if sa_joining s then 1 else 0) + (if sa_wake s \<and> sa_pc s \<notin> {Handles_closed, Gone} then 1 else 0)"

lemma sa_left_bound: "sa_good s \<Longrightarrow> \<not> sa_attached s \<Longrightarrow> sa_left s \<le> 4"
  by (auto simp: sa_good_def sa_left_def sa_calling_def split: signal_pc.splits if_splits)

lemma sa_left_step:
  assumes "sa_good s" and "\<not> sa_attached s" and "sa_may e s" and "sa_step e s = Some s'"
  shows "sa_left s' < sa_left s \<and> \<not> sa_attached s' \<and> sa_seen e s \<in> {[], [Return], [Destroy_return]}"
  using assms unfolding sa_good_def
  by (cases "sa_joining s"; cases "sa_detached s"; cases "sa_pc s"; cases e) (auto simp: sa_defs sa_left_def sa_calling_def)

lemma sa_run_keeps:
  assumes "sa_good s" and "\<not> sa_attached s" and "platform_run sa_may sa_step sa_seen es s = Some (ms, s')"
  shows "sa_good s' \<and> \<not> sa_attached s' \<and> Call \<notin> set ms \<and> length es + sa_left s' \<le> sa_left s"
  using assms
proof (induction es arbitrary: s ms)
  case (Cons e es)
  obtain s1 ls where s1: "sa_may e s" "sa_step e s = Some s1" "ms = sa_seen e s @ ls"
      "platform_run sa_may sa_step sa_seen es s1 = Some (ls, s')"
    using Cons.prems(3) by (auto simp: bind_eq_Some_conv simp del: sa_step.simps split: if_splits)
  have g: "sa_good s1" using standalone.simulates [OF Cons.prems(1) s1(1)] s1(2) by auto
  note l = sa_left_step [OF Cons.prems(1,2) s1(1,2)]
  show ?case using Cons.IH [OF g _ s1(4)] l s1(3) by auto
qed simp

lemma platform_run_snoc:
  assumes "platform_run may step seen es c = Some (ls, c')" and "platform_run may step seen [e] c' = Some (ms, d)"
  shows "platform_run may step seen (es @ [e]) c = Some (ls @ ms, d)"
  using assms by (induction es arbitrary: c ls) (auto simp: bind_eq_Some_conv split: if_splits)

lemma sa_alone:
  assumes "sa_good s" and "\<not> sa_attached s" and "sa_may e s"
  shows "\<exists>r. platform_run sa_may sa_step sa_seen [e] s = Some r"
proof -
  obtain s' where s': "sa_step e s = Some s'" using standalone.simulates [OF assms(1,3)] by blast
  have "set (sa_seen e s) \<subseteq> {Call, Return, Destroy_return}" using sa_left_step [OF assms s'] by auto
  then show ?thesis using s' assms(3) by simp
qed

text \<open>
  C29: A destruction on any thread, a callback's included, comes to an end. From any point after it
  has begun, whatever may come is a step of the signal's thread or of the joining one; in every
  order of them there are at most four, none is a callback, and they only stop once the signal and
  the ipc are freed and the thread is gone. Four are the callback that destroys, or the join, with
  a wake that is still to be seen, the close of the handles and the end of the thread.
\<close>

theorem standalone_destroy_ends:
  assumes "traced sa_start sa_may sa_step sa_seen ls s" and "Destroy_enter \<in> set ls \<or> Destroy_within \<in> set ls"
    and "platform_run sa_may sa_step sa_seen es s = Some (ms, s')"
  shows "length es \<le> 4 \<and> Call \<notin> set ms
    \<and> (\<forall>e. sa_may e s' \<longrightarrow> (\<exists>r. platform_run sa_may sa_step sa_seen (es @ [e]) s = Some r))
    \<and> (sa_freed s' \<longleftrightarrow> (\<forall>e. \<not> sa_may e s')) \<and> (sa_freed s' \<longrightarrow> wake_phase (sa_abs s') = Ended)"
proof -
  have g: "sa_good s" "wakes_run ls new_wakes = Some (sa_abs s)" using standalone.refines [OF assms(1)] by simp_all
  have a: "\<not> sa_attached s" using destroyed_not_alive [OF g(2) assms(2)] by (auto simp: sa_abs_def)
  note k = sa_run_keeps [OF g(1) a assms(3)]
  have "\<exists>e. sa_may e s'" if "\<not> sa_freed s'"
  proof -
    have "unsettled (sa_freed s') (sa_abs s')" using k that by (simp add: unsettled_def sa_abs_def)
    then show ?thesis using standalone.works k by blast
  qed
  moreover have "\<not> sa_may e s'" if "sa_freed s'" for e
    using that k by (cases e) (auto simp: sa_freed_def sa_good_def sa_calling_def)
  moreover have "\<exists>r. platform_run sa_may sa_step sa_seen (es @ [e]) s = Some r" if "sa_may e s'" for e
    using sa_alone [OF _ _ that] k platform_run_snoc [OF assms(3)] by fastforce
  ultimately show ?thesis
    using k sa_left_bound [OF g(1) a] standalone.freed [of s'] by auto
qed

section \<open>A run\<close>

text \<open>An ipc with a poll that is destroyed by its callback.\<close>

lemmas sa_run_defs = sa_start_def sa_calling_def sa_abs_def sa_defs

lemma destroyed_in_callback: "traced sa_start sa_may sa_step sa_seen [Set_poll 5, Signal, Call, Destroy_within]
    (sa_start\<lparr>sa_poll := 5, sa_pc := Calling_back 5, sa_attached := False, sa_close := True, sa_detached := True, sa_ipc := False\<rparr>)"
proof -
  note t = stepped [where start = sa_start and may = sa_may and step = sa_step and seen = sa_seen]
  have 1: "traced sa_start sa_may sa_step sa_seen ([] @ sa_seen (Sa_set_poll False 5) sa_start) (sa_start\<lparr>sa_poll := 5\<rparr>)"
    by (rule t [OF begun]) (simp_all add: sa_run_defs)
  have 2: "traced sa_start sa_may sa_step sa_seen (([] @ sa_seen (Sa_set_poll False 5) sa_start)
      @ sa_seen Sa_signal (sa_start\<lparr>sa_poll := 5\<rparr>)) (sa_start\<lparr>sa_poll := 5, sa_wake := True\<rparr>)"
    by (rule t [OF 1]) (simp_all add: sa_run_defs)
  have 3: "traced sa_start sa_may sa_step sa_seen ((([] @ sa_seen (Sa_set_poll False 5) sa_start)
      @ sa_seen Sa_signal (sa_start\<lparr>sa_poll := 5\<rparr>)) @ sa_seen Sa_on_wake (sa_start\<lparr>sa_poll := 5, sa_wake := True\<rparr>))
      (sa_start\<lparr>sa_poll := 5, sa_pc := Calling_back 5\<rparr>)"
    by (rule t [OF 2]) (simp_all add: sa_run_defs)
  have "traced sa_start sa_may sa_step sa_seen (((([] @ sa_seen (Sa_set_poll False 5) sa_start)
      @ sa_seen Sa_signal (sa_start\<lparr>sa_poll := 5\<rparr>)) @ sa_seen Sa_on_wake (sa_start\<lparr>sa_poll := 5, sa_wake := True\<rparr>))
      @ sa_seen (Sa_destroy True) (sa_start\<lparr>sa_poll := 5, sa_pc := Calling_back 5\<rparr>))
      (sa_start\<lparr>sa_poll := 5, sa_pc := Calling_back 5, sa_attached := False, sa_close := True, sa_detached := True, sa_ipc := False\<rparr>)"
    by (rule t [OF 3]) (simp_all add: sa_run_defs)
  then show ?thesis by (simp add: sa_run_defs)
qed

theorem standalone_refines_wakes_witness:
  "\<exists>s. wakes_run [Set_poll 5, Signal, Call, Destroy_within] new_wakes = Some (sa_abs s)"
  using destroyed_in_callback standalone_refines_wakes by blast

theorem standalone_detached_poll_witness:
  "\<exists>s. traced sa_start sa_may sa_step sa_seen [Set_poll 5, Signal, Call, Destroy_within] s \<and> sa_calling s \<in> {None, Some 5}"
proof -
  obtain s where s: "traced sa_start sa_may sa_step sa_seen ([] @ Set_poll 5 # tl [Set_poll 5, Signal, Call, Destroy_within]) s"
    using destroyed_in_callback by auto
  have "sa_calling s \<in> {None, Some 5}" by (rule standalone_detached_poll [OF s]) (simp add: attaches_def)
  then show ?thesis using s by auto
qed

theorem standalone_signal_served_witness:
  "\<exists>es ms s'. platform_run sa_may sa_step sa_seen es (sa_start\<lparr>sa_wake := True\<rparr>) = Some (ms, s') \<and> Call \<in> set ms"
proof -
  have "traced sa_start sa_may sa_step sa_seen ([] @ sa_seen Sa_signal sa_start) (sa_start\<lparr>sa_wake := True\<rparr>)"
    by (rule stepped [OF begun]) (simp_all add: sa_run_defs)
  then show ?thesis using standalone_signal_served [of _ "sa_start\<lparr>sa_wake := True\<rparr>"] by (fastforce simp: sa_run_defs)
qed

theorem standalone_destroy_ends_witness:
  "\<exists>s ms s'. traced sa_start sa_may sa_step sa_seen [Set_poll 5, Signal, Call, Destroy_within] s
    \<and> platform_run sa_may sa_step sa_seen [Sa_wake_done, Sa_on_close, Sa_thread_end] s = Some (ms, s') \<and> sa_freed s'
    \<and> wake_phase (sa_abs s') = Ended"
proof -
  let ?es = "[Sa_wake_done, Sa_on_close, Sa_thread_end]"
  let ?s = "sa_start\<lparr>sa_poll := 5, sa_pc := Calling_back 5, sa_attached := False, sa_close := True, sa_detached := True, sa_ipc := False\<rparr>"
  let ?d = "?s\<lparr>sa_pc := Gone, sa_close := False, sa_struct := False\<rparr>"
  have r: "platform_run sa_may sa_step sa_seen ?es ?s = Some ([Return], ?d)" by (simp add: sa_run_defs)
  have d: "\<not> sa_may e ?d" for e by (cases e) (simp_all add: sa_run_defs)
  show ?thesis using standalone_destroy_ends [OF destroyed_in_callback _ r] d destroyed_in_callback r by fastforce
qed

text \<open>Four steps there are if a wake comes just before the destruction.\<close>

lemma four_steps_left:
  "\<exists>ms s'. platform_run sa_may sa_step sa_seen [Sa_on_wake, Sa_on_close, Sa_thread_end, Sa_joined]
    (sa_start\<lparr>sa_wake := True, sa_attached := False, sa_close := True, sa_joining := True\<rparr>) = Some (ms, s') \<and> sa_freed s'"
  by (simp add: sa_run_defs sa_freed_def)

end
