(* ===== verification/Wakes_Apple.thy ===== *)
theory Wakes_Apple
  imports Ipc_Wakes
begin

text \<open>
  The wakes of \<open>src/apple/ipc.m\<close>: a dispatch source whose data are the signals and whose event
  handler, on a serial queue of its own, dispatches. Other threads signal, attach polls and
  destroy meanwhile.

  What the program relies on of Grand Central Dispatch is in \<open>gcd_may\<close>: a serial queue runs one
  block at a time, a source hands merged data to its event handler once and never after it was
  cancelled, and the cancel handler runs once no event handler does.
\<close>

section \<open>The signal, its queue and its source\<close>

record apple_signal =
  ap_struct :: bool \<comment> \<open>the signal is allocated\<close>
  ap_ipc :: bool \<comment> \<open>the ipc is allocated\<close>
  ap_poll :: ptr \<comment> \<open>\<open>poll\<close> of the ipc\<close>
  ap_queue_refs :: nat \<comment> \<open>that the program holds\<close>
  ap_source_refs :: nat
  ap_semaphore_refs :: nat
  ap_data :: bool \<comment> \<open>merged and not yet handed to the event handler\<close>
  ap_resumed :: bool
  ap_cancelled :: bool
  ap_cancel_handler :: bool \<comment> \<open>is set and has not run\<close>
  ap_handler :: "ptr option" \<comment> \<open>the event handler runs, calling back this poll\<close>
  ap_semaphore :: nat
  ap_waiting :: bool \<comment> \<open>a thread waits for the semaphore\<close>

definition ap_nothing :: apple_signal where
  "ap_nothing = \<lparr>ap_struct = False, ap_ipc = True, ap_poll = NULL, ap_queue_refs = 0, ap_source_refs = 0,
     ap_semaphore_refs = 0, ap_data = False, ap_resumed = False, ap_cancelled = False,
     ap_cancel_handler = False, ap_handler = None, ap_semaphore = 0, ap_waiting = False\<rparr>"

definition ap_release_source :: "apple_signal \<Rightarrow> apple_signal option" where
  "ap_release_source s = do {
     _ \<leftarrow> c_assert (0 < ap_source_refs s);
     Some (s\<lparr>ap_source_refs := ap_source_refs s - 1\<rparr>)
   }"

definition ap_release_queue :: "apple_signal \<Rightarrow> apple_signal option" where
  "ap_release_queue s = do {
     _ \<leftarrow> c_assert (0 < ap_queue_refs s);
     Some (s\<lparr>ap_queue_refs := ap_queue_refs s - 1\<rparr>)
   }"

definition ap_release_semaphore :: "apple_signal \<Rightarrow> apple_signal option" where
  "ap_release_semaphore s = do {
     _ \<leftarrow> c_assert (0 < ap_semaphore_refs s);
     Some (s\<lparr>ap_semaphore_refs := ap_semaphore_refs s - 1\<rparr>)
   }"

text \<open>\<open>memory\<close>: \<open>malloc\<close> succeeds.\<close>

definition ap_signal_init :: "bool \<Rightarrow> apple_signal \<Rightarrow> int \<times> apple_signal" where
  "ap_signal_init memory s =
     (if \<not> memory then (-1, s)
      else let s = s\<lparr>ap_queue_refs := 1\<rparr>;
               s = s\<lparr>ap_source_refs := 1\<rparr>;
               s = s\<lparr>ap_struct := True\<rparr>
           in (0, s\<lparr>ap_resumed := True\<rparr>))"

definition ap_signal :: "apple_signal \<Rightarrow> apple_signal option" where
  "ap_signal s = do {
     _ \<leftarrow> c_assert (ap_struct s);
     _ \<leftarrow> c_assert (0 < ap_source_refs s);
     Some (s\<lparr>ap_data := True\<rparr>)
   }"

text \<open>The event handler dispatches on the ipc, which calls back its poll.\<close>

definition ap_event :: "apple_signal \<Rightarrow> apple_signal option" where
  "ap_event s = do {
     let s = s\<lparr>ap_data := False\<rparr>;
     _ \<leftarrow> c_assert (ap_ipc s);
     Some (s\<lparr>ap_handler := Some (ap_poll s)\<rparr>)
   }"

text \<open>
  \<open>bare_ipc__signal_destroy\<close>. \<open>on_queue\<close> is whether the block that runs is one of the signal's queue,
  as \<open>dispatch_get_specific\<close> tells. The block of the cancel handler holds a reference to the
  semaphore. \<open>bare_ipc_destroy\<close> frees the ipc when it returns.
\<close>

definition ap_destroy_rest :: "apple_signal \<Rightarrow> apple_signal option" where
  "ap_destroy_rest s = do {
     s \<leftarrow> ap_release_source s;
     s \<leftarrow> ap_release_queue s;
     Some (s\<lparr>ap_struct := False, ap_ipc := False\<rparr>)
   }"

definition ap_destroy :: "bool \<Rightarrow> apple_signal \<Rightarrow> apple_signal option" where
  "ap_destroy on_queue s = do {
     _ \<leftarrow> c_assert (ap_struct s);
     _ \<leftarrow> c_assert (0 < ap_source_refs s);
     if on_queue then ap_destroy_rest (s\<lparr>ap_cancelled := True\<rparr>)
     else do {
       let s = s\<lparr>ap_semaphore := 0, ap_semaphore_refs := 1\<rparr>;
       let s = s\<lparr>ap_cancel_handler := True, ap_semaphore_refs := ap_semaphore_refs s + 1\<rparr>;
       let s = s\<lparr>ap_cancelled := True\<rparr>;
       Some (s\<lparr>ap_waiting := True\<rparr>)
     }
   }"

text \<open>The cancel handler, which is released once it has run.\<close>

definition ap_on_cancel :: "apple_signal \<Rightarrow> apple_signal option" where
  "ap_on_cancel s = do {
     _ \<leftarrow> c_assert (0 < ap_semaphore_refs s);
     let s = s\<lparr>ap_semaphore := ap_semaphore s + 1\<rparr>;
     s \<leftarrow> ap_release_semaphore s;
     Some (s\<lparr>ap_cancel_handler := False\<rparr>)
   }"

text \<open>The rest of the destruction, once the semaphore lets it go on.\<close>

definition ap_cancelled_wait :: "apple_signal \<Rightarrow> apple_signal option" where
  "ap_cancelled_wait s = do {
     _ \<leftarrow> c_assert (0 < ap_semaphore_refs s);
     let s = s\<lparr>ap_semaphore := ap_semaphore s - 1, ap_waiting := False\<rparr>;
     s \<leftarrow> ap_release_semaphore s;
     _ \<leftarrow> c_assert (ap_struct s);
     ap_destroy_rest s
   }"

text \<open>On the queue the block is run at once, on any other thread when the queue gets to it.\<close>

definition ap_set_poll :: "ptr \<Rightarrow> apple_signal \<Rightarrow> apple_signal option" where
  "ap_set_poll poll s = do {
     _ \<leftarrow> c_assert (ap_ipc s \<and> ap_struct s \<and> 0 < ap_queue_refs s);
     Some (s\<lparr>ap_poll := poll\<rparr>)
   }"

section \<open>Interleaving\<close>

datatype ap_event = Ap_signal | Ap_event | Ap_event_done | Ap_on_cancel | Ap_set_poll bool ptr | Ap_destroy bool
  | Ap_cancelled_wait

primrec ap_step :: "ap_event \<Rightarrow> apple_signal \<Rightarrow> apple_signal option" where
  "ap_step Ap_signal = ap_signal"
| "ap_step Ap_event = ap_event"
| "ap_step Ap_event_done = (\<lambda>s. Some (s\<lparr>ap_handler := None\<rparr>))"
| "ap_step Ap_on_cancel = ap_on_cancel"
| "ap_step (Ap_set_poll on_queue poll) = ap_set_poll poll"
| "ap_step (Ap_destroy on_queue) = ap_destroy on_queue"
| "ap_step Ap_cancelled_wait = ap_cancelled_wait"

text \<open>
  The interface, by which an ipc is used up to its destruction (a callback that runs while
  another thread waits in it may still attach and detach polls), and Grand Central Dispatch.
\<close>

definition ap_alive :: "apple_signal \<Rightarrow> bool" where
  "ap_alive s \<longleftrightarrow> ap_ipc s \<and> \<not> ap_waiting s"

primrec gcd_may :: "ap_event \<Rightarrow> apple_signal \<Rightarrow> bool" where
  "gcd_may Ap_signal s = ap_alive s"
| "gcd_may Ap_event s = (ap_resumed s \<and> ap_data s \<and> \<not> ap_cancelled s \<and> ap_handler s = None)"
| "gcd_may Ap_event_done s = (ap_handler s \<noteq> None)"
| "gcd_may Ap_on_cancel s = (ap_cancelled s \<and> ap_cancel_handler s \<and> ap_handler s = None)"
| "gcd_may (Ap_set_poll on_queue poll) s =
     (if on_queue then ap_ipc s \<and> ap_handler s \<noteq> None else ap_alive s \<and> ap_handler s = None)"
| "gcd_may (Ap_destroy on_queue) s = (ap_alive s \<and> (on_queue \<longrightarrow> ap_handler s \<noteq> None))"
| "gcd_may Ap_cancelled_wait s = (ap_waiting s \<and> 0 < ap_semaphore s)"

primrec ap_seen :: "ap_event \<Rightarrow> apple_signal \<Rightarrow> wake_event list" where
  "ap_seen Ap_signal s = [Signal]"
| "ap_seen Ap_event s = [Call]"
| "ap_seen Ap_event_done s = [Return]"
| "ap_seen Ap_on_cancel s = []"
| "ap_seen (Ap_set_poll on_queue poll) s = [if on_queue then Set_poll_within poll else Set_poll poll]"
| "ap_seen (Ap_destroy on_queue) s = [if on_queue then Destroy_within else Destroy_enter]"
| "ap_seen Ap_cancelled_wait s = [Destroy_return]"

section \<open>The specification is met\<close>

definition ap_start :: apple_signal where
  "ap_start = snd (ap_signal_init True ap_nothing)"

definition ap_abs :: "apple_signal \<Rightarrow> wakes" where
  "ap_abs s = \<lparr>wake_phase = (if \<not> ap_cancelled s then Alive else if ap_waiting s then Ending else Ended),
     attached_poll = ap_poll s, calling = ap_handler s, due = ap_data s \<and> \<not> ap_cancelled s\<rparr>"

definition ap_good :: "apple_signal \<Rightarrow> bool" where
  "ap_good s \<longleftrightarrow> ap_resumed s \<and>
     (if \<not> ap_cancelled s then ap_struct s \<and> ap_ipc s \<and> ap_queue_refs s = 1 \<and> ap_source_refs s = 1
        \<and> ap_semaphore_refs s = 0 \<and> \<not> ap_cancel_handler s \<and> \<not> ap_waiting s
      else if ap_waiting s then ap_struct s \<and> ap_ipc s \<and> ap_queue_refs s = 1 \<and> ap_source_refs s = 1
        \<and> (if ap_cancel_handler s then ap_semaphore_refs s = 2 \<and> ap_semaphore s = 0
           else ap_semaphore_refs s = 1 \<and> ap_semaphore s = 1 \<and> ap_handler s = None)
      else \<not> ap_struct s \<and> \<not> ap_ipc s \<and> ap_queue_refs s = 0 \<and> ap_source_refs s = 0
        \<and> ap_semaphore_refs s = 0 \<and> \<not> ap_cancel_handler s)"

text \<open>Nothing is left, and no block runs.\<close>

definition ap_freed :: "apple_signal \<Rightarrow> bool" where
  "ap_freed s \<longleftrightarrow> \<not> ap_struct s \<and> \<not> ap_ipc s \<and> ap_queue_refs s = 0 \<and> ap_source_refs s = 0
     \<and> ap_semaphore_refs s = 0 \<and> ap_handler s = None"

definition ap_work :: "apple_signal \<Rightarrow> nat" where
  "ap_work s = (if ap_handler s = None then 0 else 1) + (if ap_data s \<and> \<not> ap_cancelled s then 2 else 0)
     + (if ap_cancel_handler s then 1 else 0) + (if ap_waiting s then 1 else 0)"

lemmas ap_defs = ap_signal_def ap_event_def ap_destroy_def ap_destroy_rest_def ap_on_cancel_def ap_cancelled_wait_def
  ap_set_poll_def ap_release_source_def ap_release_queue_def ap_release_semaphore_def

interpretation apple: wakes_provider ap_start gcd_may ap_step ap_seen ap_abs ap_good ap_freed ap_work
proof unfold_locales
  show "ap_good ap_start" "ap_abs ap_start = new_wakes"
    by (simp_all add: ap_start_def ap_nothing_def ap_signal_init_def ap_good_def ap_abs_def new_wakes_def Let_def)
next
  fix c e
  assume g: "ap_good c" and m: "gcd_may e c"
  show "\<exists>c'. ap_step e c = Some c' \<and> ap_good c' \<and> wakes_run (ap_seen e c) (ap_abs c) = Some (ap_abs c')"
    using g m unfolding ap_good_def
    by (cases "ap_cancelled c"; cases "ap_waiting c"; cases "ap_cancel_handler c"; cases "ap_handler c"; cases e)
      (simp_all add: ap_defs ap_abs_def ap_alive_def split: if_splits)
next
  fix c
  assume g: "ap_good c" and u: "unsettled (ap_freed c) (ap_abs c)"
  let ?e = "if ap_handler c \<noteq> None then Ap_event_done else if \<not> ap_cancelled c then Ap_event
    else if ap_cancel_handler c then Ap_on_cancel else Ap_cancelled_wait"
  have "gcd_may ?e c \<and> set (ap_seen ?e c) \<subseteq> {Call, Return, Destroy_return}
      \<and> (\<forall>c'. ap_step ?e c = Some c' \<longrightarrow> ap_work c' < ap_work c)"
    using g u unfolding ap_good_def
    by (cases "ap_cancelled c"; cases "ap_waiting c"; cases "ap_cancel_handler c"; cases "ap_handler c")
      (auto simp: ap_defs ap_abs_def ap_alive_def unsettled_def ap_freed_def ap_work_def)
  then show "\<exists>e. gcd_may e c \<and> set (ap_seen e c) \<subseteq> {Call, Return, Destroy_return}
      \<and> (\<forall>c'. ap_step e c = Some c' \<longrightarrow> ap_work c' < ap_work c)" by blast
next
  show "wake_phase (ap_abs c) = Ended" if "ap_good c" "ap_freed c" for c
    using that by (auto simp: ap_good_def ap_freed_def ap_abs_def split: if_splits)
qed

section \<open>The properties\<close>

text \<open>
  C28: The wakes over Grand Central Dispatch are what \<open>src/ipc.h\<close> asks for. Whatever the blocks of
  the queue and the other threads do between each other's, no block dispatches on an ipc that was
  freed, no queue, source or semaphore is used or released once it is gone, and what is seen of
  it is a run of the specification: callbacks one at a time, of the poll attached, none after the
  end.
\<close>

theorem apple_refines_wakes:
  assumes "traced ap_start gcd_may ap_step ap_seen ls s"
  shows "wakes_run ls new_wakes = Some (ap_abs s) \<and> (\<forall>e. gcd_may e s \<longrightarrow> (\<exists>s'. ap_step e s = Some s'))"
  using apple.refines [OF assms] apple.never_faults [OF assms] by auto

text \<open>
  A poll that was detached is not called back once \<open>bare_ipc__set_poll\<close> has returned, so that it
  may be freed.
\<close>

theorem apple_detached_poll:
  assumes "traced ap_start gcd_may ap_step ap_seen (ls @ Set_poll p # ms) s" and "\<forall>e \<in> set ms. \<not> attaches e"
  shows "ap_handler s \<in> {None, Some p}"
  using detached_silent [OF conjunct2 [OF apple.refines [OF assms(1)]] assms(2)] by (simp add: ap_abs_def)

text \<open>No signal is lost: one that came since the last callback began has a callback follow.\<close>

theorem apple_signal_served:
  assumes "traced ap_start gcd_may ap_step ap_seen ls s" and "wake_phase (ap_abs s) = Alive" and "due (ap_abs s)"
  shows "\<exists>es ms s'. length es \<le> 3 \<and> platform_run gcd_may ap_step ap_seen es s = Some (ms, s') \<and> Call \<in> set ms"
proof -
  have "ap_good s" using apple.refines [OF assms(1)] by simp
  then have "ap_work s \<le> 3"
    using assms(2) by (auto simp: ap_good_def ap_work_def ap_abs_def split: if_splits)
  then show ?thesis using apple.due_called [OF assms] by (meson le_trans)
qed


section \<open>A run\<close>

text \<open>An ipc with a poll that is destroyed while its callback runs.\<close>

lemmas ap_run_defs = ap_start_def ap_nothing_def ap_signal_init_def ap_abs_def ap_alive_def ap_defs

lemma some_ap_trace: "\<exists>s. traced ap_start gcd_may ap_step ap_seen [Set_poll 5, Signal, Call, Destroy_enter] s"
proof -
  note t = stepped [where start = ap_start and may = gcd_may and step = ap_step and seen = ap_seen]
  have 1: "traced ap_start gcd_may ap_step ap_seen ([] @ ap_seen (Ap_set_poll False 5) ap_start) (ap_start\<lparr>ap_poll := 5\<rparr>)"
    by (rule t [OF begun]) (simp_all add: ap_run_defs)
  have 2: "traced ap_start gcd_may ap_step ap_seen (([] @ ap_seen (Ap_set_poll False 5) ap_start)
      @ ap_seen Ap_signal (ap_start\<lparr>ap_poll := 5\<rparr>)) (ap_start\<lparr>ap_poll := 5, ap_data := True\<rparr>)"
    by (rule t [OF 1]) (simp_all add: ap_run_defs)
  have 3: "traced ap_start gcd_may ap_step ap_seen ((([] @ ap_seen (Ap_set_poll False 5) ap_start)
      @ ap_seen Ap_signal (ap_start\<lparr>ap_poll := 5\<rparr>)) @ ap_seen Ap_event (ap_start\<lparr>ap_poll := 5, ap_data := True\<rparr>))
      (ap_start\<lparr>ap_poll := 5, ap_handler := Some 5\<rparr>)"
    by (rule t [OF 2]) (simp_all add: ap_run_defs)
  have "traced ap_start gcd_may ap_step ap_seen (((([] @ ap_seen (Ap_set_poll False 5) ap_start)
      @ ap_seen Ap_signal (ap_start\<lparr>ap_poll := 5\<rparr>)) @ ap_seen Ap_event (ap_start\<lparr>ap_poll := 5, ap_data := True\<rparr>))
      @ ap_seen (Ap_destroy False) (ap_start\<lparr>ap_poll := 5, ap_handler := Some 5\<rparr>))
      (ap_start\<lparr>ap_poll := 5, ap_handler := Some 5, ap_semaphore_refs := 2, ap_cancel_handler := True, ap_cancelled := True, ap_waiting := True\<rparr>)"
    by (rule t [OF 3]) (simp_all add: ap_run_defs)
  then show ?thesis by auto
qed

theorem apple_refines_wakes_witness:
  "\<exists>s. wakes_run [Set_poll 5, Signal, Call, Destroy_enter] new_wakes = Some (ap_abs s)"
  using some_ap_trace apple_refines_wakes by blast

theorem apple_detached_poll_witness:
  "\<exists>s. traced ap_start gcd_may ap_step ap_seen [Set_poll 5, Signal, Call, Destroy_enter] s \<and> ap_handler s \<in> {None, Some 5}"
proof -
  obtain s where s: "traced ap_start gcd_may ap_step ap_seen ([] @ Set_poll 5 # tl [Set_poll 5, Signal, Call, Destroy_enter]) s"
    using some_ap_trace by auto
  have "ap_handler s \<in> {None, Some 5}" by (rule apple_detached_poll [OF s]) (simp add: attaches_def)
  then show ?thesis using s by auto
qed

theorem apple_signal_served_witness:
  "\<exists>es ms s'. platform_run gcd_may ap_step ap_seen es (ap_start\<lparr>ap_data := True\<rparr>) = Some (ms, s') \<and> Call \<in> set ms"
proof -
  have "traced ap_start gcd_may ap_step ap_seen ([] @ ap_seen Ap_signal ap_start) (ap_start\<lparr>ap_data := True\<rparr>)"
    by (rule stepped [OF begun]) (simp_all add: ap_run_defs)
  then show ?thesis using apple_signal_served [of _ "ap_start\<lparr>ap_data := True\<rparr>"] by (fastforce simp: ap_run_defs)
qed


end
