(* ===== verification/Worklet_Start.thy ===== *)
theory Worklet_Start
  imports Worklet_Safety
begin

text \<open>
  \<open>bare_worklet_start\<close> as a whole: the host's part with the worklet's thread on the other side of
  the barrier, on every branch.
\<close>

context worklet_platform
begin

text \<open>The thread comes to the barrier, with Bare set up and its end of the queue open.\<close>

lemma to_barrier:
  assumes "inv h Born w" and "inst \<noteq> NULL"
  shows "\<exists>v. thread_to_barrier P js inst w = Some (emit (Barrier_wait Ready_barrier) v)
    \<and> inv h Waiting (emit (Barrier_wait Ready_barrier) v) \<and> same_count w v"
proof -
  obtain w1 where w1: "thread_setup P js inst w = Some w1" "inv h Set_up w1" "same_count w w1"
    using setup_inv [OF assms] by blast
  obtain p w2 where w2: "thread_open w1 = Some (p, w2)" "inv h Opened w2" "same_count w1 w2"
    using open_inv [OF w1(2)] by blast
  obtain w3 where w3: "thread_reference w2 = Some w3" "inv h Referenced w3" "same_count w2 w3"
    using reference_inv [OF w2(2)] by blast
  obtain args w4 where w4: "thread_ready P w3 = Some (args, w4)" "inv h Waiting w4" "same_count w3 w4"
    using ready_inv [OF w3(2)] by blast
  obtain v where v: "w4 = emit (Barrier_wait Ready_barrier) v"
    using w4(1) by (auto simp: thread_ready_def bind_eq_Some_conv)
  have "same_count w v" using w1(3) w2(3) w3(3) w4(3) v by (simp add: same_count_def)
  then have "inv h Waiting (emit (Barrier_wait Ready_barrier) v) \<and> same_count w v" using w4(2) v by simp
  moreover have "thread_to_barrier P js inst w = Some (emit (Barrier_wait Ready_barrier) v)"
    using w1(1) w2(1) w3(1) w4(1) v by (simp add: thread_to_barrier_def)
  ultimately show ?thesis by blast
qed

lemma started:
  assumes i: "inv Configuring t w" and down: "\<not> torn_down w" and inst: "inst \<noteq> NULL" and tid: "tid \<noteq> NULL"
    and src: "case src of None \<Rightarrow> True | Some b \<Rightarrow> n \<le> length b"
  shows "\<exists>w'. bare_worklet_start (thread_to_barrier P js inst) tid path src n args w = Some (0, w')
    \<and> inv Started Released w' \<and> running w' = running w + 1
    \<and> (\<exists>cs. calls w' = cs @ [Barrier_wait Ready_barrier, Barrier_wait Ready_barrier, Barrier_destroy Ready_barrier])"
proof -
  obtain w1 where w1: "start_thread tid path src n args w = Some (Inr (), w1)" "inv Starting Born w1"
      "running w1 = running w + 1"
    using start_inv [OF i tid src, of path args] down by auto
  obtain v where v: "thread_to_barrier P js inst w1 = Some (emit (Barrier_wait Ready_barrier) v)"
      "inv Starting Waiting (emit (Barrier_wait Ready_barrier) v)" "same_count w1 v"
    using to_barrier [OF w1(2) inst] by blast
  obtain w' where w': "start_ready Some (emit (Barrier_wait Ready_barrier) v) = Some w'" "inv Started Released w'"
      "same_count (emit (Barrier_wait Ready_barrier) v) w'"
    using pass_barrier_inv [OF v(2)] by blast
  obtain k where "worklet w1 = Some k" using w1(2) by (auto elim: struct_there)
  moreover have e: "w' = emit (Barrier_destroy Ready_barrier) (emit (Barrier_wait Ready_barrier) (emit (Barrier_wait Ready_barrier) v))"
    using w'(1) by (auto simp: start_ready_def barrier_wait_def bind_eq_Some_conv)
  ultimately have "start_ready (thread_to_barrier P js inst) w1 = Some w'"
    using v(1) by (simp add: start_ready_def barrier_wait_def)
  moreover have "running w' = running w + 1" using w1(3) v(3) w'(3) by (simp add: same_count_def)
  ultimately show ?thesis using w1(1) w'(2) e by (auto simp: bare_worklet_start_def)
qed

end

text \<open>
  C36: What starting a worklet does on every branch, with its thread as the only one that has a turn
  meanwhile; \<open>err\<close> is what \<open>uv_thread_create\<close> returns. After the teardown of the process it returns
  -1 and does nothing but take the lock. If the thread cannot be created, its error is returned,
  the barrier is destroyed, the worklet no longer counts as running, which is signalled if none
  is left, and it looks as if it was never started. Otherwise the result is 0, given once the
  thread has come to the barrier, which the host destroys after its own wait: by then Bare is
  set up, the worklet's end of the queue is open, and one worklet more is running.
\<close>

theorem worklet_start_exact:
  assumes "reached default_platform (\<lambda>_ _. True) js inst c" and "host_at c = Configuring"
    and "inst \<noteq> NULL" and "tid \<noteq> NULL" and "case src of None \<Rightarrow> True | Some b \<Rightarrow> n \<le> length b" and "err \<le> 0"
  defines "w \<equiv> (world_of c)\<lparr>ret := (ret (world_of c))(Thread_create := err)\<rparr>"
  shows "\<exists>r w' k. bare_worklet_start (thread_to_barrier default_platform js inst) tid path src n args w = Some (r, w')
    \<and> worklet w' = Some k
    \<and> (if torn_down w
       then r = -1 \<and> running w' = running w \<and> thread k = NULL \<and> wstate w' = wstate w \<and> queue w' = queue w
         \<and> calls w' = calls w @ [Mutex_lock Process_lock, Mutex_unlock Process_lock]
       else if err < 0
       then r = err \<and> running w' = running w \<and> thread k = NULL \<and> wstate w' = wstate w \<and> queue w' = queue w
         \<and> calls w' = calls w @ [Mutex_lock Process_lock, Mutex_unlock Process_lock, Barrier_init Ready_barrier,
             Thread_create, Barrier_destroy Ready_barrier, Mutex_lock Process_lock]
             @ (if running w = 0 then [Cond_signal] else []) @ [Mutex_unlock Process_lock]
       else r = 0 \<and> running w' = running w + 1 \<and> thread k \<noteq> NULL
         \<and> (\<exists>s. wstate w' = Some s \<and> bare s \<noteq> NULL)
         \<and> (\<exists>q. queue w' = Some q \<and> on_recv_uv q = on_ipc_signal_ptr) \<and> thread_ipc w' = Some \<lparr>signal = True\<rparr>
         \<and> (\<exists>cs. calls w' = cs @ [Barrier_wait Ready_barrier, Barrier_wait Ready_barrier, Barrier_destroy Ready_barrier]))"
proof -
  let ?v = "world_of c"
  have ci: "cycle_inv (\<lambda>_ _. True) (\<lambda>_ _. True) (\<lambda>_ _. True) c" by (rule default_reached_inv [OF assms(1,3)])
  then have i: "world_inv (\<lambda>_ _. True) (\<lambda>_ _. True) (\<lambda>_ _. True) Configuring (thread_at c) ?v"
    using assms(2) by (simp add: cycle_inv_def)
  have r: "ret ?v x = 0" for x using world_invD(3) [OF i] by (simp add: calls_ok_def)
  obtain k where k: "worklet ?v = Some k" "thread k = NULL" using i by (auto elim: struct_there)
  have w: "worklet w = Some k" "ret w (Barrier_init Ready_barrier) = 0" "ret w Thread_detach = 0" "ret w Thread_create = err"
    using k(1) r by (simp_all add: w_def)
  note st = start_thread_eq [OF w(1-3), where tid = tid and path = path and src = src and n = n and args = args]
  consider (fails) "torn_down w \<or> err < 0" | (runs) "\<not> torn_down w" "err = 0" using assms(6) by linarith
  then show ?thesis
  proof cases
    case fails
    then show ?thesis using st w(4) k(2) by (auto simp: bare_worklet_start_def Let_def)
  next
    case runs
    then have e: "w = ?v" using r by (simp add: w_def fun_upd_idem)
    then have down: "\<not> torn_down ?v" using runs(1) by simp
    obtain w' where w': "bare_worklet_start (thread_to_barrier default_platform js inst) tid path src n args ?v = Some (0, w')"
        "world_inv (\<lambda>_ _. True) (\<lambda>_ _. True) (\<lambda>_ _. True) Started Released w'" "running w' = running ?v + 1"
        "\<exists>cs. calls w' = cs @ [Barrier_wait Ready_barrier, Barrier_wait Ready_barrier, Barrier_destroy Ready_barrier]"
      using default.started [OF i down assms(3-5), of js path args] by blast
    have "\<exists>k. worklet w' = Some k \<and> thread k \<noteq> NULL" "\<exists>s. wstate w' = Some s \<and> bare s \<noteq> NULL"
        "\<exists>q. queue w' = Some q \<and> on_recv_uv q = on_ipc_signal_ptr" "thread_ipc w' = Some \<lparr>signal = True\<rparr>"
      using w'(2) by (auto simp: world_inv_def inv_defs split: option.splits)
    then show ?thesis using w'(1,3,4) runs e by auto
  qed
qed

text \<open>One that starts, and one whose thread cannot be created.\<close>

theorem worklet_start_exact_witness:
  "\<exists>(w :: unit wworld) w' k s. bare_worklet_start (thread_to_barrier default_platform 11 10) 9 ''app.js'' None 0 [] w = Some (0, w')
    \<and> worklet w' = Some k \<and> wstate w' = Some s \<and> bare s \<noteq> NULL \<and> running w' = 1
    \<and> (\<exists>w2 k2. bare_worklet_start (thread_to_barrier default_platform 11 10) 9 ''app.js'' None 0 []
        (w\<lparr>ret := (ret w)(Thread_create := -12)\<rparr>) = Some (-12, w2) \<and> worklet w2 = Some k2 \<and> thread k2 = NULL \<and> running w2 = 0)"
proof -
  obtain w :: "unit wworld" where w: "reached default_platform (\<lambda>_ _. True) 11 10 (new_life w 0)" "torn_down w = False" "running w = 0"
    using some_life by blast
  have c: "host_at (new_life w 0) = Configuring" "(10::nat) \<noteq> NULL" "(9::nat) \<noteq> NULL"
      "case (None :: byte list option) of None \<Rightarrow> True | Some b \<Rightarrow> 0 \<le> length b"
    by (simp_all add: new_life_def NULL_def)
  have wo: "world_of (new_life w 0) = w" by (simp add: new_life_def)
  note start = worklet_start_exact [OF w(1) c, where path = "''app.js''" and args = "[]", unfolded wo]
  have "ret w Thread_create = 0"
    using default_reached_inv [OF w(1) c(2)] wo by (simp add: cycle_inv_def world_inv_def env_ok_def)
  then have same: "w\<lparr>ret := (ret w)(Thread_create := 0)\<rparr> = w" by (simp add: fun_upd_idem)
  show ?thesis
    using start [of 0] start [of "-12"] w(2,3) unfolding same by fastforce
qed

end
