(* ===== verification/Worklet_Stream.thy ===== *)
theory Worklet_Stream
  imports Worklet_Js "HOL-Library.Multiset"
begin

text \<open>
  The stream that a worklet's script has of its ipc, \<open>Bare.IPC\<close>: the class \<open>IPCStream\<close> of
  \<open>src/worklet.js\<close>, over the functions of \<open>native\<close>. It is a \<open>Duplex\<close> of a package that is not
  under \<open>src/\<close>; what that one calls and when is the environment's: it makes one write at a time,
  finishes after the last, and says by the result of \<open>push\<close> whether it wants more.
\<close>

section \<open>The stream\<close>

text \<open>
  \<open>pushed\<close> is what the base class was given to hand on, \<open>None\<close> the \<open>null\<close> that ends it, and
  \<open>called\<close> which of its callbacks were called, each with whether it was without an error.
\<close>

record ipc_stream =
  reading :: bool
  pending_write :: "(byte list \<times> nat) option"
  pushed :: "byte list option list"
  called :: "(nat \<times> bool) list"

definition new_stream :: ipc_stream where
  "new_stream = \<lparr>reading = False, pending_write = None, pushed = [], called = []\<rparr>"

text \<open>\<open>wants\<close> is what \<open>push\<close> returns, after all that was pushed.\<close>

partial_function (option) drain_loop ::
  "(byte list option list \<Rightarrow> bool) \<Rightarrow> ipc_stream \<Rightarrow> 'p wworld \<Rightarrow> (ipc_stream \<times> 'p wworld) option" where
  "drain_loop wants s w = do {
     (chunk, w) \<leftarrow> native_step Native_read w;
     (case chunk of
        Js_undefined \<Rightarrow> Some (s, w)
      | Js_null \<Rightarrow> Some (s\<lparr>reading := False, pushed := pushed s @ [None]\<rparr>, w)
      | Js_external_arraybuffer p n \<Rightarrow> do {
          data \<leftarrow> read_block p 0 n w;
          let s = s\<lparr>pushed := pushed s @ [Some data]\<rparr>;
          if \<not> wants (pushed s) then Some (s\<lparr>reading := False\<rparr>, w)
          else drain_loop wants s w
        }
      | _ \<Rightarrow> None)
   }"

definition stream_drain ::
  "(byte list option list \<Rightarrow> bool) \<Rightarrow> ipc_stream \<Rightarrow> 'p wworld \<Rightarrow> (ipc_stream \<times> 'p wworld) option" where
  "stream_drain wants s w = (if \<not> reading s then Some (s, w) else drain_loop wants s w)"

definition stream_read ::
  "(byte list option list \<Rightarrow> bool) \<Rightarrow> ipc_stream \<Rightarrow> 'p wworld \<Rightarrow> (ipc_stream \<times> 'p wworld) option" where
  "stream_read wants s w = stream_drain wants (s\<lparr>reading := True\<rparr>) w"

definition stream_send ::
  "byte list \<Rightarrow> nat \<Rightarrow> ipc_stream \<Rightarrow> 'p wworld \<Rightarrow> (ipc_stream \<times> 'p wworld) option" where
  "stream_send chunk cb s w = do {
     (n, w) \<leftarrow> native_step (Native_write chunk) w;
     (case n of
        Js_null \<Rightarrow> Some (s\<lparr>called := called s @ [(cb, False)]\<rparr>, w)
      | Js_int32 n \<Rightarrow>
          if n < 0 then Some (s\<lparr>pending_write := Some (chunk, cb)\<rparr>, w)
          else if n < int (length chunk) then Some (s\<lparr>pending_write := Some (drop (nat n) chunk, cb)\<rparr>, w)
          else Some (s\<lparr>called := called s @ [(cb, True)]\<rparr>, w)
      | _ \<Rightarrow> None)
   }"

text \<open>A chunk that is no buffer yet is made one.\<close>

definition stream_write ::
  "byte list \<Rightarrow> nat \<Rightarrow> ipc_stream \<Rightarrow> 'p wworld \<Rightarrow> (ipc_stream \<times> 'p wworld) option" where
  "stream_write chunk cb s w = stream_send chunk cb s w"

definition stream_retry :: "ipc_stream \<Rightarrow> 'p wworld \<Rightarrow> (ipc_stream \<times> 'p wworld) option" where
  "stream_retry s w = (case pending_write s of
     None \<Rightarrow> Some (s, w)
   | Some (chunk, cb) \<Rightarrow> stream_send chunk cb (s\<lparr>pending_write := None\<rparr>) w)"

definition stream_final :: "nat \<Rightarrow> ipc_stream \<Rightarrow> 'p wworld \<Rightarrow> (ipc_stream \<times> 'p wworld) option" where
  "stream_final cb s w = do {
     (_, w) \<leftarrow> native_step Native_end w;
     Some (s\<lparr>called := called s @ [(cb, True)]\<rparr>, w)
   }"

definition stream_destroy :: "nat \<Rightarrow> ipc_stream \<Rightarrow> 'p wworld \<Rightarrow> (ipc_stream \<times> 'p wworld) option" where
  "stream_destroy cb s w = do {
     (_, w) \<leftarrow> native_step Native_unref w;
     Some (s\<lparr>called := called s @ [(cb, True)]\<rparr>, w)
   }"

definition stream_on_signal ::
  "(byte list option list \<Rightarrow> bool) \<Rightarrow> ipc_stream \<Rightarrow> 'p wworld \<Rightarrow> (ipc_stream \<times> 'p wworld) option" where
  "stream_on_signal wants s w = do {
     (s, w) \<leftarrow> stream_retry s w;
     stream_drain wants s w
   }"

definition stream_ref :: "bool \<Rightarrow> ipc_stream \<Rightarrow> 'p wworld \<Rightarrow> (ipc_stream \<times> 'p wworld) option" where
  "stream_ref gone s w =
     (if \<not> gone then do { (_, w) \<leftarrow> native_step Native_ref w; Some (s, w) } else Some (s, w))"

definition stream_unref :: "ipc_stream \<Rightarrow> 'p wworld \<Rightarrow> (ipc_stream \<times> 'p wworld) option" where
  "stream_unref s w = do { (_, w) \<leftarrow> native_step Native_unref w; Some (s, w) }"

section \<open>What is called of it\<close>

datatype stream_event =
    Stream_read
  | Stream_write "byte list" nat
  | Stream_final nat
  | Stream_destroy nat
  | Stream_signal
  | Stream_ref bool \<comment> \<open>on \<open>resume\<close>\<close>
  | Stream_unref \<comment> \<open>on \<open>suspend\<close>\<close>
  | By_host ipc_op

definition lift_stream :: "('p wworld \<Rightarrow> (ipc_stream \<times> 'p wworld) option) \<Rightarrow> 'p wworld
    \<Rightarrow> (ipc_obs option \<times> ipc_stream \<times> 'p wworld) option" where
  "lift_stream f w = map_option (\<lambda>r. (None, r)) (f w)"

primrec stream_step :: "(byte list option list \<Rightarrow> bool) \<Rightarrow> stream_event \<Rightarrow> ipc_stream \<Rightarrow> 'p wworld
    \<Rightarrow> (ipc_obs option \<times> ipc_stream \<times> 'p wworld) option" where
  "stream_step wants Stream_read s w = lift_stream (stream_read wants s) w"
| "stream_step wants (Stream_write chunk cb) s w = lift_stream (stream_write chunk cb s) w"
| "stream_step wants (Stream_final cb) s w = lift_stream (stream_final cb s) w"
| "stream_step wants (Stream_destroy cb) s w = lift_stream (stream_destroy cb s) w"
| "stream_step wants Stream_signal s w = lift_stream (stream_on_signal wants s) w"
| "stream_step wants (Stream_ref gone) s w = lift_stream (stream_ref gone s) w"
| "stream_step wants Stream_unref s w = lift_stream (stream_unref s) w"
| "stream_step wants (By_host op) s w = map_option (\<lambda>(ob, w). (Some ob, s, w)) (ipc_step op w)"

text \<open>One write at a time, nothing but reads after the last, and a host with one open ipc.\<close>

definition stream_may :: "ptr \<Rightarrow> stream_event \<Rightarrow> ipc_stream \<Rightarrow> 'p wworld \<Rightarrow> bool" where
  "stream_may ipc e s w = (case e of
     Stream_write chunk cb \<Rightarrow> pending_write s = None
   | Stream_final cb \<Rightarrow> pending_write s = None
   | By_host op \<Rightarrow> by_host op \<and> stream_op ipc op \<and> allowed w op
   | _ \<Rightarrow> True)"

fun stream_run :: "(byte list option list \<Rightarrow> bool) \<Rightarrow> ptr \<Rightarrow> stream_event list \<Rightarrow> ipc_stream \<Rightarrow> 'p wworld
    \<Rightarrow> (ipc_obs option list \<times> ipc_stream \<times> 'p wworld) option" where
  "stream_run wants ipc [] s w = Some ([], s, w)"
| "stream_run wants ipc (e # es) s w =
     (if stream_may ipc e s w
      then do {
        (ob, s, w) \<leftarrow> stream_step wants e s w;
        (obs, s, w) \<leftarrow> stream_run wants ipc es s w;
        Some (ob # obs, s, w)
      }
      else None)"

section \<open>The functions of native\<close>

definition stream_world :: "ptr \<Rightarrow> 'p wworld \<Rightarrow> bool" where
  "stream_world ipc w \<longleftrightarrow> ipc_ok w \<and> env_ok w \<and> is_open w ipc \<and> (\<exists>q. queue w = Some q \<and> \<not> destroyed q)"

text \<open>The bytes that a call of \<open>write\<close> put on their way to the host.\<close>

fun native_given :: "native_call \<Rightarrow> js_value_t \<Rightarrow> byte list" where
  "native_given (Native_write data) (Js_int32 n) = take (nat n) data"
| "native_given c v = []"

lemma inbound_calls: "inbound (w\<lparr>calls := cs\<rparr>) ipc = inbound w ipc"
  by (simp add: inbound_def split: option.split)

lemma native_as_step:
  assumes ok: "ipc_ok w" and env: "env_ok w" and q: "queue w = Some q" "\<not> destroyed q"
    and st: "native_step c w = Some (v, w')"
  shows "\<exists>cs qop ob w1 ds. ipc_step (Worklet qop) (w\<lparr>calls := cs\<rparr>) = Some (ob, w1) \<and> actor qop = Uv_port \<and> \<not> releases qop
    \<and> native_given c v = written_by_worklet (Worklet qop) ob \<and> w' = w1\<lparr>calls := ds\<rparr>"
proof (cases c)
  case Native_read
  obtain ob u w1 where s: "queue_step (Read Uv_port) (emit (Js Js_get_callback_info) w) = Some (ob, w1)"
      "native_step Native_read w = Some (u, emit (Js (Js_create_value u)) w1)"
    using native_read_spec [OF ok env q(1)] by (elim exE conjE) (rule that)
  have e: "u = v" "w' = emit (Js (Js_create_value v)) w1"
    using st s(2) unfolding Native_read by (metis option.inject prod.inject)+
  have "ipc_step (Worklet (Read Uv_port)) (w\<lparr>calls := calls w @ [Js Js_get_callback_info]\<rparr>) = Some (Observed ob, w1) \<and> actor (Read Uv_port) = Uv_port \<and> \<not> releases (Read Uv_port)
      \<and> native_given c v = written_by_worklet (Worklet (Read Uv_port)) (Observed ob) \<and> w' = w1\<lparr>calls := calls w1 @ [Js (Js_create_value v)]\<rparr>"
    using s(1) e Native_read by (simp add: emit_def written_by_worklet_def releases_def)
  then show ?thesis by blast
next
  case (Native_write data)
  obtain m w1 where m: "bare_queue_write Uv_port data (emit (Js Js_get_typedarray_info) (emit (Js Js_get_callback_info) w)) = Some (m, w1)"
      "v = (if m = bare_queue_closed then Js_null else Js_int32 m)" "w' = emit (Js (Js_create_value v)) w1"
    using st Native_write by (auto simp: bare_worklet__on_ipc_write_def js_create_def emit_ok_def bind_eq_Some_conv
        split: if_splits)
  have t: "typed c v w'" using native_spec [OF ok env q, of c] st by auto
  have "ipc_step (Worklet (Write Uv_port data)) (w\<lparr>calls := calls w @ [Js Js_get_callback_info, Js Js_get_typedarray_info]\<rparr>) = Some (Observed (Sent m), w1) \<and> actor (Write Uv_port data) = Uv_port \<and> \<not> releases (Write Uv_port data)
      \<and> native_given c v = written_by_worklet (Worklet (Write Uv_port data)) (Observed (Sent m)) \<and> w' = w1\<lparr>calls := calls w1 @ [Js (Js_create_value v)]\<rparr>"
    using m t Native_write by (auto simp: emit_def written_by_worklet_def releases_def queue_codes)
  then show ?thesis by blast
next
  case Native_end
  then obtain w1 where "bare_queue_end Uv_port (emit (Js Js_get_callback_info) w) = Some w1" "w' = w1" "v = Js_undefined"
    using st by (auto simp: bare_worklet__on_ipc_end_def emit_ok_def bind_eq_Some_conv split: if_splits)
  then have "ipc_step (Worklet (End Uv_port)) (w\<lparr>calls := calls w @ [Js Js_get_callback_info]\<rparr>) = Some (Observed Done, w1) \<and> actor (End Uv_port) = Uv_port \<and> \<not> releases (End Uv_port)
      \<and> native_given c v = written_by_worklet (Worklet (End Uv_port)) (Observed Done) \<and> w' = w1\<lparr>calls := calls w1\<rparr>"
    using Native_end by (simp add: emit_def written_by_worklet_def releases_def)
  then show ?thesis by blast
next
  case Native_ref
  have w': "w' = w\<lparr>calls := calls w'\<rparr>" "v = Js_undefined"
    using st Native_ref by (auto simp: bare_worklet__on_ipc_ref_def emit_ok_def bind_eq_Some_conv emit_def split: if_splits)
  obtain w1 where "ipc_step (Worklet Wakeup) (w\<lparr>calls := calls w\<rparr>) = Some (Observed Done, w1)"
      "w1\<lparr>calls := calls w'\<rparr> = w\<lparr>calls := calls w'\<rparr>"
    using q(1) by (auto simp: bare_queue__on_wakeup_uv_def emit_def)
  then have "ipc_step (Worklet Wakeup) (w\<lparr>calls := calls w\<rparr>) = Some (Observed Done, w1) \<and> actor Wakeup = Uv_port \<and> \<not> releases Wakeup
      \<and> native_given c v = written_by_worklet (Worklet Wakeup) (Observed Done) \<and> w' = w1\<lparr>calls := calls w'\<rparr>"
    using w' Native_ref by (simp add: written_by_worklet_def releases_def del: ipc_step.simps)
  then show ?thesis by blast
next
  case Native_unref
  have w': "w' = w\<lparr>calls := calls w'\<rparr>" "v = Js_undefined"
    using st Native_unref by (auto simp: bare_worklet__on_ipc_unref_def emit_ok_def bind_eq_Some_conv emit_def split: if_splits)
  obtain w1 where "ipc_step (Worklet Wakeup) (w\<lparr>calls := calls w\<rparr>) = Some (Observed Done, w1)"
      "w1\<lparr>calls := calls w'\<rparr> = w\<lparr>calls := calls w'\<rparr>"
    using q(1) by (auto simp: bare_queue__on_wakeup_uv_def emit_def)
  then have "ipc_step (Worklet Wakeup) (w\<lparr>calls := calls w\<rparr>) = Some (Observed Done, w1) \<and> actor Wakeup = Uv_port \<and> \<not> releases Wakeup
      \<and> native_given c v = written_by_worklet (Worklet Wakeup) (Observed Done) \<and> w' = w1\<lparr>calls := calls w'\<rparr>"
    using w' Native_unref by (simp add: written_by_worklet_def releases_def del: ipc_step.simps)
  then show ?thesis by blast
qed

lemma native_stream:
  assumes sw: "stream_world ipc w"
  shows "\<exists>v w' ob ch ch'. native_step c w = Some (v, w') \<and> stream_world ipc w' \<and> inbound w' ipc = inbound w ipc @ native_given c v
    \<and> abs_world w = Some ch \<and> abs_world w' = Some ch' \<and> spec_step (native_op c) ch = (ob, Some ch') \<and> value_for ob w' v"
proof -
  obtain q where w: "ipc_ok w" "env_ok w" "is_open w ipc" "queue w = Some q" "\<not> destroyed q"
    using sw by (auto simp: stream_world_def)
  obtain v w' q' ob where s: "native_step c w = Some (v, w')" "ipc_ok w'" "env_ok w'" "queue w' = Some q'" "\<not> destroyed q'"
      "spec_step (native_op c) (abs_queue w q) = (ob, abs_world w')" "value_for ob w' v"
    using native_spec [OF w(1,2,4,5), of c] by blast
  obtain cs qop ob1 w1 ds where i: "ipc_step (Worklet qop) (w\<lparr>calls := cs\<rparr>) = Some (ob1, w1)" "actor qop = Uv_port"
      "\<not> releases qop" "native_given c v = written_by_worklet (Worklet qop) ob1" "w' = w1\<lparr>calls := ds\<rparr>"
    using native_as_step [OF w(1,2,4,5) s(1)] by blast
  have "ipc_ok (w\<lparr>calls := cs\<rparr>)" "env_ok (w\<lparr>calls := cs\<rparr>)" "is_open (w\<lparr>calls := cs\<rparr>) ipc"
    using w by (simp_all add: is_open_def)
  then have "is_open w1 ipc \<and> inbound (w\<lparr>calls := cs\<rparr>) ipc @ written_by_worklet (Worklet qop) ob1 = inbound w1 ipc"
    by (rule worklet_inbound [OF _ _ _ i(2,3,1)])
  then have "is_open w' ipc" "inbound w' ipc = inbound w ipc @ native_given c v"
    using i(4,5) by (simp_all add: is_open_def inbound_calls)
  then show ?thesis
    using s w(4) by (auto simp: stream_world_def abs_world_def)
qed

text \<open>What a call of \<open>write\<close> returns, and how full the queue is then.\<close>

definition host_ring_full :: "'p wworld \<Rightarrow> bool" where
  "host_ring_full w \<longleftrightarrow> (\<exists>ch. abs_world w = Some ch \<and> length (waiting ch Thread_port) = depth \<and> \<not> shut ch Uv_port)"

lemma native_write_stream:
  assumes sw: "stream_world ipc w"
  shows "\<exists>v w'. native_step (Native_write data) w = Some (v, w') \<and> stream_world ipc w'
    \<and> (v = Js_null \<and> inbound w' ipc = inbound w ipc
      \<or> v = Js_int32 (-1) \<and> inbound w' ipc = inbound w ipc \<and> host_ring_full w'
      \<or> v = Js_int32 (int (min (length data) INT_MAX)) \<and> inbound w' ipc = inbound w ipc @ take INT_MAX data)"
proof -
  obtain v w' ob ch ch' where s: "native_step (Native_write data) w = Some (v, w')" "stream_world ipc w'"
      "inbound w' ipc = inbound w ipc @ native_given (Native_write data) v" "abs_world w = Some ch" "abs_world w' = Some ch'"
      "spec_step (Write Uv_port data) ch = (ob, Some ch')" "value_for ob w' v"
    using native_stream [OF sw, of "Native_write data"] by (elim exE conjE) (rule that, simp_all)
  have "take (min (length data) INT_MAX) data = take INT_MAX data" by (simp add: min_def)
  then show ?thesis
    using s by (intro exI [of _ v] exI [of _ w']) (auto simp: host_ring_full_def queue_codes split: if_splits)
qed

section \<open>Writes\<close>

definition left_over :: "ipc_stream \<Rightarrow> byte list" where
  "left_over s = (case pending_write s of None \<Rightarrow> [] | Some (chunk, cb) \<Rightarrow> chunk)"

text \<open>The callback of the write that is not done.\<close>

definition owed :: "ipc_stream \<Rightarrow> nat list" where
  "owed s = (case pending_write s of None \<Rightarrow> [] | Some (chunk, cb) \<Rightarrow> [cb])"

text \<open>A stream waits with a write for the host to read, or to be called again for a chunk that is too long.\<close>

definition waits_rightly :: "ipc_stream \<Rightarrow> 'p wworld \<Rightarrow> bool" where
  "waits_rightly s w \<longleftrightarrow> pending_write s = None \<or> host_ring_full w"

lemma send_stream:
  assumes sw: "stream_world ipc w" and none: "pending_write s = None"
  shows "\<exists>s' w'. stream_send chunk cb s w = Some (s', w') \<and> stream_world ipc w' \<and> reading s' = reading s \<and> pushed s' = pushed s
    \<and> (called s' = called s @ [(cb, False)] \<and> pending_write s' = None
      \<or> called s' = called s @ [(cb, True)] \<and> pending_write s' = None \<and> inbound w' ipc = inbound w ipc @ chunk
      \<or> called s' = called s \<and> (\<exists>rest. pending_write s' = Some (rest, cb) \<and> inbound w' ipc @ rest = inbound w ipc @ chunk
        \<and> (length chunk \<le> INT_MAX \<longrightarrow> rest = chunk \<and> host_ring_full w')))"
proof -
  obtain v w' where s: "native_step (Native_write chunk) w = Some (v, w')" "stream_world ipc w'"
      "v = Js_null \<and> inbound w' ipc = inbound w ipc
      \<or> v = Js_int32 (-1) \<and> inbound w' ipc = inbound w ipc \<and> host_ring_full w'
      \<or> v = Js_int32 (int (min (length chunk) INT_MAX)) \<and> inbound w' ipc = inbound w ipc @ take INT_MAX chunk"
    using native_write_stream [OF sw] by blast
  from s(3) show ?thesis
  proof (elim disjE conjE)
    assume "v = Js_null" "inbound w' ipc = inbound w ipc"
    then show ?thesis using s(1,2) none by (simp add: stream_send_def)
  next
    assume "v = Js_int32 (-1)" "inbound w' ipc = inbound w ipc" "host_ring_full w'"
    then show ?thesis using s(1,2) none by (simp add: stream_send_def left_over_def)
  next
    assume v: "v = Js_int32 (int (min (length chunk) INT_MAX))" "inbound w' ipc = inbound w ipc @ take INT_MAX chunk"
    show ?thesis
    proof (cases "length chunk \<le> INT_MAX")
      case True
      then show ?thesis using v s(1,2) none by (simp add: stream_send_def min_def)
    next
      case False
      then have "min (length chunk) INT_MAX = INT_MAX" by simp
      then show ?thesis using v s(1,2) none False by (simp add: stream_send_def left_over_def)
    qed
  qed
qed

lemma retry_stream:
  assumes sw: "stream_world ipc w"
  shows "\<exists>s' w'. stream_retry s w = Some (s', w') \<and> stream_world ipc w' \<and> reading s' = reading s \<and> pushed s' = pushed s
    \<and> (\<exists>cs. called s' = called s @ cs \<and> ((\<forall>(cb, ok) \<in> set cs. ok) \<longrightarrow> inbound w' ipc @ left_over s' = inbound w ipc @ left_over s)
        \<and> map fst cs @ owed s' = owed s)
    \<and> (length (left_over s) \<le> INT_MAX \<longrightarrow> length (left_over s') \<le> INT_MAX \<and> waits_rightly s' w')"
proof (cases "pending_write s")
  case None
  then show ?thesis
    using sw by (simp add: stream_retry_def left_over_def owed_def waits_rightly_def)
next
  case (Some cc)
  obtain chunk cb where c: "pending_write s = Some (chunk, cb)" using Some by (cases cc) simp
  let ?s = "s\<lparr>pending_write := None\<rparr>"
  obtain s' w' where "stream_send chunk cb ?s w = Some (s', w')" "stream_world ipc w'" "reading s' = reading ?s" "pushed s' = pushed ?s"
    "called s' = called ?s @ [(cb, False)] \<and> pending_write s' = None
      \<or> called s' = called ?s @ [(cb, True)] \<and> pending_write s' = None \<and> inbound w' ipc = inbound w ipc @ chunk
      \<or> called s' = called ?s \<and> (\<exists>rest. pending_write s' = Some (rest, cb) \<and> inbound w' ipc @ rest = inbound w ipc @ chunk
        \<and> (length chunk \<le> INT_MAX \<longrightarrow> rest = chunk \<and> host_ring_full w'))"
    using send_stream [OF sw, of ?s chunk cb] by auto
  then show ?thesis
    using c by (auto simp: stream_retry_def left_over_def owed_def waits_rightly_def)
qed

section \<open>Reads\<close>

text \<open>What a drain pushes of the messages that wait, and those that it leaves; \<open>over\<close>: the host has ended.\<close>

fun drained :: "(byte list option list \<Rightarrow> bool) \<Rightarrow> bool \<Rightarrow> byte list list \<Rightarrow> byte list option list
    \<Rightarrow> byte list option list \<times> bool \<times> byte list list" where
  "drained wants over [] ps = (if over then (ps @ [None], False, []) else (ps, True, []))"
| "drained wants over (d # ds) ps =
     (if wants (ps @ [Some d]) then drained wants over ds (ps @ [Some d]) else (ps @ [Some d], False, ds))"

lemma drained_reading: "drained wants over ms ps = (ps', b, ds) \<Longrightarrow> b \<Longrightarrow> ds = [] \<and> \<not> over"
  by (induction ms arbitrary: ps) (auto split: if_splits)

definition host_over :: "channel \<Rightarrow> bool" where
  "host_over ch \<longleftrightarrow> bare_queue_state_ended \<le> phase ch Thread_port"

lemma native_read_stream:
  assumes sw: "stream_world ipc w" and a: "abs_world w = Some ch"
  shows "\<exists>v w'. native_step Native_read w = Some (v, w') \<and> stream_world ipc w' \<and> inbound w' ipc = inbound w ipc
    \<and> (case waiting ch Uv_port of
        [] \<Rightarrow> abs_world w' = Some ch \<and> v = (if host_over ch then Js_null else Js_undefined)
      | d # ds \<Rightarrow> abs_world w' = Some (ch\<lparr>waiting := (waiting ch)(Uv_port := ds)\<rparr>)
          \<and> (\<exists>p. v = Js_external_arraybuffer p (length d) \<and> read_block p 0 (length d) w' = Some d))"
proof -
  obtain v w' ob ch0 ch' where n: "native_step Native_read w = Some (v, w')" "stream_world ipc w'"
      "inbound w' ipc = inbound w ipc @ native_given Native_read v" "abs_world w = Some ch0" "abs_world w' = Some ch'"
      "spec_step (native_op Native_read) ch0 = (ob, Some ch')" "value_for ob w' v"
    using native_stream [OF sw, of Native_read] by (elim exE conjE) (rule that, simp_all)
  have ch: "ch0 = ch" using n(4) a by simp
  have "native_given Native_read v = []" by simp
  moreover have "case waiting ch Uv_port of
        [] \<Rightarrow> abs_world w' = Some ch \<and> v = (if host_over ch then Js_null else Js_undefined)
      | d # ds \<Rightarrow> abs_world w' = Some (ch\<lparr>waiting := (waiting ch)(Uv_port := ds)\<rparr>)
          \<and> (\<exists>p. v = Js_external_arraybuffer p (length d) \<and> read_block p 0 (length d) w' = Some d)"
  proof (cases "waiting ch Uv_port")
    case Nil
    then show ?thesis using n(5-7) ch by (auto simp: host_over_def split: if_splits)
  next
    case (Cons d ds)
    then have c: "ob = Got d" "ch' = ch\<lparr>waiting := (waiting ch)(Uv_port := ds)\<rparr>" using n(6) ch by auto
    then obtain p where p: "v = Js_external_arraybuffer p (length d)" "caller_heap w' p = Some d" using n(7) by auto
    then have "read_block p 0 (length d) w' = Some d"
      by (auto simp: read_block_def caller_heap_def restrict_map_def split: if_splits)
    then show ?thesis using Cons c(2) p(1) n(5) by simp
  qed
  ultimately show ?thesis using n(1-3) by (intro exI [of _ v] exI [of _ w']) simp
qed

lemma drain_loop_stream:
  assumes sw: "stream_world ipc w" and a: "abs_world w = Some ch" and r: "reading s"
  shows "\<exists>s' w' ps b ds. drain_loop wants s w = Some (s', w') \<and> stream_world ipc w' \<and> inbound w' ipc = inbound w ipc
    \<and> drained wants (host_over ch) (waiting ch Uv_port) (pushed s) = (ps, b, ds)
    \<and> reading s' = b \<and> pushed s' = ps \<and> pending_write s' = pending_write s \<and> called s' = called s \<and> abs_world w' = Some (ch\<lparr>waiting := (waiting ch)(Uv_port := ds)\<rparr>)"
  using assms
proof (induction "waiting ch Uv_port" arbitrary: w ch s)
  case Nil
  then have e: "waiting ch Uv_port = []" by simp
  obtain v w' where n: "native_step Native_read w = Some (v, w')" "stream_world ipc w'" "inbound w' ipc = inbound w ipc"
      "abs_world w' = Some ch" "v = (if host_over ch then Js_null else Js_undefined)"
    using native_read_stream [OF Nil.prems(1,2)] unfolding e list.case by blast
  let ?s = "if host_over ch then s\<lparr>reading := False, pushed := pushed s @ [None]\<rparr> else s"
  have "ch\<lparr>waiting := (waiting ch)(Uv_port := [])\<rparr> = ch" by (rule channel_eqI) (use e in auto)
  then have same: "abs_world w' = Some (ch\<lparr>waiting := (waiting ch)(Uv_port := [])\<rparr>)" using n(4) by simp
  have "drain_loop wants s w = Some (?s, w')" using n(1,5) by (subst drain_loop.simps) simp
  then show ?case
    using n(2,3) same e Nil.prems(3)
    by (intro exI [of _ ?s] exI [of _ w'] exI [of _ "pushed ?s"] exI [of _ "reading ?s"] exI [of _ "[]"]) (simp add: fun_upd_def)
next
  case (Cons d ds)
  then have e: "waiting ch Uv_port = d # ds" by simp
  let ?ch = "ch\<lparr>waiting := (waiting ch)(Uv_port := ds)\<rparr>" and ?s = "s\<lparr>pushed := pushed s @ [Some d]\<rparr>"
  obtain v w' p where n: "native_step Native_read w = Some (v, w')" "stream_world ipc w'" "inbound w' ipc = inbound w ipc"
      "abs_world w' = Some ?ch" "v = Js_external_arraybuffer p (length d)" "read_block p 0 (length d) w' = Some d"
    using native_read_stream [OF Cons.prems(1,2)] unfolding e list.case by blast
  show ?case
  proof (cases "wants (pushed ?s)")
    case True
    have l: "drain_loop wants s w = drain_loop wants ?s w'"
      using n(1,5,6) True by (subst drain_loop.simps) simp
    obtain s' w2 ps b2 ds2 where i: "drain_loop wants ?s w' = Some (s', w2)" "stream_world ipc w2" "inbound w2 ipc = inbound w' ipc"
        "drained wants (host_over ?ch) (waiting ?ch Uv_port) (pushed ?s) = (ps, b2, ds2)"
        "reading s' = b2" "pushed s' = ps" "pending_write s' = pending_write ?s" "called s' = called ?s" "abs_world w2 = Some (?ch\<lparr>waiting := (waiting ?ch)(Uv_port := ds2)\<rparr>)"
      using Cons.hyps(1) [of ?ch w' ?s] n(2,4) Cons.prems(3) by auto
    have "?ch\<lparr>waiting := (waiting ?ch)(Uv_port := ds2)\<rparr> = ch\<lparr>waiting := (waiting ch)(Uv_port := ds2)\<rparr>"
      by (rule channel_eqI) simp_all
    then show ?thesis using l i e True n(3) by (simp add: host_over_def)
  next
    case False
    then have "drain_loop wants s w = Some (?s\<lparr>reading := False\<rparr>, w')"
      using n(1,5,6) by (subst drain_loop.simps) simp
    then show ?thesis using n(2-4) e False by simp
  qed
qed

lemma drain_stream:
  assumes sw: "stream_world ipc w" and a: "abs_world w = Some ch"
  shows "\<exists>s' w' ch'. stream_drain wants s w = Some (s', w') \<and> stream_world ipc w' \<and> inbound w' ipc = inbound w ipc
    \<and> pending_write s' = pending_write s \<and> called s' = called s
    \<and> abs_world w' = Some ch' \<and> waiting ch' Thread_port = waiting ch Thread_port \<and> phase ch' = phase ch
    \<and> (reading s' \<longrightarrow> waiting ch' Uv_port = [] \<and> \<not> host_over ch')"
proof (cases "reading s")
  case True
  obtain s' w' ps b ds where d: "drain_loop wants s w = Some (s', w')" "stream_world ipc w'" "inbound w' ipc = inbound w ipc"
      "drained wants (host_over ch) (waiting ch Uv_port) (pushed s) = (ps, b, ds)"
      "reading s' = b" "pushed s' = ps" "pending_write s' = pending_write s" "called s' = called s" "abs_world w' = Some (ch\<lparr>waiting := (waiting ch)(Uv_port := ds)\<rparr>)"
    using drain_loop_stream [OF sw a True, of wants] by (elim exE conjE) (rule that)
  have "b \<longrightarrow> ds = [] \<and> \<not> host_over ch" using drained_reading [OF d(4)] by blast
  then show ?thesis using d True by (simp add: stream_drain_def host_over_def)
next
  case False
  then show ?thesis using assms by (simp add: stream_drain_def)
qed

section \<open>Runs\<close>

definition chunk_of :: "stream_event \<Rightarrow> byte list" where
  "chunk_of e = (case e of Stream_write chunk cb \<Rightarrow> chunk | _ \<Rightarrow> [])"

definition callback_of :: "stream_event \<Rightarrow> nat list" where
  "callback_of e = (case e of Stream_write chunk cb \<Rightarrow> [cb] | Stream_final cb \<Rightarrow> [cb] | Stream_destroy cb \<Rightarrow> [cb] | _ \<Rightarrow> [])"

definition host_bytes :: "ptr \<Rightarrow> stream_event \<Rightarrow> ipc_obs option \<Rightarrow> byte list" where
  "host_bytes ipc e ob = (case (e, ob) of (By_host op, Some ob) \<Rightarrow> read_by_host ipc op ob | _ \<Rightarrow> [])"

definition all_right :: "(nat \<times> bool) list \<Rightarrow> bool" where
  "all_right cs \<longleftrightarrow> (\<forall>(cb, ok) \<in> set cs. ok)"

lemma host_stream:
  assumes sw: "stream_world ipc w" and op: "by_host op" "stream_op ipc op" "allowed w op"
  shows "\<exists>ob w'. ipc_step op w = Some (ob, w') \<and> stream_world ipc w' \<and> inbound w ipc = read_by_host ipc op ob @ inbound w' ipc"
proof -
  obtain q where w: "ipc_ok w" "env_ok w" "is_open w ipc" "queue w = Some q" "\<not> destroyed q"
    using sw by (auto simp: stream_world_def)
  obtain ob w' where s: "ipc_step op w = Some (ob, w')" "ipc_ok w'" "env_ok w'"
    using ipc_step_total [OF w(1,2) op(3)] by blast
  have "\<And>qop. op \<noteq> Worklet qop" using op(1) by (auto simp: by_host_def)
  then have i: "is_open w' ipc \<and> inbound w ipc = read_by_host ipc op ob @ inbound w' ipc"
    using host_inbound [OF w(1,2) op(3) w(3) op(2) _ s(1)] by blast
  have "uv_kept w w'" using ipc_step_host_only [OF w(1) s(1) op(1)] by (simp add: host_only_def)
  then have "\<exists>q'. queue w' = Some q' \<and> \<not> destroyed q'" using w(4,5) by (auto simp: uv_kept_def uv_view_def)
  then show ?thesis using s i by (auto simp: stream_world_def)
qed

lemma plain_native_stream:
  assumes sw: "stream_world ipc w" and c: "c \<in> {Native_end, Native_ref, Native_unref}"
  shows "\<exists>v w'. native_step c w = Some (v, w') \<and> stream_world ipc w' \<and> inbound w' ipc = inbound w ipc"
proof -
  obtain v w' where n: "native_step c w = Some (v, w')" "stream_world ipc w'" "inbound w' ipc = inbound w ipc @ native_given c v"
    using native_stream [OF sw, of c] by blast
  have "native_given c v = []" using c by auto
  then show ?thesis using n by simp
qed

lemmas event_defs = lift_stream_def chunk_of_def callback_of_def host_bytes_def all_right_def

text \<open>
  What a step accounts for: each callback once, the bytes in their order, and nothing more left over
  than there may be.
\<close>

definition accounts :: "ptr \<Rightarrow> stream_event \<Rightarrow> ipc_stream \<Rightarrow> 'p wworld \<Rightarrow> (ipc_obs option \<times> ipc_stream \<times> 'p wworld) option \<Rightarrow> bool" where
  "accounts ipc e s w r \<longleftrightarrow> (\<exists>ob s' w' cs. r = Some (ob, s', w') \<and> stream_world ipc w' \<and> called s' = called s @ cs
    \<and> mset (map fst cs) + mset (owed s') = mset (owed s) + mset (callback_of e)
    \<and> (all_right cs \<longrightarrow> inbound w ipc @ left_over s @ chunk_of e = host_bytes ipc e ob @ inbound w' ipc @ left_over s')
    \<and> (length (left_over s) \<le> INT_MAX \<longrightarrow> length (chunk_of e) \<le> INT_MAX \<longrightarrow> length (left_over s') \<le> INT_MAX))"

lemma plain_accounts:
  assumes sw: "stream_world ipc w" and c: "c \<in> {Native_end, Native_ref, Native_unref}"
    and r: "r = (case native_step c w of None \<Rightarrow> None | Some (v, w') \<Rightarrow> Some (None, s\<lparr>called := called s @ cs\<rparr>, w'))"
    and e: "chunk_of e = []" "map fst cs = callback_of e" "all_right cs" "host_bytes ipc e None = []"
  shows "accounts ipc e s w r"
proof -
  obtain v w' where "native_step c w = Some (v, w')" "stream_world ipc w'" "inbound w' ipc = inbound w ipc"
    using plain_native_stream [OF sw c] by blast
  then show ?thesis
    unfolding accounts_def r using e
    by (intro exI [of _ None] exI [of _ "s\<lparr>called := called s @ cs\<rparr>"] exI [of _ w'] exI [of _ cs])
      (simp add: owed_def left_over_def)
qed

lemma read_accounts:
  assumes sw: "stream_world ipc w"
  shows "accounts ipc Stream_read s w (stream_step wants Stream_read s w)"
proof -
  obtain ch where ch: "abs_world w = Some ch" using sw by (auto simp: stream_world_def abs_world_def)
  obtain s' w' ch' where "stream_drain wants (s\<lparr>reading := True\<rparr>) w = Some (s', w')" "stream_world ipc w'"
      "inbound w' ipc = inbound w ipc" "pending_write s' = pending_write s" "called s' = called s"
    using drain_stream [OF sw ch, of wants "s\<lparr>reading := True\<rparr>"] by auto
  then show ?thesis by (auto simp: accounts_def event_defs stream_read_def owed_def left_over_def)
qed

lemma write_accounts:
  assumes sw: "stream_world ipc w" and none: "pending_write s = None"
  shows "accounts ipc (Stream_write chunk cb) s w (stream_step wants (Stream_write chunk cb) s w)"
proof -
  obtain s' w' where "stream_send chunk cb s w = Some (s', w')" "stream_world ipc w'"
      "called s' = called s @ [(cb, False)] \<and> pending_write s' = None
        \<or> called s' = called s @ [(cb, True)] \<and> pending_write s' = None \<and> inbound w' ipc = inbound w ipc @ chunk
        \<or> called s' = called s \<and> (\<exists>rest. pending_write s' = Some (rest, cb) \<and> inbound w' ipc @ rest = inbound w ipc @ chunk
          \<and> (length chunk \<le> INT_MAX \<longrightarrow> rest = chunk \<and> host_ring_full w'))"
    using send_stream [OF sw none, of chunk cb] by blast
  then show ?thesis using none by (auto simp: accounts_def event_defs stream_write_def owed_def left_over_def)
qed

lemma signal_accounts:
  assumes sw: "stream_world ipc w"
  shows "accounts ipc Stream_signal s w (stream_step wants Stream_signal s w)"
proof -
  obtain s1 w1 cs where r: "stream_retry s w = Some (s1, w1)" "stream_world ipc w1" "called s1 = called s @ cs"
      "(\<forall>(cb, ok) \<in> set cs. ok) \<longrightarrow> inbound w1 ipc @ left_over s1 = inbound w ipc @ left_over s" "map fst cs @ owed s1 = owed s"
      "length (left_over s) \<le> INT_MAX \<longrightarrow> length (left_over s1) \<le> INT_MAX"
    using retry_stream [OF sw, of s] by blast
  obtain ch1 where ch1: "abs_world w1 = Some ch1" using r(2) by (auto simp: stream_world_def abs_world_def)
  obtain s' w' where d: "stream_drain wants s1 w1 = Some (s', w')" "stream_world ipc w'"
      "inbound w' ipc = inbound w1 ipc" "pending_write s' = pending_write s1" "called s' = called s1"
    using drain_stream [OF r(2) ch1, of wants s1] by blast
  have "mset (map fst cs) + mset (owed s1) = mset (owed s)" using r(5) by (metis mset_append)
  then show ?thesis
    using r d by (auto simp: accounts_def event_defs stream_on_signal_def owed_def left_over_def)
qed

lemma host_accounts:
  assumes sw: "stream_world ipc w" and m: "stream_may ipc (By_host op) s w"
  shows "accounts ipc (By_host op) s w (stream_step wants (By_host op) s w)"
proof -
  obtain ob w' where "ipc_step op w = Some (ob, w')" "stream_world ipc w'"
      "inbound w ipc = read_by_host ipc op ob @ inbound w' ipc"
    using host_stream [OF sw, of op] m by (auto simp: stream_may_def)
  then show ?thesis by (auto simp: accounts_def event_defs simp del: ipc_step.simps)
qed

lemma step_accounts:
  assumes sw: "stream_world ipc w" and m: "stream_may ipc e s w"
  shows "accounts ipc e s w (stream_step wants e s w)"
proof (cases e)
  case (Stream_write chunk cb)
  then show ?thesis using write_accounts [OF sw] m by (simp add: stream_may_def)
next
  case (Stream_final cb)
  show ?thesis
    by (rule plain_accounts [OF sw, of Native_end _ _ "[(cb, True)]"])
      (use Stream_final in \<open>auto simp: event_defs stream_final_def split: option.split\<close>)
next
  case (Stream_destroy cb)
  show ?thesis
    by (rule plain_accounts [OF sw, of Native_unref _ _ "[(cb, True)]"])
      (use Stream_destroy in \<open>auto simp: event_defs stream_destroy_def split: option.split\<close>)
next
  case (Stream_ref gone)
  show ?thesis
  proof (cases gone)
    case True
    then show ?thesis using Stream_ref sw by (auto simp: accounts_def event_defs stream_ref_def)
  next
    case False
    show ?thesis
      by (rule plain_accounts [OF sw, of Native_ref _ _ "[]"])
        (use Stream_ref False in \<open>auto simp: event_defs stream_ref_def split: option.split\<close>)
  qed
next
  case Stream_unref
  show ?thesis
    by (rule plain_accounts [OF sw, of Native_unref _ _ "[]"])
      (use Stream_unref in \<open>auto simp: event_defs stream_unref_def split: option.split\<close>)
next
  case (By_host op)
  then show ?thesis using host_accounts [OF sw] m by blast
qed (use read_accounts [OF sw] signal_accounts [OF sw] in simp_all)

lemma step_stream:
  assumes "stream_world ipc w" and "stream_may ipc e s w"
  shows "\<exists>ob s' w' cs. stream_step wants e s w = Some (ob, s', w') \<and> stream_world ipc w' \<and> called s' = called s @ cs
    \<and> mset (map fst cs) + mset (owed s') = mset (owed s) + mset (callback_of e)
    \<and> (all_right cs \<longrightarrow> inbound w ipc @ left_over s @ chunk_of e = host_bytes ipc e ob @ inbound w' ipc @ left_over s')
    \<and> (length (left_over s) \<le> INT_MAX \<longrightarrow> length (chunk_of e) \<le> INT_MAX \<longrightarrow> length (left_over s') \<le> INT_MAX)"
  using step_accounts [OF assms, of wants] unfolding accounts_def .

lemma all_right_append [simp]: "all_right (cs @ ds) \<longleftrightarrow> all_right cs \<and> all_right ds"
  by (auto simp: all_right_def)

lemma run_stream_states:
  assumes "stream_world ipc w" and "stream_run wants ipc es s w = Some (obs, s', w')"
  shows "stream_world ipc w' \<and> (\<exists>cs. called s' = called s @ cs
    \<and> mset (map fst cs) + mset (owed s') = mset (owed s) + mset (concat (map callback_of es))
    \<and> (all_right cs \<longrightarrow> inbound w ipc @ left_over s @ concat (map chunk_of es)
        = concat (map2 (host_bytes ipc) es obs) @ inbound w' ipc @ left_over s')
    \<and> (length (left_over s) \<le> INT_MAX \<longrightarrow> (\<forall>e \<in> set es. length (chunk_of e) \<le> INT_MAX) \<longrightarrow> length (left_over s') \<le> INT_MAX))"
  using assms
proof (induction es arbitrary: s w obs)
  case Nil
  then show ?case by simp
next
  case (Cons e es)
  have m: "stream_may ipc e s w" using Cons.prems(2) by (simp split: if_splits)
  obtain ob s1 w1 cs1 where s1: "stream_step wants e s w = Some (ob, s1, w1)" "stream_world ipc w1" "called s1 = called s @ cs1"
      "mset (map fst cs1) + mset (owed s1) = mset (owed s) + mset (callback_of e)"
      "all_right cs1 \<longrightarrow> inbound w ipc @ left_over s @ chunk_of e = host_bytes ipc e ob @ inbound w1 ipc @ left_over s1"
      "length (left_over s) \<le> INT_MAX \<longrightarrow> length (chunk_of e) \<le> INT_MAX \<longrightarrow> length (left_over s1) \<le> INT_MAX"
    using step_stream [OF Cons.prems(1) m, of wants] by blast
  obtain obs1 where r: "stream_run wants ipc es s1 w1 = Some (obs1, s', w')" "obs = ob # obs1"
    using Cons.prems(2) m s1(1) by (auto simp: bind_eq_Some_conv simp del: stream_step.simps)
  obtain cs2 where i: "stream_world ipc w'" "called s' = called s1 @ cs2"
      "mset (map fst cs2) + mset (owed s') = mset (owed s1) + mset (concat (map callback_of es))"
      "all_right cs2 \<longrightarrow> inbound w1 ipc @ left_over s1 @ concat (map chunk_of es)
        = concat (map2 (host_bytes ipc) es obs1) @ inbound w' ipc @ left_over s'"
      "length (left_over s1) \<le> INT_MAX \<longrightarrow> (\<forall>e \<in> set es. length (chunk_of e) \<le> INT_MAX) \<longrightarrow> length (left_over s') \<le> INT_MAX"
    using Cons.IH [OF s1(2) r(1)] by blast
  have "mset (map fst (cs1 @ cs2)) + mset (owed s') = mset (map fst cs1) + (mset (map fst cs2) + mset (owed s'))"
    by (simp add: add.assoc)
  also have "\<dots> = (mset (map fst cs1) + mset (owed s1)) + mset (concat (map callback_of es))"
    unfolding i(3) by (simp only: add.assoc)
  also have "\<dots> = mset (owed s) + mset (concat (map callback_of (e # es)))"
    unfolding s1(4) by (simp add: add.assoc)
  finally have "mset (map fst (cs1 @ cs2)) + mset (owed s') = mset (owed s) + mset (concat (map callback_of (e # es)))" .
  moreover have "inbound w ipc @ left_over s @ concat (map chunk_of (e # es))
      = concat (map2 (host_bytes ipc) (e # es) obs) @ inbound w' ipc @ left_over s'" if "all_right (cs1 @ cs2)"
    using s1(5) i(4) that r(2) by simp (metis append_assoc)
  ultimately show ?case
    using i s1(3,6) by (intro conjI exI [of _ "cs1 @ cs2"]) auto
qed

section \<open>The properties\<close>

text \<open>
  C14: The stream of the script is faithful towards the host. Over any run of the stream and of the
  host, in which the stream is called as a \<open>Duplex\<close> is, none of its calls of \<open>native\<close> fails or
  returns what it does not expect; each callback that it is given is called once or still owed;
  and if none was called with an error, then what the host had yet to read, followed by all
  chunks that were written, is what the host read, what it has yet to read, and the rest of
  the chunk whose callback is owed: blocked and partial writes lose and repeat nothing.
\<close>

theorem stream_writes_arrive:
  assumes "stream_world ipc w" and "stream_run wants ipc es new_stream w = Some (obs, s, w')"
  shows "(\<forall>e. stream_may ipc e s w' \<longrightarrow> (\<exists>r. stream_step wants e s w' = Some r))
    \<and> mset (map fst (called s)) + mset (owed s) = mset (concat (map callback_of es))
    \<and> (all_right (called s) \<longrightarrow> inbound w ipc @ concat (map chunk_of es)
        = concat (map2 (host_bytes ipc) es obs) @ inbound w' ipc @ left_over s)"
proof -
  have new: "called new_stream = []" "owed new_stream = []" "left_over new_stream = []"
    by (simp_all add: new_stream_def owed_def left_over_def)
  obtain cs where r: "stream_world ipc w'" "called s = called new_stream @ cs"
      "mset (map fst cs) + mset (owed s) = mset (owed new_stream) + mset (concat (map callback_of es))"
      "all_right cs \<longrightarrow> inbound w ipc @ left_over new_stream @ concat (map chunk_of es)
        = concat (map2 (host_bytes ipc) es obs) @ inbound w' ipc @ left_over s"
    using run_stream_states [OF assms] by blast
  have "\<exists>x. stream_step wants e s w' = Some x" if "stream_may ipc e s w'" for e
    using step_stream [OF r(1) that, of wants] by blast
  then show ?thesis using r(2-4) new by simp
qed

text \<open>
  C16: What the stream hands on is what the host sent. When it wants to read, it pushes the messages
  that wait, whole and in order, up to the first after which no more is wanted, and after the
  last the \<open>null\<close> of the end if the host has ended; what it leaves still waits.
\<close>

theorem stream_reads_exact:
  assumes "stream_world ipc w" and "abs_world w = Some ch"
  shows "\<exists>s' w' ps b ds. stream_read wants s w = Some (s', w')
    \<and> drained wants (bare_queue_state_ended \<le> phase ch Thread_port) (waiting ch Uv_port) (pushed s) = (ps, b, ds)
    \<and> pushed s' = ps \<and> reading s' = b \<and> abs_world w' = Some (ch\<lparr>waiting := (waiting ch)(Uv_port := ds)\<rparr>)"
proof -
  let ?s = "s\<lparr>reading := True\<rparr>"
  obtain s' w' ps b ds where d: "drain_loop wants ?s w = Some (s', w')"
      "drained wants (host_over ch) (waiting ch Uv_port) (pushed ?s) = (ps, b, ds)"
      "reading s' = b" "pushed s' = ps" "abs_world w' = Some (ch\<lparr>waiting := (waiting ch)(Uv_port := ds)\<rparr>)"
    using drain_loop_stream [OF assms, of ?s wants] by auto
  then show ?thesis
    by (intro exI [of _ s'] exI [of _ w'] exI [of _ ps] exI [of _ b] exI [of _ ds])
      (simp add: stream_read_def stream_drain_def host_over_def)
qed

text \<open>
  A chunk that is longer than \<open>INT_MAX\<close> stalls: \<open>native\<close> takes the first \<open>INT_MAX\<close> bytes of it, and
  the rest waits for a signal although there is room for it in the ring, for which the host's
  reads do not signal.
\<close>

theorem stream_long_chunk_stalls:
  assumes "stream_world ipc w" and "abs_world w = Some ch" and "\<not> shut ch Uv_port"
    and "Suc (length (waiting ch Thread_port)) < depth" and "INT_MAX < length chunk"
  shows "\<exists>s' w' ch'. stream_write chunk cb new_stream w = Some (s', w') \<and> pending_write s' = Some (drop INT_MAX chunk, cb)
    \<and> abs_world w' = Some ch' \<and> length (waiting ch' Thread_port) < depth \<and> \<not> shut ch' Uv_port"
proof -
  obtain v w' ob ch0 ch' where n: "native_step (Native_write chunk) w = Some (v, w')" "abs_world w = Some ch0"
      "abs_world w' = Some ch'" "spec_step (native_op (Native_write chunk)) ch0 = (ob, Some ch')" "value_for ob w' v"
    using native_stream [OF assms(1), of "Native_write chunk"] by (elim exE conjE) (rule that, simp_all)
  have ch: "ch0 = ch" using n(2) assms(2) by simp
  have ne: "chunk \<noteq> []" using assms(5) by auto
  have mn: "min (length chunk) INT_MAX = INT_MAX" using assms(5) by simp
  have ob: "ob = Sent (int INT_MAX)"
    "ch' = ch\<lparr>waiting := (waiting ch)(Thread_port := waiting ch Thread_port @ [take INT_MAX chunk])\<rparr>"
    using n(4) assms(3,4) ne mn by (simp_all add: ch)
  have v: "v = Js_int32 (int INT_MAX)" using n(5) ob(1) by (simp add: queue_codes)
  show ?thesis
    using n(1,3) v ob(2) assms(3-5) by (simp add: stream_write_def stream_send_def new_stream_def shut_def)
qed

section \<open>A stream\<close>

lemma created_stream: "stream_world 2 created_world"
  using created_ok created_simps attached_not_destroyed by (auto simp: stream_world_def is_open_def)

lemma created_abs: "abs_world created_world = Some (abs_queue created_world attached_queue)"
  by (simp add: abs_world_def)

theorem stream_writes_arrive_witness:
  "\<exists>obs s w'. stream_run (\<lambda>_. True) 2 [Stream_write [1, 2, 3] 7, Stream_signal] new_stream created_world = Some (obs, s, w')
    \<and> (all_right (called s) \<longrightarrow> inbound w' 2 @ left_over s = [1, 2, 3])"
proof -
  let ?es = "[Stream_write [1, 2, 3] 7, Stream_signal]"
  have 1: "stream_may 2 (Stream_write [1, 2, 3] 7) new_stream created_world" by (simp add: stream_may_def new_stream_def)
  obtain ob s1 w1 where s1: "stream_step (\<lambda>_. True) (Stream_write [1, 2, 3] 7) new_stream created_world = Some (ob, s1, w1)"
      "stream_world 2 w1"
    using step_stream [OF created_stream 1, of "\<lambda>_. True"] by blast
  have 2: "stream_may 2 Stream_signal s1 w1" by (simp add: stream_may_def)
  obtain ob2 s2 w2 where s2: "stream_step (\<lambda>_. True) Stream_signal s1 w1 = Some (ob2, s2, w2)"
    using step_stream [OF s1(2) 2, of "\<lambda>_. True"] by blast
  have r: "stream_run (\<lambda>_. True) 2 ?es new_stream created_world = Some ([ob, ob2], s2, w2)"
    using s1(1) s2 1 2 by (simp del: stream_step.simps)
  show ?thesis
    using stream_writes_arrive [OF created_stream r] r created_inbound
    by (auto simp: chunk_of_def host_bytes_def simp del: stream_run.simps)
qed

theorem stream_reads_exact_witness:
  "\<exists>s' w'. stream_read (\<lambda>_. True) new_stream created_world = Some (s', w') \<and> pushed s' = [] \<and> reading s'"
  using stream_reads_exact [OF created_stream created_abs, of "\<lambda>_. True" new_stream]
    attached_waiting(1) [of created_world Uv_port] attached_not_shut [of created_world Thread_port]
  by (auto simp: new_stream_def shut_def simp del: abs_phase split: if_splits)

theorem stream_long_chunk_stalls_witness:
  "\<exists>s' w' :: unit wworld. stream_write (replicate (Suc INT_MAX) 0) 7 new_stream created_world = Some (s', w') \<and> pending_write s' = Some ([0], 7)"
proof -
  have w: "waiting (abs_queue created_world attached_queue) Thread_port = []" by (rule attached_waiting(1))
  have d: "drop INT_MAX (replicate (Suc INT_MAX) (0 :: byte)) = [0]" by (simp add: drop_replicate del: replicate_Suc) simp
  have room: "Suc (length (waiting (abs_queue created_world attached_queue) Thread_port)) < depth"
    unfolding w by (simp add: depth_def capacity)
  have long: "INT_MAX < length (replicate (Suc INT_MAX) (0 :: byte))" by (simp only: length_replicate lessI)
  show ?thesis
    using stream_long_chunk_stalls [OF created_stream created_abs attached_not_shut room long, of 7] unfolding d by blast
qed

end
