(* ===== verification/Stream_Wakeup.thy ===== *)
theory Stream_Wakeup
  imports Worklet_Stream
begin

text \<open>
  The script's stream sleeps only when it has nothing to do: what its signals are for. The host's
  operations on the ipc are taken apart into those of the queue, whose signals \<open>Queue_Wakeup\<close>
  accounts for, and the stream's handler is shown to leave nothing undone.
\<close>

section \<open>What the host tells the worklet\<close>

text \<open>
  Between the two worlds the worklet's end was signalled if it can now read or write and could
  not before. \<open>quiet\<close>: nothing was done to the queue.
\<close>

definition told :: "'z ipc_world_scheme \<Rightarrow> 'z ipc_world_scheme \<Rightarrow> bool" where
  "told w w' \<longleftrightarrow> (\<exists>q q' cs. queue w = Some q \<and> queue w' = Some q' \<and> calls w' = calls w @ cs
    \<and> (turns (abs_queue w q) (abs_queue w' q') Uv_port \<longrightarrow> Async_send Queue_async \<in> set cs))"

definition quiet :: "'z ipc_world_scheme \<Rightarrow> 'z ipc_world_scheme \<Rightarrow> bool" where
  "quiet w w' \<longleftrightarrow> queue w' = queue w \<and> (\<exists>cs. calls w' = calls w @ cs)"

lemma turns_any_heap:
  "can_read (abs_queue w q) p = can_read (abs_queue v q) p" "can_write (abs_queue w q) p = can_write (abs_queue v q) p"
  by (simp_all add: can_read_def can_write_def shut_def)

lemma quiet_told: "quiet w w' \<Longrightarrow> queue w = Some q \<Longrightarrow> told w w'"
  using turns_any_heap [of w q Uv_port w'] by (auto simp: quiet_def told_def turns_def)

lemma quiet_trans: "quiet w w1 \<Longrightarrow> quiet w1 w2 \<Longrightarrow> quiet w w2"
  by (auto simp: quiet_def)

lemma told_trans:
  assumes "told w w1" and "told w1 w2"
  shows "told w w2"
proof -
  obtain q q1 q2 cs ds where a: "queue w = Some q" "queue w1 = Some q1" "calls w1 = calls w @ cs"
      "turns (abs_queue w q) (abs_queue w1 q1) Uv_port \<longrightarrow> Async_send Queue_async \<in> set cs"
      "queue w2 = Some q2" "calls w2 = calls w1 @ ds"
      "turns (abs_queue w1 q1) (abs_queue w2 q2) Uv_port \<longrightarrow> Async_send Queue_async \<in> set ds"
    using assms by (auto simp: told_def)
  have "turns (abs_queue w q) (abs_queue w1 q1) Uv_port \<or> turns (abs_queue w1 q1) (abs_queue w2 q2) Uv_port"
    if "turns (abs_queue w q) (abs_queue w2 q2) Uv_port"
    using that by (auto simp: turns_def)
  then show ?thesis using a by (auto simp: told_def)
qed

lemma told_quiet:
  assumes "told w w1" and "quiet w1 w2"
  shows "told w w2"
proof -
  obtain q1 where "queue w1 = Some q1" using assms(1) by (auto simp: told_def)
  then have "told w1 w2" by (rule quiet_told [OF assms(2)])
  then show ?thesis by (rule told_trans [OF assms(1)])
qed

lemma quiet_emit [simp]: "quiet w (emit c v) = quiet w (v\<lparr>calls := calls v @ [c]\<rparr>)"
  by (simp add: emit_def)

lemma quiet_same [intro]:
  "quiet w w" "quiet w v \<Longrightarrow> quiet w (v\<lparr>calls := calls v @ cs\<rparr>)" "quiet w v \<Longrightarrow> quiet w (v\<lparr>ipcs := x\<rparr>)"
  "quiet w v \<Longrightarrow> quiet w (v\<lparr>polls := y\<rparr>)" "quiet w v \<Longrightarrow> quiet w (v\<lparr>brk := b\<rparr>)"
  by (auto simp: quiet_def)

lemma quiet_signal: "bare_ipc__signal i w = Some w' \<Longrightarrow> quiet w w'"
  by (auto simp: bare_ipc__signal_def emit_ok_def bind_eq_Some_conv quiet_def emit_def split: if_splits)

lemma quiet_free: "free_block p w = Some w' \<Longrightarrow> quiet w w'"
  by (auto simp: free_block_def quiet_def split: if_splits)

lemma quiet_readable: "bare_queue_readable p w = Some (b, w') \<Longrightarrow> quiet w w'"
  by (auto simp: bare_queue_readable_def bind_eq_Some_conv Let_def quiet_def emit_def)

lemma quiet_copy: "copy_pending ipc n i w = Some (r, w') \<Longrightarrow> quiet w w'"
  by (auto simp: copy_pending_def bind_eq_Some_conv Let_def split: if_splits
      dest!: quiet_free quiet_readable quiet_signal)
    (auto simp: quiet_def)

text \<open>The polls and the signals of the host's own end.\<close>

lemma quiet_poll:
  assumes "of_poll op" and "ipc_step op w = Some (ob, w')"
  shows "quiet w w'"
proof (cases op)
  case (Poll_create p)
  then show ?thesis
    using assms(2) by (auto simp: quiet_def bare_ipc_poll_create_def malloc_struct_def bare_ipc__set_poll_def
        bind_eq_Some_conv Let_def emit_def split: if_splits)
next
  case (Poll_start p evs cb)
  then show ?thesis
    using assms(2) by (auto simp: quiet_def bare_ipc_poll_start_def bare_ipc_poll_stop_def bind_eq_Some_conv
        dest!: quiet_signal split: if_splits)
next
  case (Poll_destroy p)
  then show ?thesis
    using assms(2) by (auto simp: quiet_def bare_ipc_poll_destroy_def bare_ipc_poll_stop_def bare_ipc__set_poll_def
        bind_eq_Some_conv emit_def)
next
  case Signalled
  then show ?thesis
    using assms(2) by (auto simp: bare_ipc__on_signal_def bind_eq_Some_conv intro: quiet_signal)
qed (use assms in \<open>auto simp: of_poll_def quiet_def bare_ipc_poll_stop_def bare_ipc_poll_set_data_def bind_eq_Some_conv\<close>)

text \<open>The worklet's end is open, and it may have ended.\<close>

definition uv_open :: "'p wworld \<Rightarrow> bool" where
  "uv_open w \<longleftrightarrow> (\<exists>q. queue w = Some q \<and> bare_queue__listening (bare_queue__state q Uv_port))"

lemma host_step_told:
  assumes sw: "stream_world ipc w" and uo: "uv_open w" and st: "queue_step op w = Some (ob, w')" and a: "actor op = Thread_port"
    and own: "\<not> own_change Uv_port op"
  shows "told w w'"
proof -
  obtain q where q: "queue w = Some q" "\<not> destroyed q" "bare_queue__listening (bare_queue__state q Uv_port)"
    using sw uo by (auto simp: stream_world_def uv_open_def)
  have ok: "world_ok w" using sw ipc_okD(1) by (auto simp: stream_world_def)
  obtain q' where q': "queue w' = Some q'"
    using step_apart [OF ok q(1) st a] q(1,2) by (auto simp: apart_def uv_kept_def)
  have "attended q Uv_port" using q(3) by (simp add: attended_def)
  then obtain cs where "calls w' = calls w @ cs"
      "turns (abs_queue w q) (abs_queue w' q') Uv_port \<longrightarrow> wake_call q Uv_port \<in> set cs"
    using step_turns [OF ok q(1) st q' own] by blast
  then show ?thesis using q(1) q' by (auto simp: told_def wake_call_def)
qed

lemma stream_world_emit [simp]: "stream_world ipc (emit c w) = stream_world ipc w"
  by (simp add: stream_world_def is_open_def)

lemma uv_open_emit [simp]: "uv_open (emit c w) = uv_open w"
  by (simp add: uv_open_def)

lemma host_told:
  assumes sw: "stream_world ipc w" and uo: "uv_open w" and op: "by_host op" "stream_op ipc op" "allowed w op"
    and st: "ipc_step op w = Some (ob, w')"
  shows "told w w'"
proof -
  obtain q where q: "ipc_ok w" "queue w = Some q" using sw by (auto simp: stream_world_def)
  obtain i where i: "ipcs w ipc = Some i" "ipc_port i = Some Thread_port"
    using sw listening_open [of w ipc] by (auto simp: stream_world_def)
  let ?w = "emit (Mutex_lock Ipc_lock) w"
  have sw': "stream_world ipc ?w" "uv_open ?w" using sw uo by simp_all
  have l: "quiet w ?w" by (auto simp: quiet_def)
  have step: "told w w1" if "queue_step qop ?w = Some (qob, w1)" "actor qop = Thread_port" "\<not> own_change Uv_port qop" for qop qob w1
    using told_trans [OF quiet_told [OF l q(2)] host_step_told [OF sw' that]] .
  have poll: "told w w'" if "of_poll op"
    by (rule quiet_told [OF quiet_poll [OF that st] q(2)])
  show ?thesis
  proof (cases op)
    case (Ipc_read p n)
    then have p: "p = ipc" "0 < n" using op by (auto simp: stream_op_def allowed_def)
    obtain r i1 w1 x w2 where n: "next_pending i ?w = Some (r, i1, w1)" "w' = emit (Mutex_unlock Ipc_lock) w2"
        "(if base (pending i1) \<noteq> NULL then copy_pending ipc (min n INT_MAX) i1 w1
          else Some ((r, []), w1\<lparr>ipcs := (ipcs w1)(ipc \<mapsto> i1)\<rparr>)) = Some (x, w2)"
      using st Ipc_read p i(1) by (auto simp: bare_ipc_read_def bind_eq_Some_conv)
    have n2: "quiet w1 w2" using n(3) quiet_copy [of ipc "min n INT_MAX" i1 w1 x w2] by (auto split: if_splits)
    have "told w w1"
    proof (cases "base (pending i) = NULL")
      case True
      then obtain x where "bare_queue_read Thread_port ?w = Some (x, w1)"
        using n(1) i(2) by (auto simp: next_pending_def bind_eq_Some_conv Let_def)
      then have "queue_step (Read Thread_port) ?w = Some (fst (observe_read (x, w1)), w1)"
        by (simp add: observe_read_def split: prod.split)
      then show ?thesis by (rule step) (simp_all add: own_change_def)
    next
      case False
      then have "w1 = ?w" using n(1) i(2) by (simp add: next_pending_def)
      then show ?thesis using quiet_told [OF l q(2)] by simp
    qed
    then have "told w w2" using n2 by (rule told_quiet)
    then show ?thesis unfolding n(2) by (rule told_quiet) (auto simp: quiet_def)
  next
    case (Ipc_write p data)
    then have p: "p = ipc" using op by (simp add: stream_op_def)
    obtain n w1 where n: "bare_queue_write Thread_port data ?w = Some (n, w1)" "w' = emit (Mutex_unlock Ipc_lock) w1"
      using st Ipc_write p i by (auto simp: bare_ipc_write_def bind_eq_Some_conv)
    then have "queue_step (Write Thread_port data) ?w = Some (Sent n, w1)" by simp
    then have "told w w1" by (rule step) (simp_all add: own_change_def)
    then show ?thesis unfolding n(2) by (rule told_quiet) (auto simp: quiet_def)
  next
    case (Ipc_end p)
    then have p: "p = ipc" using op by (simp add: stream_op_def)
    obtain w1 w2 where n: "bare_queue_end Thread_port ?w = Some w1" "bare_ipc__signal i w1 = Some w2"
        "w' = emit (Mutex_unlock Ipc_lock) w2"
      using st Ipc_end p i by (auto simp: bare_ipc_end_def bind_eq_Some_conv)
    then have "queue_step (End Thread_port) ?w = Some (Done, w1)" by simp
    then have "told w w1" by (rule step) (simp_all add: own_change_def)
    then have "told w w2" using quiet_signal [OF n(2)] by (rule told_quiet)
    then show ?thesis unfolding n(3) by (rule told_quiet) (auto simp: quiet_def)
  qed (use op poll in \<open>simp_all add: stream_op_def by_host_def of_poll_def\<close>)
qed

section \<open>What the script does meanwhile\<close>

lemma native_grows:
  assumes sw: "stream_world ipc w" and st: "native_step c w = Some (v, w')"
  shows "\<exists>cs. calls w' = calls w @ cs"
proof -
  obtain q where q: "ipc_ok w" "env_ok w" "queue w = Some q" using sw by (auto simp: stream_world_def)
  have grow: "\<exists>ds. calls w1 = calls w @ ds" if "queue_step op (w\<lparr>calls := calls w @ cs\<rparr>) = Some (ob, w1)" for op ob cs w1
    using step_calls_grow [OF _ _ that] q(3) ipc_okD(1) [OF q(1)] by auto
  show ?thesis
  proof (cases c)
    case Native_read
    obtain ob u w1 where s: "queue_step (Read Uv_port) (emit (Js Js_get_callback_info) w) = Some (ob, w1)"
        "native_step Native_read w = Some (u, emit (Js (Js_create_value u)) w1)"
      using native_read_spec [OF q] by (elim exE conjE) (rule that)
    then have "queue_step (Read Uv_port) (w\<lparr>calls := calls w @ [Js Js_get_callback_info]\<rparr>) = Some (ob, w1)"
      by (simp add: emit_def)
    from grow [OF this] obtain ds where "calls w1 = calls w @ ds" by blast
    moreover have "w' = emit (Js (Js_create_value u)) w1" using s(2) st Native_read by auto
    ultimately show ?thesis by (simp add: emit_def)
  next
    case (Native_write data)
    obtain m w1 where m: "bare_queue_write Uv_port data (emit (Js Js_get_typedarray_info) (emit (Js Js_get_callback_info) w)) = Some (m, w1)"
        "w' = emit (Js (Js_create_value v)) w1"
      using st Native_write by (auto simp: bare_worklet__on_ipc_write_def js_create_def emit_ok_def bind_eq_Some_conv
          split: if_splits)
    then have "queue_step (Write Uv_port data) (w\<lparr>calls := calls w @ [Js Js_get_callback_info, Js Js_get_typedarray_info]\<rparr>) = Some (Sent m, w1)"
      by (simp add: emit_def)
    from grow [OF this] obtain ds where "calls w1 = calls w @ ds" by blast
    then show ?thesis using m(2) by (simp add: emit_def)
  next
    case Native_end
    then have "bare_queue_end Uv_port (emit (Js Js_get_callback_info) w) = Some w'"
      using st by (auto simp: bare_worklet__on_ipc_end_def emit_ok_def bind_eq_Some_conv split: if_splits)
    then have "queue_step (End Uv_port) (w\<lparr>calls := calls w @ [Js Js_get_callback_info]\<rparr>) = Some (Done, w')"
      by (simp add: emit_def)
    then show ?thesis by (rule grow)
  qed (use st in \<open>auto simp: bare_worklet__on_ipc_ref_def bare_worklet__on_ipc_unref_def emit_ok_def
      bind_eq_Some_conv emit_def split: if_splits\<close>)
qed

text \<open>What a call of \<open>native\<close> leaves of the channel as the worklet's end sees it.\<close>

lemma native_keeps:
  assumes sw: "stream_world ipc w" and uo: "uv_open w" and st: "native_step c w = Some (v, w')" and a: "abs_world w = Some ch"
  shows "stream_world ipc w' \<and> uv_open w' \<and> (\<exists>cs. calls w' = calls w @ cs) \<and> (\<exists>ch'. abs_world w' = Some ch'
    \<and> (can_read ch' Uv_port \<longrightarrow> can_read ch Uv_port) \<and> (c \<noteq> Native_end \<longrightarrow> can_write ch' Uv_port \<longrightarrow> can_write ch Uv_port))"
proof -
  obtain w0 v0 ob ch0 ch' where n: "native_step c w = Some (v0, w0)" "stream_world ipc w0"
      "abs_world w = Some ch0" "abs_world w0 = Some ch'" "spec_step (native_op c) ch0 = (ob, Some ch')"
    using native_stream [OF sw, of c] by (elim exE conjE) (rule that)
  have e: "w0 = w'" "ch0 = ch" using n(1,3) st a by simp_all
  have l: "bare_queue__listening (phase ch Uv_port)" using uo a by (auto simp: uv_open_def abs_world_def)
  have "bare_queue__listening (phase ch' Uv_port)"
    using n(5) l e by (cases c) (auto simp: bare_queue__listening_def reclaim_def raise_phase_def max_ended split: if_splits list.splits)
  then have "uv_open w'" using n(4) e by (auto simp: uv_open_def abs_world_def)
  moreover have "(can_read ch' Uv_port \<longrightarrow> can_read ch Uv_port) \<and> (c \<noteq> Native_end \<longrightarrow> can_write ch' Uv_port \<longrightarrow> can_write ch Uv_port)"
    using n(5) e by (cases c) (auto simp: can_read_def can_write_def shut_def reclaim_def raise_phase_def split: if_splits list.splits)
  ultimately show ?thesis using n(2,4) e native_grows [OF sw st] by blast
qed

section \<open>Sleeping\<close>

text \<open>A stream may sleep if there is nothing that it could do: this is what a signal would change.\<close>

definition may_sleep :: "ipc_stream \<Rightarrow> channel \<Rightarrow> bool" where
  "may_sleep s ch \<longleftrightarrow> (pending_write s \<noteq> None \<longrightarrow> \<not> can_write ch Uv_port) \<and> (reading s \<longrightarrow> \<not> can_read ch Uv_port)"

text \<open>What a script's event does: the end stays open, the log of calls grows, and the stream may sleep again.\<close>

definition sleeps_on :: "ptr \<Rightarrow> ipc_stream \<Rightarrow> 'p wworld \<Rightarrow> ipc_stream \<Rightarrow> 'p wworld \<Rightarrow> bool" where
  "sleeps_on ipc s w s' w' \<longleftrightarrow> stream_world ipc w' \<and> uv_open w' \<and> (\<exists>cs ch ch'. calls w' = calls w @ cs
    \<and> abs_world w = Some ch \<and> abs_world w' = Some ch' \<and> (may_sleep s ch \<longrightarrow> Async_send Queue_async \<in> set cs \<or> may_sleep s' ch'))"

lemma drain_loop_grows:
  assumes "drain_loop wants s w = Some (s', w')" and "stream_world ipc w" and "uv_open w"
  shows "stream_world ipc w' \<and> uv_open w' \<and> (\<exists>cs. calls w' = calls w @ cs)"
proof -
  obtain ch where "abs_world w = Some ch" using assms(2) by (auto simp: stream_world_def abs_world_def)
  then show ?thesis
    using assms
  proof (induction "waiting ch Uv_port" arbitrary: s w ch)
    case Nil
    obtain v w1 where n: "native_step Native_read w = Some (v, w1)" "v = Js_null \<or> v = Js_undefined"
      using native_read_stream [OF Nil(4,2)] Nil(1) [symmetric] by (auto split: if_splits)
    then have "w' = w1" using Nil(3) by (subst (asm) drain_loop.simps) auto
    then show ?case using native_keeps [OF Nil(4,5) n(1) Nil(2)] by blast
  next
    case (Cons d ds)
    obtain v w1 p where n: "native_step Native_read w = Some (v, w1)" "v = Js_external_arraybuffer p (length d)"
        "read_block p 0 (length d) w1 = Some d" "abs_world w1 = Some (ch\<lparr>waiting := (waiting ch)(Uv_port := ds)\<rparr>)"
      using native_read_stream [OF Cons(5,3)] Cons(2) [symmetric] by auto
    have k: "stream_world ipc w1" "uv_open w1" "\<exists>cs. calls w1 = calls w @ cs"
      using native_keeps [OF Cons(5,6) n(1) Cons(3)] by blast+
    show ?case
    proof (cases "wants (pushed s @ [Some d])")
      case True
      then have "drain_loop wants (s\<lparr>pushed := pushed s @ [Some d]\<rparr>) w1 = Some (s', w')"
        using Cons(4) n(1-3) by (subst (asm) drain_loop.simps) simp
      from Cons(1) [OF _ n(4) this k(1,2)] k(3) show ?thesis by auto
    next
      case False
      then have "w' = w1" using Cons(4) n(1-3) by (subst (asm) drain_loop.simps) simp
      then show ?thesis using k by blast
    qed
  qed
qed

lemma drain_sleeps:
  assumes sw: "stream_world ipc w" and uo: "uv_open w" and a: "abs_world w = Some ch"
  shows "\<exists>s' w' cs ch'. stream_drain wants s w = Some (s', w') \<and> stream_world ipc w' \<and> uv_open w' \<and> calls w' = calls w @ cs
    \<and> abs_world w' = Some ch' \<and> ((pending_write s \<noteq> None \<longrightarrow> \<not> can_write ch Uv_port) \<longrightarrow> may_sleep s' ch')"
proof -
  obtain s' w' ch' where d: "stream_drain wants s w = Some (s', w')" "pending_write s' = pending_write s"
      "abs_world w' = Some ch'" "waiting ch' Thread_port = waiting ch Thread_port" "phase ch' = phase ch"
      "reading s' \<longrightarrow> waiting ch' Uv_port = [] \<and> \<not> host_over ch'"
    using drain_stream [OF sw a, of wants s] by blast
  have "stream_world ipc w' \<and> uv_open w' \<and> (\<exists>cs. calls w' = calls w @ cs)"
    using d(1) sw uo drain_loop_grows [of wants s w s' w' ipc] by (auto simp: stream_drain_def split: if_splits)
  moreover have "(pending_write s \<noteq> None \<longrightarrow> \<not> can_write ch Uv_port) \<longrightarrow> may_sleep s' ch'"
    using d(2,4-6) by (simp add: may_sleep_def can_write_def can_read_def host_over_def shut_def)
  ultimately show ?thesis using d(1,3) by blast
qed

lemma plain_sleeps:
  assumes sw: "stream_world ipc w" and uo: "uv_open w" and st: "native_step c w = Some (v, w')"
    and c: "c = Native_end \<longrightarrow> pending_write s = None" and s': "pending_write s' = pending_write s" "reading s' = reading s"
  shows "sleeps_on ipc s w s' w'"
proof -
  obtain ch where ch: "abs_world w = Some ch" using sw by (auto simp: stream_world_def abs_world_def)
  have "(may_sleep s ch \<longrightarrow> may_sleep s' ch')"
    if "can_read ch' Uv_port \<longrightarrow> can_read ch Uv_port" "c \<noteq> Native_end \<longrightarrow> can_write ch' Uv_port \<longrightarrow> can_write ch Uv_port" for ch'
    using that c s' by (auto simp: may_sleep_def)
  then show ?thesis using native_keeps [OF sw uo st ch] ch unfolding sleeps_on_def by blast
qed

lemma send_sleeps:
  assumes sw: "stream_world ipc w" and uo: "uv_open w" and none: "pending_write s = None" and n: "length chunk \<le> INT_MAX"
    and st: "stream_send chunk cb s w = Some (s', w')"
  shows "sleeps_on ipc s w s' w'"
proof -
  obtain ch where ch: "abs_world w = Some ch" using sw by (auto simp: stream_world_def abs_world_def)
  obtain v where v: "native_step (Native_write chunk) w = Some (v, w')"
  proof -
    obtain v w1 where v: "native_step (Native_write chunk) w = Some (v, w1)"
      using native_stream [OF sw, of "Native_write chunk"] by blast
    then have "w1 = w'" using st by (cases v) (auto simp: stream_send_def split: if_splits)
    then show ?thesis using that v by blast
  qed
  obtain cs ch' where k: "stream_world ipc w'" "uv_open w'" "calls w' = calls w @ cs" "abs_world w' = Some ch'"
      "can_read ch' Uv_port \<longrightarrow> can_read ch Uv_port"
    using native_keeps [OF sw uo v ch] by blast
  have s: "reading s' = reading s" "pending_write s' \<noteq> None \<longrightarrow> host_ring_full w'"
    using send_stream [OF sw none, of chunk cb] st none n by auto
  then have "pending_write s' \<noteq> None \<longrightarrow> \<not> can_write ch' Uv_port"
    using k(4) by (auto simp: host_ring_full_def can_write_def)
  then have "may_sleep s ch \<longrightarrow> may_sleep s' ch'" using k(5) s(1) by (auto simp: may_sleep_def)
  then show ?thesis using k ch unfolding sleeps_on_def by blast
qed

lemma host_sleeps:
  assumes sw: "stream_world ipc w" and uo: "uv_open w" and m: "stream_may ipc (By_host op) s w"
    and st: "ipc_step op w = Some (ob, w')"
  shows "sleeps_on ipc s w s w'"
proof -
  have op: "by_host op" "stream_op ipc op" "allowed w op" using m by (simp_all add: stream_may_def)
  obtain q q' cs where t: "queue w = Some q" "queue w' = Some q'" "calls w' = calls w @ cs"
      "turns (abs_queue w q) (abs_queue w' q') Uv_port \<longrightarrow> Async_send Queue_async \<in> set cs"
    using host_told [OF sw uo op st] by (auto simp: told_def)
  have "ipc_ok w" using sw by (simp add: stream_world_def)
  then have "uv_kept w w'" using ipc_step_host_only [OF _ st op(1)] by (simp add: host_only_def)
  then have "uv_state q' = uv_state q" using t(1,2) by (auto simp: uv_kept_def uv_view_def)
  moreover have "ports_ok q" "ports_ok q'" if "stream_world ipc w'"
    using sw that t(1,2) ipc_okD(1) by (auto simp: stream_world_def world_ok_def intro: queue_ok_ports)
  moreover have w': "stream_world ipc w'" using host_stream [OF sw op] st by auto
  ultimately have "uv_open w'" using uo t(1,2) by (auto simp: uv_open_def bare_queue__state_def is_uv_port_at)
  moreover have "may_sleep s (abs_queue w q) \<longrightarrow> Async_send Queue_async \<in> set cs \<or> may_sleep s (abs_queue w' q')"
    using t(4) by (auto simp: may_sleep_def turns_def)
  ultimately show ?thesis using w' t(1-3) by (auto simp: sleeps_on_def abs_world_def)
qed

lemma event_sleeps:
  assumes sw: "stream_world ipc w" and uo: "uv_open w" and m: "stream_may ipc e s w" and n: "length (chunk_of e) \<le> INT_MAX"
    and e: "e \<noteq> Stream_signal" and st: "stream_step wants e s w = Some (ob, s', w')"
  shows "sleeps_on ipc s w s' w'"
proof -
  obtain ch where ch: "abs_world w = Some ch" using sw by (auto simp: stream_world_def abs_world_def)
  show ?thesis
  proof (cases e)
    case Stream_read
    let ?s = "s\<lparr>reading := True\<rparr>"
    obtain s1 w1 cs ch' where d: "stream_drain wants ?s w = Some (s1, w1)" "stream_world ipc w1" "uv_open w1" "calls w1 = calls w @ cs"
        "abs_world w1 = Some ch'" "(pending_write ?s \<noteq> None \<longrightarrow> \<not> can_write ch Uv_port) \<longrightarrow> may_sleep s1 ch'"
      using drain_sleeps [OF sw uo ch, of wants ?s] by (elim exE conjE) (rule that)
    moreover have "s1 = s'" "w1 = w'" using st Stream_read d(1) by (simp_all add: lift_stream_def stream_read_def)
    ultimately show ?thesis using ch by (auto simp: sleeps_on_def may_sleep_def)
  next
    case (Stream_write chunk cb)
    then show ?thesis
      using send_sleeps [OF sw uo, of s chunk cb] m n st by (auto simp: lift_stream_def stream_write_def stream_may_def chunk_of_def)
  next
    case (Stream_final cb)
    then show ?thesis
      using st m plain_sleeps [OF sw uo, of Native_end]
      by (auto simp: lift_stream_def stream_final_def stream_may_def bind_eq_Some_conv simp del: native_step.simps)
  next
    case (Stream_destroy cb)
    then show ?thesis
      using st plain_sleeps [OF sw uo, of Native_unref]
      by (auto simp: lift_stream_def stream_destroy_def bind_eq_Some_conv simp del: native_step.simps)
  next
    case (Stream_ref gone)
    then show ?thesis
      using st plain_sleeps [OF sw uo, of Native_ref] sw uo ch
      by (auto simp: lift_stream_def stream_ref_def sleeps_on_def bind_eq_Some_conv simp del: native_step.simps split: if_splits)
  next
    case Stream_unref
    then show ?thesis
      using st plain_sleeps [OF sw uo, of Native_unref]
      by (auto simp: lift_stream_def stream_unref_def bind_eq_Some_conv simp del: native_step.simps)
  next
    case (By_host op)
    then show ?thesis using st m host_sleeps [OF sw uo, of op s] by (auto simp del: ipc_step.simps)
  qed (use e in simp)
qed

lemma sleeps_on_trans:
  assumes "sleeps_on ipc s w s1 w1" and "sleeps_on ipc s1 w1 s2 w2"
  shows "sleeps_on ipc s w s2 w2"
proof -
  obtain cs ch ch1 where a: "calls w1 = calls w @ cs" "abs_world w = Some ch" "abs_world w1 = Some ch1"
      "may_sleep s ch \<longrightarrow> Async_send Queue_async \<in> set cs \<or> may_sleep s1 ch1"
    using assms(1) by (auto simp: sleeps_on_def)
  obtain ds ch2 where b: "stream_world ipc w2" "uv_open w2" "calls w2 = calls w1 @ ds" "abs_world w2 = Some ch2"
      "may_sleep s1 ch1 \<longrightarrow> Async_send Queue_async \<in> set ds \<or> may_sleep s2 ch2"
    using assms(2) a(3) by (auto simp: sleeps_on_def)
  then show ?thesis
    using a unfolding sleeps_on_def
    by (intro conjI exI [of _ "cs @ ds"] exI [of _ ch] exI [of _ ch2]) auto
qed

lemma run_sleeps:
  assumes "stream_world ipc w" and "uv_open w" and "stream_run wants ipc es s w = Some (obs, s', w')"
    and "Stream_signal \<notin> set es" and "\<forall>e \<in> set es. length (chunk_of e) \<le> INT_MAX"
  shows "sleeps_on ipc s w s' w'"
  using assms
proof (induction es arbitrary: s w obs)
  case Nil
  then show ?case by (auto simp: sleeps_on_def stream_world_def abs_world_def)
next
  case (Cons e es)
  have m: "stream_may ipc e s w" using Cons.prems(3) by (simp split: if_splits)
  obtain ob s1 w1 obs1 where s1: "stream_step wants e s w = Some (ob, s1, w1)" "stream_run wants ipc es s1 w1 = Some (obs1, s', w')"
    using Cons.prems(3) m by (auto simp: bind_eq_Some_conv simp del: stream_step.simps)
  have a: "sleeps_on ipc s w s1 w1" by (rule event_sleeps [OF Cons.prems(1,2) m _ _ s1(1)]) (use Cons.prems(4,5) in auto)
  then have "sleeps_on ipc s1 w1 s' w'"
    using Cons.IH [OF _ _ s1(2)] Cons.prems(4,5) by (simp add: sleeps_on_def)
  with a show ?case by (rule sleeps_on_trans)
qed

text \<open>The stream's handler, after which it may sleep.\<close>

lemma signal_sleeps:
  assumes sw: "stream_world ipc w" and uo: "uv_open w" and n: "length (left_over s) \<le> INT_MAX"
    and st: "stream_on_signal wants s w = Some (s', w')"
  shows "stream_world ipc w' \<and> uv_open w' \<and> (\<exists>ch. abs_world w' = Some ch \<and> may_sleep s' ch)"
proof -
  obtain s1 w1 where t: "stream_retry s w = Some (s1, w1)" "stream_world ipc w1" "waits_rightly s1 w1"
    using retry_stream [OF sw, of s] n by blast
  have u: "uv_open w1"
  proof (cases "pending_write s")
    case None
    then show ?thesis using t(1) uo by (simp add: stream_retry_def)
  next
    case (Some c)
    then show ?thesis
      using t(1) n send_sleeps [OF sw uo, of "s\<lparr>pending_write := None\<rparr>" "fst c" "snd c" s1 w1]
      by (simp add: stream_retry_def left_over_def sleeps_on_def split: prod.splits)
  qed
  obtain ch where ch: "abs_world w1 = Some ch" using t(2) by (auto simp: stream_world_def abs_world_def)
  obtain s2 w2 ch2 where d: "stream_drain wants s1 w1 = Some (s2, w2)" "stream_world ipc w2" "uv_open w2"
      "abs_world w2 = Some ch2" "(pending_write s1 \<noteq> None \<longrightarrow> \<not> can_write ch Uv_port) \<longrightarrow> may_sleep s2 ch2"
    using drain_sleeps [OF t(2) u ch, of wants s1] by (elim exE conjE) (rule that)
  have "pending_write s1 \<noteq> None \<longrightarrow> \<not> can_write ch Uv_port"
    using t(3) ch by (auto simp: waits_rightly_def host_ring_full_def can_write_def)
  moreover have "s2 = s'" "w2 = w'" using st t(1) d(1) by (simp_all add: stream_on_signal_def)
  ultimately show ?thesis using d by blast
qed

text \<open>A run up to a signal, or from the start.\<close>

lemma run_to_signal:
  assumes "stream_world ipc w" and "uv_open w" and "stream_run wants ipc es s w = Some (obs, s', w')"
    and "length (left_over s) \<le> INT_MAX" and "\<forall>e \<in> set es. length (chunk_of e) \<le> INT_MAX"
  shows "stream_world ipc w' \<and> uv_open w' \<and> (es \<noteq> [] \<longrightarrow> last es = Stream_signal \<longrightarrow> (\<exists>ch. abs_world w' = Some ch \<and> may_sleep s' ch))"
  using assms
proof (induction es arbitrary: s w obs)
  case Nil
  then show ?case by simp
next
  case (Cons e es)
  have m: "stream_may ipc e s w" using Cons.prems(3) by (simp split: if_splits)
  have n: "length (chunk_of e) \<le> INT_MAX" using Cons.prems(5) by simp
  obtain ob s1 w1 where s1: "stream_step wants e s w = Some (ob, s1, w1)" "length (left_over s1) \<le> INT_MAX"
    using step_stream [OF Cons.prems(1) m, of wants] Cons.prems(4) n by blast
  obtain obs1 where r: "stream_run wants ipc es s1 w1 = Some (obs1, s', w')"
    using Cons.prems(3) m s1(1) by (auto simp: bind_eq_Some_conv simp del: stream_step.simps)
  have sig: "stream_world ipc w1 \<and> uv_open w1 \<and> (\<exists>ch. abs_world w1 = Some ch \<and> may_sleep s1 ch)" if "e = Stream_signal"
    using signal_sleeps [OF Cons.prems(1,2,4)] s1(1) that by (auto simp: lift_stream_def)
  have "stream_world ipc w1 \<and> uv_open w1"
    using sig event_sleeps [OF Cons.prems(1,2) m n _ s1(1)] by (cases "e = Stream_signal") (auto simp: sleeps_on_def)
  then show ?case
    using Cons.IH [OF _ _ r s1(2)] Cons.prems(5) sig r by (cases "es = []") auto
qed

section \<open>The property\<close>

text \<open>
  C15: The stream of the script sleeps only when there is nothing for it to do. Take any run of the
  stream and of the host in which no chunk is longer than \<open>INT_MAX\<close>, and in it the last signal
  that the stream handled, or the start if there was none. Unless the worklet's end was signalled
  since, a write of the stream is pending only if the ring to the host is full and not closed, and
  the stream wants to read only if there is nothing to read and the host has not ended. So the
  handler of a signal leaves nothing undone; and what the host does next that makes room for the
  pending write, or gives the stream something to read, signals.
\<close>

theorem stream_sleeps_rightly:
  assumes "stream_world ipc w" and "uv_open w"
    and "stream_run wants ipc es new_stream w = Some (obs, s1, w1)" and "es = [] \<or> last es = Stream_signal"
    and "stream_run wants ipc es' s1 w1 = Some (obs', s2, w2)" and "Stream_signal \<notin> set es'"
    and "\<forall>e \<in> set (es @ es'). length (chunk_of e) \<le> INT_MAX"
  shows "\<exists>ch cs. abs_world w2 = Some ch \<and> calls w2 = calls w1 @ cs
    \<and> (Async_send Queue_async \<in> set cs
       \<or> (pending_write s2 \<noteq> None \<longrightarrow> length (waiting ch Thread_port) = depth \<and> \<not> shut ch Uv_port)
         \<and> (reading s2 \<longrightarrow> waiting ch Uv_port = [] \<and> \<not> bare_queue_state_ended \<le> phase ch Thread_port))"
proof -
  have new: "length (left_over new_stream) \<le> INT_MAX" "may_sleep new_stream ch" for ch
    by (simp_all add: new_stream_def left_over_def may_sleep_def)
  have r: "stream_world ipc w1 \<and> uv_open w1 \<and> (es \<noteq> [] \<longrightarrow> last es = Stream_signal \<longrightarrow> (\<exists>ch. abs_world w1 = Some ch \<and> may_sleep s1 ch))"
    by (rule run_to_signal [OF assms(1-3) new(1)]) (use assms(7) in simp)
  have "sleeps_on ipc s1 w1 s2 w2"
    by (rule run_sleeps [OF _ _ assms(5,6)]) (use r assms(7) in simp_all)
  moreover have "may_sleep s1 ch" if "abs_world w1 = Some ch" for ch
    using r that assms(3,4) new(2) by (cases "es = []") auto
  ultimately show ?thesis by (auto simp: sleeps_on_def may_sleep_def can_write_def can_read_def)
qed

section \<open>A write on a full ring\<close>

lemma write_one:
  assumes sw: "stream_world ipc w" and a: "abs_world w = Some ch" and up: "\<not> shut ch Uv_port"
  shows "\<exists>w' ch'. stream_world ipc w' \<and> abs_world w' = Some ch' \<and> \<not> shut ch' Uv_port
    \<and> (if length (waiting ch Thread_port) = depth
       then stream_send [1] 7 s w = Some (s\<lparr>pending_write := Some ([1], 7)\<rparr>, w') \<and> ch' = ch \<and> inbound w' ipc = inbound w ipc
       else stream_send [1] 7 s w = Some (s\<lparr>called := called s @ [(7, True)]\<rparr>, w') \<and> inbound w' ipc = inbound w ipc @ [1]
         \<and> length (waiting ch' Thread_port) = Suc (length (waiting ch Thread_port)))"
proof -
  obtain v w' ob ch0 ch' where n: "native_step (Native_write [1]) w = Some (v, w')" "stream_world ipc w'"
      "inbound w' ipc = inbound w ipc @ native_given (Native_write [1]) v" "abs_world w = Some ch0" "abs_world w' = Some ch'"
      "spec_step (Write Uv_port [1]) ch0 = (ob, Some ch')" "value_for ob w' v"
    using native_stream [OF sw, of "Native_write [1]"] by (elim exE conjE) (rule that, simp_all)
  have e: "ch0 = ch" using n(4) a by simp
  have m: "min (length [1 :: byte]) INT_MAX = 1" by (simp add: INT_MAX_def)
  show ?thesis
    using n e up m
    by (intro exI [of _ w'] exI [of _ ch']) (auto simp: stream_send_def shut_def queue_codes split: if_splits)
qed

text \<open>A run that fills the ring.\<close>

lemma fill_ring:
  assumes "stream_world ipc w" and "abs_world w = Some ch" and "\<not> shut ch Uv_port" and "pending_write s = None"
    and "length (waiting ch Thread_port) + n = depth"
  shows "\<exists>obs s' w' ch'. stream_run wants ipc (replicate n (Stream_write [1] 7) @ [Stream_write [1] 7]) s w = Some (obs, s', w')
    \<and> stream_world ipc w' \<and> abs_world w' = Some ch' \<and> \<not> shut ch' Uv_port \<and> length (waiting ch' Thread_port) = depth
    \<and> pending_write s' = Some ([1], 7) \<and> reading s' = reading s \<and> inbound w' ipc = inbound w ipc @ replicate n 1"
  using assms
proof (induction n arbitrary: s w ch)
  case 0
  obtain w' ch' where "stream_world ipc w'" "abs_world w' = Some ch'" "\<not> shut ch' Uv_port"
      "stream_send [1] 7 s w = Some (s\<lparr>pending_write := Some ([1], 7)\<rparr>, w')" "ch' = ch" "inbound w' ipc = inbound w ipc"
    using write_one [OF 0(1-3), of s] 0(5) by auto
  then show ?case using 0(4,5) by (simp add: lift_stream_def stream_write_def stream_may_def)
next
  case (Suc n)
  obtain w1 ch1 where a: "stream_world ipc w1" "abs_world w1 = Some ch1" "\<not> shut ch1 Uv_port"
      "stream_send [1] 7 s w = Some (s\<lparr>called := called s @ [(7, True)]\<rparr>, w1)" "inbound w1 ipc = inbound w ipc @ [1]"
      "length (waiting ch1 Thread_port) = Suc (length (waiting ch Thread_port))"
    using write_one [OF Suc.prems(1-3), of s] Suc.prems(5) by auto
  obtain obs s' w' ch' where r: "stream_run wants ipc (replicate n (Stream_write [1] 7) @ [Stream_write [1] 7]) (s\<lparr>called := called s @ [(7, True)]\<rparr>) w1
        = Some (obs, s', w')" "stream_world ipc w'" "abs_world w' = Some ch'" "\<not> shut ch' Uv_port"
      "length (waiting ch' Thread_port) = depth" "pending_write s' = Some ([1], 7)" "reading s' = reading s"
      "inbound w' ipc = inbound w1 ipc @ replicate n 1"
    using Suc.IH [OF a(1-3), of "s\<lparr>called := called s @ [(7, True)]\<rparr>"] Suc.prems(4,5) a(6) by auto
  have "stream_run wants ipc (replicate (Suc n) (Stream_write [1] 7) @ [Stream_write [1] 7]) s w = Some (None # obs, s', w')"
    using a(4) r(1) Suc.prems(4) by (simp add: lift_stream_def stream_write_def stream_may_def)
  then show ?case using r(2-8) a(5) by auto
qed

lemma run_snoc:
  assumes "stream_run wants ipc es s w = Some (obs, s1, w1)" and "stream_may ipc e s1 w1"
    and "stream_step wants e s1 w1 = Some (ob, s2, w2)"
  shows "stream_run wants ipc (es @ [e]) s w = Some (obs @ [ob], s2, w2)"
  using assms
proof (induction es arbitrary: s w obs)
  case (Cons d es)
  then show ?case by (fastforce simp: bind_eq_Some_conv simp del: stream_step.simps split: if_splits)
qed (simp del: stream_step.simps)

text \<open>The worklet of the examples, whose thread has opened its end.\<close>

lemma opened_stream:
  "\<exists>w :: unit wworld. \<exists>ch. stream_world 2 w \<and> uv_open w \<and> abs_world w = Some ch \<and> \<not> shut ch Uv_port \<and> waiting ch Thread_port = []
    \<and> inbound w 2 = []"
proof -
  let ?op = "Worklet (Open_uv 5 6)"
  have al: "allowed created_world ?op" by (simp add: allowed_def releases_def)
  obtain ob w where s: "ipc_step ?op created_world = Some (ob, w)" "ipc_ok w" "env_ok w"
    using ipc_step_total [OF created_ok al] by blast
  obtain sob where q: "queue_step (Open_uv 5 6) created_world = Some (sob, w)" using s(1) by (auto simp del: queue_step.simps)
  have r: "(sob, abs_world w) = spec_step (Open_uv 5 6) (abs_queue created_world attached_queue)"
    by (rule step_refines [OF ipc_okD(1) [OF created_ok(1)] _ q]) simp
  have "is_open created_world 2" by (simp add: is_open_def)
  then have o: "is_open w 2 \<and> inbound created_world 2 @ written_by_worklet ?op ob = inbound w 2"
    by (intro worklet_inbound [OF created_ok _ _ _ s(1)]) (simp_all add: releases_def)
  obtain ch where ch: "abs_world w = Some ch" "\<not> released ch" "phase ch Uv_port = bare_queue_state_open"
      "phase ch Thread_port = bare_queue_state_open" "waiting ch Thread_port = []"
    using r attached_waiting attached_not_destroyed by (auto simp del: abs_waiting split: if_splits)
  then obtain q' where q': "queue w = Some q'" "ch = abs_queue w q'" by (auto simp: abs_world_def)
  have "\<not> destroyed q'" using ch(2) q' by simp
  moreover have "uv_open w" using ch(3) q' by (simp add: uv_open_def bare_queue__listening_def)
  ultimately show ?thesis
    using s(2,3) o q'(1) ch created_inbound
    by (intro exI [of _ w] exI [of _ ch]) (auto simp: stream_world_def shut_def state_order written_by_worklet_def)
qed

lemma waiting_not_empty:
  assumes "ipc_ok w" and "queue w = Some q" and "d \<in> set (waiting (abs_queue w q) p)"
  shows "d \<noteq> []"
proof -
  obtain m where m: "m \<in> set (ring_messages (bare_queue__inbox q p))" "d = payload w m" using assms(3) by auto
  have "queue_ok w q" using ipc_okD(1) [OF assms(1)] assms(2) by (simp add: world_ok_def)
  then have "live_message w m" using m(1) by (auto simp: queue_ok_alt)
  then show ?thesis using m(2) by (auto simp: live_message_def payload_def)
qed

lemma long_concat: "(\<forall>d \<in> set ds. d \<noteq> []) \<Longrightarrow> length ds \<le> length (concat ds)"
  by (induction ds) (auto simp: Suc_le_eq simp flip: length_greater_0_conv)

text \<open>The stream fills the ring, has a write left, and handles a signal; then the host reads a byte.\<close>

theorem stream_sleeps_rightly_witness:
  "\<exists>(w :: unit wworld) obs s1 w1 ob w2.
     stream_run (\<lambda>_. True) 2 (replicate depth (Stream_write [1] 7) @ [Stream_write [1] 7, Stream_signal]) new_stream w = Some (obs, s1, w1)
   \<and> pending_write s1 = Some ([1], 7) \<and> ipc_step (Ipc_read 2 1) w1 = Some (ob, w2)
   \<and> Async_send Queue_async \<in> set (drop (length (calls w1)) (calls w2))"
proof -
  let ?es = "replicate depth (Stream_write [1] 7) @ [Stream_write [1] 7]" and ?rd = "By_host (Ipc_read 2 1)" and ?wants = "\<lambda>_. True"
  obtain w :: "unit wworld" and ch where w: "stream_world 2 w" "uv_open w" "abs_world w = Some ch" "\<not> shut ch Uv_port"
      "waiting ch Thread_port = []" "inbound w 2 = []"
    using opened_stream by blast
  obtain obs s w0 ch0 where r0: "stream_run ?wants 2 ?es new_stream w = Some (obs, s, w0)" "stream_world 2 w0" "abs_world w0 = Some ch0"
      "\<not> shut ch0 Uv_port" "length (waiting ch0 Thread_port) = depth" "pending_write s = Some ([1], 7)" "\<not> reading s"
      "inbound w0 2 = replicate depth 1"
    using fill_ring [OF w(1,3,4), of new_stream depth ?wants] w(5,6) by (auto simp: new_stream_def)
  let ?s = "s\<lparr>pending_write := None\<rparr>"
  obtain w1 where w1: "stream_world 2 w1" "stream_send [1] 7 ?s w0 = Some (?s\<lparr>pending_write := Some ([1], 7)\<rparr>, w1)" "inbound w1 2 = inbound w0 2"
    using write_one [OF r0(2-4), of ?s] r0(5) by auto
  let ?s1 = "?s\<lparr>pending_write := Some ([1], 7)\<rparr>"
  have "stream_on_signal ?wants s w0 = Some (?s1, w1)"
    using w1(2) r0(6,7) by (simp add: stream_on_signal_def stream_retry_def stream_drain_def)
  then have r1: "stream_run ?wants 2 (?es @ [Stream_signal]) new_stream w = Some (obs @ [None], ?s1, w1)"
    by (intro run_snoc [OF r0(1)]) (simp_all add: stream_may_def lift_stream_def)
  obtain i where i: "ipcs w1 2 = Some i" "ipc_port i = Some Thread_port"
    using w1(1) listening_open [of w1 2] by (auto simp: stream_world_def)
  have rd: "by_host (Ipc_read 2 1)" "stream_op 2 (Ipc_read 2 1)" "allowed w1 (Ipc_read 2 1)"
    using i(1) by (simp_all add: by_host_def stream_op_def allowed_def)
  obtain r bytes w2 where w2: "bare_ipc_read 2 1 w1 = Some ((r, bytes), w2)" "inbound w1 2 = bytes @ inbound w2 2" "bytes \<noteq> []"
    using ipc_read_spec [of w1 2 i 1] w1(1,3) i(1) r0(8) by (auto simp: stream_world_def depth_def capacity)
  have st: "ipc_step (Ipc_read 2 1) w1 = Some (Received r bytes, w2)" using w2(1) by simp
  then have r2: "stream_run ?wants 2 [?rd] ?s1 w1 = Some ([Some (Received r bytes)], ?s1, w2)"
    using rd by (simp add: stream_may_def del: ipc_step.simps)
  have sw2: "stream_world 2 w2" using host_stream [OF w1(1) rd] st by auto
  have chunks: "\<forall>e \<in> set ((?es @ [Stream_signal]) @ [?rd]). length (chunk_of e) \<le> INT_MAX"
    by (auto simp: chunk_of_def INT_MAX_def)
  obtain ch2 cs where c: "abs_world w2 = Some ch2" "calls w2 = calls w1 @ cs"
      "Async_send Queue_async \<in> set cs
       \<or> (pending_write ?s1 \<noteq> None \<longrightarrow> length (waiting ch2 Thread_port) = depth \<and> \<not> shut ch2 Uv_port)
         \<and> (reading ?s1 \<longrightarrow> waiting ch2 Uv_port = [] \<and> \<not> bare_queue_state_ended \<le> phase ch2 Thread_port)"
    using stream_sleeps_rightly [OF w(1,2) r1 _ r2 _ chunks] by auto
  have "length (waiting ch2 Thread_port) < depth"
  proof -
    obtain j q where j: "ipcs w2 2 = Some j" "ipc_port j = Some Thread_port" "queue w2 = Some q"
      using sw2 listening_open [of w2 2] by (auto simp: stream_world_def)
    have ch2: "ch2 = abs_queue w2 q" using c(1) j(3) by (simp add: abs_world_def)
    have "length (waiting ch2 Thread_port) \<le> length (concat (waiting ch2 Thread_port))"
      unfolding ch2 using waiting_not_empty [OF _ j(3)] sw2 by (intro long_concat) (auto simp: stream_world_def)
    also have "\<dots> \<le> length (inbound w2 2)" using inbound_abs [OF j(1,2) c(1)] by simp
    also have "\<dots> < length (inbound w1 2)" using w2(2,3) by simp
    finally show ?thesis using w1(3) r0(8) by simp
  qed
  then have "Async_send Queue_async \<in> set cs" using c(3) by auto
  then have "Async_send Queue_async \<in> set (drop (length (calls w1)) (calls w2))" using c(2) by simp
  moreover have "stream_run ?wants 2 (replicate depth (Stream_write [1] 7) @ [Stream_write [1] 7, Stream_signal]) new_stream w
      = Some (obs @ [None], ?s1, w1)" using r1 by simp
  ultimately show ?thesis using st by (intro exI conjI) (assumption | simp)+
qed

end
