(* ===== verification/Bundle_Extract.thy ===== *)
theory Bundle_Extract
  imports Machine
begin

text \<open>
  The extraction of an application's resources to a directory (\<open>extract\<close> and \<open>write\<close> of
  \<open>src/worklet.js\<close>), by any number of worklets of one process at once, each of which may stop
  at any point, and any call of the file system may fail. Paths and the file system are packages
  that are not under \<open>src/\<close>: they are parameters, and what the code relies on is
  \<open>file_system_laws\<close>.
\<close>

section \<open>Paths and the file system\<close>

text \<open>\<open>above p d\<close>: the directory \<open>d\<close> is \<open>p\<close> or somewhere in it. The code does not ask for it.\<close>

record paths =
  path_join :: "string \<Rightarrow> string \<Rightarrow> string"
  extname :: "string \<Rightarrow> string"
  dirname :: "string \<Rightarrow> string"
  above :: "string \<Rightarrow> string \<Rightarrow> bool"

text \<open>
  A call gives whether it returned (it throws otherwise) and the file system afterwards.
  \<open>contents\<close> and \<open>is_directory\<close> are not called by the code: they are what a reader would find, the
  bytes of a file, or a directory, which has none.
\<close>

record 's file_system =
  contents :: "'s \<Rightarrow> string \<rightharpoonup> byte list"
  is_directory :: "'s \<Rightarrow> string \<Rightarrow> bool"
  existsSync :: "'s \<Rightarrow> string \<Rightarrow> bool"
  mkdirSync :: "string \<Rightarrow> 's \<Rightarrow> bool \<times> 's"
  writeFileSync :: "string \<Rightarrow> byte list \<Rightarrow> 's \<Rightarrow> bool \<times> 's"
  renameSync :: "string \<Rightarrow> string \<Rightarrow> 's \<Rightarrow> bool \<times> 's"

text \<open>
  What is relied on, for the names \<open>D\<close>, which are those of different files: no link to, and no other
  spelling of, each other. What exists is a file or a directory. \<open>mkdirSync\<close>, recursive, makes
  directories, the one that is asked for and those it is in, whether it returns or throws on the
  way, and changes no file. A write that throws may have left anything in its file, and no write
  changes another or makes a directory. A move of a file that throws changes nothing, one that
  returns puts the whole file in place.
\<close>

definition file_system_laws :: "'s file_system \<Rightarrow> paths \<Rightarrow> string set \<Rightarrow> bool" where
  "file_system_laws F P D \<longleftrightarrow>
     (\<forall>s. \<forall>p \<in> D. existsSync F s p \<longleftrightarrow> contents F s p \<noteq> None \<or> is_directory F s p)
     \<and> (\<forall>d s. \<forall>p \<in> D. contents F (snd (mkdirSync F d s)) p = contents F s p
         \<and> (is_directory F (snd (mkdirSync F d s)) p \<longrightarrow> is_directory F s p \<or> above P p d))
     \<and> (\<forall>data s. \<forall>p \<in> D. \<forall>q \<in> D. let r = writeFileSync F p data s in
         (q \<noteq> p \<longrightarrow> contents F (snd r) q = contents F s q) \<and> (fst r \<longrightarrow> contents F (snd r) p = Some data)
         \<and> (is_directory F (snd r) q \<longrightarrow> is_directory F s q))
     \<and> (\<forall>s. \<forall>p \<in> D. \<forall>q \<in> D. \<forall>x \<in> D. let r = renameSync F p q s in p \<noteq> q \<longrightarrow> contents F s p \<noteq> None \<longrightarrow>
         contents F (snd r) x = (if fst r then (contents F s)(p := None, q := contents F s p) else contents F s) x
         \<and> (is_directory F (snd r) x \<longrightarrow> is_directory F s x))"

lemma file_systemD:
  assumes "file_system_laws F P D"
  shows "p \<in> D \<Longrightarrow> existsSync F s p \<longleftrightarrow> contents F s p \<noteq> None \<or> is_directory F s p"
    and "p \<in> D \<Longrightarrow> contents F (snd (mkdirSync F d s)) p = contents F s p"
    and "p \<in> D \<Longrightarrow> is_directory F (snd (mkdirSync F d s)) p \<Longrightarrow> is_directory F s p \<or> above P p d"
    and "p \<in> D \<Longrightarrow> q \<in> D \<Longrightarrow> q \<noteq> p \<Longrightarrow> contents F (snd (writeFileSync F p data s)) q = contents F s q"
    and "p \<in> D \<Longrightarrow> fst (writeFileSync F p data s) \<Longrightarrow> contents F (snd (writeFileSync F p data s)) p = Some data"
    and "p \<in> D \<Longrightarrow> q \<in> D \<Longrightarrow> is_directory F (snd (writeFileSync F p data s)) q \<Longrightarrow> is_directory F s q"
    and "p \<in> D \<Longrightarrow> q \<in> D \<Longrightarrow> p \<noteq> q \<Longrightarrow> contents F s p \<noteq> None \<Longrightarrow> x \<in> D \<Longrightarrow> contents F (snd (renameSync F p q s)) x =
      (if fst (renameSync F p q s) then (contents F s)(p := None, q := contents F s p) else contents F s) x"
    and "p \<in> D \<Longrightarrow> q \<in> D \<Longrightarrow> p \<noteq> q \<Longrightarrow> contents F s p \<noteq> None \<Longrightarrow> x \<in> D \<Longrightarrow> is_directory F (snd (renameSync F p q s)) x
      \<Longrightarrow> is_directory F s x"
  using assms unfolding file_system_laws_def Let_def by blast+

section \<open>The code\<close>

text \<open>A call that throws ends what calls it.\<close>

definition or_throw :: "bool \<times> 's \<Rightarrow> ('s \<Rightarrow> bool \<times> 's) \<Rightarrow> bool \<times> 's" where
  "or_throw r f = (if fst r then f (snd r) else r)"

text \<open>\<open>random\<close> is the text of the random number that the name of the temporary file ends in.\<close>

definition tmp_of :: "string \<Rightarrow> string \<Rightarrow> string" where
  "tmp_of target random = target @ ''.'' @ random"

definition bundle_write :: "'s file_system \<Rightarrow> paths \<Rightarrow> string \<Rightarrow> string \<Rightarrow> byte list \<Rightarrow> 's \<Rightarrow> bool \<times> 's" where
  "bundle_write F P random target data fs =
     (let tmp = tmp_of target random
      in or_throw (mkdirSync F (dirname P target) fs) (\<lambda>fs.
         or_throw (writeFileSync F tmp data fs) (\<lambda>fs.
         renameSync F tmp target fs)))"

definition split_lines :: "string \<Rightarrow> string list" where
  "split_lines s = foldr (\<lambda>c ls. if c = CHR 0x0A then [] # ls else (c # hd ls) # tl ls) s [[]]"

text \<open>
  The files that are written, in their order, and whether the end is reached: a key that is
  listed and missing throws. \<open>to_text\<close> is what a buffer is as a string.
\<close>

fun listed_writes :: "(string \<Rightarrow> string) \<Rightarrow> (string \<Rightarrow> byte list option) \<Rightarrow> string \<Rightarrow> string list
    \<Rightarrow> (string \<times> byte list) list \<times> bool" where
  "listed_writes target readResource name [] = ([], True)"
| "listed_writes target readResource name (key # keys) =
     (if key = [] then listed_writes target readResource name keys
      else case readResource (name @ key) of
        None \<Rightarrow> ([], False)
      | Some data \<Rightarrow> map_prod ((#) (target (name @ key), data)) id (listed_writes target readResource name keys))"

definition resource_name :: "paths \<Rightarrow> string \<Rightarrow> string" where
  "resource_name P filename = take (length filename - length (extname P filename)) filename"

definition listing_of :: "paths \<Rightarrow> string \<Rightarrow> string \<Rightarrow> string" where
  "listing_of P resources filename = path_join P resources (resource_name P filename @ ''.assets'')"

text \<open>What is to be written, decided at the start by whether the listing is there.\<close>

definition extract_writes :: "'s file_system \<Rightarrow> paths \<Rightarrow> (byte list \<Rightarrow> string) \<Rightarrow> (string \<Rightarrow> byte list option) \<Rightarrow> string \<Rightarrow> string
    \<Rightarrow> 's \<Rightarrow> (string \<times> byte list) list" where
  "extract_writes F P to_text readResource resources filename fs =
     (let name = resource_name P filename; listing = listing_of P resources filename
      in if existsSync F fs listing then []
         else case readResource (name @ ''.assets'') of
           None \<Rightarrow> []
         | Some keys \<Rightarrow>
             (let (ws, complete) = listed_writes (path_join P resources) readResource name (split_lines (to_text keys))
              in if complete then ws @ [(listing, keys)] else ws))"

fun write_all :: "'s file_system \<Rightarrow> paths \<Rightarrow> (nat \<Rightarrow> string) \<Rightarrow> (string \<times> byte list) list \<Rightarrow> 's \<Rightarrow> bool \<times> 's" where
  "write_all F P random [] fs = (True, fs)"
| "write_all F P random ((target, data) # ws) fs =
     or_throw (bundle_write F P (random (length ws)) target data fs) (write_all F P random ws)"

section \<open>Several worklets at once\<close>

text \<open>
  A worklet is before one of the three calls of \<open>write\<close>, with the files that it has yet to write:
  none after a call that throws.
\<close>

datatype write_pc = To_mkdir | To_write | To_rename

type_synonym extractor = "write_pc \<times> (string \<times> byte list) list"

definition or_stop :: "bool \<times> 's \<Rightarrow> extractor \<Rightarrow> extractor \<times> 's" where
  "or_stop r x = (if fst r then x else (To_mkdir, []), snd r)"

fun extractor_step :: "'s file_system \<Rightarrow> paths \<Rightarrow> (nat \<Rightarrow> string) \<Rightarrow> extractor \<Rightarrow> 's \<Rightarrow> extractor \<times> 's" where
  "extractor_step F P random (pc, []) fs = ((pc, []), fs)"
| "extractor_step F P random (To_mkdir, (target, data) # ws) fs =
     or_stop (mkdirSync F (dirname P target) fs) (To_write, (target, data) # ws)"
| "extractor_step F P random (To_write, (target, data) # ws) fs =
     or_stop (writeFileSync F (tmp_of target (random (length ws))) data fs) (To_rename, (target, data) # ws)"
| "extractor_step F P random (To_rename, (target, data) # ws) fs =
     or_stop (renameSync F (tmp_of target (random (length ws))) target fs) (To_mkdir, ws)"

text \<open>One worklet alone does what the code does.\<close>

fun extractor_run :: "'s file_system \<Rightarrow> paths \<Rightarrow> (nat \<Rightarrow> string) \<Rightarrow> nat \<Rightarrow> extractor \<Rightarrow> 's \<Rightarrow> extractor \<times> 's" where
  "extractor_run F P random 0 x fs = (x, fs)"
| "extractor_run F P random (Suc n) x fs =
     (let (x, fs) = extractor_step F P random x fs in extractor_run F P random n x fs)"

lemma extractor_idle: "extractor_run F P random n (pc, []) fs = ((pc, []), fs)"
  by (induction n) simp_all

lemma extractor_alone:
  "extractor_run F P random (3 * length ws) (To_mkdir, ws) fs = ((To_mkdir, []), snd (write_all F P random ws fs))"
proof (induction ws arbitrary: fs)
  case (Cons w ws)
  obtain t d where w: "w = (t, d)" by (cases w)
  have "3 * length (w # ws) = Suc (Suc (Suc (3 * length ws)))" by simp
  then show ?case
    unfolding w using Cons.IH
    by (simp add: bundle_write_def or_throw_def or_stop_def Let_def extractor_idle del: mult_Suc_right)
qed simp

text \<open>
  Any worklet may start, go on, or stop for good, at any time. \<open>random i\<close> are the random numbers
  of worklet \<open>i\<close>.
\<close>

inductive extracting :: "'s file_system \<Rightarrow> paths \<Rightarrow> (nat \<Rightarrow> nat \<Rightarrow> string) \<Rightarrow> ('s \<Rightarrow> (string \<times> byte list) list) \<Rightarrow> 's
    \<Rightarrow> 's \<Rightarrow> (nat \<rightharpoonup> extractor) \<Rightarrow> bool"
  for F :: "'s file_system" and P :: paths and random :: "nat \<Rightarrow> nat \<Rightarrow> string"
    and todo :: "'s \<Rightarrow> (string \<times> byte list) list" and fs0 :: 's where
  at_first: "extracting F P random todo fs0 fs0 Map.empty"
| starts: "extracting F P random todo fs0 fs xs \<Longrightarrow> xs i = None
    \<Longrightarrow> extracting F P random todo fs0 fs (xs(i \<mapsto> (To_mkdir, todo fs)))"
| goes_on: "extracting F P random todo fs0 fs xs \<Longrightarrow> xs i = Some x \<Longrightarrow> extractor_step F P (random i) x fs = (x', fs')
    \<Longrightarrow> extracting F P random todo fs0 fs' (xs(i \<mapsto> x'))"
| stops: "extracting F P random todo fs0 fs xs \<Longrightarrow> xs i = Some x
    \<Longrightarrow> extracting F P random todo fs0 fs (xs(i \<mapsto> (To_mkdir, [])))"

section \<open>The listing comes last\<close>

lemma listed_all:
  assumes "listed_writes target readResource name keys = (ws, True)" and "key \<in> set keys" and "key \<noteq> []"
  shows "\<exists>data. readResource (name @ key) = Some data \<and> (target (name @ key), data) \<in> set ws"
  using assms
  by (induction keys arbitrary: ws) (auto split: if_splits option.splits prod.splits simp: map_prod_def)

text \<open>
  What the names have to be: the paths that are listed are distinct, a temporary name is none of
  them, and no two writes have the same one, as the random numbers see to.
\<close>

definition names_apart :: "(nat \<Rightarrow> nat \<Rightarrow> string) \<Rightarrow> string list \<Rightarrow> bool" where
  "names_apart random targets \<longleftrightarrow> distinct targets
     \<and> (\<forall>t \<in> set targets. \<forall>i n. tmp_of t (random i n) \<notin> set targets)
     \<and> (\<forall>t \<in> set targets. \<forall>u \<in> set targets. \<forall>i j n m. tmp_of t (random i n) = tmp_of u (random j m) \<longrightarrow> i = j \<and> n = m)"

text \<open>All names that are written, those of the temporary files with them.\<close>

definition names_of :: "(nat \<Rightarrow> nat \<Rightarrow> string) \<Rightarrow> string list \<Rightarrow> string set" where
  "names_of random targets = set targets \<union> (\<Union>t \<in> set targets. \<Union>i. range (\<lambda>n. tmp_of t (random i n)))"

lemma in_names_of:
  "t \<in> set targets \<Longrightarrow> t \<in> names_of random targets" "t \<in> set targets \<Longrightarrow> tmp_of t (random i n) \<in> names_of random targets"
  by (auto simp: names_of_def)

lemma names_of_mono: "set ts \<subseteq> set us \<Longrightarrow> names_of random ts \<subseteq> names_of random us"
  by (auto simp: names_of_def)

text \<open>\<open>ws\<close> are all writes, of which \<open>listing\<close> is the last if it is written at all.\<close>

definition extractor_ok :: "'s file_system \<Rightarrow> (nat \<Rightarrow> string) \<Rightarrow> (string \<times> byte list) list \<Rightarrow> 's \<Rightarrow> extractor \<Rightarrow> bool" where
  "extractor_ok F random ws fs x \<longleftrightarrow> snd x \<noteq> [] \<longrightarrow>
     (\<exists>done t d rest. snd x = (t, d) # rest \<and> ws = done @ (t, d) # rest \<and> (\<forall>(u, e) \<in> set done. contents F fs u = Some e)
       \<and> (fst x = To_rename \<longrightarrow> contents F fs (tmp_of t (random (length rest))) = Some d))"

definition files_ok :: "'s file_system \<Rightarrow> string \<Rightarrow> (string \<times> byte list) list \<Rightarrow> 's \<Rightarrow> bool" where
  "files_ok F listing ws fs \<longleftrightarrow> contents F fs listing \<noteq> None \<longrightarrow>
     listing \<in> fst ` set ws \<and> (\<forall>(t, d) \<in> set ws. contents F fs t = Some d)"

lemma extractor_ok_ended: "extractor_ok F random ws fs (pc, [])"
  by (simp add: extractor_ok_def)

lemma extractor_okI:
  assumes "ws = done @ (t, d) # rest" and "\<And>u e. (u, e) \<in> set done \<Longrightarrow> contents F fs u = Some e"
    and "pc = To_rename \<Longrightarrow> contents F fs (tmp_of t (random (length rest))) = Some d"
  shows "extractor_ok F random ws fs (pc, (t, d) # rest)"
  using assms unfolding extractor_ok_def by (intro impI exI [of _ "done"] exI [of _ t] exI [of _ d] exI [of _ rest]) auto

lemma files_ok_more:
  assumes "files_ok F listing ws fs" and "contents F fs' listing = contents F fs listing"
    and "\<And>t d. (t, d) \<in> set ws \<Longrightarrow> contents F fs t = Some d \<Longrightarrow> contents F fs' t = Some d"
  shows "files_ok F listing ws fs'"
proof (cases "contents F fs listing = None")
  case False
  then have "listing \<in> fst ` set ws" and all: "\<And>t d. (t, d) \<in> set ws \<Longrightarrow> contents F fs t = Some d"
    using assms(1) by (auto simp: files_ok_def)
  moreover have "contents F fs' t = Some d" if "(t, d) \<in> set ws" for t d
    by (rule assms(3) [OF that all [OF that]])
  ultimately show ?thesis by (auto simp: files_ok_def)
qed (use assms(2) in \<open>simp add: files_ok_def\<close>)

lemma extractor_ok_more:
  assumes "extractor_ok F random ws fs x"
    and "\<And>t d. (t, d) \<in> set ws \<Longrightarrow> contents F fs t = Some d \<Longrightarrow> contents F fs' t = Some d"
    and "\<And>t n d. t \<in> fst ` set ws \<Longrightarrow> contents F fs (tmp_of t (random n)) = Some d \<Longrightarrow> contents F fs' (tmp_of t (random n)) = Some d"
  shows "extractor_ok F random ws fs' x"
proof (cases "snd x = []")
  case True
  then show ?thesis by (simp add: extractor_ok_def)
next
  case False
  then obtain "done" t d rest where x: "snd x = (t, d) # rest" "ws = done @ (t, d) # rest" "\<forall>(u, e) \<in> set done. contents F fs u = Some e"
      "fst x = To_rename \<longrightarrow> contents F fs (tmp_of t (random (length rest))) = Some d"
    using assms(1) by (auto simp: extractor_ok_def)
  have "\<forall>(u, e) \<in> set done. contents F fs' u = Some e" using x(2,3) assms(2) by fastforce
  moreover have "t \<in> fst ` set ws" using x(2) by force
  ultimately show ?thesis
    using x assms(3) by (auto simp: extractor_ok_def)
qed

text \<open>
  What one call does: it touches the temporary file of its worklet, or moves it into its place.
\<close>

definition touched :: "'s file_system \<Rightarrow> string set \<Rightarrow> (nat \<Rightarrow> string) \<Rightarrow> (string \<times> byte list) list \<Rightarrow> string \<Rightarrow> byte list
    \<Rightarrow> (string \<times> byte list) list \<Rightarrow> 's \<Rightarrow> extractor \<Rightarrow> 's \<Rightarrow> bool" where
  "touched F D random ws t d rest fs x fs' \<longleftrightarrow> extractor_ok F random ws fs' x
     \<and> (\<forall>p \<in> D. p \<noteq> tmp_of t (random (length rest)) \<longrightarrow> p \<noteq> t \<longrightarrow> contents F fs' p = contents F fs p)
     \<and> (contents F fs' t = contents F fs t \<or> contents F fs' t = Some d
         \<and> (\<exists>done. ws = done @ (t, d) # rest \<and> (\<forall>(u, e) \<in> set done. contents F fs' u = Some e)))"

lemma touched_unmoved:
  assumes ws: "ws = done @ (t, d) # rest" and d: "\<forall>(u, e) \<in> set done. contents F fs u = Some e"
    and tmp: "tmp_of t (random (length rest)) \<notin> fst ` set ws" and D: "fst ` set ws \<subseteq> D"
    and same: "\<And>p. p \<in> D \<Longrightarrow> p \<noteq> tmp_of t (random (length rest)) \<Longrightarrow> contents F fs' p = contents F fs p"
    and x: "x = (pc, []) \<or> x = (pc, (t, d) # rest) \<and> (pc = To_rename \<longrightarrow> contents F fs' (tmp_of t (random (length rest))) = Some d)"
  shows "touched F D random ws t d rest fs x fs'"
proof -
  have "contents F fs' u = Some e" if "(u, e) \<in> set done" for u e
  proof -
    have u: "u \<in> fst ` set ws" using that ws by force
    then have "u \<in> D" "u \<noteq> tmp_of t (random (length rest))" using tmp D by (blast, metis)
    then show ?thesis using same d that by auto
  qed
  then have "extractor_ok F random ws fs' x"
    using x by (elim disjE conjE) (simp_all add: extractor_ok_ended extractor_okI [OF ws])
  moreover have "t \<noteq> tmp_of t (random (length rest))" "t \<in> D" using tmp ws D by auto
  ultimately show ?thesis using same by (simp add: touched_def)
qed

lemma touched_moved:
  assumes ws: "ws = done @ (t, d) # rest" and d: "\<forall>(u, e) \<in> set done. contents F fs u = Some e"
    and tmp: "tmp_of t (random (length rest)) \<notin> fst ` set ws" and dist: "distinct (map fst ws)"
    and D: "fst ` set ws \<subseteq> D"
    and c: "\<And>p. p \<in> D \<Longrightarrow> contents F fs' p = ((contents F fs)(tmp_of t (random (length rest)) := None, t := Some d)) p"
  shows "touched F D random ws t d rest fs (To_mkdir, rest) fs'"
proof -
  have before: "contents F fs' u = Some e" if "(u, e) \<in> set done" for u e
  proof -
    have "u \<noteq> tmp_of t (random (length rest))" "u \<noteq> t" using that dist tmp ws by (force simp: image_iff)+
    moreover have "u \<in> D" using that ws D by force
    ultimately have "contents F fs' u = contents F fs u" using c by simp
    then show ?thesis using d that by auto
  qed
  have "t \<in> D" using ws D by auto
  then have now: "contents F fs' t = Some d" using c by simp
  have "extractor_ok F random ws fs' (To_mkdir, rest)"
  proof (cases rest)
    case (Cons w rest')
    obtain u e where w: "w = (u, e)" by (cases w)
    have "ws = (done @ [(t, d)]) @ (u, e) # rest'" using ws Cons w by simp
    then show ?thesis unfolding Cons w by (rule extractor_okI) (use before now in auto)
  qed (simp add: extractor_ok_ended)
  moreover have "contents F fs' p = contents F fs p" if "p \<in> D" "p \<noteq> tmp_of t (random (length rest))" "p \<noteq> t" for p
    using c that by simp
  ultimately show ?thesis using now ws before by (auto simp: touched_def)
qed

lemma extractor_touches:
  assumes laws: "file_system_laws F P D" and ok: "extractor_ok F random ws fs (pc, (t, d) # rest)"
    and dist: "distinct (map fst ws)" and tmp: "tmp_of t (random (length rest)) \<notin> fst ` set ws"
    and D: "fst ` set ws \<subseteq> D" "tmp_of t (random (length rest)) \<in> D"
    and step: "extractor_step F P random (pc, (t, d) # rest) fs = (x', fs')"
  shows "touched F D random ws t d rest fs x' fs'
    \<and> (\<forall>p \<in> D. is_directory F fs' p \<longrightarrow> is_directory F fs p \<or> above P p (dirname P t))"
proof -
  let ?tmp = "tmp_of t (random (length rest))"
  obtain "done" where dn: "ws = done @ (t, d) # rest" "\<forall>(u, e) \<in> set done. contents F fs u = Some e"
      "pc = To_rename \<longrightarrow> contents F fs ?tmp = Some d"
    using ok by (auto simp: extractor_ok_def)
  have tt: "?tmp \<noteq> t" "t \<in> D" using tmp dn(1) D by auto
  note unmoved = touched_unmoved [where random = random, OF dn(1,2) tmp D(1)]
  note law = file_systemD [OF laws]
  show ?thesis
  proof (cases pc)
    case To_mkdir
    let ?r = "mkdirSync F (dirname P t) fs"
    have s: "x' = (if fst ?r then (To_write, (t, d) # rest) else (To_mkdir, []))" "fs' = snd ?r"
      using step To_mkdir by (auto simp: or_stop_def)
    then show ?thesis using law(2,3) [of _ "dirname P t" fs] by (intro conjI unmoved [where pc = "fst x'"]) auto
  next
    case To_write
    let ?r = "writeFileSync F ?tmp d fs"
    have s: "x' = (if fst ?r then (To_rename, (t, d) # rest) else (To_mkdir, []))" "fs' = snd ?r"
      using step To_write by (simp_all add: or_stop_def)
    then show ?thesis using law(4,5,6) [OF D(2)] by (intro conjI unmoved [where pc = "fst x'"]) auto
  next
    case To_rename
    let ?r = "renameSync F ?tmp t fs"
    have s: "x' = (if fst ?r then (To_mkdir, rest) else (To_mkdir, []))" "fs' = snd ?r"
      using step To_rename by (simp_all add: or_stop_def)
    have some: "contents F fs ?tmp = Some d" using dn(3) To_rename by simp
    have c: "contents F fs' p = (if fst ?r then (contents F fs)(?tmp := None, t := Some d) else contents F fs) p"
        "is_directory F fs' p \<longrightarrow> is_directory F fs p" if "p \<in> D" for p
      using law(7,8) [OF D(2) tt(2,1) _ that, of fs] some s(2) by simp_all
    show ?thesis
    proof (cases "fst ?r")
      case True
      then show ?thesis using touched_moved [where random = random, OF dn(1,2) tmp dist D(1), of fs'] s(1) c by simp
    next
      case False
      then show ?thesis using c by (intro conjI unmoved [where pc = To_mkdir]) (use s(1) in simp_all)
    qed
  qed
qed

text \<open>A call of worklet \<open>i\<close> keeps what the others rely on.\<close>

lemma touched_keeps:
  assumes t: "touched F D (random i) ws t d rest fs x fs'" and tin: "(t, d) \<in> set ws"
    and apart: "names_apart random (map fst ws)" and D: "names_of random (map fst ws) \<subseteq> D"
  shows "(u, e) \<in> set ws \<Longrightarrow> contents F fs u = Some e \<Longrightarrow> contents F fs' u = Some e"
    and "extractor_ok F (random j) ws fs y \<Longrightarrow> j \<noteq> i \<Longrightarrow> extractor_ok F (random j) ws fs' y"
proof -
  let ?tmp = "tmp_of t (random i (length rest))"
  have tin': "t \<in> fst ` set ws" using tin by force
  have tmps: "tmp_of u (random j n) \<notin> fst ` set ws" if "u \<in> fst ` set ws" for u j n
    using apart that unfolding names_apart_def set_map by blast
  have same: "e = d" if "(t, e) \<in> set ws" for e
    using that tin apart unfolding names_apart_def by (metis eq_key_imp_eq_value)
  have inD: "u \<in> D" "tmp_of u (random j n) \<in> D" if "u \<in> fst ` set ws" for u j n
    using D in_names_of [of u "map fst ws" random] that by auto
  have elsewhere: "contents F fs' p = contents F fs p" if "p \<in> D" "p \<noteq> ?tmp" "p \<noteq> t" for p
    using t that by (simp add: touched_def)
  show keep: "contents F fs' u = Some e" if "(u, e) \<in> set ws" "contents F fs u = Some e" for u e
  proof (cases "u = t")
    case True
    then show ?thesis using t that same by (auto simp: touched_def)
  next
    case False
    moreover have "u \<in> fst ` set ws" using that(1) by force
    ultimately have "u \<noteq> ?tmp" "u \<in> D" using tmps [OF tin', of i "length rest"] inD by metis+
    then show ?thesis using elsewhere False that(2) by simp
  qed
  show "extractor_ok F (random j) ws fs' y" if y: "extractor_ok F (random j) ws fs y" "j \<noteq> i"
  proof (rule extractor_ok_more [OF y(1) keep])
    show "contents F fs' (tmp_of u (random j n)) = Some e" if u: "u \<in> fst ` set ws" "contents F fs (tmp_of u (random j n)) = Some e" for u n e
    proof -
      have "tmp_of u (random j n) \<noteq> ?tmp" using apart u(1) tin' y(2) unfolding names_apart_def set_map by blast
      moreover have "tmp_of u (random j n) \<noteq> t" using tmps [OF u(1)] tin' by auto
      ultimately show ?thesis using elsewhere inD(2) [OF u(1)] u(2) by simp
    qed
  qed
qed

text \<open>The listing is moved into its place only after all the rest.\<close>

lemma touched_files_ok:
  assumes t: "touched F D (random i) ws t d rest fs x fs'" and tin: "(t, d) \<in> set ws"
    and apart: "names_apart random (map fst ws)" "listing \<notin> fst ` set (butlast ws)"
    and D: "names_of random (map fst ws) \<subseteq> D" "listing \<in> D"
    and tmp: "tmp_of t (random i (length rest)) \<noteq> listing" and ok: "files_ok F listing ws fs"
  shows "files_ok F listing ws fs'"
proof (cases "contents F fs' listing = contents F fs listing")
  case True
  then show ?thesis by (rule files_ok_more [OF ok]) (rule touched_keeps(1) [OF t tin apart(1) D(1)])
next
  case False
  have "listing = t" using t False tmp D(2) unfolding touched_def by metis
  then obtain "done" where w: "contents F fs' t = Some d" "ws = done @ (t, d) # rest" "\<forall>(u, e) \<in> set done. contents F fs' u = Some e"
    using t False unfolding touched_def by blast
  have "rest = []" using apart(2) w(2) \<open>listing = t\<close> by (cases rest rule: rev_cases) (auto simp: butlast_append)
  then have "\<forall>(u, e) \<in> set ws. contents F fs' u = Some e" using w by auto
  then show ?thesis using tin \<open>listing = t\<close> by (force simp: files_ok_def)
qed

lemma extracting_ok:
  assumes laws: "file_system_laws F P D" and ex: "extracting F P random todo fs0 fs xs"
    and apart: "names_apart random (map fst ws)" "listing \<notin> fst ` set (butlast ws)"
    and tmp: "\<And>t i n. t \<in> fst ` set ws \<Longrightarrow> tmp_of t (random i n) \<noteq> listing"
    and D: "names_of random (map fst ws) \<subseteq> D" "listing \<in> D" and dirs: "\<And>t. t \<in> fst ` set ws \<Longrightarrow> \<not> above P listing (dirname P t)"
    and todo: "\<And>fs. contents F fs listing = None \<Longrightarrow> \<not> is_directory F fs listing \<Longrightarrow> todo fs = ws"
      "\<And>fs. contents F fs listing \<noteq> None \<Longrightarrow> todo fs = []"
    and fs0: "contents F fs0 listing = None" "\<not> is_directory F fs0 listing"
  shows "files_ok F listing ws fs \<and> \<not> is_directory F fs listing \<and> (\<forall>i x. xs i = Some x \<longrightarrow> extractor_ok F (random i) ws fs x)"
  using ex
proof (induction rule: extracting.induct)
  case at_first
  then show ?case using fs0 by (simp add: files_ok_def)
next
  case (starts fs xs i)
  have "extractor_ok F (random i) ws fs (To_mkdir, todo fs)"
  proof (cases "todo fs")
    case (Cons w rest)
    then have "ws = w # rest" using todo [of fs] starts.IH by (cases "contents F fs listing = None") simp_all
    then show ?thesis using Cons by (cases w) (auto simp: extractor_ok_def)
  qed (simp add: extractor_ok_ended)
  then show ?case using starts by auto
next
  case (goes_on fs xs i x x' fs')
  have x: "extractor_ok F (random i) ws fs x" using goes_on by blast
  show ?case
  proof (cases "snd x = []")
    case True
    then have "x' = x" "fs' = fs" using goes_on(3) by (cases x; simp)+
    then show ?thesis using goes_on.IH x by auto
  next
    case False
    then obtain pc t d rest where p: "x = (pc, (t, d) # rest)" by (metis list.exhaust prod.exhaust_sel)
    have tin: "t \<in> fst ` set ws" "(t, d) \<in> set ws" using x p by (force simp: extractor_ok_def)+
    have a: "distinct (map fst ws)" "tmp_of t (random i (length rest)) \<notin> fst ` set ws"
      using apart(1) tin(1) unfolding names_apart_def set_map by blast+
    have d: "fst ` set ws \<subseteq> D" "tmp_of t (random i (length rest)) \<in> D"
      using D(1) in_names_of [of _ "map fst ws" random] tin(1) unfolding set_map by blast+
    have step: "touched F D (random i) ws t d rest fs x' fs'" "\<not> is_directory F fs' listing"
      using extractor_touches [OF laws x [unfolded p] a d goes_on(3) [unfolded p]] goes_on.IH D(2) dirs [OF tin(1)] by blast+
    note touch = step(1)
    have "files_ok F listing ws fs'"
      by (rule touched_files_ok [OF touch tin(2) apart D tmp [OF tin(1)] conjunct1 [OF goes_on.IH]])
    moreover have "extractor_ok F (random j) ws fs' y" if "xs j = Some y" "j \<noteq> i" for j y
      using touched_keeps(2) [OF touch tin(2) apart(1) D(1)] goes_on.IH that by blast
    moreover have "extractor_ok F (random i) ws fs' x'" using touch by (simp add: touched_def)
    ultimately show ?thesis using step(2) by (auto split: if_splits)
  qed
next
  case (stops fs xs i x)
  then show ?case by (auto simp: extractor_ok_ended)
qed

text \<open>All that an extraction may write, the listing first.\<close>

definition extract_targets :: "paths \<Rightarrow> (byte list \<Rightarrow> string) \<Rightarrow> (string \<Rightarrow> byte list option) \<Rightarrow> string \<Rightarrow> string
    \<Rightarrow> byte list \<Rightarrow> string list" where
  "extract_targets P to_text readResource resources filename keys = listing_of P resources filename #
     map fst (fst (listed_writes (path_join P resources) readResource (resource_name P filename) (split_lines (to_text keys))))"

text \<open>
  C17: The presence of the listing means that every resource that it lists is there. Any number of
  worklets may extract the same resources at once, any call of the file system may throw, with
  the file that it writes left in any state, and each worklet may be stopped at any point: at any
  moment, if the listing exists, as the code asks, then it is the application's, nothing that it
  lists is missing in the application, and each file that it lists is in place with its whole
  contents. No file is written to a directory in the place of the listing.
\<close>

theorem extract_listing_last:
  assumes "file_system_laws F P (names_of random (extract_targets P to_text readResource resources filename keys))"
    and "readResource (resource_name P filename @ ''.assets'') = Some keys"
    and "names_apart random (extract_targets P to_text readResource resources filename keys)"
    and "\<forall>t \<in> set (extract_targets P to_text readResource resources filename keys).
      \<not> above P (listing_of P resources filename) (dirname P t)"
    and "\<not> existsSync F fs0 (listing_of P resources filename)"
    and "extracting F P random (extract_writes F P to_text readResource resources filename) fs0 fs xs"
    and "existsSync F fs (listing_of P resources filename)"
  shows "contents F fs (listing_of P resources filename) = Some keys
    \<and> (\<forall>key \<in> set (split_lines (to_text keys)). key \<noteq> [] \<longrightarrow>
          readResource (resource_name P filename @ key) \<noteq> None
          \<and> contents F fs (path_join P resources (resource_name P filename @ key)) = readResource (resource_name P filename @ key))"
proof -
  let ?l = "listing_of P resources filename" and ?n = "resource_name P filename"
  let ?D = "names_of random (extract_targets P to_text readResource resources filename keys)"
  obtain ws complete where lw: "listed_writes (path_join P resources) readResource ?n (split_lines (to_text keys)) = (ws, complete)"
    by (cases "listed_writes (path_join P resources) readResource ?n (split_lines (to_text keys))")
  have targets: "extract_targets P to_text readResource resources filename keys = ?l # map fst ws"
    by (simp add: extract_targets_def lw)
  note apart0 = assms(3) [unfolded targets]
  define full where "full = (if complete then ws @ [(?l, keys)] else ws)"
  have sub: "set (map fst full) \<subseteq> set (?l # map fst ws)" by (auto simp: full_def)
  have D: "names_of random (map fst full) \<subseteq> ?D" "?l \<in> ?D"
    unfolding targets by (rule names_of_mono [OF sub]) (simp add: names_of_def)
  have "distinct (map fst full)" using apart0 by (auto simp: full_def names_apart_def)
  then have apart: "names_apart random (map fst full)"
    using apart0 sub unfolding names_apart_def by blast
  have l: "?l \<notin> fst ` set (butlast full)"
    using apart0 by (auto simp: full_def names_apart_def dest: in_set_butlastD)
  have in_targets: "t \<in> set (?l # map fst ws)" if "t \<in> fst ` set full" for t using sub that by auto
  have tmp: "tmp_of t (random i n) \<noteq> ?l" if "t \<in> fst ` set full" for t i n
  proof -
    have "tmp_of t (random i n) \<notin> set (?l # map fst ws)"
      using apart0 in_targets [OF that] unfolding names_apart_def by blast
    then show ?thesis by auto
  qed
  have dirs: "\<not> above P ?l (dirname P t)" if "t \<in> fst ` set full" for t
    using assms(4) in_targets [OF that] unfolding targets by blast
  have exists: "existsSync F fs ?l \<longleftrightarrow> contents F fs ?l \<noteq> None \<or> is_directory F fs ?l" for fs
    by (rule file_systemD(1) [OF assms(1) D(2)])
  have todo: "extract_writes F P to_text readResource resources filename fs = full"
    if "contents F fs ?l = None" "\<not> is_directory F fs ?l" for fs
    using that assms(2) lw exists [of fs] by (simp add: extract_writes_def full_def Let_def)
  have none: "extract_writes F P to_text readResource resources filename fs = []" if "contents F fs ?l \<noteq> None" for fs
    using that exists [of fs] by (simp add: extract_writes_def Let_def)
  have fs0: "contents F fs0 ?l = None" "\<not> is_directory F fs0 ?l" using assms(5) exists [of fs0] by simp_all
  have ok: "files_ok F ?l full fs" "\<not> is_directory F fs ?l"
    using extracting_ok [OF assms(1,6) apart l tmp D dirs todo none fs0] by blast+
  have in_full: "?l \<in> fst ` set full" and all: "\<And>t d. (t, d) \<in> set full \<Longrightarrow> contents F fs t = Some d"
    using ok assms(7) exists [of fs] by (auto simp: files_ok_def)
  have "?l \<notin> fst ` set ws" using apart0 by (simp add: names_apart_def)
  then have c: complete using in_full by (auto simp: full_def)
  have "contents F fs ?l = Some keys" by (rule all) (simp add: full_def c)
  moreover have "readResource (?n @ key) \<noteq> None \<and> contents F fs (path_join P resources (?n @ key)) = readResource (?n @ key)"
    if "key \<in> set (split_lines (to_text keys))" "key \<noteq> []" for key
    using listed_all [of "path_join P resources" readResource ?n "split_lines (to_text keys)" ws key] lw c that all
    by (fastforce simp: full_def)
  ultimately show ?thesis by blast
qed

section \<open>An extraction\<close>

lemma extracting_run:
  assumes "extracting F P random todo fs0 fs xs" and "xs i = Some x" and "extractor_run F P (random i) n x fs = (x', fs')"
  shows "extracting F P random todo fs0 fs' (xs(i \<mapsto> x'))"
  using assms
proof (induction n arbitrary: x fs xs)
  case 0
  have "xs(i \<mapsto> x') = xs" by (rule fun_upd_idem) (use 0 in simp)
  moreover have "fs' = fs" using 0(3) by simp
  ultimately show ?case using 0(1) by metis
next
  case (Suc n)
  obtain x1 fs1 where s: "extractor_step F P (random i) x fs = (x1, fs1)" by (cases "extractor_step F P (random i) x fs")
  have "extracting F P random todo fs0 fs' ((xs(i \<mapsto> x1))(i \<mapsto> x'))"
    by (rule Suc.IH [OF extracting.goes_on [OF Suc.prems(1,2) s]]) (use Suc.prems(3) s in simp_all)
  then show ?case unfolding fun_upd_upd .
qed

text \<open>
  Files in directories: a file is only written or moved to a directory that is there, and never
  in the place of a directory.
\<close>

definition slash_above :: "string \<Rightarrow> string \<Rightarrow> bool" where
  "slash_above p d \<longleftrightarrow> d = p \<or> take (Suc (length p)) d = p @ ''/''"

definition slash_dirname :: "string \<Rightarrow> string" where
  "slash_dirname p = rev (tl (dropWhile (\<lambda>c. c \<noteq> CHR ''/'') (rev p)))"

definition dir_files :: "((string \<rightharpoonup> byte list) \<times> string set) file_system" where
  "dir_files = \<lparr>contents = (\<lambda>(f, d) p. if p \<in> d then None else f p), is_directory = (\<lambda>(f, d) p. p \<in> d),
     existsSync = (\<lambda>(f, d) p. f p \<noteq> None \<or> p \<in> d),
     mkdirSync = (\<lambda>n (f, d). let new = {p. slash_above p n} - d in
       if \<exists>p \<in> new. f p \<noteq> None then (False, (f, d)) else (True, (f, d \<union> new))),
     writeFileSync = (\<lambda>p data (f, d).
       if slash_dirname p \<in> d \<and> p \<notin> d then (True, (f(p \<mapsto> data), d)) else (False, (f, d))),
     renameSync = (\<lambda>p q (f, d).
       if f p \<noteq> None \<and> p \<notin> d \<and> slash_dirname q \<in> d \<and> q \<notin> d then (True, (f(p := None, q := f p), d)) else (False, (f, d)))\<rparr>"

text \<open>Two files of an application in the directory \<open>r\<close>.\<close>

definition app_paths :: paths where
  "app_paths = \<lparr>path_join = (\<lambda>r k. r @ ''/'' @ k), extname = (\<lambda>_. []), dirname = slash_dirname, above = slash_above\<rparr>"

lemma dir_files_laws: "file_system_laws dir_files app_paths D"
  by (auto simp: file_system_laws_def dir_files_def app_paths_def Let_def split: prod.splits)

definition no_files :: "(string \<rightharpoonup> byte list) \<times> string set" where
  "no_files = (Map.empty, {})"

definition app_read :: "string \<Rightarrow> byte list option" where
  "app_read k = (if k = ''app.assets'' then Some [1] else if k = ''app/images'' then Some [7, 8] else None)"

definition app_random :: "nat \<Rightarrow> nat \<Rightarrow> string" where
  "app_random i n = replicate i CHR ''a'' @ ''b'' @ replicate n CHR ''a''"

lemma app_random_inj: "app_random i n = app_random j m \<Longrightarrow> i = j \<and> n = m"
proof -
  assume e: "app_random i n = app_random j m"
  have "length (takeWhile (\<lambda>c. c = CHR ''a'') (app_random i n)) = i" for i n
    by (simp add: app_random_def takeWhile_append)
  then have "i = j" using e by metis
  then show ?thesis using e by (simp add: app_random_def)
qed

lemma app_names: "names_apart app_random [''r/app.assets'', ''r/app/images'']"
proof -
  have l: "length t = 12" if "t \<in> {''r/app.assets'', ''r/app/images''}" for t using that by auto
  have d: "tmp_of t (app_random i n) \<notin> {''r/app.assets'', ''r/app/images''}" if "t \<in> {''r/app.assets'', ''r/app/images''}" for t i n
    using l [OF that] l [of "tmp_of t (app_random i n)"] by (auto simp: tmp_of_def)
  have e: "i = j \<and> n = m"
    if "t \<in> {''r/app.assets'', ''r/app/images''}" "u \<in> {''r/app.assets'', ''r/app/images''}"
      "tmp_of t (app_random i n) = tmp_of u (app_random j m)" for t u i j n m
    using that(3) l [OF that(1)] l [OF that(2)] app_random_inj [of i n j m] by (simp add: tmp_of_def)
  have "set [''r/app.assets'', ''r/app/images''] = {''r/app.assets'', ''r/app/images''}" by simp
  then show ?thesis
    using d e unfolding names_apart_def by simp
qed

text \<open>What is extracted of it, at the start, and its names.\<close>

lemma app_extract:
  shows "resource_name app_paths ''app'' = ''app''" and "listing_of app_paths ''r'' ''app'' = ''r/app.assets''"
    and "listed_writes (path_join app_paths ''r'') app_read ''app'' (split_lines ''/images'') = ([(''r/app/images'', [7, 8])], True)"
    and "extract_targets app_paths (\<lambda>_. ''/images'') app_read ''r'' ''app'' [1] = [''r/app.assets'', ''r/app/images'']"
    and "extract_writes dir_files app_paths (\<lambda>_. ''/images'') app_read ''r'' ''app'' no_files
      = [(''r/app/images'', [7, 8]), (''r/app.assets'', [1])]"
proof -
  show 1: "resource_name app_paths ''app'' = ''app''" unfolding resource_name_def by (simp add: app_paths_def)
  show 2: "listing_of app_paths ''r'' ''app'' = ''r/app.assets''"
    unfolding listing_of_def 1 by (simp add: app_paths_def)
  show 3: "listed_writes (path_join app_paths ''r'') app_read ''app'' (split_lines ''/images'') = ([(''r/app/images'', [7, 8])], True)"
    by (simp add: split_lines_def app_read_def app_paths_def)
  show "extract_targets app_paths (\<lambda>_. ''/images'') app_read ''r'' ''app'' [1] = [''r/app.assets'', ''r/app/images'']"
    by (simp add: extract_targets_def 1 2 3)
  show "extract_writes dir_files app_paths (\<lambda>_. ''/images'') app_read ''r'' ''app'' no_files
      = [(''r/app/images'', [7, 8]), (''r/app.assets'', [1])]"
    by (simp add: extract_writes_def Let_def 1 2) (simp add: 3 app_read_def dir_files_def no_files_def)
qed

lemma app_dirs: "\<forall>t \<in> set [''r/app.assets'', ''r/app/images'']. \<not> above app_paths ''r/app.assets'' (dirname app_paths t)"
  by (simp add: app_paths_def slash_above_def slash_dirname_def)

theorem extract_listing_last_witness:
  "\<exists>fs xs. extracting dir_files app_paths app_random (extract_writes dir_files app_paths (\<lambda>_. ''/images'') app_read ''r'' ''app'')
      no_files fs xs
    \<and> is_directory dir_files fs ''r/app'' \<and> \<not> is_directory dir_files no_files ''r/app''
    \<and> contents dir_files fs ''r/app.assets'' = Some [1] \<and> contents dir_files fs ''r/app/images'' = Some [7, 8]"
proof -
  let ?todo = "extract_writes dir_files app_paths (\<lambda>_. ''/images'') app_read ''r'' ''app''"
  let ?ws = "[(''r/app/images'', [7, 8]), (''r/app.assets'', [1])] :: (string \<times> byte list) list"
  note n = app_extract(1,2)
  have s: "extracting dir_files app_paths app_random ?todo no_files no_files (Map.empty(0 \<mapsto> (To_mkdir, ?todo no_files)))"
    by (rule extracting.starts [OF extracting.at_first]) simp
  define fs where "fs = snd (write_all dir_files app_paths (app_random 0) ?ws no_files)"
  have fs: "existsSync dir_files fs ''r/app.assets''" "is_directory dir_files fs ''r/app''"
    by (simp_all add: fs_def bundle_write_def or_throw_def dir_files_def app_paths_def tmp_of_def no_files_def
        slash_dirname_def slash_above_def app_random_def Let_def)
  have "extractor_run dir_files app_paths (app_random 0) (3 * length ?ws) (To_mkdir, ?todo no_files) no_files = ((To_mkdir, []), fs)"
    unfolding app_extract(5) extractor_alone fs_def ..
  then have x: "extracting dir_files app_paths app_random ?todo no_files fs
      (Map.empty(0 \<mapsto> (To_mkdir, ?todo no_files), 0 \<mapsto> (To_mkdir, [])))"
    by (rule extracting_run [OF s, rotated]) simp
  have "app_read (resource_name app_paths ''app'' @ ''.assets'') = Some [1]" by (simp add: n app_read_def)
  moreover have "names_apart app_random (extract_targets app_paths (\<lambda>_. ''/images'') app_read ''r'' ''app'' [1])"
    unfolding app_extract(4) by (rule app_names)
  moreover have "\<forall>t \<in> set (extract_targets app_paths (\<lambda>_. ''/images'') app_read ''r'' ''app'' [1]).
      \<not> above app_paths (listing_of app_paths ''r'' ''app'') (dirname app_paths t)"
    unfolding app_extract(2,4) by (rule app_dirs)
  moreover have "\<not> existsSync dir_files no_files (listing_of app_paths ''r'' ''app'')" by (simp add: dir_files_def no_files_def)
  moreover have "existsSync dir_files fs (listing_of app_paths ''r'' ''app'')" unfolding n by (rule fs)
  ultimately have r: "contents dir_files fs (listing_of app_paths ''r'' ''app'') = Some [1]
    \<and> (\<forall>key \<in> set (split_lines ''/images''). key \<noteq> [] \<longrightarrow>
          app_read (resource_name app_paths ''app'' @ key) \<noteq> None
          \<and> contents dir_files fs (path_join app_paths ''r'' (resource_name app_paths ''app'' @ key)) = app_read (resource_name app_paths ''app'' @ key))"
    using extract_listing_last [where to_text = "\<lambda>_. ''/images''", OF dir_files_laws _ _ _ _ x] by blast
  then have "contents dir_files fs ''r/app.assets'' = Some [1]" "contents dir_files fs ''r/app/images'' = Some [7, 8]"
    unfolding n by (simp_all add: split_lines_def app_read_def app_paths_def)
  moreover have "\<not> is_directory dir_files no_files ''r/app''" by (simp add: dir_files_def no_files_def)
  ultimately show ?thesis using x fs(2) by blast
qed

end
