(* ===== verification/Bundle_Start.thy ===== *)
theory Bundle_Start
  imports Bundle_Extract
begin

text \<open>
  How the script of a worklet is found (\<open>start\<close> of \<open>src/worklet.js\<close>): a relative name is looked up
  among the application's resources, which are extracted first, any other is a path or a URL. URLs,
  the protocol that files are read with and the loader are packages that are not under \<open>src/\<close>;
  the result is what \<open>Module.loadSync\<close> is called with.
\<close>

section \<open>The code\<close>

text \<open>\<open>None\<close>: no URL, and for \<open>read_sync\<close> that it throws.\<close>

record ('u, 's) modules =
  is_absolute :: "string \<Rightarrow> bool"
  url_parse :: "string \<Rightarrow> 'u option"
  path_to_url :: "string \<Rightarrow> 'u"
  drive_letter :: "string \<Rightarrow> bool"
  read_sync :: "'u \<Rightarrow> 's \<Rightarrow> byte list option"

definition isRelative :: "('u, 's) modules \<Rightarrow> string \<Rightarrow> bool" where
  "isRelative M filename \<longleftrightarrow> \<not> is_absolute M filename \<and> url_parse M filename = None"

definition toURL :: "('u, 's) modules \<Rightarrow> string \<Rightarrow> 'u" where
  "toURL M p =
     (if drive_letter M p then path_to_url M p
      else case url_parse M p of Some u \<Rightarrow> u | None \<Rightarrow> path_to_url M p)"

text \<open>Whether every key of the listing is in the application: it throws at the first that is not.\<close>

definition extract_throws :: "'s file_system \<Rightarrow> paths \<Rightarrow> (byte list \<Rightarrow> string) \<Rightarrow> (string \<Rightarrow> byte list option) \<Rightarrow> string \<Rightarrow> string
    \<Rightarrow> 's \<Rightarrow> bool" where
  "extract_throws F P to_text readResource resources filename fs =
     (let name = resource_name P filename
      in if existsSync F fs (listing_of P resources filename) then False
         else case readResource (name @ ''.assets'') of
           None \<Rightarrow> False
         | Some keys \<Rightarrow> \<not> snd (listed_writes (path_join P resources) readResource name (split_lines (to_text keys))))"

definition bundle_extract :: "'s file_system \<Rightarrow> paths \<Rightarrow> (byte list \<Rightarrow> string) \<Rightarrow> (nat \<Rightarrow> string) \<Rightarrow> string \<Rightarrow> string
    \<Rightarrow> (string \<Rightarrow> byte list option) \<Rightarrow> 's \<Rightarrow> bool \<times> 's" where
  "bundle_extract F P to_text random resources filename readResource fs =
     or_throw (write_all F P random (extract_writes F P to_text readResource resources filename fs) fs)
       (\<lambda>fs'. (\<not> extract_throws F P to_text readResource resources filename fs, fs'))"

text \<open>What is loaded, \<open>None\<close> if it throws.\<close>

definition start_load :: "('u, 's) modules \<Rightarrow> string \<Rightarrow> byte list option \<Rightarrow> 's \<Rightarrow> ('u \<times> byte list) option \<times> 's" where
  "start_load M filename source fs =
     (let url = toURL M filename
      in (map_option (Pair url) (case source of None \<Rightarrow> read_sync M url fs | Some s \<Rightarrow> Some s), fs))"

definition bundle_start :: "'s file_system \<Rightarrow> paths \<Rightarrow> ('u, 's) modules \<Rightarrow> (byte list \<Rightarrow> string) \<Rightarrow> (nat \<Rightarrow> string)
    \<Rightarrow> string \<Rightarrow> byte list option \<Rightarrow> string option \<Rightarrow> (string \<Rightarrow> byte list option) option
    \<Rightarrow> 's \<Rightarrow> ('u \<times> byte list) option \<times> 's" where
  "bundle_start F P M to_text random filename source resources readResource fs =
     (case resources of
        Some R \<Rightarrow>
          if isRelative M filename
          then case readResource of
              Some rr \<Rightarrow>
                (let (ok, fs) = bundle_extract F P to_text random R filename rr fs
                 in if ok
                    then start_load M (path_join P R filename) (if source = None then rr filename else source) fs
                    else (None, fs))
            | None \<Rightarrow> start_load M (path_join P R filename) source fs
          else start_load M filename source fs
      | None \<Rightarrow> start_load M filename source fs)"

section \<open>What an extraction leaves\<close>

text \<open>The listing is the application's, and all it lists is there.\<close>

definition in_place :: "'s file_system \<Rightarrow> paths \<Rightarrow> (byte list \<Rightarrow> string) \<Rightarrow> (string \<Rightarrow> byte list option) \<Rightarrow> string \<Rightarrow> string
    \<Rightarrow> byte list \<Rightarrow> 's \<Rightarrow> bool" where
  "in_place F P to_text rr resources filename keys fs \<longleftrightarrow>
     contents F fs (listing_of P resources filename) = Some keys
     \<and> (\<forall>key \<in> set (split_lines (to_text keys)). key \<noteq> [] \<longrightarrow>
          rr (resource_name P filename @ key) \<noteq> None
          \<and> contents F fs (path_join P resources (resource_name P filename @ key)) = rr (resource_name P filename @ key))"

lemma write_contents:
  assumes laws: "file_system_laws F P D" and st: "bundle_write F P r target data fs = (True, fs')"
    and D: "target \<in> D" "tmp_of target r \<in> D" and tmp: "tmp_of target r \<noteq> target" and p: "p \<in> D"
  shows "contents F fs' p = (if p = target then Some data else if p = tmp_of target r then None else contents F fs p)"
proof -
  let ?tmp = "tmp_of target r"
  define fs1 where "fs1 = snd (mkdirSync F (dirname P target) fs)"
  define fs2 where "fs2 = snd (writeFileSync F ?tmp data fs1)"
  have r: "fst (writeFileSync F ?tmp data fs1)" "renameSync F ?tmp target fs2 = (True, fs')"
    using st by (auto simp: bundle_write_def or_throw_def Let_def fs1_def fs2_def split: if_splits)
  note law = file_systemD [OF laws]
  have c2: "contents F fs2 ?tmp = Some data" unfolding fs2_def by (rule law(5) [OF D(2) r(1)])
  have "contents F fs2 p = contents F fs p" if "p \<noteq> ?tmp"
    unfolding fs2_def using law(4) [OF D(2) p that] law(2) [OF p] by (simp add: fs1_def)
  moreover have "contents F fs' p = ((contents F fs2)(?tmp := None, target := Some data)) p"
    using law(7) [OF D(2,1) tmp _ p, of fs2] c2 r(2) by simp
  ultimately show ?thesis by auto
qed

lemma write_all_contents:
  assumes "file_system_laws F P D" and "write_all F P random ws fs = (True, fs')" and "distinct (map fst ws)"
    and "\<And>t n. t \<in> fst ` set ws \<Longrightarrow> tmp_of t (random n) \<in> D \<and> tmp_of t (random n) \<notin> T" and "fst ` set ws \<subseteq> T" and "T \<subseteq> D"
  shows "(\<forall>(t, d) \<in> set ws. contents F fs' t = Some d) \<and> (\<forall>p \<in> T. p \<notin> fst ` set ws \<longrightarrow> contents F fs' p = contents F fs p)"
  using assms(2-5)
proof (induction ws arbitrary: fs)
  case (Cons w ws)
  obtain t d where w: "w = (t, d)" by (cases w)
  let ?r = "random (length ws)"
  obtain fs1 where s: "bundle_write F P ?r t d fs = (True, fs1)" "write_all F P random ws fs1 = (True, fs')"
    using Cons.prems(1) unfolding w
    by (cases "bundle_write F P ?r t d fs") (auto simp: or_throw_def split: if_splits)
  have tmp: "tmp_of t ?r \<in> D" "tmp_of t ?r \<notin> T" "t \<in> T" using Cons.prems(3,4) w by auto
  then have "tmp_of t ?r \<noteq> t" "t \<in> D" using assms(6) by auto
  then have c: "contents F fs1 p = (if p = t then Some d else if p = tmp_of t ?r then None else contents F fs p)" if "p \<in> T" for p
    using write_contents [OF assms(1) s(1) _ tmp(1)] assms(6) that by blast
  have ih: "(\<forall>(t, d) \<in> set ws. contents F fs' t = Some d) \<and> (\<forall>p \<in> T. p \<notin> fst ` set ws \<longrightarrow> contents F fs' p = contents F fs1 p)"
    using Cons.prems(2-4) w by (intro Cons.IH [OF s(2)]) auto
  have "t \<notin> fst ` set ws" using Cons.prems(2) w by simp
  then have "contents F fs' t = Some d" using ih tmp(3) c by simp
  moreover have "contents F fs' p = contents F fs p" if "p \<in> T" "p \<noteq> t" "p \<notin> fst ` set ws" for p
  proof -
    have "p \<noteq> tmp_of t ?r" using that(1) tmp(2) by auto
    then show ?thesis using c [of p] ih that by simp
  qed
  ultimately show ?case using ih w by auto
qed simp

lemma extract_in_place:
  assumes laws: "file_system_laws F P (names_of random (extract_targets P to_text rr resources filename keys))"
    and keys: "rr (resource_name P filename @ ''.assets'') = Some keys"
    and apart: "names_apart random (extract_targets P to_text rr resources filename keys)"
    and before: "existsSync F fs (listing_of P resources filename) \<Longrightarrow> in_place F P to_text rr resources filename keys fs"
    and st: "bundle_extract F P to_text (random i) resources filename rr fs = (True, fs')"
  shows "in_place F P to_text rr resources filename keys fs'"
proof (cases "existsSync F fs (listing_of P resources filename)")
  case True
  then have "fs' = fs" using st by (simp add: bundle_extract_def extract_writes_def or_throw_def extract_throws_def Let_def)
  then show ?thesis using before True by simp
next
  case False
  let ?l = "listing_of P resources filename" and ?n = "resource_name P filename"
  obtain ws complete where lw: "listed_writes (path_join P resources) rr ?n (split_lines (to_text keys)) = (ws, complete)"
    by (cases "listed_writes (path_join P resources) rr ?n (split_lines (to_text keys))")
  let ?T = "?l # map fst ws" and ?ws = "ws @ [(?l, keys)]"
  have targets: "extract_targets P to_text rr resources filename keys = ?T"
    by (simp add: extract_targets_def lw)
  note na = apart [unfolded targets, unfolded names_apart_def]
  have complete: "complete" and all: "write_all F P (random i) ?ws fs = (True, fs')"
    using st False keys lw
    by (auto simp: bundle_extract_def extract_writes_def extract_throws_def or_throw_def Let_def prod_eq_iff split: if_splits)
  have d: "distinct (map fst ?ws)" using na by auto
  have tmp: "tmp_of t (random i n) \<in> names_of random ?T \<and> tmp_of t (random i n) \<notin> set ?T" if "t \<in> fst ` set ?ws" for t n
  proof -
    have "t \<in> set ?T" using that by auto
    then show ?thesis using na in_names_of(2) by blast
  qed
  have T: "fst ` set ?ws \<subseteq> set ?T" "set ?T \<subseteq> names_of random ?T" by (auto simp: names_of_def)
  have "\<forall>(t, d) \<in> set ?ws. contents F fs' t = Some d"
    by (rule conjunct1 [OF write_all_contents [OF laws [unfolded targets] all d tmp T]])
  then have w: "contents F fs' t = Some d" if "(t, d) \<in> set ws \<or> (t, d) = (?l, keys)" for t d using that by auto
  have "rr (?n @ key) \<noteq> None \<and> contents F fs' (path_join P resources (?n @ key)) = rr (?n @ key)"
    if "key \<in> set (split_lines (to_text keys))" "key \<noteq> []" for key
    using listed_all [of "path_join P resources" rr ?n "split_lines (to_text keys)" ws key] lw complete that w by fastforce
  then show ?thesis using w by (simp add: in_place_def)
qed

section \<open>The property\<close>

text \<open>
  C18: A script that is started from the resources finds them. When \<open>start\<close> comes to load a relative
  name, with an application that has a listing, the listing is in place with all that it lists,
  extracted now or by a worklet before (\<open>extract_listing_last\<close>); the module is the one of that name
  in the directory of the resources; and its source is the one that was given, else the
  application's, else what is read from that file.
\<close>

theorem start_finds_resources:
  assumes "file_system_laws F P (names_of random (extract_targets P to_text rr R filename keys))"
    and "isRelative M filename" and "rr (resource_name P filename @ ''.assets'') = Some keys"
    and "names_apart random (extract_targets P to_text rr R filename keys)"
    and "existsSync F fs (listing_of P R filename) \<longrightarrow> in_place F P to_text rr R filename keys fs"
    and "bundle_start F P M to_text (random i) filename source (Some R) (Some rr) fs = (Some (url, code), fs')"
  shows "in_place F P to_text rr R filename keys fs' \<and> url = toURL M (path_join P R filename)
    \<and> (case (source, rr filename) of
         (Some s, _) \<Rightarrow> code = s
       | (None, Some s) \<Rightarrow> code = s
       | (None, None) \<Rightarrow> read_sync M url fs' = Some code)"
proof -
  obtain ok fs1 where e: "bundle_extract F P to_text (random i) R filename rr fs = (ok, fs1)"
    by (cases "bundle_extract F P to_text (random i) R filename rr fs")
  then have ok: "ok" and l: "start_load M (path_join P R filename) (if source = None then rr filename else source) fs1
      = (Some (url, code), fs')"
    using assms(2,6) by (auto simp: bundle_start_def split: if_splits)
  have "fs' = fs1" using l by (simp add: start_load_def Let_def)
  moreover have "in_place F P to_text rr R filename keys fs1"
    by (rule extract_in_place [OF assms(1,3,4)]) (use assms(5) in blast, use e ok in simp)
  ultimately have "in_place F P to_text rr R filename keys fs'" by simp
  then show ?thesis
    using l by (auto simp: start_load_def Let_def split: option.splits)
qed

text \<open>
  Any other script is loaded without touching a file: an absolute path or a URL, or a worklet
  without resources, with the source that was given or else what is read there.
\<close>

lemma start_elsewhere:
  assumes "resources = None \<or> \<not> isRelative M filename"
  shows "bundle_start F P M to_text random filename source resources readResource fs
    = (map_option (Pair (toURL M filename))
        (case source of None \<Rightarrow> read_sync M (toURL M filename) fs | Some s \<Rightarrow> Some s), fs)"
  using assms by (auto simp: bundle_start_def start_load_def Let_def split: option.split)

definition app_modules :: "(string, (string \<rightharpoonup> byte list) \<times> string set) modules" where
  "app_modules = \<lparr>is_absolute = (\<lambda>p. take 1 p = ''/''), url_parse = (\<lambda>_. None), path_to_url = (@) ''file:'',
     drive_letter = (\<lambda>_. False), read_sync = (\<lambda>u s. fst s (drop 5 u))\<rparr>"

theorem start_finds_resources_witness:
  "\<exists>fs'. bundle_start dir_files app_paths app_modules (\<lambda>_. ''/images'') (app_random 0) ''app'' (Some [9]) (Some ''r'') (Some app_read) no_files
      = (Some (''file:r/app'', [9]), fs')
    \<and> in_place dir_files app_paths (\<lambda>_. ''/images'') app_read ''r'' ''app'' [1] fs'"
proof -
  note n = app_extract(1,2)
  have k: "app_read (resource_name app_paths ''app'' @ ''.assets'') = Some [1]" by (simp add: n app_read_def)
  have a: "names_apart app_random (extract_targets app_paths (\<lambda>_. ''/images'') app_read ''r'' ''app'' [1])"
    unfolding app_extract(4) by (rule app_names)
  have rel: "isRelative app_modules ''app''" by (simp add: isRelative_def app_modules_def)
  let ?x = "bundle_extract dir_files app_paths (\<lambda>_. ''/images'') (app_random 0) ''r'' ''app'' app_read no_files"
  have no: "\<not> existsSync dir_files no_files (listing_of app_paths ''r'' ''app'')" by (simp add: dir_files_def no_files_def)
  have t: "\<not> extract_throws dir_files app_paths (\<lambda>_. ''/images'') app_read ''r'' ''app'' no_files"
    using no k by (simp add: extract_throws_def Let_def n(1) app_extract(3))
  have "fst (write_all dir_files app_paths (app_random 0) [(''r/app/images'', [7, 8]), (''r/app.assets'', [1])] no_files)"
    by (simp add: bundle_write_def or_throw_def dir_files_def app_paths_def tmp_of_def no_files_def
        slash_dirname_def slash_above_def app_random_def Let_def)
  then have x: "fst ?x" unfolding bundle_extract_def app_extract(5) using t by (simp add: or_throw_def)
  have u: "toURL app_modules (path_join app_paths ''r'' ''app'') = ''file:r/app''"
    by (simp add: toURL_def app_modules_def app_paths_def)
  obtain fs' where s: "bundle_start dir_files app_paths app_modules (\<lambda>_. ''/images'') (app_random 0) ''app'' (Some [9]) (Some ''r'') (Some app_read) no_files
      = (Some (''file:r/app'', [9]), fs')"
    using x rel u by (cases ?x) (simp add: bundle_start_def start_load_def Let_def)
  have e: "existsSync dir_files no_files (listing_of app_paths ''r'' ''app'')
      \<longrightarrow> in_place dir_files app_paths (\<lambda>_. ''/images'') app_read ''r'' ''app'' [1] no_files"
    using no by blast
  show ?thesis
    using start_finds_resources [where to_text = "\<lambda>_. ''/images''", OF dir_files_laws rel k a e s] s by blast
qed

end
