(* ===== verification/Ipc_Polling.thy ===== *)
theory Ipc_Polling
  imports Ipc_Frame Ipc_Wakes
begin

text \<open>
  A poll over everything below it: the queue signals the host end, which sends to the platform's
  wakes (\<open>Ipc_Wakes\<close>), which call \<open>bare_ipc__dispatch\<close>, which calls the poll back with what is
  ready. Host, worklet and wakes take turns in any order, and the callback's own operations are
  the host's that come until it returns.
\<close>

section \<open>The parts together\<close>

text \<open>
  \<open>heard\<close> is what the host was last called back with and has not used up: a read that finds
  nothing more uses up readable, and so does one that returns bytes, as a poll may read once per
  wake; a write uses up writable only when it would block. The end of the stream, once read, is
  known.
\<close>

record polling = ipc_world +
  wake_state :: wakes
  heard :: int32

fun heard_after :: "ipc_op \<Rightarrow> ipc_obs \<Rightarrow> int32 \<Rightarrow> int32" where
  "heard_after (Ipc_read ipc n) (Received r bs) h =
     (if r = 0 then h OR bare_ipc_readable else h AND NOT bare_ipc_readable)"
| "heard_after (Ipc_write ipc data) (Status r) h =
     (if r = bare_ipc_would_block then h AND NOT bare_ipc_writable else h)"
| "heard_after (Poll_start poll evs cb) ob h = 0"
| "heard_after op ob h = h"

definition newly_called :: "call \<Rightarrow> 'z machine_scheme \<Rightarrow> 'y machine_scheme \<Rightarrow> bool" where
  "newly_called c w w' \<longleftrightarrow> c \<in> set (drop (length (calls w)) (calls w'))"

text \<open>What was sent to the wakes between the two, which coalesce it.\<close>

definition send_wakes :: "polling \<Rightarrow> polling \<Rightarrow> polling option" where
  "send_wakes w w' =
     (if newly_called (Async_send Wake_async) w w'
      then do { s \<leftarrow> wake_do Signal (wake_state w'); Some (w'\<lparr>wake_state := s\<rparr>) }
      else Some w')"

text \<open>The queue calls the callback of the host's end, \<open>bare_ipc__on_signal\<close>.\<close>

definition signalled_after :: "'z ipc_world_scheme \<Rightarrow> 'z ipc_world_scheme \<Rightarrow> 'z ipc_world_scheme option" where
  "signalled_after w w' = do {
     q \<leftarrow> queue w;
     if newly_called (wake_call q Thread_port) w w' \<and> allowed w' Signalled then bare_ipc__on_signal Thread_port w' else Some w'
   }"

datatype polling_event =
    Host_does ipc_op
  | Worklet_does queue_op
  | Wake_comes
  | Callback_returns

primrec polling_step :: "ptr \<Rightarrow> polling_event \<Rightarrow> polling \<Rightarrow> polling option" where
  "polling_step ipc (Host_does op) w = do {
     (ob, w') \<leftarrow> ipc_step op w;
     send_wakes w (w'\<lparr>heard := heard_after op ob (heard w)\<rparr>)
   }"
| "polling_step ipc (Worklet_does qop) w = do {
     (_, w') \<leftarrow> ipc_step (Worklet qop) w;
     w' \<leftarrow> signalled_after w w';
     send_wakes w w'
   }"
| "polling_step ipc Wake_comes w = do {
     s \<leftarrow> wake_do Call (wake_state w);
     bare_ipc__dispatch (\<lambda>cb poll ready w. Some (w\<lparr>heard := ready\<rparr>)) ipc (w\<lparr>wake_state := s\<rparr>)
   }"
| "polling_step ipc Callback_returns w = do {
     s \<leftarrow> wake_do Return (wake_state w);
     Some (w\<lparr>wake_state := s\<rparr>)
   }"

text \<open>
  A host with one ipc, which is not destroyed, and one poll, which stays attached. The worklet's loop
  calling back is no event: what the script does then is.
\<close>

definition polling_op :: "ptr \<Rightarrow> ptr \<Rightarrow> ipc_op \<Rightarrow> bool" where
  "polling_op ipc poll op = (case op of
     Ipc_read p n \<Rightarrow> p = ipc
   | Ipc_write p data \<Rightarrow> p = ipc
   | Ipc_end p \<Rightarrow> p = ipc
   | Ipc_close p \<Rightarrow> p = ipc
   | Poll_start p evs cb \<Rightarrow> p = poll
   | Poll_stop p \<Rightarrow> p = poll
   | Poll_set_data p data \<Rightarrow> p = poll
   | _ \<Rightarrow> False)"

definition polling_may :: "ptr \<Rightarrow> ptr \<Rightarrow> polling_event \<Rightarrow> polling \<Rightarrow> bool" where
  "polling_may ipc poll e w = (case e of
     Host_does op \<Rightarrow> polling_op ipc poll op \<and> allowed w op
   | Worklet_does qop \<Rightarrow> allowed w (Worklet qop) \<and> qop \<noteq> Wakeup
   | Wake_comes \<Rightarrow> wake_do Call (wake_state w) \<noteq> None
   | Callback_returns \<Rightarrow> wake_do Return (wake_state w) \<noteq> None)"

inductive polled :: "ptr \<Rightarrow> ptr \<Rightarrow> polling \<Rightarrow> polling \<Rightarrow> bool" for ipc :: ptr and poll :: ptr and w :: polling where
  polled_first: "polled ipc poll w w"
| polled_next: "polled ipc poll w v \<Longrightarrow> polling_may ipc poll e v \<Longrightarrow> polling_step ipc e v = Some v' \<Longrightarrow> polled ipc poll w v'"

text \<open>What the poll waits for, and whether it is so at this moment.\<close>

definition waits_for :: "'z ipc_world_scheme \<Rightarrow> ptr \<Rightarrow> int32 \<Rightarrow> bool" where
  "waits_for w poll e = (case polls w poll of
     None \<Rightarrow> False
   | Some p \<Rightarrow> poll_cb p \<noteq> NULL \<and> events p AND e \<noteq> 0)"

definition is_ready :: "'z ipc_world_scheme \<Rightarrow> ptr \<Rightarrow> int32 \<Rightarrow> bool" where
  "is_ready w ipc e = (if e = bare_ipc_readable then ready_to_read w ipc else ready_to_write w ipc)"

section \<open>Readiness, by the abstract channel\<close>

lemma poll_events: "bare_ipc_readable \<noteq> bare_ipc_writable" "bare_ipc_readable \<noteq> 0" "bare_ipc_writable \<noteq> 0"
  "(h AND NOT bare_ipc_readable) AND bare_ipc_readable = 0" "(h AND NOT bare_ipc_writable) AND bare_ipc_writable = 0"
  "(h OR bare_ipc_readable) AND bare_ipc_readable \<noteq> 0"
  "(h AND NOT bare_ipc_readable) AND bare_ipc_writable = h AND bare_ipc_writable"
  "(h AND NOT bare_ipc_writable) AND bare_ipc_readable = h AND bare_ipc_readable"
  "(h OR bare_ipc_readable) AND bare_ipc_writable = h AND bare_ipc_writable"
proof -
  show "bare_ipc_readable \<noteq> bare_ipc_writable" "bare_ipc_readable \<noteq> 0" "bare_ipc_writable \<noteq> 0"
    by (simp_all add: bare_ipc_readable_def bare_ipc_writable_def)
  show "(h OR bare_ipc_readable) AND bare_ipc_readable \<noteq> 0"
    by (simp add: bare_ipc_readable_def bit.conj_disj_distrib2)
qed (auto simp: bare_ipc_readable_def bare_ipc_writable_def bit_eq_iff bit_simps)

lemma ready_open:
  assumes ok: "ipc_ok w" and i: "ipcs w ipc = Some i" "ipc_port i = Some port" and q: "queue w = Some q"
  shows "ready_to_read w ipc \<longleftrightarrow> pending_bytes w i \<noteq> [] \<or> can_read (abs_queue w q) Thread_port"
    and "ready_to_write w ipc \<longleftrightarrow> can_write (abs_queue w q) Thread_port"
proof -
  have p: "port = Thread_port" "queue_ok w q" using open_ipc [OF ok i] q by (metis option.inject)+
  show "ready_to_read w ipc \<longleftrightarrow> pending_bytes w i \<noteq> [] \<or> can_read (abs_queue w q) Thread_port"
    using inbound_open [OF i q] waiting_nonempty [OF p(2), of Thread_port] p(1)
    by (auto simp: ready_to_read_def can_read_def peer_ended_def simp del: abs_waiting)
  show "ready_to_write w ipc \<longleftrightarrow> can_write (abs_queue w q) Thread_port"
    using i q p(1) by (simp add: ready_to_write_def)
qed

lemma ready_closed: "ipcs w ipc = Some i \<Longrightarrow> ipc_port i = None \<Longrightarrow> is_ready w ipc e"
  using inbound_closed [of w ipc i] by (simp add: is_ready_def ready_to_read_def ready_to_write_def)

lemma can_write_outward:
  assumes "queue_ok w q"
  shows "can_write (abs_queue w q) Thread_port \<longleftrightarrow>
    length (ring_messages (to_uv q)) \<noteq> depth \<or> bare_queue_state_ended \<le> thread_state q \<or> uv_state q = bare_queue_state_closed"
proof -
  have "ports_ok q" by (rule queue_ok_ports [OF assms])
  then show ?thesis
    by (auto simp: can_write_def shut_def bare_queue__inbox_def bare_queue__state_def is_uv_port_at)
qed

section \<open>What each operation of the host does to it\<close>

text \<open>
  After the operation, with \<open>h\<close> heard before it: what is ready was sent to the wakes, or has been
  heard, or was ready and unheard before.
\<close>

definition tells :: "ptr \<Rightarrow> ptr \<Rightarrow> ipc_op \<Rightarrow> ipc_obs \<Rightarrow> 'z ipc_world_scheme \<Rightarrow> 'z ipc_world_scheme \<Rightarrow> bool" where
  "tells ipc poll op ob w w' \<longleftrightarrow> (\<exists>j. ipcs w' ipc = Some j \<and> ipc_poll j = poll)
     \<and> (newly_called (Async_send Wake_async) w w'
       \<or> (\<forall>e h. e = bare_ipc_readable \<or> e = bare_ipc_writable \<longrightarrow> waits_for w' poll e \<longrightarrow> is_ready w' ipc e \<longrightarrow>
           heard_after op ob h AND e \<noteq> 0 \<or> waits_for w poll e \<and> is_ready w ipc e \<and> h AND e = 0))"

lemma tells_sent:
  assumes "ipcs w' ipc = Some j" and "ipc_poll j = poll" and "calls w' = calls w @ cs" and "Async_send Wake_async \<in> set cs"
  shows "tells ipc poll op ob w w'"
  using assms by (simp add: tells_def newly_called_def)

lemma tells_same:
  assumes "ipcs w' ipc = Some j" and "ipc_poll j = poll" and "polls w' = polls w"
    and "\<And>e. e = bare_ipc_readable \<or> e = bare_ipc_writable \<Longrightarrow> is_ready w' ipc e \<Longrightarrow> is_ready w ipc e"
    and "\<And>h. heard_after op ob h = h"
  shows "tells ipc poll op ob w w'"
  using assms by (simp add: tells_def waits_for_def)

lemma tells_each:
  assumes "ipcs w' ipc = Some j" and "ipc_poll j = poll" and pk: "polls w' = polls w"
    and r: "\<And>h. ready_to_read w' ipc \<Longrightarrow> heard_after op ob h AND bare_ipc_readable \<noteq> 0
      \<or> ready_to_read w ipc \<and> heard_after op ob h AND bare_ipc_readable = h AND bare_ipc_readable"
    and wr: "\<And>h. ready_to_write w' ipc \<Longrightarrow> heard_after op ob h AND bare_ipc_writable \<noteq> 0
      \<or> ready_to_write w ipc \<and> heard_after op ob h AND bare_ipc_writable = h AND bare_ipc_writable"
  shows "tells ipc poll op ob w w'"
proof -
  have "heard_after op ob h AND e \<noteq> 0 \<or> waits_for w poll e \<and> is_ready w ipc e \<and> h AND e = 0"
    if e: "e = bare_ipc_readable \<or> e = bare_ipc_writable" "waits_for w' poll e" "is_ready w' ipc e" for e h
  proof -
    have wf: "waits_for w poll e" using e(2) pk by (simp add: waits_for_def)
    from e(1) show ?thesis
    proof
      assume re: "e = bare_ipc_readable"
      then have "ready_to_read w' ipc" using e(3) by (simp add: is_ready_def)
      from r [OF this, of h] show ?thesis using wf unfolding re is_ready_def by (elim disjE conjE) simp_all
    next
      assume we: "e = bare_ipc_writable"
      then have "ready_to_write w' ipc" using e(3) poll_events(1) by (simp add: is_ready_def)
      from wr [OF this, of h] show ?thesis
        using wf poll_events(1) unfolding we is_ready_def by (elim disjE conjE) simp_all
    qed
  qed
  then show ?thesis using assms(1,2) unfolding tells_def by blast
qed

lemma tells_idle:
  assumes "ipcs w' ipc = Some j" and "ipc_poll j = poll" and "polls w' poll = Some p" and "poll_cb p = NULL"
  shows "tells ipc poll op ob w w'"
  using assms by (simp add: tells_def waits_for_def)

subsection \<open>Reading\<close>

definition outward :: "'z qworld_scheme \<Rightarrow> (bare_queue_ring_t \<times> bare_queue_state_t \<times> bare_queue_state_t) option" where
  "outward w = map_option (\<lambda>q. (to_uv q, thread_state q, uv_state q)) (queue w)"

lemma outward_fields [simp]: "outward (emit c w) = outward w" "outward (w\<lparr>ipcs := x\<rparr>) = outward w"
  by (simp_all add: outward_def)

lemma next_outward:
  assumes w: "world_ok w" and st: "next_pending i w = Some (r, j, v)" and port: "ipc_port i = None \<or> ipc_port i = Some Thread_port"
  shows "outward v = outward w \<and> ipc_poll j = ipc_poll i"
proof (cases "ipc_port i = None \<or> base (pending i) \<noteq> NULL")
  case True
  then show ?thesis using st by (auto simp: next_pending_def split: option.splits)
next
  case False
  then have p: "ipc_port i = Some Thread_port" using port by auto
  obtain m where m: "bare_queue_read Thread_port w = Some (m, v)" "ipc_poll j = ipc_poll i"
    using st p False by (auto simp: next_pending_def bind_eq_Some_conv Let_def split: option.splits)
  obtain q where q: "queue w = Some q" using m(1) by (cases "queue w") (auto simp: bare_queue_read_def)
  have "\<not> is_uv (port_at q Thread_port)" using w q queue_ok_ports [of w q] by (auto simp: world_ok_def is_uv_port_at)
  then show ?thesis
    using m q by (auto simp: read_eq [OF w q] outward_def taken_def locked_only_def store_inbox_def Let_def
        split: list.splits if_splits)
qed

lemma copy_outward:
  assumes "copy_pending ipc n i w = Some (r, v)"
  shows "outward v = outward w \<and> (\<exists>j. ipcs v ipc = Some j \<and> ipc_poll j = ipc_poll i)"
  using assms
  by (auto simp: copy_pending_def bind_eq_Some_conv Let_def outward_def bare_queue_readable_def bare_ipc__signal_def
      emit_ok_def free_block_def emit_def split: if_splits)

lemma read_outward:
  assumes ok: "ipc_ok w" and i: "ipcs w ipc = Some i" and st: "bare_ipc_read ipc n w = Some (r, v)"
  shows "outward v = outward w \<and> (\<exists>j. ipcs v ipc = Some j \<and> ipc_poll j = ipc_poll i)"
proof -
  let ?w = "emit (Mutex_lock Ipc_lock) w"
  obtain result j w1 w2 where s: "next_pending i ?w = Some (result, j, w1)"
      "(if base (pending j) \<noteq> NULL then copy_pending ipc (min n INT_MAX) j w1
        else Some ((result, []), w1\<lparr>ipcs := (ipcs w1)(ipc \<mapsto> j)\<rparr>)) = Some (r, w2)"
      "v = emit (Mutex_unlock Ipc_lock) w2"
    using st i by (auto simp: bare_ipc_read_def bind_eq_Some_conv Let_def)
  have "ipc_port i = None \<or> ipc_port i = Some Thread_port"
    using ipc_okD(4) [OF ok i] by (auto simp: ipc_good_def port_ok_def split: option.splits)
  then have "outward w1 = outward w \<and> ipc_poll j = ipc_poll i"
    using next_outward [OF _ s(1)] ipc_okD(1) [OF ok] by simp
  then show ?thesis
    using s(2,3) copy_outward [of ipc "min n INT_MAX" j w1 r w2] by (auto split: if_splits)
qed

lemma read_tells:
  assumes ok: "ipc_ok w" and env: "env_ok w" and i: "ipcs w ipc = Some i" and n: "0 < n"
    and st: "ipc_step (Ipc_read ipc n) w = Some (ob, w')"
  shows "tells ipc (ipc_poll i) (Ipc_read ipc n) ob w w'"
proof -
  obtain r bs where rd: "bare_ipc_read ipc n w = Some ((r, bs), w')" "ob = Received r bs" using st by auto
  obtain r0 b0 w0 j cs where s0: "bare_ipc_read ipc n w = Some ((r0, b0), w0)"
      "ipc_ok w0" "ipcs w0 ipc = Some j" "ipc_port j = ipc_port i"
      "inbound w ipc = b0 @ inbound w0 ipc" "inbound_over w0 ipc = inbound_over w ipc"
      "if inbound w ipc = [] then b0 = [] \<and> r0 = (if inbound_over w ipc then 0 else bare_ipc_would_block)
       else b0 \<noteq> [] \<and> r0 = int (length b0)"
      "calls w0 = calls w @ cs" "b0 \<noteq> [] \<and> (inbound w0 ipc \<noteq> [] \<or> inbound_over w0 ipc) \<longrightarrow> Async_send Wake_async \<in> set cs"
      "polls_kept w w0"
    using ipc_read_spec [OF ok env i n] by blast
  have e: "r0 = r" "b0 = bs" "w0 = w'" using s0(1) rd(1) by auto
  note s = s0(2-9) [unfolded e]
  have pk: "polls w' = polls w" using s0(10) e(3) by (simp add: polls_kept_def)
  have out: "outward w' = outward w" "ipc_poll j = ipc_poll i" using read_outward [OF ok i rd(1)] s(2) by auto
  have wr: "ready_to_write w' ipc = ready_to_write w ipc"
  proof (cases "ipc_port i")
    case None
    then show ?thesis using i s(2,3) by (simp add: ready_to_write_def)
  next
    case (Some port)
    then have p: "ipc_port j = Some port" using s(3) by simp
    obtain q where q: "queue w = Some q" "queue_ok w q" using open_ipc [OF ok i Some] by metis
    obtain q' where q': "queue w' = Some q'" "queue_ok w' q'" using open_ipc [OF s(1,2) p] by metis
    show ?thesis
      using out(1) q q' unfolding ready_open(2) [OF ok i Some q(1)] ready_open(2) [OF s(1,2) p q'(1)]
        can_write_outward [OF q(2)] can_write_outward [OF q'(2)]
      by (simp add: outward_def)
  qed
  show ?thesis
  proof (cases "Async_send Wake_async \<in> set cs")
    case True
    then show ?thesis using tells_sent s(2,7) out(2) by metis
  next
    case False
    then have rdy: "r = 0" if "ready_to_read w' ipc"
    proof (cases "bs = []")
      case True
      have none: "inbound w ipc = []"
      proof (rule ccontr)
        assume "inbound w ipc \<noteq> []"
        then show False using s(6) True by simp
      qed
      then have "inbound w' ipc = []" using s(4) by simp
      then have "inbound_over w ipc" using that s(5) by (simp add: ready_to_read_def)
      then show ?thesis using s(6) none by simp
    next
      case bs: False
      then show ?thesis using that s(8) False by (simp add: ready_to_read_def)
    qed
    show ?thesis
      by (rule tells_each [OF s(2) out(2) pk]) (use rdy wr rd(2) in \<open>simp_all add: poll_events\<close>)
  qed
qed

subsection \<open>Writing\<close>

lemma spec_write_ready:
  assumes "spec_step (Write Thread_port data) c = (Sent n, Some c')"
  shows "can_read c' Thread_port = can_read c Thread_port
    \<and> (can_write c' Thread_port \<longrightarrow> can_write c Thread_port \<and> n \<noteq> bare_queue_would_block)"
  using assms by (auto simp: can_read_def can_write_def queue_codes split: if_splits)

lemma write_tells:
  assumes ok: "ipc_ok w" and env: "env_ok w" and i: "ipcs w ipc = Some i"
    and st: "ipc_step (Ipc_write ipc data) w = Some (ob, w')"
  shows "tells ipc (ipc_poll i) (Ipc_write ipc data) ob w w'"
proof -
  obtain n where n: "bare_ipc_write ipc data w = Some (ipc_status n, w')" "ob = Status (ipc_status n)" "ipc_ok w'"
      "ipcs w' = ipcs w" "pending_bytes w' i = pending_bytes w i" "polls w' = polls w"
      "case ipc_port i of
        None \<Rightarrow> n = bare_queue_closed \<and> abs_world w' = abs_world w
      | Some port \<Rightarrow> (\<exists>q. queue w = Some q \<and> (Sent n, abs_world w') = spec_step (Write Thread_port data) (abs_queue w q))"
    using ipc_write_spec [OF ok env i, of data] st by (auto simp: polls_kept_def)
  have i': "ipcs w' ipc = Some i" using n(4) i by simp
  have wb: "ipc_status n = bare_ipc_would_block \<longleftrightarrow> n = bare_queue_would_block"
    by (auto simp: ipc_status_def queue_codes ipc_codes)
  show ?thesis
  proof (cases "ipc_port i")
    case None
    then show ?thesis
      using n wb i i' ready_closed [OF i None]
      by (intro tells_same [OF i']) (auto simp: queue_codes)
  next
    case (Some port)
    obtain q where q: "queue w = Some q" "(Sent n, abs_world w') = spec_step (Write Thread_port data) (abs_queue w q)"
      using n(7) Some by auto
    obtain q' where q': "queue w' = Some q'" using open_ipc [OF n(3) i' Some] by metis
    have sp: "spec_step (Write Thread_port data) (abs_queue w q) = (Sent n, Some (abs_queue w' q'))"
      using q(2) q' by (simp add: abs_world_def del: spec_step.simps)
    note ro = ready_open [OF ok i Some q(1)] ready_open [OF n(3) i' Some q']
    have rd: "ready_to_read w' ipc = ready_to_read w ipc"
      unfolding ro n(5) using spec_write_ready [OF sp] by simp
    have wr: "ready_to_write w' ipc \<Longrightarrow> ready_to_write w ipc \<and> n \<noteq> bare_queue_would_block"
      unfolding ro using spec_write_ready [OF sp] by simp
    show ?thesis
      by (rule tells_each [OF i' refl n(6)]) (use n(2) rd wr wb in \<open>simp_all add: poll_events\<close>)
  qed
qed

subsection \<open>Ending, closing, starting and stopping\<close>

lemma end_tells:
  assumes ok: "ipc_ok w" and env: "env_ok w" and i: "ipcs w ipc = Some i"
    and st: "ipc_step (Ipc_end ipc) w = Some (ob, w')"
  shows "tells ipc (ipc_poll i) (Ipc_end ipc) ob w w'"
proof -
  obtain v where v: "bare_ipc_end ipc w = Some v" "ipcs v = ipcs w" "polls v = polls w"
    using ipc_end_spec [OF ok env i] by (auto simp: polls_kept_def)
  then have e: "bare_ipc_end ipc w = Some w'" "ipcs w' ipc = Some i" "polls w' = polls w" using st i by auto
  show ?thesis
  proof (cases "ipc_port i")
    case None
    then show ?thesis using ready_closed [OF i None] by (intro tells_same [OF e(2) refl e(3)]) simp_all
  next
    case (Some port)
    let ?w = "emit (Mutex_lock Ipc_lock) w"
    obtain q where q: "port = Thread_port" "queue w = Some q" using open_ipc [OF ok i Some] by metis
    obtain w1 w2 where s: "bare_queue_end Thread_port ?w = Some w1" "bare_ipc__signal i w1 = Some w2"
        "w' = emit (Mutex_unlock Ipc_lock) w2"
      using e(1) i Some q(1) by (auto simp: bare_ipc_end_def bind_eq_Some_conv)
    obtain cs where "calls w1 = calls ?w @ cs"
      using step_calls_grow [of ?w q "End Thread_port" Done w1] s(1) q(2) ipc_okD(1) [OF ok] by auto
    moreover have "calls w2 = calls w1 @ [Async_send Wake_async]"
      using s(2) by (auto simp: bare_ipc__signal_def emit_ok_def bind_eq_Some_conv emit_def split: if_splits)
    ultimately show ?thesis
      using s(3) by (intro tells_sent [OF e(2) refl]) (auto simp: emit_def)
  qed
qed

lemma close_tells:
  assumes ok: "ipc_ok w" and env: "env_ok w" and i: "ipcs w ipc = Some i"
    and st: "ipc_step (Ipc_close ipc) w = Some (ob, w')"
  shows "tells ipc (ipc_poll i) (Ipc_close ipc) ob w w'"
proof -
  obtain v where v: "bare_ipc_close ipc w = Some v" "ipcs v = (ipcs w)(ipc \<mapsto> closed_ipc i)" "polls v = polls w"
    using ipc_close_spec [OF ok env i] by blast
  have e: "bare_ipc_close ipc w = Some w'" "ipcs w' ipc = Some (closed_ipc i)" "polls w' = polls w" using st v by auto
  have p: "ipc_poll (closed_ipc i) = ipc_poll i" by (simp add: closed_ipc_def)
  show ?thesis
  proof (cases "ipc_port i")
    case None
    then show ?thesis using ready_closed [OF i None] by (intro tells_same [OF e(2) p e(3)]) simp_all
  next
    case (Some port)
    let ?w = "emit (Mutex_lock Ipc_lock) w"
    obtain q where q: "port = Thread_port" "queue w = Some q" using open_ipc [OF ok i Some] by metis
    obtain w1 w2 j x w3 where s: "bare_queue_close Thread_port ?w = Some w1" "free_block (base (pending i)) w1 = Some w2"
        "bare_ipc__signal j (w2\<lparr>ipcs := x\<rparr>) = Some w3" "w' = emit (Mutex_unlock Ipc_lock) w3"
      using e(1) i Some q(1) by (auto simp: bare_ipc_close_def bind_eq_Some_conv Let_def)
    obtain cs where "calls w1 = calls ?w @ cs"
      using step_calls_grow [of ?w q "Close Thread_port" Done w1] s(1) q(2) ipc_okD(1) [OF ok] by auto
    moreover have "calls w2 = calls w1" by (rule free_block_frame [OF s(2), THEN conjunct2, THEN conjunct2, THEN conjunct2,
          THEN conjunct2, THEN conjunct2, THEN conjunct1])
    moreover have "calls w3 = calls w2 @ [Async_send Wake_async]"
      using s(3) by (auto simp: bare_ipc__signal_def emit_ok_def bind_eq_Some_conv emit_def split: if_splits)
    ultimately show ?thesis
      using s(4) by (intro tells_sent [OF e(2) p]) (auto simp: emit_def)
  qed
qed

lemma ready_polls [simp]: "is_ready (w\<lparr>polls := x\<rparr>) ipc e = is_ready w ipc e"
  by (simp add: is_ready_def ready_to_read_def ready_to_write_def inbound_def inbound_over_def pending_bytes_def payload_def
      split: option.split)

lemma start_tells:
  assumes ok: "ipc_ok w" and env: "env_ok w" and i: "ipcs w ipc = Some i" and al: "allowed w (Poll_start (ipc_poll i) evs cb)"
    and st: "ipc_step (Poll_start (ipc_poll i) evs cb) w = Some (ob, w')"
  shows "tells ipc (ipc_poll i) (Poll_start (ipc_poll i) evs cb) ob w w'"
proof -
  obtain p j where p: "polls w (ipc_poll i) = Some p" "ipcs w (poll_ipc p) = Some j"
    using al by (auto simp: allowed_def split: option.splits)
  show ?thesis
  proof (cases "evs = 0")
    case True
    then have "w' = w\<lparr>polls := (polls w)(ipc_poll i \<mapsto> p\<lparr>events := 0, poll_cb := NULL\<rparr>)\<rparr>"
      using st p by (auto simp: bare_ipc_poll_start_def bare_ipc_poll_stop_def)
    then show ?thesis using i by (intro tells_idle [where p = "p\<lparr>events := 0, poll_cb := NULL\<rparr>"]) simp_all
  next
    case False
    then have "w' = w\<lparr>polls := (polls w)(ipc_poll i \<mapsto> p\<lparr>events := evs, poll_cb := cb\<rparr>), calls := calls w @ [Async_send Wake_async]\<rparr>"
      using poll_start_spec [OF ok env p, of evs cb] st by auto
    then show ?thesis using i by (intro tells_sent [where cs = "[Async_send Wake_async]"]) simp_all
  qed
qed

lemma host_tells:
  assumes ok: "ipc_ok w" and env: "env_ok w" and i: "ipcs w ipc = Some i" "ipc_poll i = poll"
    and op: "polling_op ipc poll op" and al: "allowed w op" and st: "ipc_step op w = Some (ob, w')"
  shows "tells ipc poll op ob w w'"
proof (cases op)
  case (Poll_stop p)
  then show ?thesis
    using op st i by (auto simp: polling_op_def bare_ipc_poll_stop_def bind_eq_Some_conv intro!: tells_idle)
next
  case (Poll_set_data p data)
  then obtain x where x: "polls w poll = Some x" "w' = w\<lparr>polls := (polls w)(poll \<mapsto> x\<lparr>poll_data := data\<rparr>)\<rparr>"
    using op st by (auto simp: polling_op_def bare_ipc_poll_set_data_def bind_eq_Some_conv)
  then have "waits_for w' poll e = waits_for w poll e" for e by (simp add: waits_for_def)
  then show ?thesis using i x(2) Poll_set_data by (auto simp: tells_def)
qed (use op al st i in \<open>auto simp: polling_op_def allowed_def
      intro: read_tells [OF ok env] write_tells [OF ok env] end_tells [OF ok env] close_tells [OF ok env] start_tells [OF ok env]
      simp del: ipc_step.simps\<close>)

section \<open>What the worklet and the wakes do to it\<close>

lemma ready_emit [simp]: "is_ready (emit c w) ipc e = is_ready w ipc e" "waits_for (emit c w) poll e = waits_for w poll e"
  by (simp_all add: is_ready_def waits_for_def emit_def)

lemma ready_calls [simp]: "is_ready (w\<lparr>calls := cs\<rparr>) ipc e = is_ready w ipc e"
  "waits_for (w\<lparr>calls := cs\<rparr>) poll e = waits_for w poll e"
  by (simp_all add: is_ready_def waits_for_def)

lemma not_own_change: "actor qop = Uv_port \<Longrightarrow> \<not> releases qop \<Longrightarrow> \<not> own_change Thread_port qop"
  by (cases qop) (auto simp: own_change_def releases_def)

lemma open_attended:
  assumes "ipc_ok w" and "ipcs w ipc = Some i" and "ipc_port i = Some port" and "queue w = Some q"
  shows "attended q Thread_port"
proof -
  have "bare_queue__listening (thread_state q)" "host_end q = (on_signal_ptr, ipc)"
      "bare_queue__state q Thread_port = thread_state q"
    by (rule open_ipc [OF assms(1-3)]; use assms(4) in simp)+
  then show ?thesis by (simp add: attended_def host_end_def on_signal_ptr_def NULL_def)
qed

lemma worklet_tells:
  assumes ok: "ipc_ok w" and env: "env_ok w" and i: "ipcs w ipc = Some i"
    and al: "allowed w (Worklet qop)"
  shows "\<exists>ob w1 w2. ipc_step (Worklet qop) w = Some (ob, w1) \<and> signalled_after w w1 = Some w2 \<and> ipc_ok w2 \<and> env_ok w2
    \<and> ipcs w2 = ipcs w \<and> polls w2 = polls w \<and> ipc_world.more w2 = ipc_world.more w
    \<and> (newly_called (Async_send Wake_async) w w2 \<or> (\<forall>e. is_ready w2 ipc e \<longrightarrow> is_ready w ipc e))"
proof -
  obtain q where q: "queue w = Some q" "actor qop = Uv_port" "\<not> releases qop" using al by (auto simp: allowed_def)
  obtain ob w1 where s: "ipc_step (Worklet qop) w = Some (ob, w1)" "ipc_ok w1" "env_ok w1"
    using ipc_step_total [OF ok env al] by blast
  obtain qob where qs: "queue_step qop w = Some (qob, w1)" using s(1) by auto
  note w = ipc_okD(1) [OF ok]
  have same: "ipcs w1 = ipcs w" "polls w1 = polls w" using step_same_host [OF w q(1) qs] by (simp_all add: same_host_def)
  have rest: "ipc_world.more w1 = ipc_world.more w" by (rule rest_of_ipc [OF step_rest [OF w q(1) qs]])
  obtain cs where cs: "calls w1 = calls w @ cs" using step_calls_grow [OF w q(1) qs] by blast
  let ?call = "newly_called (wake_call q Thread_port) w w1 \<and> allowed w1 Signalled"
  let ?w2 = "if ?call then emit (Async_send Wake_async) w1 else w1"
  have "bare_ipc__on_signal Thread_port w1 = Some (emit (Async_send Wake_async) w1)" if ?call
    using that on_signal_spec [OF s(2,3)] by (auto simp: allowed_def split: option.splits)
  then have "signalled_after w w1 = Some ?w2" using q(1) by (simp add: signalled_after_def)
  moreover have "ipc_ok ?w2 \<and> env_ok ?w2 \<and> ipcs ?w2 = ipcs w \<and> polls ?w2 = polls w \<and> ipc_world.more ?w2 = ipc_world.more w"
    using s(2,3) same rest by simp
  moreover have "newly_called (Async_send Wake_async) w ?w2" if ?call
    using that cs by (simp add: newly_called_def emit_def)
  moreover have "is_ready w ipc e" if no: "\<not> ?call" and r: "is_ready ?w2 ipc e" for e
  proof (cases "ipc_port i")
    case None
    then show ?thesis by (rule ready_closed [OF i])
  next
    case (Some port)
    have i1: "ipcs w1 ipc = Some i" using same(1) i by simp
    obtain q1 where q1: "queue w1 = Some q1" "bare_queue__listening (bare_queue__state q1 Thread_port)"
      using open_ipc [OF s(2) i1 Some] by metis
    note at = open_attended [OF ok i Some q(1)]
    have "\<not> turns (abs_queue w q) (abs_queue w1 q1) Thread_port"
      using step_turns [OF w q(1) qs q1(1) not_own_change [OF q(2,3)] at] no cs q1
      by (auto simp: newly_called_def allowed_def)
    moreover have "pending_ok w i" using ipc_okD(4) [OF ok i] by (simp add: ipc_good_def)
    then have "pending_bytes w1 i = pending_bytes w i"
      using step_pending_bytes [OF w q(1) qs] uv_keeps_host [OF q(2,3)] by blast
    ultimately show ?thesis
      using r no ready_open [OF ok i Some q(1)] ready_open [OF s(2) i1 Some q1(1)]
      by (auto simp: is_ready_def turns_def simp del: abs_waiting abs_phase split: if_splits)
  qed
  ultimately show ?thesis using s(1) by blast
qed

lemma polling_fields [simp]:
  "ipc_ok (w\<lparr>wake_state := s\<rparr>) = ipc_ok w" "ipc_ok (w\<lparr>heard := h\<rparr>) = ipc_ok w"
  "env_ok (w\<lparr>wake_state := s\<rparr>) = env_ok w" "env_ok (w\<lparr>heard := h\<rparr>) = env_ok w"
  "is_ready (w\<lparr>wake_state := s\<rparr>) ipc e = is_ready w ipc e" "is_ready (w\<lparr>heard := h\<rparr>) ipc e = is_ready w ipc e"
  "waits_for (w\<lparr>wake_state := s\<rparr>) poll e = waits_for w poll e" "waits_for (w\<lparr>heard := h\<rparr>) poll e = waits_for w poll e"
  "newly_called c v (w\<lparr>wake_state := s\<rparr>) = newly_called c v w" "newly_called c v (w\<lparr>heard := h\<rparr>) = newly_called c v w"
proof -
  have g: "ipc_good (w\<lparr>wake_state := s\<rparr>) = ipc_good w" "ipc_good (w\<lparr>heard := h\<rparr>) = ipc_good w" for w s h
    by (simp_all add: ipc_good_def ipc_parts live_message_def owned_def fun_eq_iff split: option.split)
  have o: "world_ok (w\<lparr>wake_state := s\<rparr>) = world_ok w" "world_ok (w\<lparr>heard := h\<rparr>) = world_ok w" for w s h
    by (simp_all add: world_ok_def heap_ok_def queue_ok_def live_message_def)
  show "ipc_ok (w\<lparr>wake_state := s\<rparr>) = ipc_ok w" "ipc_ok (w\<lparr>heard := h\<rparr>) = ipc_ok w"
    by (simp_all add: ipc_ok_def addresses_ok_def served_def g o)
  have p: "payload (w\<lparr>wake_state := s\<rparr>) = payload w" "payload (w\<lparr>heard := h\<rparr>) = payload w"
    by (simp_all add: payload_def fun_eq_iff)
  then have a: "abs_queue (w\<lparr>wake_state := s\<rparr>) = abs_queue w" "abs_queue (w\<lparr>heard := h\<rparr>) = abs_queue w"
    by (simp_all add: abs_queue_def fun_eq_iff)
  show "is_ready (w\<lparr>wake_state := s\<rparr>) ipc e = is_ready w ipc e" "is_ready (w\<lparr>heard := h\<rparr>) ipc e = is_ready w ipc e"
    by (simp_all add: is_ready_def ready_to_read_def ready_to_write_def inbound_def inbound_over_def
        pending_bytes_def p a split: option.split)
qed (simp_all add: env_ok_def waits_for_def newly_called_def)

section \<open>The invariant\<close>

definition polling_ok :: "ptr \<Rightarrow> ptr \<Rightarrow> polling \<Rightarrow> bool" where
  "polling_ok ipc poll w \<longleftrightarrow> ipc_ok w \<and> env_ok w \<and> poll \<noteq> NULL
     \<and> (\<exists>i. ipcs w ipc = Some i \<and> ipc_poll i = poll) \<and> wake_phase (wake_state w) = Alive
     \<and> (\<forall>e. e = bare_ipc_readable \<or> e = bare_ipc_writable \<longrightarrow> waits_for w poll e \<longrightarrow> is_ready w ipc e \<longrightarrow>
         due (wake_state w) \<or> heard w AND e \<noteq> 0)"

lemma polling_more: "ipc_world.more w' = ipc_world.more w \<Longrightarrow> wake_state w' = wake_state w \<and> heard w' = heard w"
  for w w' :: polling
  by (cases w; cases w') simp

lemma send_wakes_eq:
  assumes "wake_phase (wake_state w') = Alive"
  shows "send_wakes w w' = Some (if newly_called (Async_send Wake_async) w w'
    then w'\<lparr>wake_state := (wake_state w')\<lparr>due := True\<rparr>\<rparr> else w')"
  using assms by (simp add: send_wakes_def)

lemma sent_ok:
  assumes "ipc_ok w'" and "env_ok w'" and "poll \<noteq> NULL" and "ipcs w' ipc = Some j" "ipc_poll j = poll"
    and "wake_phase (wake_state w') = Alive"
    and "\<And>e. e = bare_ipc_readable \<or> e = bare_ipc_writable \<Longrightarrow> waits_for w' poll e \<Longrightarrow> is_ready w' ipc e \<Longrightarrow>
      newly_called (Async_send Wake_async) w w' \<or> due (wake_state w') \<or> heard w' AND e \<noteq> 0"
  shows "\<exists>v. send_wakes w w' = Some v \<and> polling_ok ipc poll v"
  unfolding send_wakes_eq [OF assms(6)] using assms by (auto simp: polling_ok_def)

lemma host_does_ok:
  assumes inv: "polling_ok ipc poll w" and op: "polling_op ipc poll op" and al: "allowed w op"
  shows "\<exists>w'. polling_step ipc (Host_does op) w = Some w' \<and> polling_ok ipc poll w'"
proof -
  obtain i where i: "ipc_ok w" "env_ok w" "ipcs w ipc = Some i" "ipc_poll i = poll" using inv by (auto simp: polling_ok_def)
  obtain ob w1 where s: "ipc_step op w = Some (ob, w1)" "ipc_ok w1" "env_ok w1"
    using ipc_step_total [OF i(1,2) al] by blast
  have "by_host op" using op by (cases op) (simp_all add: polling_op_def by_host_def)
  then have m: "wake_state w1 = wake_state w"
    using ipc_step_host_only [OF i(1) s(1)] polling_more [of w1 w] by (simp add: host_only_def)
  have t: "tells ipc poll op ob w w1" by (rule host_tells [OF i op al s(1)])
  then obtain j where j: "ipcs w1 ipc = Some j" "ipc_poll j = poll" by (auto simp: tells_def)
  let ?w1 = "w1\<lparr>heard := heard_after op ob (heard w)\<rparr>"
  have "\<exists>v. send_wakes w ?w1 = Some v \<and> polling_ok ipc poll v"
  proof (rule sent_ok [where j = j])
    show "newly_called (Async_send Wake_async) w ?w1 \<or> due (wake_state ?w1) \<or> heard ?w1 AND e \<noteq> 0"
      if "e = bare_ipc_readable \<or> e = bare_ipc_writable" "waits_for ?w1 poll e" "is_ready ?w1 ipc e" for e
      using t that inv m unfolding tells_def polling_ok_def by simp metis
  qed (use inv s j m in \<open>simp_all add: polling_ok_def\<close>)
  then show ?thesis using s(1) by simp
qed

lemma worklet_does_ok:
  assumes inv: "polling_ok ipc poll w" and al: "allowed w (Worklet qop)"
  shows "\<exists>w'. polling_step ipc (Worklet_does qop) w = Some w' \<and> polling_ok ipc poll w'"
proof -
  obtain i where i: "ipc_ok w" "env_ok w" "ipcs w ipc = Some i" "ipc_poll i = poll" using inv by (auto simp: polling_ok_def)
  obtain ob w1 w2 where s: "ipc_step (Worklet qop) w = Some (ob, w1)" "signalled_after w w1 = Some w2" "ipc_ok w2" "env_ok w2"
      "ipcs w2 = ipcs w" "polls w2 = polls w" "ipc_world.more w2 = ipc_world.more w"
      "newly_called (Async_send Wake_async) w w2 \<or> (\<forall>e. is_ready w2 ipc e \<longrightarrow> is_ready w ipc e)"
    using worklet_tells [OF i(1-3) al] by blast
  have m: "wake_state w2 = wake_state w" "heard w2 = heard w" using polling_more [OF s(7)] by simp_all
  have wf: "waits_for w2 poll e = waits_for w poll e" for e using s(6) by (simp add: waits_for_def)
  have "\<exists>v. send_wakes w w2 = Some v \<and> polling_ok ipc poll v"
  proof (rule sent_ok [where j = i])
    show "newly_called (Async_send Wake_async) w w2 \<or> due (wake_state w2) \<or> heard w2 AND e \<noteq> 0"
      if "e = bare_ipc_readable \<or> e = bare_ipc_writable" "waits_for w2 poll e" "is_ready w2 ipc e" for e
      using s(8) that inv m wf by (auto simp: polling_ok_def)
  qed (use inv s(3-5) i(3,4) m in \<open>simp_all add: polling_ok_def\<close>)
  then show ?thesis using s(1,2) by (simp del: ipc_step.simps)
qed

text \<open>After a wake the host has heard of all that is ready.\<close>

lemma wake_comes_ok:
  assumes inv: "polling_ok ipc poll w" and may: "wake_do Call (wake_state w) = Some s"
  shows "\<exists>w'. polling_step ipc Wake_comes w = Some w' \<and> polling_ok ipc poll w'
    \<and> (\<forall>e. e = bare_ipc_readable \<or> e = bare_ipc_writable \<longrightarrow> waits_for w poll e \<longrightarrow> is_ready w ipc e \<longrightarrow> heard w' AND e \<noteq> 0)"
proof -
  let ?w = "w\<lparr>wake_state := s\<rparr>" and ?host = "\<lambda>cb poll ready w. Some (w\<lparr>heard := ready\<rparr>)"
  obtain i where i: "ipc_ok ?w" "ipcs ?w ipc = Some i" "ipc_poll i = poll" "poll \<noteq> NULL" using inv by (auto simp: polling_ok_def)
  obtain p where p: "polls ?w (ipc_poll i) = Some p"
    using ipc_okD(4) [OF i(1,2)] i(3,4) by (auto simp: ipc_good_def poll_ok_def)
  have alive: "wake_phase s = Alive" using may by auto
  show ?thesis
  proof (cases "poll_cb p = NULL")
    case True
    then have "bare_ipc__dispatch ?host ipc ?w = Some ?w" using i p by (simp add: bare_ipc__dispatch_def)
    moreover have "\<not> waits_for w poll e" for e using True p i(3) by (simp add: waits_for_def)
    ultimately show ?thesis using inv may alive by (auto simp: polling_ok_def)
  next
    case False
    let ?ready = "masked (events p) (ready_to_read w ipc) (ready_to_write w ipc)"
    have r: "ready_to_read ?w ipc = ready_to_read w ipc" "ready_to_write ?w ipc = ready_to_write w ipc"
      using polling_fields(5) [of s w ipc bare_ipc_readable] polling_fields(5) [of s w ipc bare_ipc_writable] poll_events(1)
      by (simp_all add: is_ready_def)
    obtain cs where d0: "bare_ipc__dispatch ?host ipc ?w =
        (let w' = ?w\<lparr>calls := cs @ [Mutex_unlock Ipc_lock]\<rparr>
         in if ?ready \<noteq> 0 then Some (w'\<lparr>heard := ?ready\<rparr>) else Some w')"
      using dispatch_eq [OF i(1,2) p _ False, of ?host] i(3,4) unfolding r by (auto simp: Let_def)
    let ?v = "let w' = ?w\<lparr>calls := cs @ [Mutex_unlock Ipc_lock]\<rparr> in if ?ready \<noteq> 0 then w'\<lparr>heard := ?ready\<rparr> else w'"
    have d: "bare_ipc__dispatch ?host ipc ?w = Some ?v" unfolding d0 by (simp add: Let_def)
    have told: "heard ?v AND e \<noteq> 0"
      if "e = bare_ipc_readable \<or> e = bare_ipc_writable" "waits_for w poll e" "is_ready w ipc e" for e
    proof -
      have "?ready AND e \<noteq> 0"
        using that p i(3) masked_bits(1,2) [of "events p" "ready_to_read w ipc" "ready_to_write w ipc"] poll_events(1)
        by (auto simp: waits_for_def is_ready_def)
      moreover from this have "?ready \<noteq> 0" by auto
      ultimately show ?thesis by (simp add: Let_def)
    qed
    have "polling_ok ipc poll ?v"
    proof -
      have "ipc_ok ?v" "env_ok ?v" "ipcs ?v = ipcs w" "wake_state ?v = s"
        using i(1) inv by (simp_all add: Let_def polling_ok_def)
      moreover have "is_ready ?v ipc e = is_ready w ipc e" "waits_for ?v poll e = waits_for w poll e" for e
        by (simp_all add: Let_def)
      ultimately show ?thesis using inv alive told unfolding polling_ok_def by simp
    qed
    then show ?thesis using d may told by (simp add: Let_def)
  qed
qed


lemma polling_step_ok:
  assumes "polling_ok ipc poll w" and "polling_may ipc poll e w"
  shows "\<exists>w'. polling_step ipc e w = Some w' \<and> polling_ok ipc poll w'"
proof (cases e)
  case (Host_does op)
  then show ?thesis using host_does_ok [OF assms(1), of op] assms(2) by (simp add: polling_may_def)
next
  case (Worklet_does qop)
  then show ?thesis using worklet_does_ok [OF assms(1), of qop] assms(2) by (simp add: polling_may_def)
next
  case Wake_comes
  then obtain s where "wake_do Call (wake_state w) = Some s" using assms(2) by (auto simp: polling_may_def)
  then show ?thesis using wake_comes_ok [OF assms(1)] Wake_comes by blast
next
  case Callback_returns
  then show ?thesis using assms by (auto simp: polling_may_def polling_ok_def)
qed

section \<open>No sleep on what is ready\<close>

text \<open>An ipc with a poll that was not started yet.\<close>

definition poll_fresh :: "ptr \<Rightarrow> ptr \<Rightarrow> polling \<Rightarrow> bool" where
  "poll_fresh ipc poll w \<longleftrightarrow> ipc_ok w \<and> env_ok w \<and> poll \<noteq> NULL
     \<and> (\<exists>i. ipcs w ipc = Some i \<and> ipc_poll i = poll)
     \<and> (\<exists>p. polls w poll = Some p \<and> poll_cb p = NULL) \<and> wake_phase (wake_state w) = Alive"

lemma polled_ok:
  assumes "poll_fresh ipc poll w" and "polled ipc poll w v"
  shows "polling_ok ipc poll v"
  using assms(2)
proof induction
  case polled_first
  then show ?case using assms(1) by (auto simp: poll_fresh_def polling_ok_def waits_for_def)
next
  case (polled_next v e v')
  then show ?case using polling_step_ok [of ipc poll v e] by auto
qed

text \<open>
  C2: A poll never sleeps on what is ready. Whatever host, worklet and wakes do from the creation of
  a poll on, in any order and with the callback running for as long as it likes: if the poll
  waits for an event and a read (or a write of a byte) would not block, then a wake is due, which,
  once no callback runs, does call the poll back with the event; unless the host has been called
  back with it and has not used it up since, or has read the end of the stream. No operation
  faults on the way.
\<close>

theorem poll_never_sleeps:
  assumes "poll_fresh ipc poll w" and "polled ipc poll w v"
    and "e = bare_ipc_readable \<and> bare_ipc_read ipc 1 v = Some ((r, bs), v1) \<and> r \<noteq> bare_ipc_would_block
      \<or> e = bare_ipc_writable \<and> bare_ipc_write ipc [0] v = Some (r, v1) \<and> r \<noteq> bare_ipc_would_block"
    and "waits_for v poll e" and "heard v AND e = 0"
  shows "due (wake_state v)
    \<and> (calling (wake_state v) = None \<longrightarrow> (\<exists>v'. polling_step ipc Wake_comes v = Some v' \<and> heard v' AND e \<noteq> 0))
    \<and> (\<forall>f. polling_may ipc poll f v \<longrightarrow> polling_step ipc f v \<noteq> None)"
proof -
  have inv: "polling_ok ipc poll v" by (rule polled_ok [OF assms(1,2)])
  then obtain i where i: "ipc_ok v" "env_ok v" "ipcs v ipc = Some i" by (auto simp: polling_ok_def)
  have ev: "e = bare_ipc_readable \<or> e = bare_ipc_writable" using assms(3) by blast
  have ready: "is_ready v ipc e"
    using assms(3) read_ready [OF i, of 1 r bs v1] write_ready [OF i, of "[0]" r v1] poll_events(1)
    by (auto simp: is_ready_def)
  have due: "due (wake_state v)" using inv ev assms(4,5) ready by (auto simp: polling_ok_def)
  have "\<exists>v'. polling_step ipc Wake_comes v = Some v' \<and> heard v' AND e \<noteq> 0"
    if idle: "calling (wake_state v) = None"
  proof -
    obtain s where "wake_do Call (wake_state v) = Some s" using inv idle due by (auto simp: polling_ok_def)
    then show ?thesis using wake_comes_ok [OF inv] ev assms(4) ready by blast
  qed
  then show ?thesis using due polling_step_ok [OF inv] by auto
qed


text \<open>The ipc of the examples, with a poll that was just created, and what starting it comes to.\<close>

definition polled_world :: polling where
  "polled_world = \<lparr>blocks = Map.empty, brk = 5, oom = (\<lambda>_. False), junk = (\<lambda>_ _. 0), calls = [],
     ret = (\<lambda>_. 0), queue = Some attached_queue, ipcs = [2 \<mapsto> attached_ipc],
     polls = [4 \<mapsto> \<lparr>poll_ipc = 2, events = 0, poll_cb = NULL, poll_data = NULL\<rparr>],
     signals = [3 \<mapsto> \<lparr>signal_ipc = 2, detached = False\<rparr>], self = NULL, wake_state = new_wakes, heard = 0\<rparr>"

lemma polled_world_fresh: "poll_fresh 2 4 polled_world"
proof -
  have "world_ok polled_world"
    by (simp add: polled_world_def world_ok_def heap_ok_def attached_queue_ok)
  moreover have "ipc_good polled_world 2 attached_ipc"
    by (simp add: polled_world_def ipc_good_def ipc_parts attached_ipc_def NULL_def attached_queue_def
        bare_queue__listening_def host_end_def)
  ultimately have "ipc_ok polled_world"
    by (simp add: ipc_ok_def addresses_ok_def served_def polled_world_def)
      (auto simp: attached_queue_def attached_ipc_def NULL_def split: if_splits)
  moreover have "env_ok polled_world" by (simp add: env_ok_def polled_world_def)
  ultimately show ?thesis
    by (simp add: poll_fresh_def) (simp add: polled_world_def attached_ipc_def NULL_def new_wakes_def)
qed

theorem poll_never_sleeps_witness:
  "\<exists>v v'. polled 2 4 polled_world v \<and> due (wake_state v)
    \<and> polling_step 2 Wake_comes v = Some v' \<and> heard v' AND bare_ipc_writable \<noteq> 0"
proof -
  let ?op = "Poll_start 4 bare_ipc_writable 9"
  have p: "polls polled_world 4 = Some \<lparr>poll_ipc = 2, events = 0, poll_cb = NULL, poll_data = NULL\<rparr>"
    and i: "ipcs polled_world 2 = Some attached_ipc" by (simp_all add: polled_world_def)
  have ok: "ipc_ok polled_world" "env_ok polled_world" using polled_world_fresh by (simp_all add: poll_fresh_def)
  have may: "polling_may 2 4 (Host_does ?op) polled_world"
    using p i by (simp add: polling_may_def polling_op_def allowed_def)
  have inv: "polling_ok 2 4 polled_world" by (rule polled_ok [OF polled_world_fresh polled_first])
  obtain v where v: "polling_step 2 (Host_does ?op) polled_world = Some v" "polling_ok 2 4 v"
    using polling_step_ok [OF inv may] by blast
  obtain w1 where w1: "bare_ipc_poll_start 4 bare_ipc_writable 9 polled_world = Some (0, w1)"
      "w1 = polled_world\<lparr>polls := (polls polled_world)(4 \<mapsto> \<lparr>poll_ipc = 2, events = bare_ipc_writable, poll_cb = 9, poll_data = NULL\<rparr>),
        calls := calls polled_world @ [Async_send Wake_async]\<rparr>"
    using poll_start_spec [OF ok p, of attached_ipc bare_ipc_writable 9] i poll_events(3) by auto
  have sw: "send_wakes polled_world (w1\<lparr>heard := 0\<rparr>) = Some v" using v(1) w1(1) by simp
  have al: "wake_phase (wake_state (w1\<lparr>heard := 0\<rparr>)) = Alive" by (simp add: w1(2) polled_world_def new_wakes_def)
  have e: "v = w1\<lparr>heard := 0, wake_state := (wake_state w1)\<lparr>due := True\<rparr>\<rparr>"
    using sw unfolding send_wakes_eq [OF al] by (simp add: newly_called_def w1(2))
  have x: "heard v AND bare_ipc_writable = 0" "waits_for v 4 bare_ipc_writable" "calling (wake_state v) = None"
      "ipcs v 2 = Some attached_ipc" "queue v = Some attached_queue"
    by (simp_all add: e w1(2) waits_for_def poll_events NULL_def) (simp_all add: polled_world_def new_wakes_def)
  have okv: "ipc_ok v" "env_ok v" using v(2) by (simp_all add: polling_ok_def)
  obtain r v1 where wr: "bare_ipc_write 2 [0] v = Some (r, v1)" using ipc_write_spec [OF okv x(4)] by blast
  have "ready_to_write v 2"
    using x(4,5) attached_waiting(1) [of v Uv_port] by (simp add: ready_to_write_def can_write_def depth_def capacity)
  then have "r \<noteq> bare_ipc_would_block" using write_ready [OF okv x(4) _ wr] by simp
  moreover have run: "polled 2 4 polled_world v" by (rule polled_next [OF polled_first may v(1)])
  ultimately show ?thesis
    using poll_never_sleeps [OF polled_world_fresh run _ x(2,1), where bs = "[]"] wr x(3) by blast
qed

end
