(* ===== verification/Spec2Isabelle.thy ===== *)
theory Spec2Isabelle
  imports Worklet_Android Wakes_Standalone Wakes_Apple Worklet_Start Stream_Wakeup Bundle_Start
    Ipc_Polling
begin

text \<open>
  Bare Kit: worklets, isolated JavaScript programs on threads of their own, embedded in a host
  application, each with a stream of bytes between the host and the script.

  THE PROGRAM. A host creates a worklet, starts it, suspends, resumes and wakes it up, and
  destroys it (\<open>src/worklet.c\<close>). Starting creates a thread that sets up Bare, loads a bundle
  and runs the script. Host and script talk through a queue (\<open>src/queue.c\<close>): two rings of
  messages with a lock, each end woken by the other. The script uses its end through the five
  functions of an object \<open>native\<close>. The host uses its end through an ipc (\<open>src/ipc.c\<close>), which makes
  the messages a stream and calls polls back, on a thread of its own
  (\<open>src/standalone/ipc.c\<close>) or, on Apple, on a dispatch queue (\<open>src/apple/ipc.m\<close>). What the
  script has of it all is in \<open>src/worklet.js\<close>. What depends on the platform is behind \<open>src/platform.h\<close>,
  \<open>src/suspension.h\<close>, \<open>src/resources.h\<close> and \<open>src/symbols.h\<close>.

  THE WORLD. Every operation takes the state and returns it changed, in the option monad:
  \<open>None\<close> is a fault (a use of something that is not there or is gone, a failed assertion, a
  null pointer written through). The state is a record that grows with the layers:
  \<open>machine\<close> (blocks of bytes, the call log, what the environment returns), \<open>qworld\<close> (a queue),
  \<open>ipc_world\<close> (ipcs, signals, polls), \<open>wworld\<close> (a worklet and the globals of
  \<open>src/worklet.c\<close>, with the platform's state in a type parameter), so that an operation of a
  lower layer runs in every higher one. Structs are records, absent ones are \<open>None\<close>. Calls of
  libuv, Bare, js and the system are not under \<open>src/\<close>: they are logged in \<open>calls\<close> in their
  order with their arguments, and their results are read from \<open>ret\<close> and \<open>oom\<close>, over which the
  theorems quantify. \<open>env_ok\<close> says that they succeed; where the code checks a result, a
  theorem covers its failure. Definitions keep the names of the C functions; a function with a
  wait or an unlocked stretch inside is cut there into parts, which it is the composition of.

  THE THEORIES.
  \<^item> \<open>Prelude\<close>: C's integers, assertions, generic facts. \<open>Machine\<close>: the C library and the log.
  \<^item> \<open>Ring\<close>: the ring of one direction with its 32-bit indices, as a \<open>bounded_fifo\<close>.
  \<^item> \<open>Queue\<close>: every operation of \<open>src/queue.c\<close>. \<open>Queue_Inv\<close>: its invariant and what each
    operation comes to. \<open>Queue_Spec\<close>: the abstract channel, two lists and two phases, and the
    simulation. \<open>Queue_Props\<close>, \<open>Queue_Ownership\<close>, \<open>Queue_Life\<close>, \<open>Queue_Wakeup\<close>: order and
    completeness, who owns which block, when the queue is freed, wake-ups. \<open>Queue_Threads\<close>: two
    threads whose critical sections interleave, with the freeing outside of the lock.
    \<open>Queue_Theorems\<close>, \<open>Queue_Results\<close>: the properties, and the codes that are returned.
  \<^item> \<open>Ipc_Signal\<close>, \<open>Ipc\<close>: the data and every operation of the ipc. \<open>Ipc_Inv\<close>, \<open>Ipc_Stream\<close>,
    \<open>Ipc_Ops\<close>: the invariant, reading as a \<open>byte_stream\<close>, and all operations.
    \<open>Ipc_Theorems\<close>, \<open>Ipc_Results\<close>, \<open>Ipc_Dispatch\<close>, \<open>Ipc_Create\<close>: the properties.
    \<open>Ipc_Thread\<close>: the loop of the signal's thread and a callback that may do anything an ipc
    offers (\<open>poll_host\<close>). \<open>Ipc_Frame\<close>, \<open>Ipc_Share\<close>: what host and worklet leave to each other.
  \<^item> \<open>Worklet_Data\<close>: the structs and globals of a worklet. \<open>Platform\<close>: the interface
    \<open>platform_ops\<close>, the laws of it that a worklet needs (locale \<open>worklet_platform\<close>), the default
    choice and that of Unix. \<open>Platform_Apple\<close>: resources on macOS; background tasks on iOS, with
    expiration handlers that run within its operations too, and the time left as a double.
    \<open>Jvm\<close>: threads, exceptions, local and global references of a Java virtual machine.
    \<open>Platform_Android\<close>, \<open>Resources_Android\<close>: every function of \<open>src/android/\<close> over it. All of
    them interpret the locale; the laws leave it to the platform what it keeps between a
    worklet's calls (ready, offered, held, initialised).
  \<^item> \<open>Worklet\<close>: what the host calls. \<open>Worklet_Thread\<close>: what the thread of the worklet and that
    of the JavaScript platform run. \<open>Worklet_Life\<close>: creating and destroying on every branch, and
    when the teardown of the process returns. \<open>Worklet_Control\<close>: suspending and resuming.
    \<open>Worklet_Js\<close>: the functions of \<open>native\<close>, their types and round trips.
  \<^item> \<open>Worklet_Cycle\<close>: all of it at once, as events of the host, the thread, JavaScript, the
    other worklets of the process and its teardown; \<open>may\<close> says when one can come, \<open>cycle_inv\<close> is
    the invariant. \<open>Worklet_Cycle_Inv\<close>, \<open>Worklet_Cycle_Thread\<close>: each event keeps it, on any
    platform that meets the laws. \<open>Worklet_Safety\<close>: no fault, what holds at the exit, at the
    teardown, and after the end. \<open>Worklet_Start\<close>: \<open>bare_worklet_start\<close> with the thread on the
    other side of the barrier, on every branch. \<open>Worklet_Progress\<close>: there is always a way to the end.
    \<open>Worklet_Android\<close>: all of this on Android, and what it says of the virtual machine.
  \<^item> \<open>Ipc_Wakes\<close>: what \<open>src/ipc.h\<close> promises of wakes, as a specification with the locale
    \<open>wakes_provider\<close>. \<open>Wakes_Standalone\<close>, \<open>Wakes_Apple\<close>: the two implementations, by steps of
    threads, handles and blocks that interleave; each refines the specification.
  \<^item> \<open>Ipc_Polling\<close>: a poll over queue, ipc, dispatch and wakes together, with host and worklet in any
    order: it is called back while something is ready that the host has not heard of.
  \<^item> \<open>Worklet_Stream\<close>: the stream of the script, the class \<open>IPCStream\<close>, over \<open>native\<close> and against
    the host: nothing is lost. \<open>Stream_Wakeup\<close>: unless it was signalled since, it sleeps only when
    there is nothing for it to do. \<open>Bundle_Extract\<close>: the extraction of resources by worklets at
    once, on a file system with directories that may fail. \<open>Bundle_Start\<close>: \<open>start\<close>, up to
    the script that is loaded.

  BOUNDS. A ring holds 1023 messages: one of its 1024 slots stays free. A message has at most
  \<open>INT_MAX\<close> bytes; longer writes are cut. Ring indices are 32-bit words, masked. There is no
  fuel: the loops recurse on what they consume; the wait for the barrier is given what the other
  side does, and the wait for the condition variable the turns of the other threads, over which
  \<open>worklet_teardown_returns\<close> says when it returns; and the way to a worklet's end has at most 16 events, as host and thread pass through
  at most that many places.

  ASSUMPTIONS. Between its lock and unlock an operation runs alone, as the locks see to. The
  host keeps to the interface: it frees nothing that it still uses, and uses a worklet up to
  \<open>bare_worklet_destroy\<close> only. For the whole life of a worklet (\<open>Worklet_Cycle\<close> and
  after) the calls of the environment succeed and memory is there; failures of creating and
  starting are in \<open>Worklet_Life\<close> and \<open>Ipc_Create\<close>, a failed allocation in a write in
  \<open>Queue_Results\<close>. JavaScript's collecting of buffers is in \<open>Worklet_Js\<close> only.
  Of files (\<open>file_system_laws\<close>): a directory that is made exists and changes no file, a file
  that is written and moved has its bytes at the new name, and names that paths tell apart are
  different files. Of iOS (\<open>ios_ready\<close>): identifiers of tasks are not reused, the handler of a
  task runs once its identifier was given, the time left in milliseconds is an \<open>int\<close> in the
  background, and rounding is monotone and keeps whole numbers.

  NOT MODELLED. Build files and tests. What is not under \<open>src/\<close> is a parameter: libuv, Bare, js and
  the systems; for \<open>src/worklet.js\<close> the streams' base class, paths, the file system, URLs and the
  loader of modules. The body of a script is any order of calls of \<open>native\<close>, in \<open>Worklet_Stream\<close> those
  that the stream makes.

  FINDINGS. An ipc can be created on a worklet that was terminated, and a poll for writability is
  not called again while an ipc stays writable, both against the comments
  (\<open>ipc_create_after_termination\<close>, \<open>ipc_write_no_wake\<close>). A write without memory copies through
  a null pointer (\<open>write_without_memory_faults\<close>), and so does reading a resource on Android
  (\<open>android_read_without_memory_faults\<close>). A chunk longer than \<open>INT_MAX\<close> that the script writes
  stalls (\<open>stream_long_chunk_stalls\<close>). On iOS a task that expires before its identifier is in
  place is held and ended once more (\<open>early_expiry_held\<close>). On Apple a callback that destroys its ipc and makes another
  one at the same address is taken for a callback of the new one; the model has one ipc only.
\<close>

end
